(* ===== verification/RayNu_Prelude.thy ===== *)
theory RayNu_Prelude
  imports Main "HOL-Library.Word"
begin

text \<open>
  Shared vocabulary of the development.  The Rust integer types are machine words;
  \<open>usize\<close> is 64 bits wide because the hypervisor only targets \<open>x86_64\<close>.  Plain
  \<open>+\<close>, \<open>-\<close> and \<open>*\<close> on words wrap, which is what the release build of the source does.
  The theory holds the arithmetic helpers of \<open>core\<close> the source calls
  (\<open>checked_add\<close>, \<open>saturating_add\<close>, \<open>div_ceil\<close>), the little-endian
  byte codec behind \<open>to_le_bytes\<close> and \<open>from_le_bytes\<close>, the slice update behind
  \<open>copy_from_slice\<close>, and the laws of fixed tables of optional slots
  (\<open>[Option<T>; N]\<close>), which several components use as their only container.
\<close>

unbundle bit_operations_syntax

type_synonym u8 = "8 word"
type_synonym u16 = "16 word"
type_synonym u32 = "32 word"
type_synonym u64 = "64 word"
type_synonym usize = "64 word"

named_theorems word_nat_simps "transfer of word arithmetic to natural numbers"
named_theorems slot_simps "laws of fixed tables of optional slots"

section \<open>Arithmetic helpers of the Rust core library\<close>

definition checked_add :: "'a::len word \<Rightarrow> 'a word \<Rightarrow> 'a word option" where
  "checked_add x y = (if unat x + unat y < 2 ^ LENGTH('a) then Some (x + y) else None)"

definition saturating_add :: "'a::len word \<Rightarrow> 'a word \<Rightarrow> 'a word" where
  "saturating_add x y = (if unat x + unat y < 2 ^ LENGTH('a) then x + y else - 1)"

definition saturating_sub :: "'a::len word \<Rightarrow> 'a word \<Rightarrow> 'a word" where
  "saturating_sub x y = (if y \<le> x then x - y else 0)"

definition checked_mul :: "'a::len word \<Rightarrow> 'a word \<Rightarrow> 'a word option" where
  "checked_mul x y = (if unat x * unat y < 2 ^ LENGTH('a) then Some (x * y) else None)"

definition saturating_mul :: "'a::len word \<Rightarrow> 'a word \<Rightarrow> 'a word" where
  "saturating_mul x y = (if unat x * unat y < 2 ^ LENGTH('a) then x * y else - 1)"

definition div_ceil :: "'a::len word \<Rightarrow> 'a word \<Rightarrow> 'a word" where
  "div_ceil x y = (if x mod y = 0 then x div y else x div y + 1)"

definition is_power_of_two :: "'a::len word \<Rightarrow> bool" where
  "is_power_of_two x \<longleftrightarrow> x \<noteq> 0 \<and> x AND (x - 1) = 0"

lemma unat_add_small [word_nat_simps]:
  fixes x y :: "'a::len word"
  assumes "unat x + unat y < 2 ^ LENGTH('a)"
  shows "unat (x + y) = unat x + unat y"
  using assms by (simp add: unat_word_ariths)

lemma unat_mult_small [word_nat_simps]:
  fixes x y :: "'a::len word"
  assumes "unat x * unat y < 2 ^ LENGTH('a)"
  shows "unat (x * y) = unat x * unat y"
  using assms by (simp add: unat_word_ariths)

lemma unat_sub_le [word_nat_simps]:
  fixes x y :: "'a::len word"
  assumes "y \<le> x"
  shows "unat (x - y) = unat x - unat y"
  using assms by (rule unat_sub)

lemma unat_of_nat_small [word_nat_simps]:
  assumes "n < 2 ^ LENGTH('a::len)"
  shows "unat (of_nat n :: 'a word) = n"
  using assms by (simp add: unat_of_nat take_bit_nat_eq_self)

lemma word_eq_unatI:
  "unat x = unat y \<Longrightarrow> x = y"
  by (simp add: word_unat_eq_iff)

lemma unat_and_mask_low:
  "unat (x AND mask n :: 'a::len word) = unat x mod 2 ^ n"
  unfolding take_bit_eq_mask [symmetric] unsigned_take_bit_eq
  by (simp add: take_bit_eq_mod)

lemma unat_less_size:
  fixes x :: "'a::len word"
  shows "unat x < 2 ^ LENGTH('a)"
  by (rule unsigned_less)

lemma split_low: "(a AND NOT (mask s)) OR (a AND mask s) = (a :: 'a::len word)"
  by (rule bit_word_eqI) (auto simp: bit_simps)

lemma unat_and_not_mask: "unat (a AND NOT (mask s) :: 'a::len word) = unat a div 2 ^ s * 2 ^ s"
proof -
  have "a AND NOT (mask s) = a - (a AND mask s)"
  proof -
    have "(a AND NOT (mask s)) AND (a AND mask s) = 0"
      by (rule bit_word_eqI) (auto simp: bit_simps)
    then have "(a AND NOT (mask s)) + (a AND mask s) = a"
      using word_plus_and_or [of "a AND NOT (mask s)" "a AND mask s"] split_low [of a s] by simp
    then show ?thesis by (simp add: eq_diff_eq)
  qed
  moreover have "unat (a AND mask s) \<le> unat a" by (simp add: unat_and_mask_low)
  ultimately have "unat (a AND NOT (mask s)) = unat a - unat a mod 2 ^ s"
    by (simp add: unat_sub_le word_le_nat_alt unat_and_mask_low)
  then show ?thesis by (simp add: minus_mod_eq_div_mult)
qed

lemma unat_minus_one_eq: "unat (- 1 :: 'a::len word) = 2 ^ LENGTH('a) - 1"
  by (simp add: unsigned_minus_1_eq_mask mask_eq_exp_minus_1)

lemma unat_uminus:
  fixes x :: "'a::len word"
  shows "unat (- x) = (if x = 0 then 0 else 2 ^ LENGTH('a) - unat x)"
proof (cases "x = 0")
  case False
  define s where "s = unat x + unat (- x)"
  have "unat (x + - x) = s mod 2 ^ LENGTH('a)"
    unfolding s_def by (rule unat_word_ariths)
  then have "s mod 2 ^ LENGTH('a) = 0" by simp
  moreover have "0 < s" using False by (simp add: s_def unat_gt_0)
  moreover have "s < 2 * 2 ^ LENGTH('a)"
    using unat_less_size [of x] unat_less_size [of "- x"] unfolding s_def by linarith
  ultimately have "s = 2 ^ LENGTH('a)"
    by (auto simp: mod_eq_0_iff_dvd elim!: dvdE)
  with False show ?thesis by (simp add: s_def)
qed simp

lemma unat_u64_bound: "unat (x :: u64) < 18446744073709551616"
  using unat_less_size [of x] by simp

lemma unat_u32_bound: "unat (x :: u32) < 4294967296"
  using unat_less_size [of x] by simp

lemma unat_u8_bound: "unat (x :: u8) < 256"
  using unat_less_size [of x] by simp

lemma unat_u32_u64: "unat (ucast (x :: u32) :: u64) = unat x"
  using unat_u32_bound [of x] by (simp add: unsigned_ucast_eq take_bit_eq_mod unat_mod_distrib)

lemma unat_u8_u32: "unat (ucast (x :: u8) :: u32) = unat x"
  using unat_u8_bound [of x] by (simp add: unsigned_ucast_eq take_bit_eq_mod unat_mod_distrib)

lemma xor_cancel: "(x :: 'a::len word) XOR a = y XOR a \<longleftrightarrow> x = y" "a XOR x = a XOR y \<longleftrightarrow> x = y"
  by (auto simp: bit_eq_iff bit_xor_iff)

lemma checked_add_Some_iff:
  fixes x y :: "'a::len word"
  shows "checked_add x y = Some z \<longleftrightarrow> z = x + y \<and> unat z = unat x + unat y"
proof
  assume "checked_add x y = Some z"
  then show "z = x + y \<and> unat z = unat x + unat y"
    by (auto simp: checked_add_def word_nat_simps split: if_splits)
next
  assume z: "z = x + y \<and> unat z = unat x + unat y"
  then have "unat x + unat y < 2 ^ LENGTH('a)"
    using unat_less_size [of z] by metis
  with z show "checked_add x y = Some z"
    by (simp add: checked_add_def)
qed

lemma unat_saturating_add:
  fixes x y :: "'a::len word"
  shows "unat (saturating_add x y) = min (unat x + unat y) (2 ^ LENGTH('a) - 1)"
  by (auto simp: saturating_add_def word_nat_simps unat_minus_one_eq)

lemma unat_saturating_sub:
  "unat (saturating_sub x y) = unat x - unat y"
  by (auto simp: saturating_sub_def word_nat_simps word_le_nat_alt)

lemma unat_div_ceil:
  fixes x y :: "'a::len word"
  assumes "0 < unat y"
  shows "unat (div_ceil x y) = (unat x + unat y - 1) div unat y"
proof (cases "unat x mod unat y = 0")
  case True
  then obtain k where k: "unat x = k * unat y"
    by (metis mod_0_imp_dvd dvd_def mult.commute)
  have "(k * unat y + unat y - 1) div unat y = k"
    using assms by (intro div_nat_eqI) (simp_all add: algebra_simps)
  with True k assms show ?thesis
    by (simp add: div_ceil_def word_unat_eq_iff unat_mod_distrib unat_div_distrib)
next
  case False
  define q r where "q = unat x div unat y" and "r = unat x mod unat y"
  have x: "unat x = q * unat y + r" and r: "0 < r" "r < unat y"
    using False assms by (simp_all add: q_def r_def)
  have q: "(unat x + unat y - 1) div unat y = q + 1"
  proof (rule div_nat_eqI)
    show "unat y * (q + 1) \<le> unat x + unat y - 1"
      using x r by (simp add: algebra_simps)
    show "unat x + unat y - 1 < unat y * Suc (q + 1)"
      using x r by (simp add: algebra_simps)
  qed
  have "q < unat x"
  proof (rule ccontr)
    assume "\<not> q < unat x"
    then have "q * unat y + r \<le> q" using x by simp
    moreover have "q \<le> q * unat y" using assms by simp
    ultimately show False using r by simp
  qed
  then have "q + 1 < 2 ^ LENGTH('a)"
    using unat_less_size [of x] by linarith
  then have "unat (x div y + 1) = q + 1"
    using q_def by (simp add: unat_word_ariths unat_div_distrib)
  with False q show ?thesis
    by (simp add: div_ceil_def word_unat_eq_iff unat_mod_distrib)
qed

section \<open>Little-endian bytes and slices\<close>

definition le_bytes :: "nat \<Rightarrow> 'a::len word \<Rightarrow> u8 list" where
  "le_bytes n w = map (\<lambda>i. ucast (drop_bit (8 * i) w)) [0..<n]"

primrec from_le_bytes :: "u8 list \<Rightarrow> 'a::len word" where
  "from_le_bytes [] = 0"
| "from_le_bytes (b # bs) = ucast b OR push_bit 8 (from_le_bytes bs)"

text \<open>\<open>put_slice at bs buf\<close> is \<open>buf[at..at+bs.len()].copy_from_slice(bs)\<close> and
  \<open>get_slice at n buf\<close> is \<open>buf[at..at+n]\<close>, both for ranges inside the buffer.\<close>

definition put_slice :: "nat \<Rightarrow> 'a list \<Rightarrow> 'a list \<Rightarrow> 'a list" where
  "put_slice i bs buf = take i buf @ bs @ drop (i + length bs) buf"

definition get_slice :: "nat \<Rightarrow> nat \<Rightarrow> 'a list \<Rightarrow> 'a list" where
  "get_slice i n buf = take n (drop i buf)"

lemma length_le_bytes [simp]: "length (le_bytes n w) = n"
  by (simp add: le_bytes_def)

lemma nth_le_bytes [simp]: "i < n \<Longrightarrow> le_bytes n w ! i = ucast (drop_bit (8 * i) w)"
  by (simp add: le_bytes_def)

lemma bit_from_le_bytes:
  "bit (from_le_bytes bs :: 'a::len word) n \<longleftrightarrow>
     n < LENGTH('a) \<and> n div 8 < length bs \<and> bit (bs ! (n div 8)) (n mod 8)"
proof (induction bs arbitrary: n)
  case Nil
  then show ?case by simp
next
  case (Cons b bs)
  show ?case
  proof (cases "n < 8")
    case True
    then show ?thesis by (auto simp: bit_simps)
  next
    case False
    then have "n div 8 = Suc ((n - 8) div 8)" and "(n - 8) mod 8 = n mod 8"
      by (simp_all add: le_div_geq le_mod_geq)
    with False Cons.IH [of "n - 8"] show ?thesis
      by (auto simp: bit_simps dest: bit_imp_le_length)
  qed
qed

lemma from_le_bytes_le_bytes:
  fixes w :: "'a::len word"
  assumes "LENGTH('a) \<le> 8 * n"
  shows "from_le_bytes (le_bytes n w) = w"
proof (rule bit_word_eqI)
  fix k assume k: "k < LENGTH('a)"
  then have "k div 8 < n" using assms by (simp add: less_mult_imp_div_less)
  with k show "bit (from_le_bytes (le_bytes n w) :: 'a word) k = bit w k"
    by (simp add: bit_from_le_bytes bit_simps)
qed

lemma from_le_bytes_u64 [simp]: "from_le_bytes (le_bytes 8 (w :: u64)) = w"
  by (rule from_le_bytes_le_bytes) simp

lemma from_le_bytes_u32 [simp]: "from_le_bytes (le_bytes 4 (w :: u32)) = w"
  by (rule from_le_bytes_le_bytes) simp

lemma from_le_bytes_u16 [simp]: "from_le_bytes (le_bytes 2 (w :: u16)) = w"
  by (rule from_le_bytes_le_bytes) simp

lemma length_put_slice [simp]:
  "i + length bs \<le> length buf \<Longrightarrow> length (put_slice i bs buf) = length buf"
  by (simp add: put_slice_def)

lemma length_get_slice [simp]:
  "i + n \<le> length buf \<Longrightarrow> length (get_slice i n buf) = n"
  by (simp add: get_slice_def)

lemma nth_put_slice:
  assumes "i + length bs \<le> length buf" and "k < length buf"
  shows "put_slice i bs buf ! k = (if i \<le> k \<and> k < i + length bs then bs ! (k - i) else buf ! k)"
  using assms by (auto simp: put_slice_def nth_append min_def)

lemma nth_get_slice:
  "i + n \<le> length buf \<Longrightarrow> k < n \<Longrightarrow> get_slice i n buf ! k = buf ! (i + k)"
  by (simp add: get_slice_def)

lemma get_put_slice_same:
  "i + length bs \<le> length buf \<Longrightarrow> n = length bs \<Longrightarrow> get_slice i n (put_slice i bs buf) = bs"
  by (simp add: get_slice_def put_slice_def)

lemma get_put_slice_disjoint:
  assumes "i + length bs \<le> length buf" and "j + n \<le> length buf"
    and "j + n \<le> i \<or> i + length bs \<le> j"
  shows "get_slice j n (put_slice i bs buf) = get_slice j n buf"
proof (rule nth_equalityI)
  show "length (get_slice j n (put_slice i bs buf)) = length (get_slice j n buf)"
    using assms by simp
next
  fix k assume "k < length (get_slice j n (put_slice i bs buf))"
  then have "k < n" using assms by simp
  then show "get_slice j n (put_slice i bs buf) ! k = get_slice j n buf ! k"
    using assms by (auto simp: nth_get_slice nth_put_slice)
qed

section \<open>Fixed tables of optional slots\<close>

text \<open>The first index whose element satisfies a predicate: the result of the source's
  \<open>for\<close> loops that return at the first hit.\<close>

fun find_index :: "('a \<Rightarrow> bool) \<Rightarrow> 'a list \<Rightarrow> nat option" where
  "find_index P [] = None"
| "find_index P (x # xs) = (if P x then Some 0 else map_option Suc (find_index P xs))"

definition slot_entries :: "'a option list \<Rightarrow> 'a list" where
  "slot_entries xs = List.map_filter (\<lambda>s. s) xs"

lemma find_index_None_iff: "find_index P xs = None \<longleftrightarrow> (\<forall>x \<in> set xs. \<not> P x)"
  by (induction xs) auto

lemma find_index_SomeD:
  "find_index P xs = Some i \<Longrightarrow> i < length xs \<and> P (xs ! i) \<and> (\<forall>j < i. \<not> P (xs ! j))"
proof (induction xs arbitrary: i)
  case (Cons x xs)
  then show ?case by (auto split: if_splits simp: nth_Cons' less_Suc_eq_0_disj)
qed simp

lemma slot_entries_simps [simp]:
  "slot_entries [] = []"
  "slot_entries (None # xs) = slot_entries xs"
  "slot_entries (Some x # xs) = x # slot_entries xs"
  by (simp_all add: slot_entries_def)

lemma slot_entries_append [simp]:
  "slot_entries (xs @ ys) = slot_entries xs @ slot_entries ys"
  by (simp add: slot_entries_def map_filter_def)

lemma slot_entries_replicate_None [simp]: "slot_entries (replicate n None) = []"
  by (induction n) auto

lemma set_slot_entries [slot_simps]: "x \<in> set (slot_entries xs) \<longleftrightarrow> Some x \<in> set xs"
  by (force simp: slot_entries_def map_filter_def)

lemma length_slot_entries_le: "length (slot_entries xs) \<le> length xs"
  by (simp add: slot_entries_def map_filter_def)

lemma slot_entries_full_iff: "length (slot_entries xs) = length xs \<longleftrightarrow> None \<notin> set xs"
proof (induction xs)
  case (Cons x xs)
  then show ?case using length_slot_entries_le [of xs] by (cases x) auto
qed simp

text \<open>A table has a free slot unless every slot is an entry.\<close>

lemma find_free_slot_None: "find_index (\<lambda>slot. slot = None) xs = None \<longleftrightarrow> length (slot_entries xs) = length xs"
  unfolding slot_entries_full_iff find_index_None_iff by metis

text \<open>A slot write splits the table at the written position.\<close>

lemma slot_entries_update:
  assumes "i < length xs"
  shows "slot_entries (xs[i := v]) =
    slot_entries (take i xs) @ slot_entries [v] @ slot_entries (drop (Suc i) xs)"
proof -
  have "xs[i := v] = take i xs @ [v] @ drop (Suc i) xs"
    using assms by (simp add: upd_conv_take_nth_drop)
  then show ?thesis by (simp only: slot_entries_append)
qed

lemma slot_entries_split:
  assumes "i < length xs"
  shows "slot_entries xs =
    slot_entries (take i xs) @ slot_entries [xs ! i] @ slot_entries (drop (Suc i) xs)"
  using slot_entries_update [OF assms, of "xs ! i"] by simp

end
