(* ===== verification/Phys_Mem.thy ===== *)
theory Phys_Mem
  imports RayNu_Prelude
begin

text \<open>
  Host physical memory as the Proven Core sees it through raw pointers: a byte store
  indexed by 64-bit physical addresses.  \<open>load64\<close> and \<open>store64\<close> are the
  \<open>read_volatile\<close> and \<open>write_volatile\<close> of a \<open>*mut u64\<close>, little-endian as on
  \<open>x86_64\<close>, and \<open>write_bytes\<close> is \<open>core::ptr::write_bytes\<close>.  The locale
  \<open>cell_memory\<close> states what page-table builders and the bitmap allocator rely on; it
  is interpreted on the byte store at the end of its section.
\<close>

type_synonym phys_mem = "u64 \<Rightarrow> u8"

definition load64 :: "phys_mem \<Rightarrow> u64 \<Rightarrow> u64" where
  "load64 m a = from_le_bytes (map (\<lambda>i. m (a + of_nat i)) [0..<8])"

definition store_bytes :: "phys_mem \<Rightarrow> u64 \<Rightarrow> u8 list \<Rightarrow> phys_mem" where
  "store_bytes m a bs = (\<lambda>x. if unat (x - a) < length bs then bs ! unat (x - a) else m x)"

definition store64 :: "phys_mem \<Rightarrow> u64 \<Rightarrow> u64 \<Rightarrow> phys_mem" where
  "store64 m a v = store_bytes m a (le_bytes 8 v)"

definition write_bytes :: "phys_mem \<Rightarrow> u64 \<Rightarrow> u8 \<Rightarrow> nat \<Rightarrow> phys_mem" where
  "write_bytes m a v n = (\<lambda>x. if unat (x - a) < n then v else m x)"

definition qword_apart :: "u64 \<Rightarrow> u64 \<Rightarrow> bool" where
  "qword_apart a b \<longleftrightarrow> 8 \<le> unat (b - a) \<and> 8 \<le> unat (a - b)"

text \<open>Entry \<open>i\<close> of the page-table page at physical address \<open>f\<close>.\<close>

definition entry_addr :: "u64 \<Rightarrow> nat \<Rightarrow> u64" where
  "entry_addr f i = f + of_nat (8 * i)"

definition page_aligned :: "u64 \<Rightarrow> bool" where
  "page_aligned a \<longleftrightarrow> a AND 0xfff = 0"

section \<open>The contract of a store of words\<close>

locale cell_memory =
  fixes load :: "'m \<Rightarrow> u64 \<Rightarrow> 'v"
    and store :: "'m \<Rightarrow> u64 \<Rightarrow> 'v \<Rightarrow> 'm"
    and apart :: "u64 \<Rightarrow> u64 \<Rightarrow> bool"
  assumes load_store_same: "load (store m a v) a = v"
    and load_store_apart: "apart a b \<Longrightarrow> load (store m a v) b = load m b"
begin

lemma fold_store_apart:
  assumes "\<And>i. i \<in> set is \<Longrightarrow> apart (addr i) b"
  shows "load (fold (\<lambda>i m. store m (addr i) (val i)) is m) b = load m b"
  using assms by (induction "is" arbitrary: m) (simp_all add: load_store_apart)

lemma fold_store_hit:
  assumes "distinct is" and "i \<in> set is"
    and "\<And>j. j \<in> set is \<Longrightarrow> j \<noteq> i \<Longrightarrow> apart (addr j) (addr i)"
  shows "load (fold (\<lambda>i m. store m (addr i) (val i)) is m) (addr i) = val i"
  using assms
proof (induction "is" arbitrary: m)
  case (Cons j js)
  show ?case
  proof (cases "i = j")
    case True
    with Cons.prems have "\<And>k. k \<in> set js \<Longrightarrow> apart (addr k) (addr i)" by auto
    then show ?thesis
      using True by (simp add: fold_store_apart load_store_same)
  next
    case False
    with Cons show ?thesis by simp
  qed
qed simp

end

section \<open>The byte store satisfies the contract\<close>

lemma load64_store64_same: "load64 (store64 m a v) a = v"
proof -
  have "map (\<lambda>i. store64 m a v (a + of_nat i)) [0..<8] = le_bytes 8 v"
    by (rule nth_equalityI) (simp_all add: store64_def store_bytes_def unat_of_nat_small)
  then show ?thesis by (simp add: load64_def)
qed

lemma qword_apart_byte:
  assumes "qword_apart a b" and "i < 8"
  shows "8 \<le> unat (b + of_nat i - a)"
proof -
  have "unat (- (a - b)) = (if a - b = 0 then 0 else 2 ^ 64 - unat (a - b))"
    by (subst unat_uminus) simp
  then have "unat (b - a) = (if a = b then 0 else 2 ^ 64 - unat (a - b))"
    by simp
  then have le: "8 \<le> unat (b - a)" "unat (b - a) + 8 \<le> 2 ^ 64"
    using assms by (auto simp: qword_apart_def split: if_splits)
  have "unat (b + of_nat i - a) = unat ((b - a) + of_nat i)"
    by (simp add: algebra_simps)
  also have "\<dots> = unat (b - a) + i"
    using le assms(2) by (subst unat_add_small) (simp_all add: unat_of_nat_small)
  finally show ?thesis using le by simp
qed

lemma load64_cong:
  assumes "\<And>i. i < 8 \<Longrightarrow> m (a + of_nat i) = m' (a + of_nat i)"
  shows "load64 m a = load64 m' a"
proof -
  have "map (\<lambda>i. m (a + of_nat i)) [0..<8] = map (\<lambda>i. m' (a + of_nat i)) [0..<8]"
    using assms by (intro map_cong) auto
  then show ?thesis unfolding load64_def by (rule arg_cong)
qed

lemma load64_store64_apart:
  assumes "qword_apart a b"
  shows "load64 (store64 m a v) b = load64 m b"
proof -
  have "store64 m a v (b + of_nat i) = m (b + of_nat i)" if "i < 8" for i
    using qword_apart_byte [OF assms that] by (simp add: store64_def store_bytes_def)
  then show ?thesis by (rule load64_cong)
qed

interpretation pm: cell_memory load64 store64 qword_apart
  by unfold_locales (simp_all add: load64_store64_same load64_store64_apart)

lemma load64_zero_range:
  assumes "\<And>i. i < 8 \<Longrightarrow> m (a + of_nat i) = 0"
  shows "load64 m a = 0"
proof (rule bit_word_eqI)
  fix n assume "n < LENGTH(64)"
  then have "n div 8 < 8" by simp
  then show "bit (load64 m a) n = bit (0 :: u64) n"
    using assms [of "n div 8"] by (simp add: load64_def bit_from_le_bytes)
qed

section \<open>Page-table entries\<close>

lemma page_aligned_nat: "page_aligned a \<longleftrightarrow> unat a mod 4096 = 0"
proof -
  have "unat (a AND 0xfff) = unat a mod 4096"
    using unat_and_mask_low [of a 12] by (simp add: mask_eq_exp_minus_1)
  then show ?thesis
    by (simp add: page_aligned_def word_unat_eq_iff)
qed

lemma unat_entry_addr:
  assumes "page_aligned f" and "i < 512"
  shows "unat (entry_addr f i) = unat f + 8 * i"
proof -
  obtain k where k: "unat f = 4096 * k"
    using assms(1) by (auto simp: page_aligned_nat)
  then have "k < 4503599627370496" using unat_u64_bound [of f] by simp
  then have *: "unat f + 8 * i < 2 ^ 64" using k assms(2) by simp
  then show ?thesis
    unfolding entry_addr_def
    by (subst unat_add_small) (simp_all add: unat_of_nat_small del: of_nat_mult)
qed

lemma qword_apart_sym: "qword_apart a b \<Longrightarrow> qword_apart b a"
  by (auto simp: qword_apart_def)

lemma qword_apartI:
  assumes "unat a + 8 \<le> unat b" and "unat b + 8 \<le> 2 ^ 64"
  shows "qword_apart a b"
proof -
  have ba: "unat (b - a) = unat b - unat a"
    using assms by (intro unat_sub_le) (simp add: word_le_nat_alt)
  have "unat (a - b) = unat (- (b - a))" by simp
  also have "\<dots> = 2 ^ 64 - (unat b - unat a)"
    using assms ba by (subst unat_uminus) auto
  finally have ab: "unat (a - b) = 2 ^ 64 - (unat b - unat a)" .
  show ?thesis
    unfolding qword_apart_def ab ba using assms by linarith
qed

lemma unat_entry_addr_top:
  assumes "page_aligned f" and "i < 512"
  shows "unat (entry_addr f i) + 8 \<le> 2 ^ 64"
proof -
  obtain k where k: "unat f = 4096 * k"
    using assms(1) by (auto simp: page_aligned_nat)
  then have "k < 4503599627370496" using unat_u64_bound [of f] by simp
  then show ?thesis using k assms by (simp add: unat_entry_addr)
qed

lemma entry_apart:
  assumes "page_aligned f" "page_aligned g" "i < 512" "j < 512" "f \<noteq> g \<or> i \<noteq> j"
  shows "qword_apart (entry_addr f i) (entry_addr g j)"
proof -
  obtain k l where k: "unat f = 4096 * k" and l: "unat g = 4096 * l"
    using assms by (auto simp: page_aligned_nat elim!: dvdE)
  have "k \<noteq> l \<or> i \<noteq> j"
    using assms(5) k l by (auto simp: word_unat_eq_iff)
  then have "4096 * k + 8 * i + 8 \<le> 4096 * l + 8 * j \<or> 4096 * l + 8 * j + 8 \<le> 4096 * k + 8 * i"
    using assms(3,4) by (cases k l rule: linorder_cases; cases i j rule: linorder_cases) simp_all
  then have "unat (entry_addr f i) + 8 \<le> unat (entry_addr g j) \<or>
      unat (entry_addr g j) + 8 \<le> unat (entry_addr f i)"
    using assms k l by (simp add: unat_entry_addr)
  then show ?thesis
    using unat_entry_addr_top [OF assms(1,3)] unat_entry_addr_top [OF assms(2,4)]
    by (blast intro: qword_apartI qword_apart_sym)
qed

lemma load64_store_entry:
  assumes "page_aligned f" "page_aligned g" "i < 512" "j < 512"
  shows "load64 (store64 m (entry_addr f i) v) (entry_addr g j) =
    (if f = g \<and> i = j then v else load64 m (entry_addr g j))"
  using assms by (auto simp: pm.load_store_same intro!: pm.load_store_apart entry_apart)

lemma load64_zero_page:
  assumes "page_aligned f" "page_aligned g" "j < 512"
  shows "load64 (write_bytes m f 0 4096) (entry_addr g j) =
    (if f = g then 0 else load64 m (entry_addr g j))"
proof -
  obtain k l where k: "unat f = 4096 * k" and l: "unat g = 4096 * l"
    using assms by (auto simp: page_aligned_nat elim!: dvdE)
  have in_page: "unat (entry_addr g j + of_nat i) = 4096 * l + 8 * j + i" if "i < 8" for i
    using that unat_entry_addr_top [OF assms(2,3)] assms(2,3) l
    by (subst unat_add_small) (simp_all add: unat_entry_addr unat_of_nat_small)
  show ?thesis
  proof (cases "f = g")
    case True
    have "write_bytes m f 0 4096 (entry_addr g j + of_nat i) = 0" if "i < 8" for i
    proof -
      have "unat (entry_addr g j + of_nat i - f) = 8 * j + i"
        using in_page [OF that] l True by (subst unat_sub_le) (simp_all add: word_le_nat_alt)
      then show ?thesis using that assms(3) by (simp add: write_bytes_def)
    qed
    with True show ?thesis by (simp add: load64_zero_range)
  next
    case False
    then have "k \<noteq> l" using k l by (auto simp: word_unat_eq_iff)
    have "write_bytes m f 0 4096 (entry_addr g j + of_nat i) = m (entry_addr g j + of_nat i)"
      if "i < 8" for i
    proof (cases "k < l")
      case True
      then have "unat (entry_addr g j + of_nat i - f) = 4096 * l + 8 * j + i - 4096 * k"
        using in_page [OF that] k by (subst unat_sub_le) (simp_all add: word_le_nat_alt)
      moreover have "4096 * l + 8 * j + i - 4096 * k \<ge> 4096" using True by linarith
      ultimately show ?thesis by (simp add: write_bytes_def)
    next
      case False
      define d where "d = f - (entry_addr g j + of_nat i)"
      have d: "unat d = 4096 * k - (4096 * l + 8 * j + i)" "0 < unat d"
        using False \<open>k \<noteq> l\<close> in_page [OF that] k that assms(3)
        unfolding d_def by (subst unat_sub_le; simp add: word_le_nat_alt)+
      have "unat (entry_addr g j + of_nat i - f) = unat (- d)" by (simp add: d_def)
      also have "\<dots> = 2 ^ 64 - unat d" using d by (subst unat_uminus) auto
      finally have "4096 \<le> unat (entry_addr g j + of_nat i - f)"
        using d k unat_entry_addr_top [of f 511] unat_entry_addr [of f 511] assms(1) by linarith
      then show ?thesis by (simp add: write_bytes_def)
    qed
    with False show ?thesis by (auto intro: load64_cong)
  qed
qed

end
