(* ===== verification/Ept_Ghost.thy ===== *)
theory Ept_Ghost
  imports RayNu_Prelude
begin

text \<open>
  The abstract ownership model of \<open>ept_model/src/lib.rs\<close>: the ghost registry of
  extended-page-table (EPT) mappings with its exclusive-ownership invariant, map and unmap
  steps and their traces, large-page spans, the ghost frame pool, the violation
  dispositions and the page transfer.  Verus maps are partial functions here; their domains
  are finite because keys are machine words.  \<open>Ept_Registry\<close> and
  \<open>Frame_Alloc\<close> show that the run-time structures of \<open>memory/\<close> implement
  this model.
\<close>

type_synonym GuestId = u64
type_synonym Gpa = u64
type_synonym FrameId = u64

definition PAGE_4K :: u64 where "PAGE_4K = 4096"
definition PAGE_2M :: u64 where "PAGE_2M = 0x200000"
definition PAGE_1G :: u64 where "PAGE_1G = 0x40000000"

record GhostEptMap =
  owned :: "FrameId \<rightharpoonup> GuestId"
  by_gpa :: "GuestId \<times> Gpa \<rightharpoonup> FrameId"

definition ghost_empty :: GhostEptMap where
  "ghost_empty = \<lparr>owned = Map.empty, by_gpa = Map.empty\<rparr>"

definition ghost_map :: "GhostEptMap \<Rightarrow> GuestId \<Rightarrow> Gpa \<Rightarrow> FrameId \<Rightarrow> GhostEptMap" where
  "ghost_map m guest gpa frame =
    \<lparr>owned = (owned m)(frame \<mapsto> guest), by_gpa = (by_gpa m)((guest, gpa) \<mapsto> frame)\<rparr>"

definition ghost_unmap :: "GhostEptMap \<Rightarrow> GuestId \<Rightarrow> Gpa \<Rightarrow> GhostEptMap" where
  "ghost_unmap m guest gpa =
    (let frame = the (by_gpa m (guest, gpa)) in
     \<lparr>owned = (owned m)(frame := None), by_gpa = (by_gpa m)((guest, gpa) := None)\<rparr>)"

definition page_aligned_4k :: "Gpa \<Rightarrow> bool" where
  "page_aligned_4k gpa \<longleftrightarrow> gpa mod PAGE_4K = 0"

definition exclusive_ownership :: "GhostEptMap \<Rightarrow> bool" where
  "exclusive_ownership m \<longleftrightarrow>
     (\<forall>f. f \<in> dom (owned m) \<longrightarrow>
        (\<exists>g a. (g, a) \<in> dom (by_gpa m) \<and> by_gpa m (g, a) = Some f \<and> owned m f = Some g)) \<and>
     (\<forall>g a. (g, a) \<in> dom (by_gpa m) \<longrightarrow>
        the (by_gpa m (g, a)) \<in> dom (owned m) \<and> owned m (the (by_gpa m (g, a))) = Some g) \<and>
     (\<forall>g1 a1 g2 a2. (g1, a1) \<in> dom (by_gpa m) \<and> (g2, a2) \<in> dom (by_gpa m) \<and>
        by_gpa m (g1, a1) = by_gpa m (g2, a2) \<longrightarrow> g1 = g2 \<and> a1 = a2) \<and>
     card (dom (owned m)) = card (dom (by_gpa m))"

datatype MapUnmapStep =
    MapStep GuestId Gpa FrameId
  | UnmapStep GuestId Gpa

fun step_guest_id :: "MapUnmapStep \<Rightarrow> GuestId" where
  "step_guest_id (MapStep guest _ _) = guest"
| "step_guest_id (UnmapStep guest _) = guest"

fun step_guest_ok :: "MapUnmapStep \<Rightarrow> bool" where
  "step_guest_ok (MapStep guest gpa _) \<longleftrightarrow> guest \<noteq> 0 \<and> page_aligned_4k gpa"
| "step_guest_ok (UnmapStep guest gpa) \<longleftrightarrow> guest \<noteq> 0 \<and> page_aligned_4k gpa"

fun step_enabled :: "GhostEptMap \<Rightarrow> MapUnmapStep \<Rightarrow> bool" where
  "step_enabled m (MapStep guest gpa frame) \<longleftrightarrow>
     frame \<notin> dom (owned m) \<and> (guest, gpa) \<notin> dom (by_gpa m)"
| "step_enabled m (UnmapStep guest gpa) \<longleftrightarrow> (guest, gpa) \<in> dom (by_gpa m)"

fun apply_step :: "GhostEptMap \<Rightarrow> MapUnmapStep \<Rightarrow> GhostEptMap" where
  "apply_step m (MapStep guest gpa frame) = ghost_map m guest gpa frame"
| "apply_step m (UnmapStep guest gpa) = ghost_unmap m guest gpa"

fun fold_steps :: "GhostEptMap \<Rightarrow> MapUnmapStep list \<Rightarrow> GhostEptMap" where
  "fold_steps m [] = m"
| "fold_steps m (s # ss) = fold_steps (apply_step m s) ss"

fun steps_ok :: "GhostEptMap \<Rightarrow> MapUnmapStep list \<Rightarrow> bool" where
  "steps_ok m [] \<longleftrightarrow> True"
| "steps_ok m (s # ss) \<longleftrightarrow> step_guest_ok s \<and> step_enabled m s \<and> steps_ok (apply_step m s) ss"

section \<open>Large-page spans\<close>

datatype GhostPageSize = FourK | TwoM | OneG

fun page_size_bytes :: "GhostPageSize \<Rightarrow> u64" where
  "page_size_bytes FourK = PAGE_4K"
| "page_size_bytes TwoM = PAGE_2M"
| "page_size_bytes OneG = PAGE_1G"

fun frames_covered :: "GhostPageSize \<Rightarrow> u64" where
  "frames_covered FourK = 1"
| "frames_covered TwoM = 512"
| "frames_covered OneG = 262144"

definition ghost_page_aligned :: "GhostPageSize \<Rightarrow> u64 \<Rightarrow> bool" where
  "ghost_page_aligned ps addr \<longleftrightarrow> addr mod page_size_bytes ps = 0"

fun frame_base_aligned :: "GhostPageSize \<Rightarrow> FrameId \<Rightarrow> bool" where
  "frame_base_aligned FourK base \<longleftrightarrow> True"
| "frame_base_aligned TwoM base \<longleftrightarrow> base mod 512 = 0"
| "frame_base_aligned OneG base \<longleftrightarrow> base mod 262144 = 0"

text \<open>Verus adds mathematical integers in specifications, hence the bound on naturals.\<close>

definition frame_in_large_span :: "FrameId \<Rightarrow> GhostPageSize \<Rightarrow> FrameId \<Rightarrow> bool" where
  "frame_in_large_span base ps f \<longleftrightarrow> base \<le> f \<and> unat f < unat base + unat (frames_covered ps)"

definition large_span_free :: "GhostEptMap \<Rightarrow> FrameId \<Rightarrow> GhostPageSize \<Rightarrow> bool" where
  "large_span_free m base ps \<longleftrightarrow> (\<forall>f. frame_in_large_span base ps f \<longrightarrow> f \<notin> dom (owned m))"

fun span_gpas_free :: "GhostEptMap \<Rightarrow> GuestId \<Rightarrow> Gpa \<Rightarrow> nat \<Rightarrow> bool" where
  "span_gpas_free m guest gpa 0 \<longleftrightarrow> True"
| "span_gpas_free m guest gpa (Suc n) \<longleftrightarrow>
     (guest, gpa) \<notin> dom (by_gpa m) \<and> span_gpas_free m guest (gpa + PAGE_4K) n"

definition large_gpa_span_free :: "GhostEptMap \<Rightarrow> GuestId \<Rightarrow> Gpa \<Rightarrow> GhostPageSize \<Rightarrow> bool" where
  "large_gpa_span_free m guest gpa ps \<longleftrightarrow> span_gpas_free m guest gpa (unat (frames_covered ps))"

definition large_map_enabled ::
  "GhostEptMap \<Rightarrow> GuestId \<Rightarrow> Gpa \<Rightarrow> FrameId \<Rightarrow> GhostPageSize \<Rightarrow> bool" where
  "large_map_enabled m guest gpa base ps \<longleftrightarrow>
     guest \<noteq> 0 \<and> ghost_page_aligned ps gpa \<and> page_aligned_4k gpa \<and>
     frame_base_aligned ps base \<and> large_span_free m base ps \<and>
     large_gpa_span_free m guest gpa ps \<and>
     base \<le> 0xffffffffffffffff - frames_covered ps \<and>
     gpa \<le> 0xffffffffffffffff - frames_covered ps * PAGE_4K"

definition large_map_post_owned ::
  "GhostEptMap \<Rightarrow> GuestId \<Rightarrow> FrameId \<Rightarrow> GhostPageSize \<Rightarrow> bool" where
  "large_map_post_owned m guest base ps \<longleftrightarrow>
     (\<forall>f. frame_in_large_span base ps f \<longrightarrow> f \<in> dom (owned m) \<and> owned m f = Some guest)"

fun span_mapped :: "GhostEptMap \<Rightarrow> GuestId \<Rightarrow> Gpa \<Rightarrow> FrameId \<Rightarrow> nat \<Rightarrow> bool" where
  "span_mapped m guest gpa base 0 \<longleftrightarrow> True"
| "span_mapped m guest gpa base (Suc n) \<longleftrightarrow>
     (guest, gpa) \<in> dom (by_gpa m) \<and> by_gpa m (guest, gpa) = Some base \<and>
     span_mapped m guest (gpa + PAGE_4K) (base + 1) n"

definition large_span_mapped ::
  "GhostEptMap \<Rightarrow> GuestId \<Rightarrow> Gpa \<Rightarrow> FrameId \<Rightarrow> GhostPageSize \<Rightarrow> bool" where
  "large_span_mapped m guest gpa base ps \<longleftrightarrow> span_mapped m guest gpa base (unat (frames_covered ps))"

definition large_unmap_enabled ::
  "GhostEptMap \<Rightarrow> GuestId \<Rightarrow> Gpa \<Rightarrow> FrameId \<Rightarrow> GhostPageSize \<Rightarrow> bool" where
  "large_unmap_enabled m guest gpa base ps \<longleftrightarrow>
     guest \<noteq> 0 \<and> ghost_page_aligned ps gpa \<and> page_aligned_4k gpa \<and>
     frame_base_aligned ps base \<and> large_span_mapped m guest gpa base ps \<and>
     base \<le> 0xffffffffffffffff - frames_covered ps \<and>
     gpa \<le> 0xffffffffffffffff - frames_covered ps * PAGE_4K"

fun ghost_map_span :: "GhostEptMap \<Rightarrow> GuestId \<Rightarrow> Gpa \<Rightarrow> FrameId \<Rightarrow> nat \<Rightarrow> GhostEptMap" where
  "ghost_map_span m guest gpa base 0 = m"
| "ghost_map_span m guest gpa base (Suc n) =
     ghost_map_span (ghost_map m guest gpa base) guest (gpa + PAGE_4K) (base + 1) n"

fun ghost_unmap_span :: "GhostEptMap \<Rightarrow> GuestId \<Rightarrow> Gpa \<Rightarrow> nat \<Rightarrow> GhostEptMap" where
  "ghost_unmap_span m guest gpa 0 = m"
| "ghost_unmap_span m guest gpa (Suc n) =
     ghost_unmap_span (ghost_unmap m guest gpa) guest (gpa + PAGE_4K) n"

definition ghost_large_map ::
  "GhostEptMap \<Rightarrow> GuestId \<Rightarrow> Gpa \<Rightarrow> FrameId \<Rightarrow> GhostPageSize \<Rightarrow> GhostEptMap" where
  "ghost_large_map m guest gpa base ps = ghost_map_span m guest gpa base (unat (frames_covered ps))"

definition ghost_large_unmap :: "GhostEptMap \<Rightarrow> GuestId \<Rightarrow> Gpa \<Rightarrow> GhostPageSize \<Rightarrow> GhostEptMap" where
  "ghost_large_unmap m guest gpa ps = ghost_unmap_span m guest gpa (unat (frames_covered ps))"

section \<open>Ghost frame pool\<close>

record GhostFramePool =
  pool_base :: FrameId
  pool_capacity :: u64
  pool_allocated :: "FrameId set"

definition pool_empty :: "FrameId \<Rightarrow> u64 \<Rightarrow> GhostFramePool" where
  "pool_empty base cap = \<lparr>pool_base = base, pool_capacity = cap, pool_allocated = {}\<rparr>"

definition pool_contains :: "GhostFramePool \<Rightarrow> FrameId \<Rightarrow> bool" where
  "pool_contains p f \<longleftrightarrow> pool_base p \<le> f \<and> unat f < unat (pool_base p) + unat (pool_capacity p)"

definition pool_well_formed :: "GhostFramePool \<Rightarrow> bool" where
  "pool_well_formed p \<longleftrightarrow>
     pool_capacity p > 0 \<and> (\<forall>f. f \<in> pool_allocated p \<longrightarrow> pool_contains p f)"

definition ghost_allocate :: "GhostFramePool \<Rightarrow> FrameId \<Rightarrow> GhostFramePool" where
  "ghost_allocate p f = p\<lparr>pool_allocated := insert f (pool_allocated p)\<rparr>"

definition ghost_free :: "GhostFramePool \<Rightarrow> FrameId \<Rightarrow> GhostFramePool" where
  "ghost_free p f = p\<lparr>pool_allocated := pool_allocated p - {f}\<rparr>"

definition alloc_enabled :: "GhostFramePool \<Rightarrow> FrameId \<Rightarrow> bool" where
  "alloc_enabled p f \<longleftrightarrow> pool_well_formed p \<and> pool_contains p f \<and> f \<notin> pool_allocated p"

definition free_enabled :: "GhostFramePool \<Rightarrow> FrameId \<Rightarrow> bool" where
  "free_enabled p f \<longleftrightarrow> pool_well_formed p \<and> f \<in> pool_allocated p"

text \<open>Coupling of the ownership registry with the pool: every owned frame is allocated.  The
  source states it over \<open>ConcreteEptMap\<close>, whose abstraction is the identity on the
  two maps.\<close>

definition alloc_ept_refines :: "GhostEptMap \<Rightarrow> GhostFramePool \<Rightarrow> bool" where
  "alloc_ept_refines c p \<longleftrightarrow>
     exclusive_ownership c \<and> pool_well_formed p \<and>
     (\<forall>f. f \<in> dom (owned c) \<longrightarrow> f \<in> pool_allocated p)"

definition alloc_map_enabled ::
  "GhostEptMap \<Rightarrow> GhostFramePool \<Rightarrow> GuestId \<Rightarrow> Gpa \<Rightarrow> FrameId \<Rightarrow> bool" where
  "alloc_map_enabled c p guest gpa frame \<longleftrightarrow>
     alloc_ept_refines c p \<and> guest \<noteq> 0 \<and> page_aligned_4k gpa \<and>
     step_enabled c (MapStep guest gpa frame) \<and> frame \<in> pool_allocated p"

section \<open>Violation handling and page transfer\<close>

datatype EptViolationDisposition =
    GhostEmulateNoMap
  | GhostReject
  | GhostClaimMap GuestId Gpa FrameId

fun violation_enabled :: "GhostEptMap \<Rightarrow> EptViolationDisposition \<Rightarrow> bool" where
  "violation_enabled m GhostEmulateNoMap \<longleftrightarrow> True"
| "violation_enabled m GhostReject \<longleftrightarrow> True"
| "violation_enabled m (GhostClaimMap guest gpa frame) \<longleftrightarrow>
     guest \<noteq> 0 \<and> page_aligned_4k gpa \<and> step_enabled m (MapStep guest gpa frame)"

fun apply_violation :: "GhostEptMap \<Rightarrow> EptViolationDisposition \<Rightarrow> GhostEptMap" where
  "apply_violation m GhostEmulateNoMap = m"
| "apply_violation m GhostReject = m"
| "apply_violation m (GhostClaimMap guest gpa frame) = ghost_map m guest gpa frame"

record PageTransferStep =
  src_guest :: GuestId
  src_gpa :: Gpa
  dst_guest :: GuestId
  dst_gpa :: Gpa

definition transfer_enabled :: "GhostEptMap \<Rightarrow> PageTransferStep \<Rightarrow> bool" where
  "transfer_enabled m s \<longleftrightarrow>
     src_guest s \<noteq> 0 \<and> dst_guest s \<noteq> 0 \<and> src_guest s \<noteq> dst_guest s \<and>
     page_aligned_4k (src_gpa s) \<and> page_aligned_4k (dst_gpa s) \<and>
     (src_guest s, src_gpa s) \<in> dom (by_gpa m) \<and> (dst_guest s, dst_gpa s) \<notin> dom (by_gpa m)"

definition apply_transfer :: "GhostEptMap \<Rightarrow> PageTransferStep \<Rightarrow> GhostEptMap" where
  "apply_transfer m s =
    (let frame = the (by_gpa m (src_guest s, src_gpa s)) in
     ghost_map (ghost_unmap m (src_guest s) (src_gpa s)) (dst_guest s) (dst_gpa s) frame)"

definition transfer_posts :: "GhostEptMap \<Rightarrow> PageTransferStep \<Rightarrow> GhostEptMap \<Rightarrow> bool" where
  "transfer_posts m s m2 \<longleftrightarrow>
    (let frame = the (by_gpa m (src_guest s, src_gpa s)) in
     owned m2 frame = Some (dst_guest s) \<and> by_gpa m2 (dst_guest s, dst_gpa s) = Some frame \<and>
     (src_guest s, src_gpa s) \<notin> dom (by_gpa m2))"

section \<open>The ghost steps preserve exclusive ownership\<close>

text \<open>A working form of the invariant: the two maps are inverse to each other.\<close>

lemma exclusive_ownership_iff:
  "exclusive_ownership m \<longleftrightarrow>
     (\<forall>f g. owned m f = Some g \<longrightarrow> (\<exists>a. by_gpa m (g, a) = Some f)) \<and>
     (\<forall>g a f. by_gpa m (g, a) = Some f \<longrightarrow> owned m f = Some g) \<and>
     (\<forall>g a a' f. by_gpa m (g, a) = Some f \<and> by_gpa m (g, a') = Some f \<longrightarrow> a = a')"
    (is "?L \<longleftrightarrow> ?A \<and> ?B \<and> ?C")
proof
  assume L: ?L
  show "?A \<and> ?B \<and> ?C"
  proof (intro conjI allI impI)
    fix f g assume "owned m f = Some g"
    with L show "\<exists>a. by_gpa m (g, a) = Some f"
      unfolding exclusive_ownership_def by (metis domI option.inject)
  next
    fix g a f assume "by_gpa m (g, a) = Some f"
    with L show "owned m f = Some g"
      unfolding exclusive_ownership_def by (metis domI option.sel)
  next
    fix g a a' f assume "by_gpa m (g, a) = Some f \<and> by_gpa m (g, a') = Some f"
    with L show "a = a'"
      unfolding exclusive_ownership_def by (metis domI)
  qed
next
  assume R: "?A \<and> ?B \<and> ?C"
  have bij: "bij_betw (\<lambda>k. the (by_gpa m k)) (dom (by_gpa m)) (dom (owned m))"
  proof (rule bij_betwI')
    fix x y assume "x \<in> dom (by_gpa m)" "y \<in> dom (by_gpa m)"
    then obtain g a f g' a' f' where xy: "x = (g, a)" "y = (g', a')"
      "by_gpa m (g, a) = Some f" "by_gpa m (g', a') = Some f'"
      by (metis domD surj_pair)
    then have "owned m f = Some g" "owned m f' = Some g'" using R by blast+
    then have "f = f' \<Longrightarrow> g = g' \<and> a = a'" using R xy by (metis option.inject)
    with xy show "(the (by_gpa m x) = the (by_gpa m y)) = (x = y)" by auto
  next
    fix x assume "x \<in> dom (by_gpa m)"
    with R show "the (by_gpa m x) \<in> dom (owned m)" by (cases x) fastforce
  next
    fix f assume "f \<in> dom (owned m)"
    with R obtain g a where "by_gpa m (g, a) = Some f" by blast
    then show "\<exists>x \<in> dom (by_gpa m). f = the (by_gpa m x)" by force
  qed
  show ?L
    unfolding exclusive_ownership_def
  proof (intro conjI allI impI)
    fix f assume "f \<in> dom (owned m)"
    then obtain g where g: "owned m f = Some g" by auto
    with R obtain a where "by_gpa m (g, a) = Some f" by metis
    with g show "\<exists>g a. (g, a) \<in> dom (by_gpa m) \<and> by_gpa m (g, a) = Some f \<and> owned m f = Some g"
      by (metis domI)
  next
    fix g a assume "(g, a) \<in> dom (by_gpa m)"
    then obtain f where "by_gpa m (g, a) = Some f" by auto
    with R show "the (by_gpa m (g, a)) \<in> dom (owned m)"
      and "owned m (the (by_gpa m (g, a))) = Some g" by auto
  next
    fix g1 a1 g2 a2
    assume "(g1, a1) \<in> dom (by_gpa m) \<and> (g2, a2) \<in> dom (by_gpa m) \<and>
      by_gpa m (g1, a1) = by_gpa m (g2, a2)"
    then obtain f where f: "by_gpa m (g1, a1) = Some f" "by_gpa m (g2, a2) = Some f" by auto
    then have "owned m f = Some g1" "owned m f = Some g2" using R by metis+
    then show "g1 = g2" by simp
    with f R show "a1 = a2" by metis
  next
    show "card (dom (owned m)) = card (dom (by_gpa m))"
      using bij_betw_same_card [OF bij] by simp
  qed
qed

lemma exclusive_ownershipI:
  assumes "\<And>f g. owned m f = Some g \<Longrightarrow> \<exists>a. by_gpa m (g, a) = Some f"
    and "\<And>g a f. by_gpa m (g, a) = Some f \<Longrightarrow> owned m f = Some g"
    and "\<And>g a a' f. by_gpa m (g, a) = Some f \<Longrightarrow> by_gpa m (g, a') = Some f \<Longrightarrow> a = a'"
  shows "exclusive_ownership m"
  using assms unfolding exclusive_ownership_iff by blast

lemma exclusive_ownershipD:
  assumes "exclusive_ownership m"
  shows "owned m f = Some g \<Longrightarrow> \<exists>a. by_gpa m (g, a) = Some f"
    and "by_gpa m (g, a) = Some f \<Longrightarrow> owned m f = Some g"
    and "by_gpa m (g, a) = Some f \<Longrightarrow> by_gpa m (g', a') = Some f \<Longrightarrow> g = g' \<and> a = a'"
  using assms unfolding exclusive_ownership_iff by (blast, blast, metis option.inject)

lemma ghost_empty_exclusive: "exclusive_ownership ghost_empty"
  by (rule exclusive_ownershipI) (auto simp: ghost_empty_def)

lemma ghost_map_exclusive:
  assumes "exclusive_ownership m" and "frame \<notin> dom (owned m)" and "(guest, gpa) \<notin> dom (by_gpa m)"
  shows "exclusive_ownership (ghost_map m guest gpa frame)"
proof (rule exclusive_ownershipI)
  fix f g assume "owned (ghost_map m guest gpa frame) f = Some g"
  then show "\<exists>a. by_gpa (ghost_map m guest gpa frame) (g, a) = Some f"
    using assms exclusive_ownershipD(1) [OF assms(1), of f g]
    by (auto simp: ghost_map_def split: if_splits)
next
  fix g a f assume "by_gpa (ghost_map m guest gpa frame) (g, a) = Some f"
  then show "owned (ghost_map m guest gpa frame) f = Some g"
    using assms exclusive_ownershipD(2) [OF assms(1), of g a f]
    by (auto simp: ghost_map_def split: if_splits)
next
  fix g a a' f
  assume "by_gpa (ghost_map m guest gpa frame) (g, a) = Some f"
    "by_gpa (ghost_map m guest gpa frame) (g, a') = Some f"
  then show "a = a'"
    using assms exclusive_ownershipD(2,3) [OF assms(1)]
    by (auto simp: ghost_map_def split: if_splits)
qed

lemma ghost_unmap_exclusive:
  assumes "exclusive_ownership m" and "by_gpa m (guest, gpa) = Some frame"
  shows "exclusive_ownership (ghost_unmap m guest gpa)"
proof (rule exclusive_ownershipI)
  fix f g assume "owned (ghost_unmap m guest gpa) f = Some g"
  then have "owned m f = Some g" "f \<noteq> frame"
    using assms(2) by (auto simp: ghost_unmap_def split: if_splits)
  moreover from this obtain a where "by_gpa m (g, a) = Some f"
    using exclusive_ownershipD(1) [OF assms(1)] by blast
  ultimately have "by_gpa (ghost_unmap m guest gpa) (g, a) = Some f"
    using assms(2) by (auto simp: ghost_unmap_def)
  then show "\<exists>a. by_gpa (ghost_unmap m guest gpa) (g, a) = Some f" ..
next
  fix g a f assume *: "by_gpa (ghost_unmap m guest gpa) (g, a) = Some f"
  then have "by_gpa m (g, a) = Some f" "(g, a) \<noteq> (guest, gpa)"
    by (auto simp: ghost_unmap_def split: if_splits)
  moreover from this have "f \<noteq> frame"
    using assms exclusive_ownershipD(3) [OF assms(1)] by blast
  ultimately show "owned (ghost_unmap m guest gpa) f = Some g"
    using assms exclusive_ownershipD(2) [OF assms(1)] by (simp add: ghost_unmap_def)
next
  fix g a a' f
  assume "by_gpa (ghost_unmap m guest gpa) (g, a) = Some f"
    "by_gpa (ghost_unmap m guest gpa) (g, a') = Some f"
  then show "a = a'"
    using exclusive_ownershipD(3) [OF assms(1)]
    by (auto simp: ghost_unmap_def split: if_splits)
qed

lemma apply_step_exclusive:
  assumes "exclusive_ownership m" and "step_enabled m s"
  shows "exclusive_ownership (apply_step m s)"
  using assms
  by (cases s) (auto intro!: ghost_map_exclusive ghost_unmap_exclusive)

lemma fold_steps_exclusive:
  "exclusive_ownership m \<Longrightarrow> steps_ok m ss \<Longrightarrow> exclusive_ownership (fold_steps m ss)"
  by (induction ss arbitrary: m) (auto simp: apply_step_exclusive)

lemma fold_steps_append: "fold_steps m (xs @ ys) = fold_steps (fold_steps m xs) ys"
  by (induction xs arbitrary: m) auto

lemma steps_ok_append: "steps_ok m (xs @ ys) \<longleftrightarrow> steps_ok m xs \<and> steps_ok (fold_steps m xs) ys"
  by (induction xs arbitrary: m) auto

lemma transfer_preserves_exclusive:
  assumes "exclusive_ownership m" and "transfer_enabled m s"
  shows "exclusive_ownership (apply_transfer m s)"
    and "transfer_posts m s (apply_transfer m s)"
proof -
  from assms(2) obtain frame where f: "by_gpa m (src_guest s, src_gpa s) = Some frame"
    by (auto simp: transfer_enabled_def)
  define m1 where "m1 = ghost_unmap m (src_guest s) (src_gpa s)"
  have "exclusive_ownership m1"
    unfolding m1_def by (rule ghost_unmap_exclusive [OF assms(1) f])
  moreover have "frame \<notin> dom (owned m1)" "(dst_guest s, dst_gpa s) \<notin> dom (by_gpa m1)"
    using assms(2) f by (auto simp: m1_def ghost_unmap_def transfer_enabled_def)
  ultimately show "exclusive_ownership (apply_transfer m s)"
    using f by (auto simp: apply_transfer_def m1_def [symmetric] intro: ghost_map_exclusive)
  show "transfer_posts m s (apply_transfer m s)"
    using assms(2) f
    by (auto simp: transfer_posts_def apply_transfer_def ghost_map_def ghost_unmap_def
        transfer_enabled_def)
qed

end
