(* ===== verification/Frame_Alloc.thy ===== *)
theory Frame_Alloc
  imports Phys_Mem Ept_Ghost
begin

text \<open>
  The bitmap frame allocator of \<open>memory/frame_allocator.rs\<close>.  An allocator is the
  record of its fields together with the physical memory that holds its bitmap; every
  operation threads both.  The abstraction \<open>fa_pool\<close> reads the set of allocated
  frames out of the bitmap, and the locale \<open>frame_pool\<close> is the contract of the ghost
  frame pool that the allocator is shown to implement.
\<close>

type_synonym PhysFrame = u64

definition from_phys :: "u64 \<Rightarrow> PhysFrame" where
  "from_phys phys = drop_bit 12 phys"

definition to_phys :: "PhysFrame \<Rightarrow> u64" where
  "to_phys f = push_bit 12 f"

datatype AllocError = Oom | InvalidFrame | DoubleFree | Bootstrap

record FrameAllocator =
  base_frame :: u64
  capacity :: u64
  bitmap_phys :: u64
  bitmap_words :: usize
  allocated_count :: u64
  scan_hint :: u64

type_synonym fa_state = "FrameAllocator \<times> phys_mem"

definition bitmap_pages_needed :: "u64 \<Rightarrow> u64" where
  "bitmap_pages_needed cap =
    (if cap = 0 then 0 else let bytes = (cap + 7) div 8 in (bytes + 4095) div 4096)"

definition fa_new :: "u64 \<Rightarrow> u64 \<Rightarrow> u64 \<Rightarrow> phys_mem \<Rightarrow> (AllocError + FrameAllocator) \<times> phys_mem" where
  "fa_new base_phys cap bitmap m =
    (if cap = 0 \<or> base_phys AND 0xfff \<noteq> 0 then (Inl Bootstrap, m)
     else let words = (cap + 63) div 64 in
       if words = 0 then (Inl Bootstrap, m)
       else (Inr \<lparr>base_frame = drop_bit 12 base_phys, capacity = cap, bitmap_phys = bitmap,
               bitmap_words = words, allocated_count = 0, scan_hint = 0\<rparr>,
             write_bytes m bitmap 0 (unat (words * 8))))"

definition bit_ptr :: "FrameAllocator \<Rightarrow> u64 \<Rightarrow> u64 \<times> u64" where
  "bit_ptr a index = (bitmap_phys a + 8 * (index div 64), index mod 64)"

definition fa_test_bit :: "FrameAllocator \<Rightarrow> phys_mem \<Rightarrow> u64 \<Rightarrow> bool" where
  "fa_test_bit a m index =
    (if capacity a \<le> index then False
     else case bit_ptr a index of (ptr, b) \<Rightarrow> drop_bit (unat b) (load64 m ptr) AND 1 = 1)"

definition fa_set_bit :: "FrameAllocator \<Rightarrow> phys_mem \<Rightarrow> u64 \<Rightarrow> bool \<Rightarrow> phys_mem" where
  "fa_set_bit a m index on =
    (case bit_ptr a index of (ptr, b) \<Rightarrow>
       if on then store64 m ptr (load64 m ptr OR push_bit (unat b) 1)
       else store64 m ptr (load64 m ptr AND NOT (push_bit (unat b) 1)))"

definition contains :: "FrameAllocator \<Rightarrow> PhysFrame \<Rightarrow> bool" where
  "contains a f \<longleftrightarrow> base_frame a \<le> f \<and> f < base_frame a + capacity a"

text \<open>The \<open>while f < end\<close> loop of \<open>owns_phys_range\<close>.\<close>

function owns_scan :: "FrameAllocator \<Rightarrow> u64 \<Rightarrow> u64 \<Rightarrow> bool" where
  "owns_scan a f stop =
    (if f < stop then (if contains a f then True else owns_scan a (f + 1) stop) else False)"
  by pat_completeness auto
termination
proof (relation "measure (\<lambda>(a, f, stop). unat stop - unat f)")
  fix a f and stop :: u64
  assume "f < stop"
  then have "unat f < unat stop" by (simp add: word_less_nat_alt)
  moreover from this have "unat (f + 1) = unat f + 1"
    using unat_u64_bound [of stop] by (subst unat_add_small) simp_all
  ultimately show "((a, f + 1, stop), a, f, stop) \<in> measure (\<lambda>(a, f, stop). unat stop - unat f)"
    by simp
qed simp

definition owns_phys_range :: "FrameAllocator \<Rightarrow> u64 \<Rightarrow> u64 \<Rightarrow> bool" where
  "owns_phys_range a phys len =
    (if len = 0 then False
     else owns_scan a (phys div 4096) (div_ceil (saturating_add phys len) 4096))"

definition index_of :: "FrameAllocator \<Rightarrow> PhysFrame \<Rightarrow> u64 option" where
  "index_of a f = (if \<not> contains a f then None else Some (f - base_frame a))"

definition is_allocated :: "FrameAllocator \<Rightarrow> phys_mem \<Rightarrow> PhysFrame \<Rightarrow> bool" where
  "is_allocated a m f = (case index_of a f of Some i \<Rightarrow> fa_test_bit a m i | None \<Rightarrow> False)"

text \<open>The bounded \<open>for\<close> loops that return at the first hit are a \<open>find\<close> over the
  indices in the order the loop visits them.\<close>

fun allocate_frame :: "fa_state \<Rightarrow> PhysFrame option \<times> fa_state" where
  "allocate_frame (a, m) =
    (if capacity a \<le> allocated_count a then (None, (a, m))
     else case find (\<lambda>i. \<not> fa_test_bit a m i)
                 (map (\<lambda>off. (scan_hint a + of_nat off) mod capacity a) [0..<unat (capacity a)]) of
       Some i \<Rightarrow>
         (Some (base_frame a + i),
          (a\<lparr>allocated_count := allocated_count a + 1, scan_hint := (i + 1) mod capacity a\<rparr>,
           fa_set_bit a m i True))
     | None \<Rightarrow> (None, (a, m)))"

definition run_is_free :: "FrameAllocator \<Rightarrow> phys_mem \<Rightarrow> u64 \<Rightarrow> u64 \<Rightarrow> bool" where
  "run_is_free a m start n \<longleftrightarrow> list_all (\<lambda>j. \<not> fa_test_bit a m (start + of_nat j)) [0..<unat n]"

definition mark_run :: "FrameAllocator \<Rightarrow> phys_mem \<Rightarrow> u64 \<Rightarrow> u64 \<Rightarrow> phys_mem" where
  "mark_run a m start n = fold (\<lambda>j m. fa_set_bit a m (start + of_nat j) True) [0..<unat n] m"

fun allocate_contiguous_aligned :: "fa_state \<Rightarrow> u64 \<Rightarrow> u64 \<Rightarrow> PhysFrame option \<times> fa_state" where
  "allocate_contiguous_aligned (a, m) n align_pages =
    (if n = 0 \<or> align_pages = 0 \<or> align_pages AND (align_pages - 1) \<noteq> 0 then (None, (a, m))
     else if n = 1 \<and> align_pages = 1 then allocate_frame (a, m)
     else if capacity a < n \<or> capacity a < allocated_count a + n then (None, (a, m))
     else let max_start = capacity a - n in
       case find (\<lambda>start. (base_frame a + start) AND (align_pages - 1) = 0 \<and> run_is_free a m start n)
              (map of_nat [0..<Suc (unat max_start)]) of
         Some start \<Rightarrow>
           (Some (base_frame a + start),
            (a\<lparr>allocated_count := allocated_count a + n, scan_hint := (start + n) mod capacity a\<rparr>,
             mark_run a m start n))
       | None \<Rightarrow> (None, (a, m)))"

definition allocate_contiguous :: "fa_state \<Rightarrow> u64 \<Rightarrow> PhysFrame option \<times> fa_state" where
  "allocate_contiguous s n = allocate_contiguous_aligned s n 1"

fun free_frame :: "fa_state \<Rightarrow> PhysFrame \<Rightarrow> (AllocError + unit) \<times> fa_state" where
  "free_frame (a, m) f =
    (case index_of a f of
       None \<Rightarrow> (Inl InvalidFrame, (a, m))
     | Some i \<Rightarrow>
         if \<not> fa_test_bit a m i then (Inl DoubleFree, (a, m))
         else (Inr (),
           (a\<lparr>allocated_count := allocated_count a - 1, scan_hint := i\<rparr>, fa_set_bit a m i False)))"

text \<open>\<open>run_allocator_selftest\<close>; the last component is the static \<open>ALLOC_SELFTEST_OK\<close>.\<close>

definition run_allocator_selftest ::
  "fa_state \<Rightarrow> bool \<Rightarrow> (AllocError + unit) \<times> fa_state \<times> bool" where
  "run_allocator_selftest s0 ok =
    (case allocate_frame s0 of
       (None, s1) \<Rightarrow> (Inl Oom, s1, ok)
     | (Some f1, s1) \<Rightarrow>
     case allocate_frame s1 of
       (None, s2) \<Rightarrow> (Inl Oom, s2, ok)
     | (Some f2, s2) \<Rightarrow>
     if f1 = f2 \<or> \<not> is_allocated (fst s2) (snd s2) f1 \<or> \<not> is_allocated (fst s2) (snd s2) f2
     then (Inl Bootstrap, s2, ok)
     else case free_frame s2 f1 of
       (Inl e, s3) \<Rightarrow> (Inl e, s3, ok)
     | (Inr _, s3) \<Rightarrow>
     case free_frame s3 f1 of
       (Inr _, s4) \<Rightarrow> (Inl DoubleFree, s4, ok)
     | (Inl e, s4) \<Rightarrow>
     if e \<noteq> DoubleFree then (Inl e, s4, ok)
     else case allocate_frame s4 of
       (None, s5) \<Rightarrow> (Inl Oom, s5, ok)
     | (Some f3, s5) \<Rightarrow>
     if f3 \<noteq> f1 then (Inl Bootstrap, s5, ok)
     else case free_frame s5 f2 of
       (Inl e, s6) \<Rightarrow> (Inl e, s6, ok)
     | (Inr _, s6) \<Rightarrow>
     case free_frame s6 f3 of
       (Inl e, s7) \<Rightarrow> (Inl e, s7, ok)
     | (Inr _, s7) \<Rightarrow>
     if allocated_count (fst s7) \<noteq> allocated_count (fst s0) then (Inl Bootstrap, s7, ok)
     else (Inr (), s7, True))"

declare allocate_frame.simps [simp del] allocate_contiguous_aligned.simps [simp del]
  owns_scan.simps [simp del]

section \<open>Bits of the bitmap\<close>

lemma drop_bit_and_1 [simp]: "drop_bit n (w :: 'a::len word) AND 1 = 1 \<longleftrightarrow> bit w n"
proof -
  have "drop_bit n w AND 1 = of_bool (bit w n)"
    by (simp add: and_one_eq bit_iff_odd_drop_bit mod2_eq_if)
  then show ?thesis by simp
qed

lemma fa_test_bit_iff:
  "fa_test_bit a m i \<longleftrightarrow>
     i < capacity a \<and> bit (load64 m (bitmap_phys a + 8 * (i div 64))) (unat (i mod 64))"
  by (auto simp: fa_test_bit_def bit_ptr_def)

lemma bitmap_word_apart:
  fixes i j :: u64
  assumes "i div 64 \<noteq> j div 64"
  shows "qword_apart (b + 8 * (i div 64)) (b + 8 * (j div 64))"
proof -
  have u: "unat (8 * (k div 64)) = 8 * (unat k div 64)" for k :: u64
    using unat_u64_bound [of k] by (subst unat_mult_small) (simp_all add: unat_div_distrib)
  have lt: "8 * (unat k div 64) < 2 ^ 62" for k :: u64
    using unat_u64_bound [of k] by simp
  have ne: "unat i div 64 \<noteq> unat j div 64"
    using assms by (auto simp: word_unat_eq_iff unat_div_distrib)
  have "qword_apart (8 * (i div 64)) (8 * (j div 64))"
  proof (cases "unat i div 64 < unat j div 64")
    case True
    then show ?thesis using lt [of j] by (intro qword_apartI) (simp_all add: u)
  next
    case False
    then show ?thesis using lt [of i] ne
      by (intro qword_apart_sym [OF qword_apartI]) (simp_all add: u)
  qed
  then show ?thesis by (simp add: qword_apart_def)
qed

lemma bit_or_single:
  "bit (w OR 2 ^ k :: 'a::len word) n \<longleftrightarrow> bit w n \<or> n = k \<and> n < LENGTH('a)"
  by (auto simp: bit_or_iff bit_exp_iff)

lemma bit_and_not_single:
  "bit (w AND NOT (2 ^ k) :: 'a::len word) n \<longleftrightarrow> bit w n \<and> n \<noteq> k"
  by (auto simp: bit_and_iff bit_not_iff bit_exp_iff dest: bit_imp_le_length)

lemma u64_split_64:
  fixes i j :: u64
  assumes "i div 64 = j div 64" and "unat (i mod 64) = unat (j mod 64)"
  shows "i = j"
proof (rule word_eq_unatI)
  have "unat i div 64 = unat j div 64" "unat i mod 64 = unat j mod 64"
    using assms by (simp_all add: word_unat_eq_iff unat_div_distrib unat_mod_distrib)
  then show "unat i = unat j" by (metis div_mult_mod_eq)
qed

lemma fa_test_bit_set_bit:
  assumes "i < capacity a" and "j < capacity a"
  shows "fa_test_bit a (fa_set_bit a m i v) j = (if j = i then v else fa_test_bit a m j)"
proof (cases "i div 64 = j div 64")
  case True
  define p where "p = bitmap_phys a + 8 * (j div 64)"
  have "load64 (fa_set_bit a m i v) p =
      (if v then load64 m p OR push_bit (unat (i mod 64)) 1
       else load64 m p AND NOT (push_bit (unat (i mod 64)) 1))"
    using True by (simp add: fa_set_bit_def bit_ptr_def p_def pm.load_store_same)
  moreover have "unat (j mod 64) < 64" by (simp add: unat_mod_distrib)
  ultimately have "bit (load64 (fa_set_bit a m i v) p) (unat (j mod 64)) \<longleftrightarrow>
      (if unat (j mod 64) = unat (i mod 64) then v else bit (load64 m p) (unat (j mod 64)))"
    by (simp add: bit_or_single bit_and_not_single)
  moreover have "unat (j mod 64) = unat (i mod 64) \<longleftrightarrow> j = i"
    using u64_split_64 [of j i] True by auto
  ultimately show ?thesis
    using assms by (simp add: fa_test_bit_iff p_def)
next
  case False
  then have "i \<noteq> j" by auto
  moreover have "load64 (fa_set_bit a m i v) (bitmap_phys a + 8 * (j div 64)) =
      load64 m (bitmap_phys a + 8 * (j div 64))"
    using bitmap_word_apart [OF False]
    by (simp add: fa_set_bit_def bit_ptr_def pm.load_store_apart)
  ultimately show ?thesis by (simp add: fa_test_bit_iff)
qed

lemma fa_test_bit_update [simp]:
  "fa_test_bit (a\<lparr>allocated_count := c\<rparr>) = fa_test_bit a"
  "fa_test_bit (a\<lparr>scan_hint := h\<rparr>) = fa_test_bit a"
  "fa_test_bit (a\<lparr>allocated_count := c, scan_hint := h\<rparr>) = fa_test_bit a"
  by (auto simp: fa_test_bit_def bit_ptr_def fun_eq_iff)

lemma fa_test_bit_bound: "fa_test_bit a m i \<Longrightarrow> i < capacity a"
  by (simp add: fa_test_bit_iff)

section \<open>Invariant and abstraction\<close>

text \<open>Frame numbers are 64-bit physical addresses shifted by 12, so a pool ends at or below
  frame \<open>2^52\<close>.\<close>

definition fa_wf :: "FrameAllocator \<Rightarrow> bool" where
  "fa_wf a \<longleftrightarrow> 0 < capacity a \<and> unat (base_frame a) + unat (capacity a) \<le> 2 ^ 52 \<and>
     bitmap_words a = (capacity a + 63) div 64 \<and> scan_hint a < capacity a"

fun fa_inv :: "fa_state \<Rightarrow> bool" where
  "fa_inv (a, m) \<longleftrightarrow> fa_wf a \<and> unat (allocated_count a) = card {i. fa_test_bit a m i}"

fun fa_pool :: "fa_state \<Rightarrow> GhostFramePool" where
  "fa_pool (a, m) = \<lparr>pool_base = base_frame a, pool_capacity = capacity a,
     pool_allocated = {f. is_allocated a m f}\<rparr>"

lemma fa_wf_bounds:
  assumes "fa_wf a"
  shows "unat (capacity a) \<le> 2 ^ 52" "unat (base_frame a) \<le> 2 ^ 52"
    "0 < unat (capacity a)" "unat (scan_hint a) < unat (capacity a)"
    "unat (base_frame a + capacity a) = unat (base_frame a) + unat (capacity a)"
  using assms
  by (auto simp: fa_wf_def unat_gt_0 word_less_nat_alt unat_add_small)

lemma base_plus_index:
  assumes "fa_wf a" and "i < capacity a"
  shows "unat (base_frame a + i) = unat (base_frame a) + unat i"
    and "contains a (base_frame a + i)" and "base_frame a + i - base_frame a = i"
proof -
  have i: "unat i < unat (capacity a)" using assms(2) by (simp add: word_less_nat_alt)
  then show u: "unat (base_frame a + i) = unat (base_frame a) + unat i"
    using fa_wf_bounds [OF assms(1)] by (intro unat_add_small) simp
  show "contains a (base_frame a + i)"
    using i u fa_wf_bounds [OF assms(1)]
    by (simp add: contains_def word_le_nat_alt word_less_nat_alt)
qed simp

lemma contains_iff:
  assumes "fa_wf a"
  shows "contains a f \<longleftrightarrow> (\<exists>i < capacity a. f = base_frame a + i)"
proof
  assume "contains a f"
  then have "base_frame a \<le> f" "unat f < unat (base_frame a) + unat (capacity a)"
    using fa_wf_bounds(5) [OF assms] by (simp_all add: contains_def word_less_nat_alt)
  then have "f - base_frame a < capacity a"
    by (simp add: word_less_nat_alt word_le_nat_alt unat_sub_le)
  then show "\<exists>i < capacity a. f = base_frame a + i"
    by (intro exI [of _ "f - base_frame a"]) simp
qed (auto simp: base_plus_index [OF assms])

lemma pool_contains_fa_pool:
  "fa_wf a \<Longrightarrow> pool_contains (fa_pool (a, m)) f \<longleftrightarrow> contains a f"
  using fa_wf_bounds(5) [of a]
  by (simp add: pool_contains_def contains_def word_less_nat_alt)

lemma is_allocated_iff:
  "is_allocated a m f \<longleftrightarrow> contains a f \<and> fa_test_bit a m (f - base_frame a)"
  by (simp add: is_allocated_def index_of_def)

lemma is_allocated_index:
  assumes "fa_wf a" and "i < capacity a"
  shows "is_allocated a m (base_frame a + i) \<longleftrightarrow> fa_test_bit a m i"
  using base_plus_index [OF assms] by (simp add: is_allocated_iff)

lemma allocated_image:
  assumes "fa_wf a"
  shows "{f. is_allocated a m f} = (\<lambda>i. base_frame a + i) ` {i. fa_test_bit a m i}"
  using is_allocated_index [OF assms] contains_iff [OF assms]
  by (auto simp: is_allocated_iff image_iff dest: fa_test_bit_bound)

lemma fa_pool_well_formed: "fa_wf a \<Longrightarrow> pool_well_formed (fa_pool (a, m))"
  using pool_contains_fa_pool [of a m]
  by (auto simp: pool_well_formed_def is_allocated_iff fa_wf_def)

lemma fa_wf_update:
  assumes "fa_wf a" and "h < capacity a"
  shows "fa_wf (a\<lparr>allocated_count := c, scan_hint := h\<rparr>)"
  using assms by (simp add: fa_wf_def)

lemma mod_capacity_less: "fa_wf a \<Longrightarrow> x mod capacity a < capacity a"
  by (auto simp: fa_wf_def word_less_nat_alt unat_mod_distrib)

text \<open>A change of the bitmap by \<open>S\<close> is reflected in the pool and in the number of set bits.\<close>

lemma allocated_indices_set:
  assumes "i < capacity a"
  shows "{j. fa_test_bit a (fa_set_bit a m i True) j} = insert i {j. fa_test_bit a m j}"
    and "{j. fa_test_bit a (fa_set_bit a m i False) j} = {j. fa_test_bit a m j} - {i}"
  using assms fa_test_bit_set_bit [of i a _ m] fa_test_bit_bound [of a]
  by (auto, metis+)

lemma is_allocated_update [simp]:
  "is_allocated (a\<lparr>allocated_count := c, scan_hint := h\<rparr>) = is_allocated a"
  by (simp add: fun_eq_iff is_allocated_iff contains_def)

lemma fa_pool_update:
  assumes "fa_wf a"
  shows "fa_pool (a\<lparr>allocated_count := c, scan_hint := h\<rparr>, m') =
    (fa_pool (a, m))\<lparr>pool_allocated := (\<lambda>i. base_frame a + i) ` {i. fa_test_bit a m' i}\<rparr>"
  using allocated_image [OF assms, of m'] by simp

section \<open>Scanning the bitmap\<close>

lemma scan_covers:
  assumes "fa_wf a" and "i < capacity a"
  shows "i \<in> (\<lambda>off. (scan_hint a + of_nat off) mod capacity a) ` {0..<unat (capacity a)}"
proof -
  define c h k where "c = unat (capacity a)" and "h = unat (scan_hint a)" and "k = unat i"
  have b: "h < c" "k < c" "c \<le> 2 ^ 52"
    using fa_wf_bounds [OF assms(1)] assms(2) by (simp_all add: c_def h_def k_def word_less_nat_alt)
  define off where "off = (k + c - h) mod c"
  have off: "off < c" using b by (simp add: off_def)
  have "(h + off) mod c = k"
  proof -
    have "(h + off) mod c = (h + (k + c - h)) mod c" by (simp add: off_def mod_add_right_eq)
    also have "\<dots> = k" using b by simp
    finally show ?thesis .
  qed
  moreover have "unat (scan_hint a + of_nat off) = h + off"
    using b off by (subst unat_add_small) (simp_all add: h_def unat_of_nat_small)
  ultimately have "unat ((scan_hint a + of_nat off) mod capacity a) = unat i"
    by (simp add: unat_mod_distrib c_def k_def)
  then have "i = (scan_hint a + of_nat off) mod capacity a" by (simp add: word_eq_unatI)
  with off show ?thesis by (auto simp: c_def)
qed

lemma indices_below: "card {i :: u64. i < c} = unat c"
proof -
  have "{i :: u64. i < c} = of_nat ` {0..<unat c}"
  proof (rule set_eqI, rule iffI)
    fix i :: u64 assume "i \<in> {i. i < c}"
    then show "i \<in> of_nat ` {0..<unat c}"
      by (auto simp: word_less_nat_alt image_iff intro!: bexI [of _ "unat i"])
  next
    fix i :: u64 assume "i \<in> of_nat ` {0..<unat c}"
    then obtain n where n: "i = of_nat n" "n < unat c" by auto
    then have "n < 2 ^ 64" using unat_u64_bound [of c] by simp
    with n show "i \<in> {i. i < c}" by (simp add: word_less_nat_alt unat_of_nat_small)
  qed
  moreover have "inj_on (of_nat :: nat \<Rightarrow> u64) {0..<unat c}"
    using unat_u64_bound [of c]
    by (intro inj_on_inverseI [of _ unat]) (simp add: unat_of_nat_small)
  ultimately show ?thesis by (simp add: card_image)
qed

lemma card_allocated_le: "card {i. fa_test_bit a m i} \<le> unat (capacity a)"
  using card_mono [of "{i. i < capacity a}" "{i. fa_test_bit a m i}"] fa_test_bit_bound [of a m]
  by (auto simp: indices_below)

lemma exists_free_index:
  assumes "card {i. fa_test_bit a m i} < unat (capacity a)"
  shows "\<exists>i < capacity a. \<not> fa_test_bit a m i"
proof (rule ccontr)
  assume "\<not> (\<exists>i < capacity a. \<not> fa_test_bit a m i)"
  then have "{i. fa_test_bit a m i} = {i. i < capacity a}" by (auto dest: fa_test_bit_bound)
  with assms show False by (simp add: indices_below)
qed

text \<open>What one allocation does, on both branches.\<close>

lemma allocate_frame_cases:
  assumes "fa_inv (a, m)"
  obtains (full) "allocate_frame (a, m) = (None, (a, m))" "\<forall>i < capacity a. fa_test_bit a m i"
  | (hit) i where "i < capacity a" "\<not> fa_test_bit a m i"
      "allocate_frame (a, m) = (Some (base_frame a + i),
         (a\<lparr>allocated_count := allocated_count a + 1, scan_hint := (i + 1) mod capacity a\<rparr>,
          fa_set_bit a m i True))"
proof (cases "capacity a \<le> allocated_count a")
  case True
  then have "card {i. fa_test_bit a m i} \<ge> unat (capacity a)"
    using assms by (simp add: word_le_nat_alt)
  then have "{i. fa_test_bit a m i} = {i. i < capacity a}"
    using fa_test_bit_bound [of a m]
    by (intro card_subset_eq) (auto simp: indices_below intro: le_antisym card_allocated_le)
  then show ?thesis using True full by (auto simp: allocate_frame.simps)
next
  case False
  have wf: "fa_wf a" using assms by simp
  define xs where "xs = map (\<lambda>off. (scan_hint a + of_nat off) mod capacity a) [0..<unat (capacity a)]"
  have "\<exists>i < capacity a. \<not> fa_test_bit a m i"
    using False assms by (intro exists_free_index) (simp add: word_le_nat_alt)
  moreover have "set xs = {i. i < capacity a}"
    using scan_covers [OF wf] mod_capacity_less [OF wf] by (auto simp: xs_def)
  ultimately obtain i where i: "find (\<lambda>i. \<not> fa_test_bit a m i) xs = Some i"
    by (metis (mono_tags, lifting) find_None_iff2 mem_Collect_eq not_None_eq)
  then have "i \<in> set xs" and free: "\<not> fa_test_bit a m i"
    by (auto simp: find_Some_iff)
  then have "i < capacity a" using \<open>set xs = _\<close> by simp
  moreover have "allocate_frame (a, m) = (Some (base_frame a + i),
      (a\<lparr>allocated_count := allocated_count a + 1, scan_hint := (i + 1) mod capacity a\<rparr>,
       fa_set_bit a m i True))"
    unfolding allocate_frame.simps xs_def [symmetric] i using False by simp
  ultimately show ?thesis using free hit by blast
qed

lemma allocate_frame_Some:
  assumes "fa_inv s" and "allocate_frame s = (Some f, s')"
  shows "fa_inv s'" and "alloc_enabled (fa_pool s) f" and "fa_pool s' = ghost_allocate (fa_pool s) f"
proof -
  obtain a m where s: "s = (a, m)" by (cases s)
  with assms(1) have inv: "fa_inv (a, m)" and wf: "fa_wf a" by simp_all
  from inv obtain i where i: "i < capacity a" "\<not> fa_test_bit a m i" and f: "f = base_frame a + i"
    and s': "s' = (a\<lparr>allocated_count := allocated_count a + 1, scan_hint := (i + 1) mod capacity a\<rparr>,
      fa_set_bit a m i True)"
    using assms(2) unfolding s by (cases rule: allocate_frame_cases) auto
  have bits: "{j. fa_test_bit a (fa_set_bit a m i True) j} = insert i {j. fa_test_bit a m j}"
    by (rule allocated_indices_set(1) [OF i(1)])
  have "card (insert i {j. fa_test_bit a m j}) = Suc (card {j. fa_test_bit a m j})"
    using i(2) by (subst card_insert_disjoint) auto
  moreover from this have "Suc (card {j. fa_test_bit a m j}) \<le> unat (capacity a)"
    using card_allocated_le [of a "fa_set_bit a m i True"] by (simp add: bits)
  then have "unat (allocated_count a + 1) = Suc (card {j. fa_test_bit a m j})"
    using inv unat_u64_bound [of "capacity a"] by (subst unat_add_small) simp_all
  ultimately show "fa_inv s'"
    using fa_wf_update [OF wf mod_capacity_less [OF wf]] by (simp add: s' bits)
  show "alloc_enabled (fa_pool s) f"
    using i f base_plus_index [OF wf i(1)] is_allocated_index [OF wf i(1)]
      fa_pool_well_formed [OF wf] pool_contains_fa_pool [OF wf, of m f]
    by (simp add: s alloc_enabled_def)
  show "fa_pool s' = ghost_allocate (fa_pool s) f"
    unfolding s s' ghost_allocate_def fa_pool_update [OF wf, of _ _ _ m] bits
    using allocated_image [OF wf, of m] by (simp add: f)
qed

lemma allocate_frame_None:
  assumes "fa_inv s" and "allocate_frame s = (None, s')"
  shows "s' = s" and "pool_contains (fa_pool s) f \<Longrightarrow> f \<in> pool_allocated (fa_pool s)"
proof -
  obtain a m where s: "s = (a, m)" by (cases s)
  with assms(1) have inv: "fa_inv (a, m)" and wf: "fa_wf a" by simp_all
  from inv have "s' = s \<and> (\<forall>i < capacity a. fa_test_bit a m i)"
    using assms(2) unfolding s by (cases rule: allocate_frame_cases) auto
  then show "s' = s" and "pool_contains (fa_pool s) f \<Longrightarrow> f \<in> pool_allocated (fa_pool s)"
    using contains_iff [OF wf] is_allocated_index [OF wf] pool_contains_fa_pool [OF wf]
    by (auto simp: s)
qed

lemma free_frame_allocated:
  assumes "fa_inv s" and "f \<in> pool_allocated (fa_pool s)"
  shows "\<exists>s'. free_frame s f = (Inr (), s') \<and> fa_inv s' \<and> fa_pool s' = ghost_free (fa_pool s) f"
proof -
  obtain a m where s: "s = (a, m)" by (cases s)
  with assms(1) have inv: "fa_inv (a, m)" and wf: "fa_wf a" by simp_all
  obtain i where i: "i < capacity a" and f: "f = base_frame a + i" and set: "fa_test_bit a m i"
    using assms(2) contains_iff [OF wf] is_allocated_index [OF wf] by (auto simp: s is_allocated_iff)
  define s' where "s' = (a\<lparr>allocated_count := allocated_count a - 1, scan_hint := i\<rparr>,
    fa_set_bit a m i False)"
  have run: "free_frame s f = (Inr (), s')"
    using base_plus_index [OF wf i] set by (simp add: s s'_def index_of_def f)
  have bits: "{j. fa_test_bit a (fa_set_bit a m i False) j} = {j. fa_test_bit a m j} - {i}"
    by (rule allocated_indices_set(2) [OF i])
  have "Suc (card ({j. fa_test_bit a m j} - {i})) = card {j. fa_test_bit a m j}"
    using set by (intro card_Suc_Diff1) simp_all
  then have "unat (allocated_count a) = Suc (card ({j. fa_test_bit a m j} - {i}))"
    using inv by (simp only: fa_inv.simps)
  then have "unat (allocated_count a - 1) = card ({j. fa_test_bit a m j} - {i})"
    by (subst unat_sub_le) (simp_all add: word_le_nat_alt)
  then have "fa_inv s'"
    using fa_wf_update [OF wf i] by (simp add: s'_def bits)
  moreover have "fa_pool s' = ghost_free (fa_pool s) f"
    unfolding s s'_def ghost_free_def fa_pool_update [OF wf, of _ _ _ m] bits
    using allocated_image [OF wf, of m] by (auto simp: f)
  ultimately show ?thesis using run by blast
qed

lemma free_frame_error:
  assumes "fa_inv s" and "f \<notin> pool_allocated (fa_pool s)"
  shows "free_frame s f =
    (Inl (if pool_contains (fa_pool s) f then DoubleFree else InvalidFrame), s)"
proof -
  obtain a m where s: "s = (a, m)" by (cases s)
  with assms show ?thesis
    using pool_contains_fa_pool [of a m f]
    by (auto simp: index_of_def is_allocated_iff simp del: fa_pool.simps split: if_splits)
      (simp_all add: is_allocated_iff)
qed

section \<open>Contiguous runs\<close>

definition frame_run :: "PhysFrame \<Rightarrow> u64 \<Rightarrow> PhysFrame set" where
  "frame_run f n = (\<lambda>j. f + of_nat j) ` {0..<unat n}"

lemma fa_test_bit_fold_set:
  assumes "\<And>j. j \<in> set js \<Longrightarrow> idx j < capacity a"
  shows "{k. fa_test_bit a (fold (\<lambda>j m. fa_set_bit a m (idx j) True) js m) k} =
    idx ` set js \<union> {k. fa_test_bit a m k}"
  using assms
proof (induction js arbitrary: m)
  case (Cons j js)
  have "{k. fa_test_bit a (fa_set_bit a m (idx j) True) k} = insert (idx j) {k. fa_test_bit a m k}"
    using Cons.prems by (intro allocated_indices_set) simp
  with Cons show ?case by auto
qed simp

lemma run_index:
  fixes start n cap :: u64
  assumes "unat start + unat n \<le> unat cap" and "j < unat n"
  shows "unat (start + of_nat j) = unat start + j" and "start + of_nat j < cap"
proof -
  have "j < 2 ^ 64" using assms unat_u64_bound [of n] by simp
  moreover have "unat start + j < 2 ^ 64" using assms unat_u64_bound [of cap] by simp
  ultimately show "unat (start + of_nat j) = unat start + j"
    by (subst unat_add_small) (simp_all add: unat_of_nat_small)
  with assms show "start + of_nat j < cap" by (simp add: word_less_nat_alt)
qed

lemma run_indices_card:
  fixes start n cap :: u64
  assumes "unat start + unat n \<le> unat cap"
  shows "card ((\<lambda>j. start + of_nat j) ` {0..<unat n}) = unat n"
proof -
  have "inj_on (\<lambda>j. start + of_nat j :: u64) {0..<unat n}"
    using run_index(1) [OF assms] by (intro inj_onI) (metis add_left_cancel atLeastLessThan_iff)
  then show ?thesis by (simp add: card_image)
qed

text \<open>The outer loop tries every start up to \<open>capacity - n\<close> in order.\<close>

lemma find_start_Some:
  fixes n cap start :: u64
  assumes "n \<le> cap" and "find P (map of_nat [0..<Suc (unat (cap - n))]) = Some start"
  shows "P start" and "unat start + unat n \<le> unat cap"
proof -
  from assms(2) have "P start" and "start \<in> set (map of_nat [0..<Suc (unat (cap - n))])"
    unfolding find_Some_iff by (blast, metis nth_mem)
  then obtain x where x: "x \<le> unat (cap - n)" "start = of_nat x"
    by (auto simp: less_Suc_eq_le simp del: upt_Suc)
  show "P start" by fact
  have "unat start = x"
    using x unat_u64_bound [of "cap - n"] by (simp add: unat_of_nat_small)
  with x assms(1) show "unat start + unat n \<le> unat cap"
    by (simp add: unat_sub_le word_le_nat_alt)
qed

lemma find_start_None:
  fixes n cap start :: u64
  assumes "find P (map of_nat [0..<Suc (unat (cap - n))]) = None"
    and "unat start + unat n \<le> unat cap"
  shows "\<not> P start"
proof -
  have "unat start \<le> unat (cap - n)"
    using assms(2) by (simp add: unat_sub_le word_le_nat_alt)
  then have "start \<in> set (map of_nat [0..<Suc (unat (cap - n))])"
    by (auto simp: less_Suc_eq_le image_iff simp del: upt_Suc intro!: bexI [of _ "unat start"])
  with assms(1) show ?thesis unfolding find_None_iff by blast
qed

lemma run_is_free_iff:
  "run_is_free a m start n \<longleftrightarrow> (\<lambda>j. start + of_nat j) ` {0..<unat n} \<inter> {k. fa_test_bit a m k} = {}"
  by (auto simp: run_is_free_def list_all_iff)

lemma free_run_count:
  assumes "fa_inv (a, m)" and "unat start + unat n \<le> unat (capacity a)" and "run_is_free a m start n"
  shows "unat (allocated_count a) + unat n \<le> unat (capacity a)"
proof -
  let ?R = "(\<lambda>j. start + of_nat j) ` {0..<unat n}"
  have "?R \<union> {k. fa_test_bit a m k} \<subseteq> {i. i < capacity a}"
    using run_index(2) [OF assms(2)] by (auto dest: fa_test_bit_bound)
  then have "card (?R \<union> {k. fa_test_bit a m k}) \<le> unat (capacity a)"
    using card_mono [of "{i. i < capacity a}"] by (simp add: indices_below)
  moreover have "card (?R \<union> {k. fa_test_bit a m k}) = unat n + unat (allocated_count a)"
    using assms by (subst card_Un_disjoint) (simp_all add: run_is_free_iff run_indices_card)
  ultimately show ?thesis by simp
qed

lemma mark_run_bits:
  assumes "unat start + unat n \<le> unat (capacity a)"
  shows "{k. fa_test_bit a (mark_run a m start n) k} =
    (\<lambda>j. start + of_nat j) ` {0..<unat n} \<union> {k. fa_test_bit a m k}"
  unfolding mark_run_def using run_index(2) [OF assms]
  by (subst fa_test_bit_fold_set) auto

lemma fa_pool_mark_run:
  assumes "fa_wf a" and "unat start + unat n \<le> unat (capacity a)"
  shows "pool_allocated (fa_pool (a\<lparr>allocated_count := c, scan_hint := h\<rparr>, mark_run a m start n)) =
    pool_allocated (fa_pool (a, m)) \<union> frame_run (base_frame a + start) n"
  unfolding fa_pool_update [OF assms(1), of _ _ _ m] mark_run_bits [OF assms(2)]
  using allocated_image [OF assms(1), of m]
  by (auto simp: frame_run_def image_image image_Un add.assoc)

text \<open>A granted run was free, lies in the pool, is aligned, and is exactly what was added.\<close>

lemma contiguous_Some:
  assumes "fa_inv s" and "allocate_contiguous_aligned s n align_pages = (Some f, s')"
  shows "fa_inv s'" and "f AND (align_pages - 1) = 0"
    and "frame_run f n \<subseteq> {g. pool_contains (fa_pool s) g}"
    and "frame_run f n \<inter> pool_allocated (fa_pool s) = {}"
    and "pool_allocated (fa_pool s') = pool_allocated (fa_pool s) \<union> frame_run f n"
proof -
  obtain a m where s: "s = (a, m)" by (cases s)
  with assms(1) have inv: "fa_inv (a, m)" and wf: "fa_wf a" by simp_all
  have "fa_inv s' \<and> f AND (align_pages - 1) = 0 \<and>
    frame_run f n \<subseteq> {g. pool_contains (fa_pool s) g} \<and>
    frame_run f n \<inter> pool_allocated (fa_pool s) = {} \<and>
    pool_allocated (fa_pool s') = pool_allocated (fa_pool s) \<union> frame_run f n"
  proof (cases "n = 1 \<and> align_pages = 1")
    case True
    then have run: "allocate_frame s = (Some f, s')"
      using assms(2) by (simp add: s allocate_contiguous_aligned.simps)
    show ?thesis
      using allocate_frame_Some [OF assms(1) run] True
      by (simp add: frame_run_def alloc_enabled_def ghost_allocate_def)
  next
    case False
    let ?P = "\<lambda>start. (base_frame a + start) AND (align_pages - 1) = 0 \<and> run_is_free a m start n"
    from False assms(2) obtain start where
      le: "n \<le> capacity a" and hit: "find ?P (map of_nat [0..<Suc (unat (capacity a - n))]) = Some start"
      and f: "f = base_frame a + start"
      and s': "s' = (a\<lparr>allocated_count := allocated_count a + n,
        scan_hint := (start + n) mod capacity a\<rparr>, mark_run a m start n)"
      by (auto simp: s allocate_contiguous_aligned.simps Let_def simp del: upt_Suc
          split: if_splits option.splits)
    note P = find_start_Some [OF le hit]
    have free: "run_is_free a m start n" and bound: "unat start + unat n \<le> unat (capacity a)"
      using P by simp_all
    have count: "unat (allocated_count a) + unat n \<le> unat (capacity a)"
      by (rule free_run_count [OF inv bound free])
    have bits: "{k. fa_test_bit a (mark_run a m start n) k} =
        (\<lambda>j. start + of_nat j) ` {0..<unat n} \<union> {k. fa_test_bit a m k}"
      by (rule mark_run_bits [OF bound])
    have "unat (allocated_count a + n) = card {k. fa_test_bit a (mark_run a m start n) k}"
      unfolding bits using count free inv unat_u64_bound [of "capacity a"]
      by (subst unat_add_small) (simp_all add: card_Un_disjoint run_is_free_iff
          run_indices_card [OF bound])
    then have "fa_inv s'"
      using fa_wf_update [OF wf mod_capacity_less [OF wf]] by (simp add: s')
    moreover have "pool_allocated (fa_pool s') = pool_allocated (fa_pool s) \<union> frame_run f n"
      unfolding s s' f by (rule fa_pool_mark_run [OF wf bound])
    moreover have "g \<notin> pool_allocated (fa_pool s) \<and> pool_contains (fa_pool s) g"
      if "g \<in> frame_run f n" for g
    proof -
      from that obtain j where j: "j < unat n" "g = base_frame a + (start + of_nat j)"
        by (auto simp: frame_run_def f add.assoc)
      have lt: "start + of_nat j < capacity a" by (rule run_index(2) [OF bound j(1)])
      have "\<not> fa_test_bit a m (start + of_nat j)"
        using free j(1) by (simp add: run_is_free_def list_all_iff)
      then show ?thesis
        using is_allocated_index [OF wf lt] base_plus_index(2) [OF wf lt]
          pool_contains_fa_pool [OF wf, of m g] by (simp add: s j(2))
    qed
    ultimately show ?thesis using P by (auto simp: f)
  qed
  then show "fa_inv s'" and "f AND (align_pages - 1) = 0"
    and "frame_run f n \<subseteq> {g. pool_contains (fa_pool s) g}"
    and "frame_run f n \<inter> pool_allocated (fa_pool s) = {}"
    and "pool_allocated (fa_pool s') = pool_allocated (fa_pool s) \<union> frame_run f n"
    by blast+
qed

text \<open>A refusal means that no aligned free run of that length exists.\<close>

lemma contiguous_None:
  assumes inv: "fa_inv s" and run: "allocate_contiguous_aligned s n align_pages = (None, s')"
    and n: "n \<noteq> 0" and al: "align_pages \<noteq> 0" "align_pages AND (align_pages - 1) = 0"
    and f: "f AND (align_pages - 1) = 0" "unat f + unat n \<le> 2 ^ 64"
    and in_pool: "frame_run f n \<subseteq> {g. pool_contains (fa_pool s) g}"
  shows "s' = s" and "frame_run f n \<inter> pool_allocated (fa_pool s) \<noteq> {}"
proof -
  obtain a m where s: "s = (a, m)" by (cases s)
  with inv have inv': "fa_inv (a, m)" and wf: "fa_wf a" by simp_all
  have n0: "0 < unat n" using n by (simp add: unat_gt_0)
  have member: "f + of_nat j \<in> frame_run f n" if "j < unat n" for j
    using that by (auto simp: frame_run_def)
  have cont: "contains a (f + of_nat j)" if "j < unat n" for j
    using member [OF that] in_pool pool_contains_fa_pool [OF wf] by (auto simp: s)
  obtain start where start: "start < capacity a" "f = base_frame a + start"
    using cont [of 0] n0 contains_iff [OF wf] by auto
  have bound: "unat start + unat n \<le> unat (capacity a)"
  proof -
    obtain j where j: "unat n = Suc j" using n0 by (cases "unat n") auto
    then have "j < 2 ^ 64" using unat_u64_bound [of n] by simp
    then have "unat (f + of_nat j) = unat f + j"
      using f(2) j by (subst unat_add_small) (simp_all add: unat_of_nat_small)
    moreover have "unat (f + of_nat j) < unat (base_frame a) + unat (capacity a)"
      using cont [of j] j fa_wf_bounds(5) [OF wf]
      by (simp add: contains_def word_less_nat_alt)
    ultimately show ?thesis
      using base_plus_index(1) [OF wf start(1)] start(2) j by simp
  qed
  have hit: "\<not> run_is_free a m start n \<Longrightarrow> frame_run f n \<inter> pool_allocated (fa_pool s) \<noteq> {}"
  proof -
    assume "\<not> run_is_free a m start n"
    then obtain j where j: "j < unat n" "fa_test_bit a m (start + of_nat j)"
      by (auto simp: run_is_free_def list_all_iff)
    then have "is_allocated a m (f + of_nat j)"
      using is_allocated_index [OF wf run_index(2) [OF bound j(1)], of m]
      by (simp add: start(2) add.assoc)
    then show ?thesis using member [OF j(1)] by (auto simp: s)
  qed
  have "s' = s \<and> \<not> run_is_free a m start n"
  proof (cases "n = 1 \<and> align_pages = 1")
    case True
    then have fr: "allocate_frame s = (None, s')"
      using run by (simp add: s allocate_contiguous_aligned.simps)
    have "pool_contains (fa_pool s) f" using in_pool member [of 0] n0 by auto
    then have "is_allocated a m f"
      using allocate_frame_None(2) [OF inv fr] by (simp add: s)
    then show ?thesis
      using allocate_frame_None(1) [OF inv fr] is_allocated_index [OF wf start(1)] True
      by (simp add: start(2) run_is_free_def)
  next
    case False
    show ?thesis
    proof (cases "run_is_free a m start n")
      case True
      note free_run_count [OF inv' bound True]
      then have "\<not> capacity a < n" "\<not> capacity a < allocated_count a + n"
        using unat_u64_bound [of "capacity a"]
        by (simp_all add: word_less_nat_alt unat_add_small)
      then have "find (\<lambda>start. (base_frame a + start) AND (align_pages - 1) = 0 \<and>
          run_is_free a m start n) (map of_nat [0..<Suc (unat (capacity a - n))]) = None"
        using run False n al
        by (auto simp: s allocate_contiguous_aligned.simps Let_def simp del: upt_Suc
            split: option.splits)
      from find_start_None [OF this bound] True f(1) start(2) show ?thesis by simp
    next
      case nofree: False
      with run False show ?thesis
        by (auto simp: s allocate_contiguous_aligned.simps Let_def simp del: upt_Suc
            split: option.splits if_splits)
    qed
  qed
  with hit show "s' = s" and "frame_run f n \<inter> pool_allocated (fa_pool s) \<noteq> {}" by auto
qed

section \<open>A new allocator\<close>

lemma fa_new_ok:
  assumes "cap \<noteq> 0" and "base_phys AND 0xfff = 0"
    and "unat (drop_bit 12 base_phys) + unat cap \<le> 2 ^ 52"
  obtains a where "fa_new base_phys cap bitmap m =
      (Inr a, write_bytes m bitmap 0 (unat ((cap + 63) div 64 * 8)))"
    "fa_inv (a, snd (fa_new base_phys cap bitmap m))"
    "fa_pool (a, snd (fa_new base_phys cap bitmap m)) = pool_empty (drop_bit 12 base_phys) cap"
    "bitmap_phys a = bitmap" "base_frame a = drop_bit 12 base_phys" "capacity a = cap"
proof -
  define a where "a = \<lparr>base_frame = drop_bit 12 base_phys, capacity = cap, bitmap_phys = bitmap,
    bitmap_words = (cap + 63) div 64, allocated_count = 0, scan_hint = 0\<rparr>"
  define m' where "m' = write_bytes m bitmap 0 (unat ((cap + 63) div 64 * 8))"
  have c: "0 < unat cap" "unat cap \<le> 2 ^ 52" using assms by (simp_all add: unat_gt_0)
  have w: "unat ((cap + 63) div 64) = (unat cap + 63) div 64"
    using c by (simp add: unat_div_distrib unat_add_small)
  then have "(cap + 63) div 64 \<noteq> 0" using c by (auto simp: word_unat_eq_iff)
  then have new: "fa_new base_phys cap bitmap m = (Inr a, m')"
    using assms by (simp add: fa_new_def a_def m'_def Let_def)
  have wf: "fa_wf a"
    using assms c by (simp add: fa_wf_def a_def word_less_nat_alt)
  have zero: "load64 m' (bitmap + 8 * (i div 64)) = 0" if "i < cap" for i
  proof (rule load64_zero_range)
    fix k :: nat assume "k < 8"
    have "unat i div 64 < (unat cap + 63) div 64" using that by (simp add: word_less_nat_alt)
    moreover have "unat (8 * (i div 64) + of_nat k) = 8 * (unat i div 64) + k"
      using \<open>k < 8\<close> unat_u64_bound [of i]
      by (simp add: unat_add_small unat_mult_small unat_div_distrib unat_of_nat_small)
    moreover have "unat ((cap + 63) div 64 * 8) = (unat cap + 63) div 64 * 8"
      using w c by (subst unat_mult_small) simp_all
    ultimately show "m' (bitmap + 8 * (i div 64) + of_nat k) = 0"
      using \<open>k < 8\<close> by (simp add: m'_def write_bytes_def)
  qed
  have none: "\<not> fa_test_bit a m' i" for i
    using zero [of i] by (auto simp: fa_test_bit_iff a_def)
  show ?thesis
  proof (rule that [of a])
    show "fa_inv (a, snd (fa_new base_phys cap bitmap m))"
      using wf none by (simp add: new a_def)
    show "fa_pool (a, snd (fa_new base_phys cap bitmap m)) = pool_empty (drop_bit 12 base_phys) cap"
      using none by (simp add: new is_allocated_iff pool_empty_def) (simp add: a_def)
  qed (simp_all add: new m'_def a_def)
qed

section \<open>Address ranges\<close>

lemma owns_scan_iff:
  "owns_scan a f stop \<longleftrightarrow> (\<exists>g. f \<le> g \<and> g < stop \<and> contains a g)"
proof (induction a f stop rule: owns_scan.induct)
  case (1 a f stop)
  show ?case
  proof (cases "f < stop \<and> \<not> contains a f")
    case True
    then have "unat (f + 1) = unat f + 1"
      using unat_u64_bound [of stop] by (subst unat_add_small) (simp_all add: word_less_nat_alt)
    then have "f \<le> g \<longleftrightarrow> g = f \<or> f + 1 \<le> g" for g
      by (auto simp: word_le_nat_alt word_unat_eq_iff)
    with 1 True show ?thesis by (subst owns_scan.simps) auto
  next
    case False
    then show ?thesis by (subst owns_scan.simps) (auto intro: order.strict_trans2)
  qed
qed

section \<open>The contract of a frame pool\<close>

text \<open>Clients draw several frames in a row and give up at the first refusal, as the boot path
  does for the page-table frames.\<close>

fun alloc_many :: "('s \<Rightarrow> PhysFrame option \<times> 's) \<Rightarrow> nat \<Rightarrow> 's \<Rightarrow> PhysFrame list option \<times> 's" where
  "alloc_many alloc 0 s = (Some [], s)"
| "alloc_many alloc (Suc n) s =
    (case alloc s of
       (None, s1) \<Rightarrow> (None, s1)
     | (Some f, s1) \<Rightarrow>
       (case alloc_many alloc n s1 of
          (None, s2) \<Rightarrow> (None, s2)
        | (Some fs, s2) \<Rightarrow> (Some (f # fs), s2)))"

locale frame_pool =
  fixes inv :: "'s \<Rightarrow> bool"
    and pool :: "'s \<Rightarrow> GhostFramePool"
    and alloc :: "'s \<Rightarrow> PhysFrame option \<times> 's"
    and free :: "'s \<Rightarrow> PhysFrame \<Rightarrow> (AllocError + unit) \<times> 's"
  assumes pool_wf: "inv s \<Longrightarrow> pool_well_formed (pool s)"
    and alloc_Some: "inv s \<Longrightarrow> alloc s = (Some f, s') \<Longrightarrow>
      inv s' \<and> alloc_enabled (pool s) f \<and> pool s' = ghost_allocate (pool s) f"
    and alloc_None: "inv s \<Longrightarrow> alloc s = (None, s') \<Longrightarrow>
      s' = s \<and> {f. pool_contains (pool s) f} \<subseteq> pool_allocated (pool s)"
    and free_ok: "inv s \<Longrightarrow> f \<in> pool_allocated (pool s) \<Longrightarrow>
      \<exists>s'. free s f = (Inr (), s') \<and> inv s' \<and> pool s' = ghost_free (pool s) f"
    and free_err: "inv s \<Longrightarrow> f \<notin> pool_allocated (pool s) \<Longrightarrow>
      free s f = (Inl (if pool_contains (pool s) f then DoubleFree else InvalidFrame), s)"
begin

lemma alloc_many_sound:
  "inv s \<Longrightarrow> alloc_many alloc n s = (Some fs, s') \<Longrightarrow>
    inv s' \<and> length fs = n \<and> distinct fs \<and> set fs \<inter> pool_allocated (pool s) = {} \<and>
    set fs \<subseteq> {f. pool_contains (pool s) f} \<and>
    pool s' = (pool s)\<lparr>pool_allocated := pool_allocated (pool s) \<union> set fs\<rparr>"
proof (induction n arbitrary: s fs)
  case (Suc n)
  from Suc.prems(2) obtain f s1 gs where f: "alloc s = (Some f, s1)"
    and gs: "alloc_many alloc n s1 = (Some gs, s')" and fs: "fs = f # gs"
    by (auto split: prod.splits option.splits)
  note step = alloc_Some [OF Suc.prems(1) f]
  then show ?case
    using Suc.IH [OF _ gs] by (auto simp: fs ghost_allocate_def alloc_enabled_def pool_contains_def)
qed auto

lemma alloc_many_complete:
  assumes "inv s" and "n \<le> card ({f. pool_contains (pool s) f} - pool_allocated (pool s))"
  shows "\<exists>fs s'. alloc_many alloc n s = (Some fs, s')"
  using assms
proof (induction n arbitrary: s)
  case (Suc n)
  obtain r s1 where r: "alloc s = (r, s1)" by fastforce
  show ?case
  proof (cases r)
    case None
    then have "{f. pool_contains (pool s) f} - pool_allocated (pool s) = {}"
      using alloc_None [OF Suc.prems(1)] r by blast
    with Suc.prems(2) show ?thesis by simp
  next
    case (Some f)
    note step = alloc_Some [OF Suc.prems(1) r [unfolded Some]]
    let ?F = "{f. pool_contains (pool s) f} - pool_allocated (pool s)"
    have "f \<in> ?F" using step by (simp add: alloc_enabled_def)
    moreover have "{f. pool_contains (pool s1) f} - pool_allocated (pool s1) = ?F - {f}"
      using step by (auto simp: ghost_allocate_def pool_contains_def)
    ultimately have "n \<le> card ({f. pool_contains (pool s1) f} - pool_allocated (pool s1))"
      using Suc.prems(2) by simp
    with Suc.IH step obtain fs s' where "alloc_many alloc n s1 = (Some fs, s')" by blast
    then show ?thesis by (simp add: r Some)
  qed
qed simp

lemma alloc_then_free:
  assumes "inv s" and "alloc s = (Some f, s')"
  shows "\<exists>s''. free s' f = (Inr (), s'') \<and> inv s'' \<and> pool s'' = pool s"
proof -
  note step = alloc_Some [OF assms]
  then obtain s'' where "free s' f = (Inr (), s'')" "inv s''" "pool s'' = ghost_free (pool s') f"
    using free_ok [of s' f] by (auto simp: ghost_allocate_def)
  moreover have "ghost_free (pool s') f = pool s"
    using step by (simp add: ghost_free_def ghost_allocate_def alloc_enabled_def)
  ultimately show ?thesis by auto
qed

end

interpretation fa: frame_pool fa_inv fa_pool allocate_frame free_frame
proof unfold_locales
  show "pool_well_formed (fa_pool s)" if "fa_inv s" for s
    using that by (cases s) (simp only: fa_inv.simps fa_pool_well_formed)
qed (use allocate_frame_Some allocate_frame_None free_frame_allocated free_frame_error in blast)+

section \<open>The self-test\<close>

lemma fa_count:
  assumes "fa_inv s"
  shows "unat (allocated_count (fst s)) = card (pool_allocated (fa_pool s))"
proof -
  obtain a m where s: "s = (a, m)" by (cases s)
  have "card ((\<lambda>i. base_frame a + i) ` {i. fa_test_bit a m i}) = card {i. fa_test_bit a m i}"
    by (rule card_image) (simp add: inj_on_def)
  then show ?thesis using assms allocated_image [of a m] by (simp add: s)
qed

lemma free_frames_card:
  assumes "fa_inv s" and "unat (allocated_count (fst s)) + n \<le> unat (capacity (fst s))"
  shows "n \<le> card ({f. pool_contains (fa_pool s) f} - pool_allocated (fa_pool s))"
proof -
  obtain a m where s: "s = (a, m)" by (cases s)
  have wf: "fa_wf a" using assms(1) by (simp add: s)
  have "{f. pool_contains (fa_pool s) f} = (\<lambda>i. base_frame a + i) ` {i. i < capacity a}"
    using contains_iff [OF wf] pool_contains_fa_pool [OF wf] by (auto simp: s simp del: fa_pool.simps)
  then have "card {f. pool_contains (fa_pool s) f} = unat (capacity a)"
    by (simp add: card_image inj_on_def indices_below)
  moreover have "pool_allocated (fa_pool s) \<subseteq> {f. pool_contains (fa_pool s) f}"
    using fa.pool_wf [OF assms(1)] by (auto simp: pool_well_formed_def)
  ultimately show ?thesis
    using assms fa_count [OF assms(1)] by (simp add: s card_Diff_subset)
qed

lemma allocate_frame_at_hint:
  assumes "fa_inv (a, m)" and "\<not> fa_test_bit a m (scan_hint a)"
  shows "fst (allocate_frame (a, m)) = Some (base_frame a + scan_hint a)"
proof -
  have wf: "fa_wf a" using assms(1) by simp
  have "scan_hint a mod capacity a = scan_hint a"
    using fa_wf_bounds(4) [OF wf] by (simp add: word_unat_eq_iff unat_mod_distrib)
  moreover have "[0..<unat (capacity a)] = 0 # [1..<unat (capacity a)]"
    using fa_wf_bounds(3) [OF wf] by (simp add: upt_conv_Cons)
  ultimately have "find (\<lambda>i. \<not> fa_test_bit a m i)
      (map (\<lambda>off. (scan_hint a + of_nat off) mod capacity a) [0..<unat (capacity a)]) =
      Some (scan_hint a)"
    using assms(2) by simp
  moreover have "\<not> capacity a \<le> allocated_count a"
    using assms wf
    by (cases rule: allocate_frame_cases [OF assms(1)])
      (auto simp: allocate_frame.simps fa_wf_def)
  ultimately show ?thesis by (simp add: allocate_frame.simps)
qed

lemma reallocate_freed:
  assumes "fa_inv s" and "free_frame s f = (Inr (), s')"
  shows "fst (allocate_frame s') = Some f"
proof -
  obtain a m where s: "s = (a, m)" by (cases s)
  from assms have f: "f \<in> pool_allocated (fa_pool s)"
    using free_frame_error [OF assms(1), of f] by (auto split: if_splits)
  then have inv': "fa_inv s'" and alloc': "f \<notin> pool_allocated (fa_pool s')"
    using fa.free_ok [OF assms(1) f] assms(2) by (auto simp: ghost_free_def)
  obtain i where i: "index_of a f = Some i" and s': "s' =
      (a\<lparr>allocated_count := allocated_count a - 1, scan_hint := i\<rparr>, fa_set_bit a m i False)"
    using assms(2) by (auto simp: s split: option.splits if_splits)
  have wf: "fa_wf a" using assms(1) by (simp add: s)
  have fi: "f = base_frame a + i" "i < capacity a"
    using i contains_iff [OF wf] base_plus_index(3) [OF wf]
    by (auto simp: index_of_def split: if_splits)
  have "\<not> fa_test_bit a (fa_set_bit a m i False) i"
    using fi by (simp add: fa_test_bit_set_bit)
  then show ?thesis
    using allocate_frame_at_hint [OF inv' [unfolded s']] fi by (simp add: s')
qed

lemma selftest_run:
  assumes "fa_inv s" and "unat (allocated_count (fst s)) + 2 \<le> unat (capacity (fst s))"
  shows "\<exists>s'. run_allocator_selftest s ok = (Inr (), s', True) \<and> fa_inv s' \<and> fa_pool s' = fa_pool s"
proof -
  let ?free = "\<lambda>s. {f. pool_contains (fa_pool s) f} - pool_allocated (fa_pool s)"
  have "card (?free s) \<ge> 2" by (rule free_frames_card [OF assms])
  then obtain f1 f2 s1 s2 where a1: "allocate_frame s = (Some f1, s1)"
    and a2: "allocate_frame s1 = (Some f2, s2)"
    using fa.alloc_many_complete [OF assms(1), of 2]
    by (auto simp: numeral_2_eq_2 split: prod.splits option.splits)
  note p1 = fa.alloc_Some [OF assms(1) a1]
  note p2 = fa.alloc_Some [OF conjunct1 [OF p1] a2]
  have ne: "f1 \<noteq> f2" "f2 \<noteq> f1" using p1 p2 by (auto simp: alloc_enabled_def ghost_allocate_def)
  have in2: "f1 \<in> pool_allocated (fa_pool s2)" "f2 \<in> pool_allocated (fa_pool s2)"
    using p1 p2 by (auto simp: ghost_allocate_def)
  obtain s3 where f1: "free_frame s2 f1 = (Inr (), s3)" and p3: "fa_inv s3"
    "fa_pool s3 = ghost_free (fa_pool s2) f1"
    using fa.free_ok [OF _ in2(1)] p2 by blast
  have "pool_contains (fa_pool s3) f1"
    using p1 p2 p3 by (simp add: ghost_free_def ghost_allocate_def alloc_enabled_def pool_contains_def)
  then have dbl: "free_frame s3 f1 = (Inl DoubleFree, s3)"
    using fa.free_err [OF p3(1), of f1] p3(2) by (simp add: ghost_free_def)
  obtain s4 where a3: "allocate_frame s3 = (Some f1, s4)"
    using reallocate_freed [OF _ f1] p2 by (metis prod.collapse)
  note p4 = fa.alloc_Some [OF p3(1) a3]
  obtain s5 where f2: "free_frame s4 f2 = (Inr (), s5)" and p5: "fa_inv s5"
    "fa_pool s5 = ghost_free (fa_pool s4) f2"
    using fa.free_ok [of s4 f2] p4 in2 ne by (auto simp: p3 ghost_free_def ghost_allocate_def)
  obtain s6 where f3: "free_frame s5 f1 = (Inr (), s6)" and p6: "fa_inv s6"
    "fa_pool s6 = ghost_free (fa_pool s5) f1"
    using fa.free_ok [of s5 f1] p5 p4 ne by (auto simp: ghost_free_def ghost_allocate_def)
  let ?A = "pool_allocated (fa_pool s)"
  have "f1 \<notin> ?A" "f2 \<notin> ?A" using p1 p2 by (auto simp: alloc_enabled_def ghost_allocate_def)
  then have "insert f1 (insert f2 (insert f1 ?A) - {f1}) - {f2} - {f1} = ?A" using ne by auto
  then have same: "fa_pool s6 = fa_pool s"
    by (simp add: p1 p2 p3 p4 p5 p6 ghost_free_def ghost_allocate_def)
  then have "allocated_count (fst s6) = allocated_count (fst s)"
    using fa_count [OF p6(1)] fa_count [OF assms(1)] by (simp add: word_unat_eq_iff)
  moreover have "is_allocated (fst s2) (snd s2) f1" "is_allocated (fst s2) (snd s2) f2"
    using in2 by (cases s2; simp)+
  ultimately have "run_allocator_selftest s ok = (Inr (), s6, True)"
    using ne by (simp add: run_allocator_selftest_def a1 a2 f1 dbl a3 f2 f3)
  with p6 same show ?thesis by blast
qed

section \<open>A concrete pool\<close>

text \<open>Eight frames at 1 MiB whose bitmap lies at 512 KiB, over zeroed memory.\<close>

definition sample_pool :: fa_state where
  "sample_pool =
    (case fa_new 0x100000 8 0x80000 (\<lambda>_. 0) of (Inr a, m) \<Rightarrow> (a, m) | (Inl _, m) \<Rightarrow> undefined)"

lemma sample_pool_inv:
  shows "fa_inv sample_pool" and "fa_pool sample_pool = pool_empty 0x100 8"
    and "capacity (fst sample_pool) = 8" and "base_frame (fst sample_pool) = 0x100"
proof -
  obtain a where "fa_new 0x100000 8 0x80000 (\<lambda>_. 0) =
      (Inr a, write_bytes (\<lambda>_. 0) 0x80000 0 (unat ((8 + 63 :: u64) div 64 * 8)))"
    "fa_inv (a, snd (fa_new 0x100000 8 0x80000 (\<lambda>_. 0)))"
    "fa_pool (a, snd (fa_new 0x100000 8 0x80000 (\<lambda>_. 0))) = pool_empty (drop_bit 12 0x100000) 8"
    "bitmap_phys a = 0x80000" "base_frame a = drop_bit 12 0x100000" "capacity a = 8"
    by (rule fa_new_ok [where cap = 8 and base_phys = "0x100000" and bitmap = "0x80000" and m = "\<lambda>_. 0"])
      simp_all
  then show "fa_inv sample_pool" and "fa_pool sample_pool = pool_empty 0x100 8"
    and "capacity (fst sample_pool) = 8" and "base_frame (fst sample_pool) = 0x100"
    by (simp_all add: sample_pool_def del: fa_inv.simps fa_pool.simps)
qed

section \<open>Properties\<close>

text \<open>
  C1: Refinement of the ghost pool by \<open>allocate_frame\<close>.  From a consistent allocator it
  either hands out a frame of the pool that was free, marks exactly that frame allocated and
  keeps the invariant, or it changes nothing and every frame of the pool is already allocated.
\<close>

theorem allocate_frame_refines:
  assumes "fa_inv s"
  shows "case allocate_frame s of
      (Some f, s') \<Rightarrow> fa_inv s' \<and> alloc_enabled (fa_pool s) f \<and>
        fa_pool s' = ghost_allocate (fa_pool s) f
    | (None, s') \<Rightarrow> s' = s \<and> {f. pool_contains (fa_pool s) f} \<subseteq> pool_allocated (fa_pool s)"
  using fa.alloc_Some [OF assms] fa.alloc_None [OF assms]
  by (auto split: prod.splits option.splits)

theorem allocate_frame_refines_witness:
  "case allocate_frame sample_pool of
      (Some f, s') \<Rightarrow> fa_inv s' \<and> alloc_enabled (fa_pool sample_pool) f \<and>
        fa_pool s' = ghost_allocate (fa_pool sample_pool) f
    | (None, s') \<Rightarrow> s' = sample_pool \<and>
        {f. pool_contains (fa_pool sample_pool) f} \<subseteq> pool_allocated (fa_pool sample_pool)"
  by (rule allocate_frame_refines [OF sample_pool_inv(1)])

text \<open>
  C2: \<open>free_frame\<close> decides correctly.  An allocated frame is freed and the ghost pool
  loses exactly that frame; a frame of the pool that is not allocated is refused as a double
  free and a foreign frame as invalid, both without any change of state.
\<close>

theorem free_frame_refines:
  assumes "fa_inv s"
  shows "if f \<in> pool_allocated (fa_pool s)
    then \<exists>s'. free_frame s f = (Inr (), s') \<and> fa_inv s' \<and> fa_pool s' = ghost_free (fa_pool s) f
    else free_frame s f =
      (Inl (if pool_contains (fa_pool s) f then DoubleFree else InvalidFrame), s)"
  using fa.free_ok [OF assms] fa.free_err [OF assms] by auto

theorem free_frame_refines_witness:
  "free_frame sample_pool 0x101 = (Inl DoubleFree, sample_pool) \<and>
   free_frame sample_pool 0x200 = (Inl InvalidFrame, sample_pool)"
  using free_frame_refines [OF sample_pool_inv(1), of "0x101"]
    free_frame_refines [OF sample_pool_inv(1), of "0x200"]
  by (simp add: sample_pool_inv(2) pool_empty_def pool_contains_def)

text \<open>
  C3: Contiguous allocation.  For a non-zero length and a power-of-two alignment, a granted
  run starts at an aligned frame, lies in the pool, was entirely free, and is exactly what
  becomes allocated; a refusal changes nothing and no aligned free run of that length exists.
\<close>

theorem allocate_contiguous_aligned_correct:
  assumes "fa_inv s" and "n \<noteq> 0" and "align_pages \<noteq> 0" and "align_pages AND (align_pages - 1) = 0"
  shows "case allocate_contiguous_aligned s n align_pages of
      (Some f, s') \<Rightarrow> fa_inv s' \<and> f AND (align_pages - 1) = 0 \<and>
        frame_run f n \<subseteq> {g. pool_contains (fa_pool s) g} \<and>
        frame_run f n \<inter> pool_allocated (fa_pool s) = {} \<and>
        pool_allocated (fa_pool s') = pool_allocated (fa_pool s) \<union> frame_run f n
    | (None, s') \<Rightarrow> s' = s \<and>
        (\<forall>f. f AND (align_pages - 1) = 0 \<and> unat f + unat n \<le> 2 ^ 64 \<and>
          frame_run f n \<subseteq> {g. pool_contains (fa_pool s) g} \<longrightarrow>
          frame_run f n \<inter> pool_allocated (fa_pool s) \<noteq> {})"
proof -
  obtain r s' where Pair: "allocate_contiguous_aligned s n align_pages = (r, s')"
    by (rule prod.exhaust)
  show ?thesis
  proof (cases r)
    case None
    with Pair have run: "allocate_contiguous_aligned s n align_pages = (None, s')" by simp
    have "s' = s"
      using run assms by (cases s) (auto simp: allocate_contiguous_aligned.simps Let_def
          simp del: upt_Suc fa_inv.simps dest: allocate_frame_None(1)
          split: if_splits option.splits)
    with contiguous_None(2) [OF assms(1) run assms(2,3,4)] show ?thesis
      by (simp add: Pair None)
  next
    case (Some f)
    with Pair contiguous_Some [OF assms(1)] show ?thesis by auto
  qed
qed

theorem allocate_contiguous_aligned_correct_witness:
  "\<exists>f s'. allocate_contiguous_aligned sample_pool 4 4 = (Some f, s') \<and> f AND 3 = 0 \<and>
     pool_allocated (fa_pool s') = frame_run f 4"
proof -
  have run: "frame_run 0x100 4 \<subseteq> {g. pool_contains (fa_pool sample_pool) g}"
    by (auto simp: frame_run_def sample_pool_inv(2) pool_empty_def pool_contains_def
        unat_add_small unat_of_nat_small word_le_nat_alt)
  then show ?thesis
    using allocate_contiguous_aligned_correct [OF sample_pool_inv(1), of 4 4]
    by (auto simp: sample_pool_inv(2) pool_empty_def split: prod.splits option.splits
        dest!: spec [of _ "0x100"])
qed

text \<open>
  The boot self-test.  Whenever two frames are free, \<open>run_allocator_selftest\<close>
  succeeds, sets its flag, and leaves the allocator consistent with the same frames
  allocated as before.
\<close>

theorem run_allocator_selftest_ok:
  assumes "fa_inv s" and "unat (allocated_count (fst s)) + 2 \<le> unat (capacity (fst s))"
  shows "\<exists>s'. run_allocator_selftest s ok = (Inr (), s', True) \<and> fa_inv s' \<and> fa_pool s' = fa_pool s"
  using assms by (rule selftest_run)

theorem run_allocator_selftest_ok_witness:
  "\<exists>s'. run_allocator_selftest sample_pool False = (Inr (), s', True) \<and> fa_inv s' \<and>
     fa_pool s' = pool_empty 0x100 8"
proof -
  have "allocated_count (fst sample_pool) = 0"
    using fa_count [OF sample_pool_inv(1)]
    by (simp add: sample_pool_inv(2) pool_empty_def unat_eq_0)
  then show ?thesis
    using run_allocator_selftest_ok [OF sample_pool_inv(1), of False]
    by (simp add: sample_pool_inv)
qed

text \<open>
  \<open>owns_phys_range\<close> answers whether some page of the byte range
  \<open>[phys, phys + len)\<close> belongs to the pool, also where the end saturates at the top of
  the address space.
\<close>

theorem owns_phys_range_iff:
  assumes "fa_wf a"
  shows "owns_phys_range a phys len \<longleftrightarrow>
    (\<exists>f. contains a f \<and> len \<noteq> 0 \<and> unat phys < 4096 * (unat f + 1) \<and>
       4096 * unat f < unat phys + unat len)"
proof (cases "len = 0")
  case False
  have pages: "f < div_ceil (saturating_add phys len) 4096 \<longleftrightarrow> 4096 * unat f < unat phys + unat len"
    if "contains a f" for f
  proof -
    have f: "unat f < 2 ^ 52"
      using that fa_wf_bounds(5) [OF assms] assms
      by (auto simp: contains_def fa_wf_def word_less_nat_alt)
    have "unat (div_ceil (saturating_add phys len) 4096) =
        (min (unat phys + unat len) (2 ^ 64 - 1) + 4095) div 4096"
      by (simp add: unat_div_ceil unat_saturating_add)
    then show ?thesis using f by (auto simp: word_less_nat_alt min_def)
  qed
  have "phys div 4096 \<le> f \<longleftrightarrow> unat phys < 4096 * (unat f + 1)" for f
    by (auto simp: word_le_nat_alt unat_div_distrib)
  with False pages show ?thesis
    by (auto simp: owns_phys_range_def owns_scan_iff)
qed (simp add: owns_phys_range_def)

theorem owns_phys_range_iff_witness:
  "owns_phys_range (fst sample_pool) 0xfffff 2 \<and> \<not> owns_phys_range (fst sample_pool) 0xff000 0x1000"
proof -
  have wf: "fa_wf (fst sample_pool)" 
    using sample_pool_inv(1) fa_inv.simps [of "fst sample_pool" "snd sample_pool"] by simp
  have c: "contains (fst sample_pool) f \<longleftrightarrow> 0x100 \<le> f \<and> f < 0x108" for f
    by (simp add: contains_def sample_pool_inv)
  show ?thesis
    unfolding owns_phys_range_iff [OF wf] c
    by (auto simp: word_le_nat_alt word_less_nat_alt intro!: exI [of _ "0x100"])
qed

end
