(* ===== verification/Boot_Mem.thy ===== *)
theory Boot_Mem
  imports Frame_Alloc
begin

text \<open>
  Early memory: the bump pool and the choice of conventional regions of
  \<open>boot/mem.rs\<close>, and the bootstrap of the bitmap allocator from the bump pool in
  \<open>memory/boot_alloc.rs\<close>.  Loops over the region list are folds whose step is the loop
  body; regions are pairs of a physical start and a page count.
\<close>

definition PAGE_SIZE :: u64 where "PAGE_SIZE = 4096"
definition ONE_MIB :: u64 where "ONE_MIB = 1024 * 1024"
definition PERSIST_DISK_ALIGN :: u64 where "PERSIST_DISK_ALIGN = 2 * 1024 * 1024"

record FrameBump =
  bump_base :: u64
  bump_next :: u64
  bump_end :: u64

definition bump_new :: "u64 \<Rightarrow> u64 \<Rightarrow> FrameBump" where
  "bump_new start pages =
    (let aligned = (start + PAGE_SIZE - 1) AND NOT (PAGE_SIZE - 1);
         stop = saturating_add start (saturating_mul pages PAGE_SIZE)
     in if stop \<le> aligned then \<lparr>bump_base = aligned, bump_next = aligned, bump_end = aligned\<rparr>
        else \<lparr>bump_base = aligned, bump_next = aligned, bump_end = stop\<rparr>)"

definition remaining_pages :: "FrameBump \<Rightarrow> u64" where
  "remaining_pages b = saturating_sub (bump_end b) (bump_next b) div PAGE_SIZE"

definition capacity_pages :: "FrameBump \<Rightarrow> u64" where
  "capacity_pages b = saturating_sub (bump_end b) (bump_base b) div PAGE_SIZE"

definition bump_alloc_pages :: "FrameBump \<Rightarrow> u64 \<Rightarrow> u64 option \<times> FrameBump" where
  "bump_alloc_pages b pages =
    (if pages = 0 then (None, b)
     else let bytes = saturating_mul pages PAGE_SIZE in
       if bytes div PAGE_SIZE \<noteq> pages then (None, b)
       else if bump_end b < saturating_add (bump_next b) bytes then (None, b)
       else (Some (bump_next b), b\<lparr>bump_next := bump_next b + bytes\<rparr>))"

definition bump_alloc_frame :: "FrameBump \<Rightarrow> u64 option \<times> FrameBump" where
  "bump_alloc_frame b =
    (if bump_end b < bump_next b + PAGE_SIZE then (None, b)
     else (Some (bump_next b), b\<lparr>bump_next := bump_next b + PAGE_SIZE\<rparr>))"

definition take_remaining :: "FrameBump \<Rightarrow> (u64 \<times> u64) option \<times> FrameBump" where
  "take_remaining b =
    (let pages = remaining_pages b in
     if pages = 0 then (None, b) else (Some (bump_next b, pages), b\<lparr>bump_next := bump_end b\<rparr>))"

section \<open>Choosing conventional regions\<close>

type_synonym region = "u64 \<times> u64"

definition region_end :: "region \<Rightarrow> u64" where
  "region_end r = saturating_add (fst r) (saturating_mul (snd r) PAGE_SIZE)"

text \<open>The recurring \<open>match best\<close>: keep the candidate with strictly more pages.\<close>

definition keep_larger :: "region option \<Rightarrow> region \<Rightarrow> region option" where
  "keep_larger best c =
    (case best of None \<Rightarrow> Some c | Some (_, best_pages) \<Rightarrow> if best_pages < snd c then Some c else best)"

definition pick_prefer_step ::
  "u64 \<Rightarrow> u64 \<Rightarrow> region \<Rightarrow> region option \<times> region option \<Rightarrow> region option \<times> region option" where
  "pick_prefer_step min_pages prefer_end r best =
    (let stop = region_end r; usable_start = max (fst r) ONE_MIB in
     if stop \<le> usable_start then best
     else let usable_pages = (stop - usable_start) div PAGE_SIZE;
       best_any = (if min_pages \<le> usable_pages then keep_larger (snd best) (usable_start, usable_pages)
                   else snd best);
       best_pref =
         (if ONE_MIB < prefer_end then
            let clip_end = min stop prefer_end in
            if usable_start < clip_end then
              let clip_pages = (clip_end - usable_start) div PAGE_SIZE in
              if min_pages \<le> clip_pages then keep_larger (fst best) (usable_start, clip_pages)
              else fst best
            else fst best
          else fst best)
     in (best_pref, best_any))"

definition pick_conventional_region_prefer :: "region list \<Rightarrow> u64 \<Rightarrow> u64 \<Rightarrow> region option" where
  "pick_conventional_region_prefer regions min_pages prefer_end =
    (case fold (pick_prefer_step min_pages prefer_end) regions (None, None) of
       (Some r, _) \<Rightarrow> Some r | (None, any) \<Rightarrow> any)"

definition pick_conventional_region :: "region list \<Rightarrow> u64 \<Rightarrow> region option" where
  "pick_conventional_region regions min_pages = pick_conventional_region_prefer regions min_pages 0"

definition pick_above_step :: "u64 \<Rightarrow> u64 \<Rightarrow> region \<Rightarrow> region option \<Rightarrow> region option" where
  "pick_above_step min_pages above_addr r best =
    (let stop = region_end r; usable_start = max (fst r) (max above_addr ONE_MIB) in
     if stop \<le> usable_start then best
     else let usable_pages = (stop - usable_start) div PAGE_SIZE in
       if usable_pages < min_pages then best else keep_larger best (usable_start, usable_pages))"

definition pick_conventional_region_above :: "region list \<Rightarrow> u64 \<Rightarrow> u64 \<Rightarrow> region option" where
  "pick_conventional_region_above regions min_pages above_addr =
    fold (pick_above_step min_pages above_addr) regions None"

definition keep_lowest :: "region option \<Rightarrow> region \<Rightarrow> region option" where
  "keep_lowest best c =
    (case best of None \<Rightarrow> Some c | Some (best_start, _) \<Rightarrow> if fst c < best_start then Some c else best)"

definition pick_above_prefer_step ::
  "u64 \<Rightarrow> u64 \<Rightarrow> u64 \<Rightarrow> region \<Rightarrow> region option \<times> region option \<Rightarrow> region option \<times> region option" where
  "pick_above_prefer_step want_pages min_pages above_addr r best =
    (let stop = region_end r; usable_start = max (fst r) (max above_addr ONE_MIB) in
     if stop \<le> usable_start then best
     else let usable_pages = (stop - usable_start) div PAGE_SIZE in
       if usable_pages < min_pages then best
       else (if want_pages \<le> usable_pages then keep_lowest (fst best) (usable_start, usable_pages)
             else fst best,
             keep_larger (snd best) (usable_start, usable_pages)))"

definition pick_conventional_region_above_prefer ::
  "region list \<Rightarrow> u64 \<Rightarrow> u64 \<Rightarrow> u64 \<Rightarrow> region option" where
  "pick_conventional_region_above_prefer regions want_pages min_pages above_addr =
    (case fold (pick_above_prefer_step want_pages min_pages above_addr) regions (None, None) of
       (Some r, _) \<Rightarrow> Some r | (None, best_min) \<Rightarrow> best_min)"

definition pick_persist_step :: "u64 list \<Rightarrow> region \<Rightarrow> region option \<Rightarrow> region option" where
  "pick_persist_step try_bytes r best =
    (let stop = region_end r;
         aligned = saturating_add (fst r) (PERSIST_DISK_ALIGN - 1) AND NOT (PERSIST_DISK_ALIGN - 1)
     in if aligned = 0 \<or> stop \<le> aligned then best
        else let avail = stop - aligned in
          case find (\<lambda>want. want \<noteq> 0 \<and> want \<le> avail) try_bytes of
            None \<Rightarrow> best
          | Some want \<Rightarrow>
            (case best of
               None \<Rightarrow> Some (aligned, want)
             | Some (best_hpa, best_bytes) \<Rightarrow>
                 if best_bytes < want \<or> want = best_bytes \<and> aligned < best_hpa
                 then Some (aligned, want) else best))"

definition pick_persist_disk_region :: "region list \<Rightarrow> u64 list \<Rightarrow> region option" where
  "pick_persist_disk_region regions try_bytes = fold (pick_persist_step try_bytes) regions None"

definition conventional_pages_above :: "region list \<Rightarrow> u64 \<Rightarrow> u64" where
  "conventional_pages_above regions above_addr =
    fold (\<lambda>r n. let stop = region_end r; usable_start = max (fst r) (max above_addr ONE_MIB) in
       if stop \<le> usable_start then n
       else saturating_add n ((stop - usable_start) div PAGE_SIZE)) regions 0"

section \<open>Bootstrapping the frame allocator\<close>

text \<open>The \<open>while bitmap_pages < rem\<close> search for a split of the remaining pages.\<close>

function bitmap_split :: "u64 \<Rightarrow> u64 \<Rightarrow> u64 \<times> u64" where
  "bitmap_split bitmap_pages rem =
    (if bitmap_pages < rem then
       let candidate = rem - bitmap_pages in
       if bitmap_pages_needed candidate \<le> bitmap_pages then (bitmap_pages, candidate)
       else bitmap_split (bitmap_pages + 1) rem
     else (bitmap_pages, 0))"
  by pat_completeness auto
termination
proof (relation "measure (\<lambda>(b, rem). unat rem - unat b)")
  fix b rem x :: u64
  assume "b < rem"
  then have "unat b < unat rem" by (simp add: word_less_nat_alt)
  moreover from this have "unat (b + 1) = unat b + 1"
    using unat_u64_bound [of rem] by (subst unat_add_small) simp_all
  ultimately show "((b + 1, rem), b, rem) \<in> measure (\<lambda>(b, rem). unat rem - unat b)" by simp
qed simp

fun skip_frames :: "nat \<Rightarrow> FrameBump \<Rightarrow> bool \<times> FrameBump" where
  "skip_frames 0 b = (True, b)"
| "skip_frames (Suc n) b =
    (case bump_alloc_frame b of (None, b1) \<Rightarrow> (False, b1) | (Some _, b1) \<Rightarrow> skip_frames n b1)"

definition bootstrap_from_bump ::
  "FrameBump \<Rightarrow> phys_mem \<Rightarrow> (AllocError + FrameAllocator) \<times> FrameBump \<times> phys_mem" where
  "bootstrap_from_bump b m =
    (let rem = remaining_pages b in
     if rem < 2 then (Inl Bootstrap, b, m)
     else case bitmap_split 1 rem of (bitmap_pages, pool_pages) \<Rightarrow>
     if pool_pages = 0 then (Inl Bootstrap, b, m)
     else case bump_alloc_frame b of
       (None, b1) \<Rightarrow> (Inl Bootstrap, b1, m)
     | (Some bitmap, b1) \<Rightarrow>
     case skip_frames (unat bitmap_pages - 1) b1 of
       (False, b2) \<Rightarrow> (Inl Bootstrap, b2, m)
     | (True, b2) \<Rightarrow>
     case take_remaining b2 of
       (None, b3) \<Rightarrow> (Inl Bootstrap, b3, m)
     | (Some (base, got), b3) \<Rightarrow>
     if got \<noteq> pool_pages then (Inl Bootstrap, b3, m)
     else case fa_new base pool_pages bitmap m of (r, m') \<Rightarrow> (r, b3, m'))"

declare bitmap_split.simps [simp del]

section \<open>The bump pool\<close>

text \<open>The pool is page-aligned, ordered, and ends a page below the top of the address space.\<close>

definition bump_wf :: "FrameBump \<Rightarrow> bool" where
  "bump_wf b \<longleftrightarrow> page_aligned (bump_next b) \<and> bump_base b \<le> bump_next b \<and>
     bump_next b \<le> bump_end b \<and> unat (bump_end b) + 4096 \<le> 2 ^ 64"

definition bump_at :: "FrameBump \<Rightarrow> nat \<Rightarrow> FrameBump" where
  "bump_at b k = b\<lparr>bump_next := bump_next b + of_nat (4096 * k)\<rparr>"

lemma unat_remaining_pages:
  "unat (remaining_pages b) = (unat (bump_end b) - unat (bump_next b)) div 4096"
  by (simp add: remaining_pages_def PAGE_SIZE_def unat_div_distrib unat_saturating_sub)

lemma bump_at_next:
  assumes "bump_wf b" and "k \<le> unat (remaining_pages b)"
  shows "unat (bump_next (bump_at b k)) = unat (bump_next b) + 4096 * k"
    and "unat (bump_next b) + 4096 * k \<le> unat (bump_end b)"
proof -
  have "4096 * k \<le> unat (bump_end b) - unat (bump_next b)"
    using assms(2) by (simp add: unat_remaining_pages)
  then show le: "unat (bump_next b) + 4096 * k \<le> unat (bump_end b)"
    using assms(1) by (auto simp: bump_wf_def word_le_nat_alt)
  then have "4096 * k < 2 ^ 64" and lt: "unat (bump_next b) + 4096 * k < 2 ^ 64"
    using unat_u64_bound [of "bump_end b"] by simp_all
  then have "unat (of_nat (4096 * k) :: u64) = 4096 * k" by (intro unat_of_nat_small) simp
  with lt show "unat (bump_next (bump_at b k)) = unat (bump_next b) + 4096 * k"
    unfolding bump_at_def by (simp add: unat_add_small del: of_nat_mult)
qed

lemma bump_at_simps [simp]:
  "bump_end (bump_at b k) = bump_end b" "bump_base (bump_at b k) = bump_base b" "bump_at b 0 = b"
  by (simp_all add: bump_at_def)

lemma bump_alloc_frame_at:
  assumes "bump_wf b" and "k < unat (remaining_pages b)"
  shows "bump_alloc_frame (bump_at b k) = (Some (bump_next (bump_at b k)), bump_at b (Suc k))"
proof -
  have nxt: "bump_next (bump_at b k) + PAGE_SIZE = bump_next (bump_at b (Suc k))"
    by (simp add: bump_at_def PAGE_SIZE_def algebra_simps)
  have "unat (bump_next (bump_at b (Suc k))) \<le> unat (bump_end b)"
    using bump_at_next [OF assms(1), of "Suc k"] assms(2) by simp
  then have "\<not> bump_end b < bump_next (bump_at b (Suc k))" by (simp add: word_less_nat_alt)
  with nxt show ?thesis by (simp add: bump_alloc_frame_def)
qed

lemma skip_frames_at:
  assumes "bump_wf b" and "k + n \<le> unat (remaining_pages b)"
  shows "skip_frames n (bump_at b k) = (True, bump_at b (k + n))"
  using assms by (induction n arbitrary: k) (simp_all add: bump_alloc_frame_at)

lemma unat_bitmap_pages_needed:
  assumes "unat cap \<le> 2 ^ 52"
  shows "unat (bitmap_pages_needed cap) =
    (if unat cap = 0 then 0 else ((unat cap + 7) div 8 + 4095) div 4096)"
  using assms
  by (simp add: bitmap_pages_needed_def unat_div_distrib unat_add_small unat_eq_0)

lemma bitmap_split_result:
  assumes "b < rem" and "0 < b" and "unat rem \<le> 2 ^ 52"
  shows "case bitmap_split b rem of (bp, pp) \<Rightarrow>
    0 < bp \<and> bp < rem \<and> pp = rem - bp \<and> bitmap_pages_needed pp \<le> bp"
  using assms
proof (induction b rem rule: bitmap_split.induct)
  case (1 b rem)
  show ?case
  proof (cases "bitmap_pages_needed (rem - b) \<le> b")
    case True
    with 1 show ?thesis by (subst bitmap_split.simps) simp
  next
    case False
    have b: "unat b < unat rem" using 1 by (simp add: word_less_nat_alt)
    have b1: "unat (b + 1) = unat b + 1"
      using b unat_u64_bound [of rem] by (subst unat_add_small) simp_all
    have "b + 1 < rem"
    proof (rule ccontr)
      assume "\<not> b + 1 < rem"
      then have "unat (rem - b) = 1"
        using b b1 by (simp add: word_less_nat_alt word_le_nat_alt unat_sub_le)
      then have "unat (bitmap_pages_needed (rem - b)) = 1"
        by (simp add: unat_bitmap_pages_needed)
      with False 1 show False by (simp add: word_le_nat_alt word_less_nat_alt)
    qed
    with 1 False b1 show ?thesis
      by (subst bitmap_split.simps) (simp add: word_less_nat_alt)
  qed
qed

text \<open>Pages reserved for the bitmap hold all its quadwords.\<close>

lemma bitmap_words_fit:
  assumes "unat cap \<le> 2 ^ 52" and "bitmap_pages_needed cap \<le> bp"
  shows "8 * ((unat cap + 63) div 64) \<le> 4096 * unat bp"
proof (cases "unat cap = 0")
  case False
  define q p where "q = (unat cap + 7) div 8" and "p = (q + 4095) div 4096"
  have "p \<le> unat bp"
    using assms False by (simp add: p_def q_def word_le_nat_alt unat_bitmap_pages_needed)
  moreover have "unat cap \<le> 8 * q" and "q \<le> 4096 * p"
    by (simp_all add: q_def p_def)
  then have "unat cap + 63 < 64 * (512 * p + 1)" by simp
  then have "(unat cap + 63) div 64 < 512 * p + 1"
    by (metis less_mult_imp_div_less mult.commute)
  ultimately show ?thesis by simp
qed simp

lemma bump_page_shift:
  assumes "page_aligned p"
  shows "unat (drop_bit 12 p) * 4096 = unat p"
proof -
  have "unat (drop_bit 12 p) = unat p div 4096"
    by (simp add: drop_bit_eq_div unat_div_distrib)
  with assms show ?thesis by (auto simp: page_aligned_nat)
qed

lemma write_bytes_frame:
  assumes "write_bytes m a v n x \<noteq> m x" and "unat a + n \<le> 2 ^ 64"
  shows "a \<le> x" and "unat x < unat a + n"
proof -
  have d: "unat (x - a) < n" using assms(1) by (auto simp: write_bytes_def split: if_splits)
  then have "unat (a + (x - a)) = unat a + unat (x - a)"
    using assms(2) by (intro unat_add_small) simp
  then have "unat x = unat a + unat (x - a)" by simp
  with d show "a \<le> x" and "unat x < unat a + n" by (simp_all add: word_le_nat_alt)
qed

lemma bump_end_at:
  assumes "bump_wf b" and "k < unat (remaining_pages b)"
  shows "take_remaining (bump_at b k) =
    (Some (bump_next (bump_at b k), remaining_pages b - of_nat k), b\<lparr>bump_next := bump_end b\<rparr>)"
proof -
  have nxt: "unat (bump_next (bump_at b k)) = unat (bump_next b) + 4096 * k"
    using bump_at_next(1) [OF assms(1)] assms(2) by simp
  obtain r where r: "unat (bump_end b) = unat (bump_next b) + 4096 * k + r"
    using bump_at_next(2) [OF assms(1), of k] assms(2) by (metis le_Suc_ex less_imp_le)
  have "unat (remaining_pages (bump_at b k)) = unat (remaining_pages b) - k"
    unfolding unat_remaining_pages nxt bump_at_simps r by simp
  moreover have "unat (remaining_pages b - of_nat k) = unat (remaining_pages b) - k"
    using assms(2) unat_u64_bound [of "remaining_pages b"]
    by (simp add: unat_sub_le word_le_nat_alt unat_of_nat_small)
  ultimately have rem: "remaining_pages (bump_at b k) = remaining_pages b - of_nat k"
    by (simp add: word_eq_unatI)
  moreover from this have "remaining_pages (bump_at b k) \<noteq> 0"
    using assms(2) \<open>unat (remaining_pages b - of_nat k) = _\<close> by (auto simp: word_unat_eq_iff)
  ultimately show ?thesis by (simp add: take_remaining_def Let_def bump_at_def)
qed

lemma bootstrap_run:
  assumes wf: "bump_wf b" and rem: "2 \<le> unat (remaining_pages b)"
  obtains a bp where
    "bootstrap_from_bump b m = (Inr a, b\<lparr>bump_next := bump_end b\<rparr>,
       write_bytes m (bump_next b) 0 (8 * ((unat (capacity a) + 63) div 64)))"
    "fa_inv (a, write_bytes m (bump_next b) 0 (8 * ((unat (capacity a) + 63) div 64)))"
    "fa_pool (a, write_bytes m (bump_next b) 0 (8 * ((unat (capacity a) + 63) div 64))) =
       pool_empty (base_frame a) (capacity a)"
    "bitmap_phys a = bump_next b"
    "4096 * unat (base_frame a) = unat (bump_next b) + 4096 * bp"
    "8 * ((unat (capacity a) + 63) div 64) \<le> 4096 * bp"
    "unat (remaining_pages b) = bp + unat (capacity a)"
proof -
  define n where "n = unat (remaining_pages b)"
  have n: "n \<le> 2 ^ 52" unfolding n_def unat_remaining_pages
    using unat_u64_bound [of "bump_end b"] by simp
  obtain bp pp where split: "bitmap_split 1 (remaining_pages b) = (bp, pp)" by fastforce
  have "1 < remaining_pages b" using rem by (simp add: word_less_nat_alt)
  then have bp: "0 < bp" "bp < remaining_pages b" "pp = remaining_pages b - bp"
    "bitmap_pages_needed pp \<le> bp"
    using bitmap_split_result [of 1 "remaining_pages b"] n by (auto simp: split n_def)
  then have nat: "0 < unat bp" "unat bp < n" "unat pp = n - unat bp"
    by (simp_all add: word_less_nat_alt n_def unat_sub_le word_le_nat_alt)
  have base: "unat (bump_next (bump_at b (unat bp))) = unat (bump_next b) + 4096 * unat bp"
    "unat (bump_next b) + 4096 * n \<le> unat (bump_end b)"
    using bump_at_next [OF wf] nat by (simp_all add: n_def)
  have al: "page_aligned (bump_next (bump_at b (unat bp)))"
    using wf base(1) by (simp add: bump_wf_def page_aligned_nat)
  have shift: "4096 * unat (drop_bit 12 (bump_next (bump_at b (unat bp)))) =
      unat (bump_next b) + 4096 * unat bp"
    using bump_page_shift [OF al] base(1) by simp
  obtain a where new: "fa_new (bump_next (bump_at b (unat bp))) pp (bump_next b) m =
      (Inr a, write_bytes m (bump_next b) 0 (unat ((pp + 63) div 64 * 8)))"
    and inv: "fa_inv (a, snd (fa_new (bump_next (bump_at b (unat bp))) pp (bump_next b) m))"
    and pool: "fa_pool (a, snd (fa_new (bump_next (bump_at b (unat bp))) pp (bump_next b) m)) =
      pool_empty (drop_bit 12 (bump_next (bump_at b (unat bp)))) pp"
    and a: "bitmap_phys a = bump_next b"
      "base_frame a = drop_bit 12 (bump_next (bump_at b (unat bp)))" "capacity a = pp"
  proof (rule fa_new_ok)
    show "pp \<noteq> 0" using nat by (auto simp: word_unat_eq_iff)
    show "bump_next (bump_at b (unat bp)) AND 0xfff = 0" using al by (simp add: page_aligned_def)
    show "unat (drop_bit 12 (bump_next (bump_at b (unat bp)))) + unat pp \<le> 2 ^ 52"
      using shift base(2) nat unat_u64_bound [of "bump_end b"] by simp
  qed blast
  have words: "unat ((pp + 63) div 64 * 8) = 8 * ((unat (capacity a) + 63) div 64)"
    using nat n a by (subst unat_mult_small) (simp_all add: unat_div_distrib unat_add_small)
  have run: "bootstrap_from_bump b m = (Inr a, b\<lparr>bump_next := bump_end b\<rparr>,
      write_bytes m (bump_next b) 0 (8 * ((unat (capacity a) + 63) div 64)))"
  proof -
    have "remaining_pages b - of_nat (unat bp) = pp" "pp \<noteq> 0"
      using bp nat by (auto simp: word_unat_eq_iff)
    moreover have "\<not> remaining_pages b < 2" using rem by (simp add: word_less_nat_alt)
    moreover have "skip_frames (unat bp - Suc 0) (bump_at b (Suc 0)) = (True, bump_at b (unat bp))"
      using skip_frames_at [OF wf, of 1 "unat bp - 1"] nat by (simp add: n_def)
    moreover have "bump_alloc_frame b = (Some (bump_next b), bump_at b (Suc 0))"
      using bump_alloc_frame_at [OF wf, of 0] rem by simp
    moreover have "take_remaining (bump_at b (unat bp)) =
        (Some (bump_next (bump_at b (unat bp)), remaining_pages b - of_nat (unat bp)),
         b\<lparr>bump_next := bump_end b\<rparr>)"
      using nat by (intro bump_end_at [OF wf]) (simp add: n_def)
    ultimately show ?thesis
      by (simp add: bootstrap_from_bump_def split new words)
  qed
  show ?thesis
  proof (rule that [of a "unat bp"])
    show "8 * ((unat (capacity a) + 63) div 64) \<le> 4096 * unat bp"
      using bitmap_words_fit [OF _ bp(4)] nat n a(3) by simp
    show "unat (remaining_pages b) = unat bp + unat (capacity a)"
      using nat a(3) by (simp add: n_def)
    show "4096 * unat (base_frame a) = unat (bump_next b) + 4096 * unat bp"
      unfolding a(2) by (rule shift)
  qed (use run inv pool a words new in \<open>simp_all del: fa_inv.simps fa_pool.simps\<close>)
qed

section \<open>Region candidates\<close>

text \<open>What one region offers above 1 MiB, and what is left of it below \<open>prefer_end\<close>.\<close>

definition any_candidate :: "u64 \<Rightarrow> region \<Rightarrow> region option" where
  "any_candidate min_pages r =
    (let s = max (fst r) ONE_MIB; p = (region_end r - s) div PAGE_SIZE in
     if s < region_end r \<and> min_pages \<le> p then Some (s, p) else None)"

definition pref_candidate :: "u64 \<Rightarrow> u64 \<Rightarrow> region \<Rightarrow> region option" where
  "pref_candidate min_pages prefer_end r =
    (let s = max (fst r) ONE_MIB; e = min (region_end r) prefer_end; p = (e - s) div PAGE_SIZE in
     if ONE_MIB < prefer_end \<and> s < e \<and> min_pages \<le> p then Some (s, p) else None)"

definition consider_candidate :: "region option \<Rightarrow> region option \<Rightarrow> region option" where
  "consider_candidate best c = (case c of None \<Rightarrow> best | Some x \<Rightarrow> keep_larger best x)"

lemma pick_prefer_step_eq:
  "pick_prefer_step min_pages prefer_end r best =
    (consider_candidate (fst best) (pref_candidate min_pages prefer_end r),
     consider_candidate (snd best) (any_candidate min_pages r))"
proof -
  define stop us ce where "stop = region_end r" and "us = max (fst r) ONE_MIB"
    and "ce = min stop prefer_end"
  have "us < ce \<Longrightarrow> \<not> stop \<le> us" by (simp add: ce_def not_le)
  then show ?thesis
    unfolding pick_prefer_step_def consider_candidate_def pref_candidate_def any_candidate_def Let_def
      stop_def [symmetric] us_def [symmetric] ce_def [symmetric]
    by (cases "stop \<le> us"; cases "us < ce"; cases best) (simp_all add: not_le [symmetric])
qed

lemma fold_pick_prefer:
  "fold (pick_prefer_step min_pages prefer_end) rs (b, c) =
    (fold (\<lambda>r b. consider_candidate b (pref_candidate min_pages prefer_end r)) rs b,
     fold (\<lambda>r b. consider_candidate b (any_candidate min_pages r)) rs c)"
  by (induction rs arbitrary: b c) (simp_all add: pick_prefer_step_eq)

text \<open>The fold keeps a largest candidate: the start value or one of the regions'.\<close>

lemma fold_consider_None:
  "fold (\<lambda>r b. consider_candidate b (f r)) rs b = None \<longleftrightarrow> b = None \<and> (\<forall>r \<in> set rs. f r = None)"
proof (induction rs arbitrary: b)
  case (Cons r rs)
  then show ?case
    by (auto simp: consider_candidate_def keep_larger_def split: option.splits if_splits)
qed simp

lemma fold_consider_Some:
  "fold (\<lambda>r b. consider_candidate b (f r)) rs b = Some c \<Longrightarrow>
    (b = Some c \<or> (\<exists>r \<in> set rs. f r = Some c)) \<and>
    (\<forall>d. b = Some d \<longrightarrow> snd d \<le> snd c) \<and> (\<forall>r \<in> set rs. \<forall>d. f r = Some d \<longrightarrow> snd d \<le> snd c)"
proof (induction rs arbitrary: b)
  case (Cons r rs)
  let ?b = "consider_candidate b (f r)"
  have step: "?b = b \<or> ?b = f r" "\<forall>d. b = Some d \<longrightarrow> (\<exists>e. ?b = Some e \<and> snd d \<le> snd e)"
    "\<forall>d. f r = Some d \<longrightarrow> (\<exists>e. ?b = Some e \<and> snd d \<le> snd e)"
    by (auto simp: consider_candidate_def keep_larger_def split: option.splits if_splits)
  from Cons.IH [of ?b] Cons.prems
  have ih: "?b = Some c \<or> (\<exists>r \<in> set rs. f r = Some c)" "\<forall>d. ?b = Some d \<longrightarrow> snd d \<le> snd c"
    "\<forall>r \<in> set rs. \<forall>d. f r = Some d \<longrightarrow> snd d \<le> snd c" by simp_all
  then show ?case using step by (auto intro: order_trans)
qed simp

lemma candidate_span:
  assumes "s < e"
  shows "unat s + 4096 * unat ((e - s) div PAGE_SIZE) \<le> unat e"
proof -
  have "unat ((e - s) div PAGE_SIZE) = (unat e - unat s) div 4096"
    using assms by (simp add: PAGE_SIZE_def unat_div_distrib unat_sub_le)
  moreover have "4096 * ((unat e - unat s) div 4096) \<le> unat e - unat s" by simp
  moreover have "unat s < unat e" using assms by (simp add: word_less_nat_alt)
  ultimately show ?thesis by linarith
qed

lemma any_candidateD:
  assumes "any_candidate min_pages r = Some (s, p)"
  shows "ONE_MIB \<le> s \<and> fst r \<le> s \<and> min_pages \<le> p \<and> unat s + 4096 * unat p \<le> unat (region_end r)"
  using assms candidate_span [of "max (fst r) ONE_MIB" "region_end r"]
  by (auto simp: any_candidate_def Let_def split: if_splits)

lemma pref_candidateD:
  assumes "pref_candidate min_pages prefer_end r = Some (s, p)"
  shows "ONE_MIB \<le> s \<and> fst r \<le> s \<and> min_pages \<le> p \<and> unat s + 4096 * unat p \<le> unat (region_end r) \<and>
    unat s + 4096 * unat p \<le> unat prefer_end"
proof -
  let ?e = "min (region_end r) prefer_end"
  have sp: "s = max (fst r) ONE_MIB" "p = (?e - s) div PAGE_SIZE" "s < ?e" "min_pages \<le> p"
    using assms by (auto simp: pref_candidate_def Let_def split: if_splits)
  have "?e \<le> region_end r" "?e \<le> prefer_end" by simp_all
  then have "unat ?e \<le> unat (region_end r)" "unat ?e \<le> unat prefer_end"
    by (simp_all only: word_le_nat_alt)
  then show ?thesis using candidate_span [OF sp(3)] sp by simp
qed

section \<open>Corner cases of the bump pool\<close>

text \<open>A pool over an unaligned span leaves \<open>next\<close> unaligned once its rest is taken, and
  \<open>alloc_frame\<close>, which adds without a check, leaves a pool that reaches the top of the
  address space: the second frame it returns is frame zero.\<close>

lemma take_remaining_unaligned:
  "\<not> page_aligned (bump_next (snd (take_remaining (bump_new 0x1001 2))))"
  by (simp add: bump_new_def take_remaining_def remaining_pages_def PAGE_SIZE_def Let_def
      saturating_add_def saturating_mul_def saturating_sub_def page_aligned_def)

lemma bump_alloc_frame_wraps:
  "fst (bump_alloc_frame (snd (bump_alloc_frame (bump_new 0xfffffffffffff000 1)))) = Some 0 \<and>
   bump_base (bump_new 0xfffffffffffff000 1) = 0xfffffffffffff000"
  by (simp add: bump_new_def bump_alloc_frame_def PAGE_SIZE_def Let_def
      saturating_add_def saturating_mul_def)

section \<open>Properties\<close>

text \<open>
  C28: Bootstrap of the allocator.  From a well-formed bump pool with two pages left,
  \<open>bootstrap_from_bump\<close> succeeds, empties the bump pool, and yields a consistent
  allocator with no frame allocated; the bitmap lies inside the span, strictly below the
  first managed frame, and the managed frames end inside the span; memory changes only
  inside the pages reserved for the bitmap.
\<close>

theorem bootstrap_from_bump_ok:
  assumes "bump_wf b" and "2 \<le> unat (remaining_pages b)"
  shows "\<exists>a m'. bootstrap_from_bump b m = (Inr a, b\<lparr>bump_next := bump_end b\<rparr>, m') \<and>
    fa_inv (a, m') \<and> fa_pool (a, m') = pool_empty (base_frame a) (capacity a) \<and>
    bitmap_phys a = bump_next b \<and>
    unat (bitmap_phys a) + 8 * unat (bitmap_words a) \<le> 4096 * unat (base_frame a) \<and>
    4096 * (unat (base_frame a) + unat (capacity a)) \<le> unat (bump_end b) \<and>
    (\<forall>x. m' x \<noteq> m x \<longrightarrow> bump_next b \<le> x \<and> unat x < 4096 * unat (base_frame a))"
proof -
  obtain a bp where run: "bootstrap_from_bump b m = (Inr a, b\<lparr>bump_next := bump_end b\<rparr>,
       write_bytes m (bump_next b) 0 (8 * ((unat (capacity a) + 63) div 64)))"
    and inv: "fa_inv (a, write_bytes m (bump_next b) 0 (8 * ((unat (capacity a) + 63) div 64)))"
    and pool: "fa_pool (a, write_bytes m (bump_next b) 0 (8 * ((unat (capacity a) + 63) div 64))) =
       pool_empty (base_frame a) (capacity a)"
    and a: "bitmap_phys a = bump_next b"
      "4096 * unat (base_frame a) = unat (bump_next b) + 4096 * bp"
      "8 * ((unat (capacity a) + 63) div 64) \<le> 4096 * bp"
      "unat (remaining_pages b) = bp + unat (capacity a)"
    by (rule bootstrap_run [OF assms])
  have wf: "fa_wf a" using inv by simp
  have words: "unat (bitmap_words a) = (unat (capacity a) + 63) div 64"
    using wf fa_wf_bounds(1) [OF wf]
    by (simp add: fa_wf_def unat_div_distrib unat_add_small)
  have stop: "4096 * (unat (base_frame a) + unat (capacity a)) \<le> unat (bump_end b)"
    using a bump_at_next(2) [OF assms(1), of "unat (remaining_pages b)"] by simp
  have frame: "bump_next b \<le> x \<and> unat x < 4096 * unat (base_frame a)"
    if "write_bytes m (bump_next b) 0 (8 * ((unat (capacity a) + 63) div 64)) x \<noteq> m x" for x
    using write_bytes_frame [OF that] a stop unat_u64_bound [of "bump_end b"] by auto
  show ?thesis
    using run inv pool a words stop frame by (simp del: fa_inv.simps fa_pool.simps)
qed

theorem bootstrap_from_bump_ok_witness:
  "\<exists>a m'. bootstrap_from_bump (bump_new 0x100000 16) (\<lambda>_. 0) =
      (Inr a, (bump_new 0x100000 16)\<lparr>bump_next := 0x110000\<rparr>, m') \<and>
    4096 * (unat (base_frame a) + unat (capacity a)) \<le> 0x110000"
proof -
  have b: "bump_new 0x100000 16 = \<lparr>bump_base = 0x100000, bump_next = 0x100000, bump_end = 0x110000\<rparr>"
    by (simp add: bump_new_def PAGE_SIZE_def saturating_add_def saturating_mul_def Let_def)
  have wf: "bump_wf (bump_new 0x100000 16)"
    by (simp add: b bump_wf_def page_aligned_def)
  have "2 \<le> unat (remaining_pages (bump_new 0x100000 16))"
    by (simp add: b unat_remaining_pages)
  from bootstrap_from_bump_ok [OF wf this, of "\<lambda>_. 0"] show ?thesis
    by (auto simp: b)
qed

text \<open>
  Choice of the early pool.  A region picked by \<open>pick_conventional_region_prefer\<close>
  starts at or above 1 MiB, has the requested pages and lies inside a reported region; if
  any region has enough pages below the preferred end, the result ends below it and is a
  largest such span, and otherwise it is a largest usable span; nothing is picked only if
  no region has enough usable pages.
\<close>

theorem pick_conventional_region_prefer_correct:
  "case pick_conventional_region_prefer regions min_pages prefer_end of
     None \<Rightarrow> \<forall>r \<in> set regions. any_candidate min_pages r = None
   | Some (s, p) \<Rightarrow> ONE_MIB \<le> s \<and> min_pages \<le> p \<and>
       (\<exists>r \<in> set regions. fst r \<le> s \<and> unat s + 4096 * unat p \<le> unat (region_end r)) \<and>
       (if \<exists>r \<in> set regions. pref_candidate min_pages prefer_end r \<noteq> None
        then unat s + 4096 * unat p \<le> unat prefer_end \<and>
          (\<forall>r \<in> set regions. \<forall>c. pref_candidate min_pages prefer_end r = Some c \<longrightarrow> snd c \<le> p)
        else \<forall>r \<in> set regions. \<forall>c. any_candidate min_pages r = Some c \<longrightarrow> snd c \<le> p)"
proof -
  let ?fp = "fold (\<lambda>r b. consider_candidate b (pref_candidate min_pages prefer_end r)) regions None"
  let ?fa = "fold (\<lambda>r b. consider_candidate b (any_candidate min_pages r)) regions None"
  have pick: "pick_conventional_region_prefer regions min_pages prefer_end =
      (case ?fp of Some c \<Rightarrow> Some c | None \<Rightarrow> ?fa)"
    by (simp add: pick_conventional_region_prefer_def fold_pick_prefer split: option.split)
  show ?thesis
  proof (cases ?fp)
    case (Some c)
    obtain s p where c: "c = (s, p)" by (cases c)
    from fold_consider_Some [OF Some] obtain r where r: "r \<in> set regions"
      "pref_candidate min_pages prefer_end r = Some (s, p)"
      "\<forall>r \<in> set regions. \<forall>c. pref_candidate min_pages prefer_end r = Some c \<longrightarrow> snd c \<le> p"
      by (auto simp: c)
    then show ?thesis using pref_candidateD [OF r(2)] by (auto simp: pick Some c)
  next
    case None
    then have nopref: "\<forall>r \<in> set regions. pref_candidate min_pages prefer_end r = None"
      by (simp add: fold_consider_None)
    show ?thesis
    proof (cases ?fa)
      case None
      then have "\<forall>r \<in> set regions. any_candidate min_pages r = None"
        by (simp add: fold_consider_None)
      with None \<open>?fp = None\<close> show ?thesis by (simp add: pick)
    next
      case (Some c)
      obtain s p where c: "c = (s, p)" by (cases c)
      from fold_consider_Some [OF Some] obtain r where r: "r \<in> set regions"
        "any_candidate min_pages r = Some (s, p)"
        "\<forall>r \<in> set regions. \<forall>c. any_candidate min_pages r = Some c \<longrightarrow> snd c \<le> p"
        by (auto simp: c)
      then show ?thesis
        using any_candidateD [OF r(2)] nopref by (auto simp: pick None Some c)
    qed
  qed
qed

theorem pick_conventional_region_prefer_correct_witness:
  "pick_conventional_region_prefer [(0x100000, 64), (0x40000000, 4096)] 16 0x20000000 =
     Some (0x100000, 64) \<and> unat (0x100000 :: u64) + 4096 * unat (64 :: u64) \<le> 0x20000000"
proof -
  have pick: "pick_conventional_region_prefer [(0x100000, 64), (0x40000000, 4096)] 16 0x20000000 =
     Some (0x100000, 64)"
    by (simp add: pick_conventional_region_prefer_def pick_prefer_step_def region_end_def
        keep_larger_def ONE_MIB_def PAGE_SIZE_def saturating_add_def saturating_mul_def Let_def
        max_def min_def)
  have "pref_candidate 16 0x20000000 (0x100000, 64) \<noteq> None"
    by (simp add: pref_candidate_def region_end_def ONE_MIB_def PAGE_SIZE_def saturating_add_def
        saturating_mul_def Let_def max_def min_def)
  then show ?thesis
    using pick pick_conventional_region_prefer_correct
      [of "[(0x100000, 64), (0x40000000, 4096)]" 16 "0x20000000"] by simp
qed

end
