(* ===== verification/Audit_Event.thy ===== *)
theory Audit_Event
  imports RayNu_Prelude
begin

text \<open>
  The security events of \<open>audit/integrity.rs\<close> with the payload each carries, their
  discriminants, and the inverse of the discriminant in \<open>audit/persist.rs\<close>, which
  rebuilds an event of the right kind with a zeroed payload.
\<close>

datatype Milestone = M0 | M1 | M2 | M3 | M4 | M5 | M55 | M6

datatype (plugins only: size) AuditEvent =
    BootStarted Milestone  \<comment> \<open>milestone\<close>
  | VmxEnabled u32  \<comment> \<open>vcpu_id\<close>
  | VmcsCreated u32 u64  \<comment> \<open>vcpu_id, vmcs_id\<close>
  | EptMapped u64 u64 u64  \<comment> \<open>guest_id, gpa, hpa\<close>
  | EptUnmapped u64 u64 u64  \<comment> \<open>guest_id, gpa, hpa\<close>
  | MsrBlocked u32 u32  \<comment> \<open>vcpu_id, msr_index\<close>
  | FrameAllocated u64  \<comment> \<open>frame\<close>
  | FrameFreed u64  \<comment> \<open>frame\<close>
  | VmCreated u64  \<comment> \<open>guest_id\<close>
  | VmStarted u64  \<comment> \<open>guest_id\<close>
  | VmStopped u64  \<comment> \<open>guest_id\<close>
  | VmDestroyed u64  \<comment> \<open>guest_id\<close>
  | MigrateStarted u64 u32  \<comment> \<open>batch_id, count\<close>
  | MigrateCompleted u64 u32  \<comment> \<open>batch_id, count\<close>
  | MigrateFailed u64 u32  \<comment> \<open>batch_id, count\<close>
  | AuthAllowed u8  \<comment> \<open>method_tag\<close>
  | AuthDenied u8  \<comment> \<open>method_tag\<close>
  | HaFailoverStarted u8 u8  \<comment> \<open>from_role, to_role\<close>
  | HaFailoverCompleted u32  \<comment> \<open>guest_count\<close>
  | FaultInjected u8 u64  \<comment> \<open>kind, detail\<close>
  | FaultRecovered u8 u64  \<comment> \<open>kind, detail\<close>
  | FaultFailClosed u8 u64  \<comment> \<open>kind, detail\<close>
  | SoakStarted u32  \<comment> \<open>target_hours\<close>
  | SoakCompleted u32  \<comment> \<open>hours\<close>
  | SoakFailed u32  \<comment> \<open>hours\<close>
  | EvidenceModeActivated u8  \<comment> \<open>source\<close>
  | MgmtRestarted u32 u8  \<comment> \<open>generation, kind\<close>
  | CdromAttached u64 u64  \<comment> \<open>iso_id, load_lba\<close>
  | CdromFirmwareArmed u64 u64  \<comment> \<open>iso_id, load_lba\<close>
  | CdromGuestVisible u64 u64  \<comment> \<open>iso_id, load_lba\<close>
  | GuestFirmwareBoxed u64 u64  \<comment> \<open>uncompressed_len, compressed_len\<close>
  | GuestFirmwareLoaded u64  \<comment> \<open>payload_len\<close>
  | OvmfFirmwareProbed u64  \<comment> \<open>fv_len\<close>
  | OvmfFirmwareEspLoaded u64 u64  \<comment> \<open>bytes_len, fv_len\<close>
  | OvmfFirmwareSlotArmed u64  \<comment> \<open>slot_id\<close>
  | OvmfFirmwareGuestBound u64 u64  \<comment> \<open>guest_id, slot_id\<close>
  | OvmfFirmwareLaunchPrepared u64 u64  \<comment> \<open>guest_id, slot_id\<close>
  | OvmfFirmwareFloorStaged u64  \<comment> \<open>bytes_len\<close>
  | OvmfFirmwareEdk2Staged u64  \<comment> \<open>bytes_len\<close>
  | OvmfEspLaunchArmed u64 u64  \<comment> \<open>guest_id, slot_id\<close>
  | OvmfEspLiveMapped u64  \<comment> \<open>bytes_len\<close>
  | OvmfResetVectorArmed u64  \<comment> \<open>bytes_len\<close>
  | OvmfFirmwareAliasArmed u64  \<comment> \<open>bytes_len\<close>
  | OvmfAliasEptProgrammed u64 u64  \<comment> \<open>bytes_len, gpa\<close>
  | OvmfAliasEptInstalled u64 u64  \<comment> \<open>bytes_len, gpa\<close>
  | OvmfRealEspQualified u64 u64  \<comment> \<open>bytes_len, gpa\<close>
  | OvmfRealLaunchArmed u64 u64  \<comment> \<open>bytes_len, gpa\<close>
  | OvmfLiveEspRequired u64 u64  \<comment> \<open>bytes_len, gpa\<close>
  | OvmfPrivateVmcsArmed u64 u64  \<comment> \<open>bytes_len, gpa\<close>
  | OvmfLiveIssueArmed u64 u64  \<comment> \<open>bytes_len, gpa\<close>
  | OvmfLiveBytesProbed u64 u64  \<comment> \<open>bytes_len, gpa\<close>
  | OvmfLiveFdRequired u64 u64  \<comment> \<open>bytes_len, gpa\<close>
  | OvmfLiveEspPresented u64 u64  \<comment> \<open>bytes_len, gpa\<close>
  | OvmfLiveEspAdmitted u64 u64  \<comment> \<open>bytes_len, gpa\<close>
  | OvmfLiveEspRead u64 u64  \<comment> \<open>bytes_len, gpa\<close>
  | OvmfLiveEspCopied u64 u64  \<comment> \<open>bytes_len, gpa\<close>
  | OvmfLiveEspPlaced u64 u64  \<comment> \<open>bytes_len, gpa\<close>
  | OvmfLiveEspApplied u64 u64  \<comment> \<open>bytes_len, gpa\<close>
  | OvmfLiveEspCommitted u64 u64  \<comment> \<open>bytes_len, gpa\<close>
  | OvmfLiveEspLatched u64 u64  \<comment> \<open>bytes_len, gpa\<close>
  | OvmfLiveEspSealed u64 u64  \<comment> \<open>bytes_len, gpa\<close>
  | OvmfLiveEspLocked u64 u64  \<comment> \<open>bytes_len, gpa\<close>
  | OvmfLiveEspHeld u64 u64  \<comment> \<open>bytes_len, gpa\<close>
  | OvmfLiveEspBytesRetained u64  \<comment> \<open>bytes_len\<close>
  | OvmfGuestUefiVmlaunched u64 u64  \<comment> \<open>exit_reason, guest_rip\<close>
  | OvmfGuestUefiAlive u64 u64  \<comment> \<open>exits, last_reason\<close>
  | OvmfGuestUefiPastSec u64 u64 u64  \<comment> \<open>exits, linear, com_bytes\<close>
  | OvmfGuestUefiCdrom u64 u64 u64  \<comment> \<open>exits, pci_enum, sectors\<close>
  | OvmfGuestUefiDxe u64 u64 u64  \<comment> \<open>exits, sectors, platform\<close>
  | OvmfGuestUefiVirtio u64 u64  \<comment> \<open>exits, pci_enum\<close>
  | OvmfGuestUefiBoth u64 u64 u64  \<comment> \<open>exits, virtio, ide\<close>
  | OvmfGuestUefiAtapi u64 u64  \<comment> \<open>exits, sectors\<close>
  | OvmfGuestUefiEltorito u64 u64 u64  \<comment> \<open>exits, catalog, boot_image\<close>
  | HostPowerOff u8  \<comment> \<open>source\<close>
  | PercSpaChoice u8  \<comment> \<open>choice\<close>
  | GuestNicSaved u64 u8  \<comment> \<open>spare_off, mode\<close>
  | GuestNicDetached u64  \<comment> \<open>spare_off\<close>
  | HostLinkChanged u8 u8 u16  \<comment> \<open>func, up, mbps\<close>
  | HostAddrSaved u8 u8  \<comment> \<open>mode, prefix\<close>
  | OperatorAccountSet u8  \<comment> \<open>name_len\<close>
  | HostCertSaved u8 u16  \<comment> \<open>source, cert_len\<close>

primrec event_discriminant :: "AuditEvent \<Rightarrow> u64" where
  "event_discriminant (BootStarted _) = 1"
| "event_discriminant (VmxEnabled _) = 2"
| "event_discriminant (VmcsCreated _ _) = 3"
| "event_discriminant (EptMapped _ _ _) = 4"
| "event_discriminant (EptUnmapped _ _ _) = 5"
| "event_discriminant (MsrBlocked _ _) = 6"
| "event_discriminant (FrameAllocated _) = 7"
| "event_discriminant (FrameFreed _) = 8"
| "event_discriminant (VmCreated _) = 9"
| "event_discriminant (VmStarted _) = 10"
| "event_discriminant (VmStopped _) = 11"
| "event_discriminant (VmDestroyed _) = 12"
| "event_discriminant (MigrateStarted _ _) = 13"
| "event_discriminant (MigrateCompleted _ _) = 14"
| "event_discriminant (MigrateFailed _ _) = 15"
| "event_discriminant (AuthAllowed _) = 16"
| "event_discriminant (AuthDenied _) = 17"
| "event_discriminant (HaFailoverStarted _ _) = 18"
| "event_discriminant (HaFailoverCompleted _) = 19"
| "event_discriminant (FaultInjected _ _) = 20"
| "event_discriminant (FaultRecovered _ _) = 21"
| "event_discriminant (FaultFailClosed _ _) = 22"
| "event_discriminant (SoakStarted _) = 23"
| "event_discriminant (SoakCompleted _) = 24"
| "event_discriminant (SoakFailed _) = 25"
| "event_discriminant (EvidenceModeActivated _) = 26"
| "event_discriminant (MgmtRestarted _ _) = 27"
| "event_discriminant (CdromAttached _ _) = 28"
| "event_discriminant (CdromFirmwareArmed _ _) = 29"
| "event_discriminant (CdromGuestVisible _ _) = 67"
| "event_discriminant (GuestFirmwareBoxed _ _) = 30"
| "event_discriminant (GuestFirmwareLoaded _) = 31"
| "event_discriminant (OvmfFirmwareProbed _) = 32"
| "event_discriminant (OvmfFirmwareEspLoaded _ _) = 33"
| "event_discriminant (OvmfFirmwareSlotArmed _) = 34"
| "event_discriminant (OvmfFirmwareGuestBound _ _) = 35"
| "event_discriminant (OvmfFirmwareLaunchPrepared _ _) = 36"
| "event_discriminant (OvmfFirmwareFloorStaged _) = 37"
| "event_discriminant (OvmfFirmwareEdk2Staged _) = 38"
| "event_discriminant (OvmfEspLaunchArmed _ _) = 39"
| "event_discriminant (OvmfEspLiveMapped _) = 40"
| "event_discriminant (OvmfResetVectorArmed _) = 41"
| "event_discriminant (OvmfFirmwareAliasArmed _) = 42"
| "event_discriminant (OvmfAliasEptProgrammed _ _) = 43"
| "event_discriminant (OvmfAliasEptInstalled _ _) = 44"
| "event_discriminant (OvmfRealEspQualified _ _) = 45"
| "event_discriminant (OvmfRealLaunchArmed _ _) = 46"
| "event_discriminant (OvmfLiveEspRequired _ _) = 47"
| "event_discriminant (OvmfPrivateVmcsArmed _ _) = 48"
| "event_discriminant (OvmfLiveIssueArmed _ _) = 49"
| "event_discriminant (OvmfLiveBytesProbed _ _) = 50"
| "event_discriminant (OvmfLiveFdRequired _ _) = 51"
| "event_discriminant (OvmfLiveEspPresented _ _) = 52"
| "event_discriminant (OvmfLiveEspAdmitted _ _) = 53"
| "event_discriminant (OvmfLiveEspRead _ _) = 54"
| "event_discriminant (OvmfLiveEspCopied _ _) = 55"
| "event_discriminant (OvmfLiveEspPlaced _ _) = 56"
| "event_discriminant (OvmfLiveEspApplied _ _) = 57"
| "event_discriminant (OvmfLiveEspCommitted _ _) = 58"
| "event_discriminant (OvmfLiveEspLatched _ _) = 59"
| "event_discriminant (OvmfLiveEspSealed _ _) = 60"
| "event_discriminant (OvmfLiveEspLocked _ _) = 61"
| "event_discriminant (OvmfLiveEspHeld _ _) = 62"
| "event_discriminant (OvmfLiveEspBytesRetained _) = 63"
| "event_discriminant (OvmfGuestUefiVmlaunched _ _) = 64"
| "event_discriminant (OvmfGuestUefiAlive _ _) = 65"
| "event_discriminant (OvmfGuestUefiPastSec _ _ _) = 66"
| "event_discriminant (OvmfGuestUefiCdrom _ _ _) = 68"
| "event_discriminant (OvmfGuestUefiDxe _ _ _) = 69"
| "event_discriminant (OvmfGuestUefiVirtio _ _) = 70"
| "event_discriminant (OvmfGuestUefiBoth _ _ _) = 71"
| "event_discriminant (OvmfGuestUefiAtapi _ _) = 72"
| "event_discriminant (OvmfGuestUefiEltorito _ _ _) = 73"
| "event_discriminant (HostPowerOff _) = 74"
| "event_discriminant (PercSpaChoice _) = 75"
| "event_discriminant (GuestNicSaved _ _) = 76"
| "event_discriminant (GuestNicDetached _) = 77"
| "event_discriminant (HostLinkChanged _ _ _) = 78"
| "event_discriminant (HostAddrSaved _ _) = 79"
| "event_discriminant (OperatorAccountSet _) = 80"
| "event_discriminant (HostCertSaved _ _) = 81"

definition event_from_disc :: "u64 \<Rightarrow> AuditEvent option" where
  "event_from_disc d =
    (if d = 1 then Some (BootStarted M0)
     else if d = 2 then Some (VmxEnabled 0)
     else if d = 3 then Some (VmcsCreated 0 0)
     else if d = 4 then Some (EptMapped 0 0 0)
     else if d = 5 then Some (EptUnmapped 0 0 0)
     else if d = 6 then Some (MsrBlocked 0 0)
     else if d = 7 then Some (FrameAllocated 0)
     else if d = 8 then Some (FrameFreed 0)
     else if d = 9 then Some (VmCreated 0)
     else if d = 10 then Some (VmStarted 0)
     else if d = 11 then Some (VmStopped 0)
     else if d = 12 then Some (VmDestroyed 0)
     else if d = 13 then Some (MigrateStarted 0 0)
     else if d = 14 then Some (MigrateCompleted 0 0)
     else if d = 15 then Some (MigrateFailed 0 0)
     else if d = 16 then Some (AuthAllowed 0)
     else if d = 17 then Some (AuthDenied 0)
     else if d = 18 then Some (HaFailoverStarted 0 0)
     else if d = 19 then Some (HaFailoverCompleted 0)
     else if d = 20 then Some (FaultInjected 0 0)
     else if d = 21 then Some (FaultRecovered 0 0)
     else if d = 22 then Some (FaultFailClosed 0 0)
     else if d = 23 then Some (SoakStarted 0)
     else if d = 24 then Some (SoakCompleted 0)
     else if d = 25 then Some (SoakFailed 0)
     else if d = 26 then Some (EvidenceModeActivated 0)
     else if d = 27 then Some (MgmtRestarted 0 0)
     else if d = 28 then Some (CdromAttached 0 0)
     else if d = 29 then Some (CdromFirmwareArmed 0 0)
     else if d = 30 then Some (GuestFirmwareBoxed 0 0)
     else if d = 31 then Some (GuestFirmwareLoaded 0)
     else if d = 32 then Some (OvmfFirmwareProbed 0)
     else if d = 33 then Some (OvmfFirmwareEspLoaded 0 0)
     else if d = 34 then Some (OvmfFirmwareSlotArmed 0)
     else if d = 35 then Some (OvmfFirmwareGuestBound 0 0)
     else if d = 36 then Some (OvmfFirmwareLaunchPrepared 0 0)
     else if d = 37 then Some (OvmfFirmwareFloorStaged 0)
     else if d = 38 then Some (OvmfFirmwareEdk2Staged 0)
     else if d = 39 then Some (OvmfEspLaunchArmed 0 0)
     else if d = 40 then Some (OvmfEspLiveMapped 0)
     else if d = 41 then Some (OvmfResetVectorArmed 0)
     else if d = 42 then Some (OvmfFirmwareAliasArmed 0)
     else if d = 43 then Some (OvmfAliasEptProgrammed 0 0)
     else if d = 44 then Some (OvmfAliasEptInstalled 0 0)
     else if d = 45 then Some (OvmfRealEspQualified 0 0)
     else if d = 46 then Some (OvmfRealLaunchArmed 0 0)
     else if d = 47 then Some (OvmfLiveEspRequired 0 0)
     else if d = 48 then Some (OvmfPrivateVmcsArmed 0 0)
     else if d = 49 then Some (OvmfLiveIssueArmed 0 0)
     else if d = 50 then Some (OvmfLiveBytesProbed 0 0)
     else if d = 51 then Some (OvmfLiveFdRequired 0 0)
     else if d = 52 then Some (OvmfLiveEspPresented 0 0)
     else if d = 53 then Some (OvmfLiveEspAdmitted 0 0)
     else if d = 54 then Some (OvmfLiveEspRead 0 0)
     else if d = 55 then Some (OvmfLiveEspCopied 0 0)
     else if d = 56 then Some (OvmfLiveEspPlaced 0 0)
     else if d = 57 then Some (OvmfLiveEspApplied 0 0)
     else if d = 58 then Some (OvmfLiveEspCommitted 0 0)
     else if d = 59 then Some (OvmfLiveEspLatched 0 0)
     else if d = 60 then Some (OvmfLiveEspSealed 0 0)
     else if d = 61 then Some (OvmfLiveEspLocked 0 0)
     else if d = 62 then Some (OvmfLiveEspHeld 0 0)
     else if d = 63 then Some (OvmfLiveEspBytesRetained 0)
     else if d = 64 then Some (OvmfGuestUefiVmlaunched 0 0)
     else if d = 65 then Some (OvmfGuestUefiAlive 0 0)
     else if d = 66 then Some (OvmfGuestUefiPastSec 0 0 0)
     else if d = 67 then Some (CdromGuestVisible 0 0)
     else if d = 68 then Some (OvmfGuestUefiCdrom 0 0 0)
     else if d = 69 then Some (OvmfGuestUefiDxe 0 0 0)
     else if d = 70 then Some (OvmfGuestUefiVirtio 0 0)
     else if d = 71 then Some (OvmfGuestUefiBoth 0 0 0)
     else if d = 72 then Some (OvmfGuestUefiAtapi 0 0)
     else if d = 73 then Some (OvmfGuestUefiEltorito 0 0 0)
     else if d = 74 then Some (HostPowerOff 0)
     else if d = 75 then Some (PercSpaChoice 0)
     else if d = 76 then Some (GuestNicSaved 0 0)
     else if d = 77 then Some (GuestNicDetached 0)
     else if d = 78 then Some (HostLinkChanged 0 0 0)
     else if d = 79 then Some (HostAddrSaved 0 0)
     else if d = 80 then Some (OperatorAccountSet 0)
     else if d = 81 then Some (HostCertSaved 0 0)
     else None)"

text \<open>Every kind can be rebuilt from its discriminant, and only from it.\<close>

lemma event_from_disc_disc:
  "\<exists>e'. event_from_disc (event_discriminant e) = Some e' \<and>
     event_discriminant e' = event_discriminant e"
  by (cases e) (simp_all add: event_from_disc_def)

lemma event_disc_from_disc:
  "event_from_disc d = Some e \<Longrightarrow> event_discriminant e = d"
  unfolding event_from_disc_def by (auto split: if_splits)

end
