(* ===== verification/Audit_Ring.thy ===== *)
theory Audit_Ring
  imports Audit_Event
begin

text \<open>
  The hash-chained audit ring of \<open>audit/integrity.rs\<close>: append, verification,
  tampering, and the self-checks the source ships.  The locale \<open>chain_hash\<close> states
  what the chain needs of its hash function and derives that a change of any hashed field
  of a record is detected; it is interpreted on the source's FNV-1a style hash.
\<close>

definition AUDIT_GENESIS_HASH :: u64 where "AUDIT_GENESIS_HASH = 0x5241594E552D5630"
definition AUDIT_RING_CAP :: nat where "AUDIT_RING_CAP = 256"

record AuditRecord =
  ar_seq :: u64
  ar_event :: AuditEvent
  ar_prev_hash :: u64
  ar_hash :: u64

text \<open>\<open>records\<close> is the fixed array of slots; \<open>ring_len\<close> is an index into it.\<close>

record AuditRing =
  records :: "AuditRecord option list"
  ring_len :: nat
  next_seq :: u64
  tip_hash :: u64

definition hash_record :: "u64 \<Rightarrow> AuditEvent \<Rightarrow> u64 \<Rightarrow> u64" where
  "hash_record seq event prev =
    (let h = (0xcbf29ce484222325 :: u64);
         h = h XOR seq;
         h = h * 0x100000001b3;
         h = h XOR event_discriminant event;
         h = h * 0x100000001b3;
         h = h XOR prev
     in h * 0x100000001b3)"

definition ring_new :: AuditRing where
  "ring_new = \<lparr>records = replicate AUDIT_RING_CAP None, ring_len = 0, next_seq = 0,
     tip_hash = AUDIT_GENESIS_HASH\<rparr>"

definition ring_append :: "AuditRing \<Rightarrow> AuditEvent \<Rightarrow> (unit + AuditRecord) \<times> AuditRing" where
  "ring_append r event =
    (if length (records r) \<le> ring_len r then (Inl (), r)
     else let prev = tip_hash r; seq = next_seq r; hash = hash_record seq event prev;
            rec = \<lparr>ar_seq = seq, ar_event = event, ar_prev_hash = prev, ar_hash = hash\<rparr>
       in (Inr rec,
           r\<lparr>records := (records r)[ring_len r := Some rec], ring_len := ring_len r + 1,
             next_seq := next_seq r + 1, tip_hash := hash\<rparr>))"

text \<open>The loop of \<open>verify_chain\<close> from index \<open>i\<close> with the running hash \<open>prev\<close>;
  an index beyond the array would panic in the source and is refused here.\<close>

fun verify_from :: "AuditRing \<Rightarrow> nat \<Rightarrow> nat \<Rightarrow> u64 \<Rightarrow> bool" where
  "verify_from r i 0 prev = True"
| "verify_from r i (Suc n) prev =
    (if length (records r) \<le> i then False
     else case records r ! i of
       None \<Rightarrow> False
     | Some rec \<Rightarrow>
         if ar_prev_hash rec \<noteq> prev then False
         else if ar_hash rec \<noteq> hash_record (ar_seq rec) (ar_event rec) (ar_prev_hash rec) then False
         else verify_from r (i + 1) n (ar_hash rec))"

definition verify_chain :: "AuditRing \<Rightarrow> bool" where
  "verify_chain r = verify_from r 0 (ring_len r) AUDIT_GENESIS_HASH"

definition ring_get :: "AuditRing \<Rightarrow> nat \<Rightarrow> AuditRecord option" where
  "ring_get r index = (if ring_len r \<le> index then None else records r ! index)"

definition tamper_hash_at :: "AuditRing \<Rightarrow> nat \<Rightarrow> bool \<times> AuditRing" where
  "tamper_hash_at r index =
    (if ring_len r \<le> index then (False, r)
     else case records r ! index of
       Some rec \<Rightarrow> (True, r\<lparr>records :=
         (records r)[index := Some (rec\<lparr>ar_hash := ar_hash rec XOR 0xDEADBEEFCAFEBABE\<rparr>)]\<rparr>)
     | None \<Rightarrow> (False, r))"

text \<open>Appending a list of events, as callers do one by one; stops at the first refusal.\<close>

fun append_all :: "AuditRing \<Rightarrow> AuditEvent list \<Rightarrow> bool \<times> AuditRing" where
  "append_all r [] = (True, r)"
| "append_all r (e # es) =
    (case ring_append r e of (Inl _, r') \<Rightarrow> (False, r') | (Inr _, r') \<Rightarrow> append_all r' es)"

definition prop_mandatory_events_chain :: bool where
  "prop_mandatory_events_chain =
    (case append_all ring_new
       [VmcsCreated 0 1, EptMapped 1 0x1000 0x2000, EptUnmapped 1 0x1000 0x2000,
        MsrBlocked 0 0x3A, VmCreated 1, VmStarted 1, VmStopped 1, VmDestroyed 1] of
       (ok, r) \<Rightarrow> ok \<and> ring_len r = 8 \<and> verify_chain r)"

definition prop_tamper_detected :: bool where
  "prop_tamper_detected =
    (case append_all ring_new [BootStarted M5, VmcsCreated 0 9, EptMapped 1 0 0x1000] of
       (False, _) \<Rightarrow> False
     | (True, r) \<Rightarrow>
       if \<not> verify_chain r then False
       else case tamper_hash_at r 1 of
         (False, _) \<Rightarrow> False
       | (True, r') \<Rightarrow> \<not> verify_chain r')"

section \<open>The contract of a chain hash\<close>

text \<open>The hash sees an event only through its kind and is injective in each argument when the
  other two are fixed.\<close>

locale chain_hash =
  fixes hash :: "u64 \<Rightarrow> 'e \<Rightarrow> u64 \<Rightarrow> u64" and kind :: "'e \<Rightarrow> u64"
  assumes hash_kind: "kind e = kind e' \<Longrightarrow> hash s e p = hash s e' p"
    and inj_seq: "hash s e p = hash s' e p \<Longrightarrow> s = s'"
    and inj_kind: "hash s e p = hash s e' p \<Longrightarrow> kind e = kind e'"
    and inj_prev: "hash s e p = hash s e p' \<Longrightarrow> p = p'"
begin

text \<open>Changing one hashed field of a sealed link breaks its seal.\<close>

lemma single_field_change:
  assumes "h = hash s e p" and "h = hash s' e' p'"
    and "(s' = s \<and> kind e' = kind e) \<or> (s' = s \<and> p' = p) \<or> (kind e' = kind e \<and> p' = p)"
  shows "s' = s \<and> kind e' = kind e \<and> p' = p"
  using assms hash_kind inj_seq inj_kind inj_prev by metis

lemma seal_unique:
  assumes "hash s e p = hash s e' p'" and "p = p'"
  shows "kind e = kind e'"
  using assms inj_kind by metis

end

section \<open>The FNV-style hash\<close>

text \<open>The multiplier is odd, so multiplication by it is a bijection modulo \<open>2^64\<close>.\<close>

lemma fnv_prime_inverse: "(0x100000001b3 :: u64) * 0xce965057aff6957b = 1"
  by simp

lemma fnv_prime_cancel: "(x :: u64) * 0x100000001b3 = y * 0x100000001b3 \<longleftrightarrow> x = y"
proof
  assume "x * 0x100000001b3 = y * 0x100000001b3"
  then have "x * 0x100000001b3 * 0xce965057aff6957b = y * 0x100000001b3 * 0xce965057aff6957b"
    by simp
  then show "x = y" by (simp only: mult.assoc fnv_prime_inverse mult_1_right)
qed simp

lemma hash_record_eq:
  "hash_record s e p =
    (((0xcbf29ce484222325 XOR s) * 0x100000001b3 XOR event_discriminant e) * 0x100000001b3 XOR p)
      * 0x100000001b3"
  by (simp add: hash_record_def Let_def)

interpretation fnv: chain_hash hash_record event_discriminant
  by unfold_locales (simp_all only: hash_record_eq fnv_prime_cancel xor_cancel)

section \<open>A ring as the list of its events\<close>

text \<open>The records a sequence of events must produce, starting from a sequence number and a
  previous hash, and the ring that holds them.\<close>

fun chain :: "u64 \<Rightarrow> u64 \<Rightarrow> AuditEvent list \<Rightarrow> AuditRecord list" where
  "chain s p [] = []"
| "chain s p (e # es) =
    \<lparr>ar_seq = s, ar_event = e, ar_prev_hash = p, ar_hash = hash_record s e p\<rparr> #
    chain (s + 1) (hash_record s e p) es"

fun chain_tip :: "u64 \<Rightarrow> u64 \<Rightarrow> AuditEvent list \<Rightarrow> u64" where
  "chain_tip s p [] = p"
| "chain_tip s p (e # es) = chain_tip (s + 1) (hash_record s e p) es"

definition ring_of :: "AuditEvent list \<Rightarrow> AuditRing" where
  "ring_of es = \<lparr>records = map Some (chain 0 AUDIT_GENESIS_HASH es) @
       replicate (AUDIT_RING_CAP - length es) None,
     ring_len = length es, next_seq = of_nat (length es),
     tip_hash = chain_tip 0 AUDIT_GENESIS_HASH es\<rparr>"

lemma length_chain [simp]: "length (chain s p es) = length es"
  by (induction es arbitrary: s p) auto

lemma chain_append:
  "chain s p (es @ fs) = chain s p es @ chain (s + of_nat (length es)) (chain_tip s p es) fs"
  by (induction es arbitrary: s p) (simp_all add: add.assoc)

lemma chain_tip_append:
  "chain_tip s p (es @ fs) = chain_tip (s + of_nat (length es)) (chain_tip s p es) fs"
  by (induction es arbitrary: s p) (simp_all add: add.assoc)

lemma ring_of_Nil: "ring_of [] = ring_new"
  by (simp add: ring_of_def ring_new_def)

lemma length_records_ring_of [simp]:
  "length es \<le> AUDIT_RING_CAP \<Longrightarrow> length (records (ring_of es)) = AUDIT_RING_CAP"
  by (simp add: ring_of_def)

lemma ring_len_ring_of [simp]: "ring_len (ring_of es) = length es"
  by (simp add: ring_of_def)

lemma ring_get_ring_of:
  "ring_get (ring_of es) i = (if i < length es then Some (chain 0 AUDIT_GENESIS_HASH es ! i) else None)"
  by (simp add: ring_get_def ring_of_def nth_append)

lemma ring_append_ring_of:
  assumes "length es \<le> AUDIT_RING_CAP"
  shows "ring_append (ring_of es) e =
    (if length es < AUDIT_RING_CAP
     then (Inr (chain 0 AUDIT_GENESIS_HASH (es @ [e]) ! length es), ring_of (es @ [e]))
     else (Inl (), ring_of es))"
proof (cases "length es < AUDIT_RING_CAP")
  case True
  then obtain k where k: "AUDIT_RING_CAP - length es = Suc k"
    by (metis Suc_diff_Suc)
  then have "AUDIT_RING_CAP - length (es @ [e]) = k" by simp
  with k True show ?thesis
    by (simp add: ring_append_def ring_of_def Let_def chain_append chain_tip_append nth_append
        list_update_append add.commute)
next
  case False
  with assms show ?thesis by (simp add: ring_append_def)
qed

lemma append_all_ring_of:
  assumes "length es + length fs \<le> AUDIT_RING_CAP"
  shows "append_all (ring_of es) fs = (True, ring_of (es @ fs))"
  using assms
proof (induction fs arbitrary: es)
  case (Cons f fs)
  have "append_all (ring_of (es @ [f])) fs = (True, ring_of ((es @ [f]) @ fs))"
    using Cons.prems by (intro Cons.IH) simp
  with Cons.prems show ?case by (simp add: ring_append_ring_of)
qed simp

section \<open>Chain verification\<close>

definition sealed :: "AuditRecord \<Rightarrow> bool" where
  "sealed rec \<longleftrightarrow> ar_hash rec = hash_record (ar_seq rec) (ar_event rec) (ar_prev_hash rec)"

lemma verify_from_Suc:
  "verify_from r i (Suc n) prev \<longleftrightarrow> i < length (records r) \<and>
    (\<exists>rec. records r ! i = Some rec \<and> ar_prev_hash rec = prev \<and> sealed rec \<and>
      verify_from r (Suc i) n (ar_hash rec))"
  by (auto simp: sealed_def split: option.splits)

declare verify_from.simps(2) [simp del]

lemma verify_from_nth:
  assumes "verify_from r i n prev" and "k < n"
  shows "\<exists>rec. i + k < length (records r) \<and> records r ! (i + k) = Some rec \<and> sealed rec"
  using assms
proof (induction n arbitrary: i k prev)
  case (Suc n)
  then obtain rec where "i < length (records r)" "records r ! i = Some rec" "sealed rec"
    "verify_from r (Suc i) n (ar_hash rec)"
    by (auto simp: verify_from_Suc)
  with Suc.IH [of "Suc i" "ar_hash rec" "k - 1"] Suc.prems(2) show ?case by (cases k) auto
qed simp

text \<open>Verification reads a record only through the fields it hashes.\<close>

definition same_link :: "AuditRecord \<Rightarrow> AuditRecord \<Rightarrow> bool" where
  "same_link a b \<longleftrightarrow> ar_seq a = ar_seq b \<and> ar_prev_hash a = ar_prev_hash b \<and>
     ar_hash a = ar_hash b \<and> event_discriminant (ar_event a) = event_discriminant (ar_event b)"

lemma same_link_sealed: "same_link a b \<Longrightarrow> sealed a = sealed b"
  using fnv.hash_kind [of "ar_event a" "ar_event b" "ar_seq b" "ar_prev_hash b"]
  by (simp add: same_link_def sealed_def)

lemma verify_from_cong:
  assumes "length (records r') = length (records r)"
    and "\<And>k. k < n \<Longrightarrow> i + k < length (records r) \<Longrightarrow>
      rel_option same_link (records r' ! (i + k)) (records r ! (i + k))"
  shows "verify_from r' i n prev = verify_from r i n prev"
  using assms
proof (induction n arbitrary: i prev)
  case (Suc n)
  show ?case
  proof (cases "i < length (records r)")
    case True
    have head: "rel_option same_link (records r' ! i) (records r ! i)"
      using Suc.prems(2) [of 0] True by simp
    have ih: "verify_from r' (i + 1) n p = verify_from r (i + 1) n p" for p
    proof (rule Suc.IH [OF Suc.prems(1)])
      fix k assume "k < n" "i + 1 + k < length (records r)"
      then show "rel_option same_link (records r' ! (i + 1 + k)) (records r ! (i + 1 + k))"
        using Suc.prems(2) [of "Suc k"] by simp
    qed
    show ?thesis
    proof (cases "records r ! i")
      case None
      with head have "records r' ! i = None" by simp
      with None Suc.prems(1) True show ?thesis by (simp add: verify_from_Suc)
    next
      case (Some b)
      with head obtain a where a: "records r' ! i = Some a" "same_link a b"
        by (cases "records r' ! i") auto
      show ?thesis
        using a Some Suc.prems(1) True ih same_link_sealed [OF a(2)]
        by (simp add: verify_from_Suc same_link_def)
    qed
  qed (use Suc.prems(1) in \<open>simp add: verify_from_Suc\<close>)
qed simp

lemma verify_from_chain:
  assumes "records r = map Some (pre @ chain s p es) @ post" and "length pre = i"
  shows "verify_from r i (length es) p"
  using assms
proof (induction es arbitrary: i s p pre)
  case (Cons e es)
  let ?rec = "\<lparr>ar_seq = s, ar_event = e, ar_prev_hash = p, ar_hash = hash_record s e p\<rparr>"
  have "verify_from r (Suc i) (length es) (hash_record s e p)"
    using Cons.prems by (intro Cons.IH [of "pre @ [?rec]" "s + 1"]) simp_all
  moreover have "records r ! i = Some ?rec" "i < length (records r)"
    using Cons.prems by (auto simp: nth_append)
  ultimately show ?case by (simp add: verify_from_Suc sealed_def)
qed simp

lemma verify_chain_ring_of: "verify_chain (ring_of es)"
  unfolding verify_chain_def
  by (simp, rule verify_from_chain [where pre = "[]" and s = 0]) (simp_all add: ring_of_def)

lemma verify_chain_nth:
  "verify_chain r \<Longrightarrow> i < ring_len r \<Longrightarrow>
    \<exists>rec. i < length (records r) \<and> records r ! i = Some rec \<and> sealed rec"
  unfolding verify_chain_def using verify_from_nth [of r 0 "ring_len r" _ i] by simp

lemma verify_chain_same_link:
  assumes "records r ! i = Some rec" and "same_link rec' rec"
  shows "verify_chain (r\<lparr>records := (records r)[i := Some rec']\<rparr>) = verify_chain r"
  unfolding verify_chain_def
proof (simp, rule verify_from_cong)
  fix k assume "0 + k < length (records r)"
  moreover have "rel_option same_link x x" for x
    by (cases x) (simp_all add: same_link_def)
  ultimately show "rel_option same_link (records (r\<lparr>records := (records r)[i := Some rec']\<rparr>) ! (0 + k))
      (records r ! (0 + k))"
    using assms by (cases "k = i") simp_all
qed simp

lemma tamper_hash_at_detected:
  assumes "verify_chain r" and "i < ring_len r"
  shows "fst (tamper_hash_at r i)" and "\<not> verify_chain (snd (tamper_hash_at r i))"
proof -
  obtain rec where rec: "i < length (records r)" "records r ! i = Some rec" "sealed rec"
    using verify_chain_nth [OF assms] by blast
  then show "fst (tamper_hash_at r i)" using assms(2) by (simp add: tamper_hash_at_def)
  show "\<not> verify_chain (snd (tamper_hash_at r i))"
  proof
    assume "verify_chain (snd (tamper_hash_at r i))"
    from verify_chain_nth [OF this, of i] rec assms(2)
    have "ar_hash rec XOR 0xDEADBEEFCAFEBABE = ar_hash rec XOR 0"
      by (simp add: tamper_hash_at_def sealed_def)
    then show False unfolding xor_cancel by simp
  qed
qed

lemma append_all_new:
  "length es \<le> AUDIT_RING_CAP \<Longrightarrow> append_all ring_new es = (True, ring_of es)"
  using append_all_ring_of [of "[]" es] by (simp add: ring_of_Nil)

lemma self_check_mandatory_events: "prop_mandatory_events_chain"
  unfolding prop_mandatory_events_chain_def
  by (subst append_all_new) (simp_all add: AUDIT_RING_CAP_def verify_chain_ring_of)

lemma self_check_tamper_detected: "prop_tamper_detected"
  unfolding prop_tamper_detected_def
  using tamper_hash_at_detected
    [OF verify_chain_ring_of [of "[BootStarted M5, VmcsCreated 0 9, EptMapped 1 0 0x1000]"], of 1]
  by (subst append_all_new)
    (simp_all add: AUDIT_RING_CAP_def verify_chain_ring_of prod.case_eq_if split: bool.split)

section \<open>Properties\<close>

text \<open>
  C24: Append keeps the chain.  A ring built from any events and appended to either gains
  exactly that event with the next sequence number and the old tip as its link, or is full
  at 256 records and unchanged; every ring so built verifies from genesis.
\<close>

theorem ring_append_refines:
  assumes "length es \<le> AUDIT_RING_CAP"
  shows "verify_chain (ring_of es) \<and>
    (if length es < AUDIT_RING_CAP then
       ring_append (ring_of es) e =
         (Inr \<lparr>ar_seq = of_nat (length es), ar_event = e, ar_prev_hash = tip_hash (ring_of es),
            ar_hash = tip_hash (ring_of (es @ [e]))\<rparr>, ring_of (es @ [e])) \<and>
       verify_chain (ring_of (es @ [e]))
     else ring_append (ring_of es) e = (Inl (), ring_of es))"
proof -
  have "chain 0 AUDIT_GENESIS_HASH (es @ [e]) ! length es =
      \<lparr>ar_seq = of_nat (length es), ar_event = e, ar_prev_hash = tip_hash (ring_of es),
       ar_hash = tip_hash (ring_of (es @ [e]))\<rparr>"
    by (simp add: chain_append chain_tip_append nth_append ring_of_def)
  then show ?thesis
    using ring_append_ring_of [OF assms, of e] verify_chain_ring_of by simp
qed

theorem ring_append_refines_witness:
  "fst (ring_append (ring_of [VmCreated 7]) (VmStarted 7)) =
     Inr \<lparr>ar_seq = 1, ar_event = VmStarted 7, ar_prev_hash = tip_hash (ring_of [VmCreated 7]),
       ar_hash = tip_hash (ring_of [VmCreated 7, VmStarted 7])\<rparr> \<and>
   verify_chain (ring_of [VmCreated 7, VmStarted 7])"
  using ring_append_refines [of "[VmCreated 7]" "VmStarted 7"] by (simp add: AUDIT_RING_CAP_def)

text \<open>
  C25: Tamper evidence.  If one record of a verified ring is replaced by a record that differs
  from it in at most one of sequence number, event kind, link and hash, and the ring still
  verifies, then none of the four was changed.
\<close>

theorem verify_chain_detects_single_field:
  assumes "verify_chain r" and "i < ring_len r" and "records r ! i = Some rec"
    and "verify_chain (r\<lparr>records := (records r)[i := Some rec']\<rparr>)"
    and "length (filter id [ar_seq rec' \<noteq> ar_seq rec,
        event_discriminant (ar_event rec') \<noteq> event_discriminant (ar_event rec),
        ar_prev_hash rec' \<noteq> ar_prev_hash rec, ar_hash rec' \<noteq> ar_hash rec]) \<le> 1"
  shows "same_link rec' rec"
proof -
  have "i < length (records r)" and old: "sealed rec"
    using verify_chain_nth [OF assms(1,2)] assms(3) by auto
  then have new: "sealed rec'"
    using verify_chain_nth [OF assms(4), of i] assms(2) by auto
  show ?thesis
  proof (cases "ar_hash rec' = ar_hash rec")
    case True
    then have seal: "ar_hash rec = hash_record (ar_seq rec') (ar_event rec') (ar_prev_hash rec')"
      using new by (simp add: sealed_def)
    have one: "(ar_seq rec' = ar_seq rec \<and>
        event_discriminant (ar_event rec') = event_discriminant (ar_event rec)) \<or>
      (ar_seq rec' = ar_seq rec \<and> ar_prev_hash rec' = ar_prev_hash rec) \<or>
      (event_discriminant (ar_event rec') = event_discriminant (ar_event rec) \<and>
        ar_prev_hash rec' = ar_prev_hash rec)"
      using assms(5) by (simp split: if_splits)
    from fnv.single_field_change [OF old [unfolded sealed_def] seal one] True show ?thesis
      by (simp add: same_link_def)
  next
    case False
    then have "same_link (rec'\<lparr>ar_hash := ar_hash rec\<rparr>) rec"
      using assms(5) by (simp add: same_link_def split: if_splits)
    then have "sealed (rec'\<lparr>ar_hash := ar_hash rec\<rparr>)"
      using old same_link_sealed by blast
    with new False show ?thesis by (simp add: sealed_def)
  qed
qed

theorem verify_chain_detects_single_field_witness:
  "\<not> verify_chain (snd (tamper_hash_at (ring_of [VmCreated 7, VmStarted 7]) 1))"
proof
  define r where "r = ring_of [VmCreated 7, VmStarted 7]"
  define rec where "rec = chain 0 AUDIT_GENESIS_HASH [VmCreated 7, VmStarted 7] ! 1"
  assume "verify_chain (snd (tamper_hash_at (ring_of [VmCreated 7, VmStarted 7]) 1))"
  moreover have at: "records r ! 1 = Some rec" "1 < ring_len r"
    by (simp_all add: r_def rec_def ring_of_def)
  moreover have v: "verify_chain r" unfolding r_def by (rule verify_chain_ring_of)
  ultimately have "verify_chain (r\<lparr>records :=
      (records r)[1 := Some (rec\<lparr>ar_hash := ar_hash rec XOR 0xDEADBEEFCAFEBABE\<rparr>)]\<rparr>)"
    unfolding r_def [symmetric] by (simp add: tamper_hash_at_def)
  from verify_chain_detects_single_field [OF v at(2,1) this]
  have "ar_hash rec XOR 0xDEADBEEFCAFEBABE = ar_hash rec XOR 0"
    by (simp add: same_link_def)
  then show False unfolding xor_cancel by simp
qed

text \<open>
  What the seal does not cover.  Replacing the event of a record by another event of the
  same kind leaves the outcome of verification unchanged, so payload fields such as the guest
  or the address of a mapping can be altered without detection.
\<close>

theorem verify_chain_ignores_payload:
  assumes "records r ! i = Some rec" and "event_discriminant e = event_discriminant (ar_event rec)"
  shows "verify_chain (r\<lparr>records := (records r)[i := Some (rec\<lparr>ar_event := e\<rparr>)]\<rparr>) = verify_chain r"
  using assms by (intro verify_chain_same_link) (auto simp: same_link_def)

theorem verify_chain_ignores_payload_witness:
  "verify_chain ((ring_of [EptMapped 1 0x1000 0x2000])\<lparr>records :=
     (records (ring_of [EptMapped 1 0x1000 0x2000]))[0 :=
       Some ((chain 0 AUDIT_GENESIS_HASH [EptMapped 1 0x1000 0x2000] ! 0)
         \<lparr>ar_event := EptMapped 2 0x9000 0x5000\<rparr>)]\<rparr>)"
proof -
  have "records (ring_of [EptMapped 1 0x1000 0x2000]) ! 0 =
      Some (chain 0 AUDIT_GENESIS_HASH [EptMapped 1 0x1000 0x2000] ! 0)"
    by (simp add: ring_of_def)
  from verify_chain_ignores_payload [OF this, of "EptMapped 2 0x9000 0x5000"]
  show ?thesis by (simp add: verify_chain_ring_of)
qed

end
