(* ===== verification/Audit_Persist.thy ===== *)
theory Audit_Persist
  imports Audit_Ring
begin

text \<open>
  The durable image of the audit chain (\<open>audit/persist.rs\<close>), its adoption at the next
  boot, and the process-wide sink \<open>record_event\<close> of \<open>audit/integrity.rs\<close> that
  appends to the boot ring and stages its image.  Images are byte lists; a slice index out of
  range or an \<open>unwrap\<close> of \<open>None\<close> is the outer \<open>None\<close> of the result.
  The spinlocks only serialise access and are not part of the state.
\<close>

definition IMAGE_BYTES :: nat where "IMAGE_BYTES = 8192"
definition MAGIC :: "u8 list" where
  "MAGIC = [0x52, 0x41, 0x59, 0x4E, 0x55, 0x41, 0x55, 0x44]"
definition VERSION :: u8 where "VERSION = 1"
definition HEADER :: nat where "HEADER = 32"
definition REC :: nat where "REC = 24"
definition CHECK_OFF :: nat where "CHECK_OFF = IMAGE_BYTES - 4"

definition checksum :: "u8 list \<Rightarrow> u32" where
  "checksum bytes = fold (\<lambda>b a. a + ucast b) bytes 0"

definition ring_next_seq :: "AuditRing \<Rightarrow> u64" where
  "ring_next_seq r =
    (case ring_get r (ring_len r - 1) of Some rec \<Rightarrow> saturating_add (ar_seq rec) 1 | None \<Rightarrow> 0)"

fun encode_records :: "AuditRing \<Rightarrow> nat list \<Rightarrow> u8 list \<Rightarrow> u8 list option" where
  "encode_records r [] buf = Some buf"
| "encode_records r (i # is) buf =
    (case ring_get r i of
       None \<Rightarrow> None
     | Some rec \<Rightarrow>
         let off = HEADER + i * REC;
             buf = put_slice off (le_bytes 8 (ar_seq rec)) buf;
             buf = put_slice (off + 8) (le_bytes 8 (event_discriminant (ar_event rec))) buf;
             buf = put_slice (off + 16) (le_bytes 8 (ar_prev_hash rec)) buf
         in encode_records r is buf)"

definition encode_ring :: "AuditRing \<Rightarrow> u8 list \<Rightarrow> (bool \<times> u8 list) option" where
  "encode_ring r buf =
    (if length buf < IMAGE_BYTES \<or> AUDIT_RING_CAP < ring_len r then Some (False, buf)
     else let buf = put_slice 0 (replicate IMAGE_BYTES 0) buf;
              buf = put_slice 0 MAGIC buf;
              buf = buf[8 := VERSION];
              buf = put_slice 10 (le_bytes 2 (of_nat (ring_len r) :: u16)) buf;
              buf = put_slice 12 (le_bytes 8 (ring_next_seq r)) buf;
              buf = put_slice 20 (le_bytes 8 (tip_hash r)) buf
       in case encode_records r [0..<ring_len r] buf of
            None \<Rightarrow> None
          | Some buf \<Rightarrow>
              let sum = checksum (take CHECK_OFF buf)
              in Some (True, put_slice CHECK_OFF (le_bytes 4 sum) buf))"

fun decode_records :: "u8 list \<Rightarrow> nat list \<Rightarrow> AuditRing \<Rightarrow> AuditRing option" where
  "decode_records img [] ring = Some ring"
| "decode_records img (i # is) ring =
    (let off = HEADER + i * REC;
         seq = from_le_bytes (get_slice off 8 img);
         disc = from_le_bytes (get_slice (off + 8) 8 img);
         prev = from_le_bytes (get_slice (off + 16) 8 img)
     in case event_from_disc disc of
          None \<Rightarrow> None
        | Some event \<Rightarrow>
          (case ring_append ring event of
             (Inl _, _) \<Rightarrow> None
           | (Inr got, ring') \<Rightarrow>
               if ar_seq got \<noteq> seq \<or> ar_prev_hash got \<noteq> prev then None
               else if ar_hash got \<noteq> hash_record seq event prev then None
               else decode_records img is ring'))"

definition decode_ring :: "u8 list \<Rightarrow> AuditRing option" where
  "decode_ring img =
    (if length img < IMAGE_BYTES \<or> take 8 img \<noteq> MAGIC \<or> img ! 8 \<noteq> VERSION then None
     else if from_le_bytes (get_slice CHECK_OFF 4 img) \<noteq> checksum (take CHECK_OFF img) then None
     else let count = unat (from_le_bytes (get_slice 10 2 img) :: u16) in
       if AUDIT_RING_CAP < count then None
       else case decode_records img [0..<count] ring_new of
         None \<Rightarrow> None
       | Some ring \<Rightarrow>
           let tip = from_le_bytes (get_slice 20 8 img) in
           if tip_hash ring \<noteq> tip then None
           else if count = 0 \<and> tip \<noteq> AUDIT_GENESIS_HASH then None
           else Some ring)"

text \<open>\<open>AuditRing::adopt_image\<close>; the events already present are re-appended to the
  restored chain.  The outer \<open>None\<close> is the \<open>unwrap\<close> of an empty slot.\<close>

fun kept_events :: "AuditRing \<Rightarrow> nat list \<Rightarrow> AuditEvent list option" where
  "kept_events r [] = Some []"
| "kept_events r (i # is) =
    (case ring_get r i of
       None \<Rightarrow> None
     | Some rec \<Rightarrow> map_option (\<lambda>es. ar_event rec # es) (kept_events r is))"

definition adopt_image :: "AuditRing \<Rightarrow> u8 list \<Rightarrow> (bool \<times> AuditRing) option" where
  "adopt_image r img =
    (case decode_ring img of
       None \<Rightarrow> Some (False, r)
     | Some prior \<Rightarrow>
         if \<not> verify_chain prior \<or> AUDIT_RING_CAP < ring_len prior + ring_len r
         then Some (False, r)
         else case kept_events r [0..<ring_len r] of
           None \<Rightarrow> None
         | Some kept \<Rightarrow>
             (case append_all prior kept of
                (False, r') \<Rightarrow> Some (False, r')
              | (True, r') \<Rightarrow> Some (verify_chain r', r')))"

section \<open>The boot ring and the staged image\<close>

record audit_sink =
  boot_ring :: AuditRing
  staged :: "u8 list"
  staged_gen :: u32
  staged_on :: bool
  clock_synced :: bool
  clock_stamped :: bool

definition stage_boot_ring :: "audit_sink \<Rightarrow> audit_sink option" where
  "stage_boot_ring s =
    (case encode_ring (boot_ring s) (staged s) of
       None \<Rightarrow> None
     | Some (False, buf) \<Rightarrow> Some (s\<lparr>staged := buf\<rparr>)
     | Some (True, buf) \<Rightarrow>
         Some (s\<lparr>staged := buf, staged_gen := staged_gen s + 1, staged_on := True\<rparr>))"

definition staged_sector :: "audit_sink \<Rightarrow> nat \<Rightarrow> (u32 \<times> u8 list) option" where
  "staged_sector s index =
    (if \<not> staged_on s \<or> IMAGE_BYTES div 512 \<le> index then None
     else Some (staged_gen s, get_slice (index * 512) 512 (staged s)))"

definition ack_staged :: "audit_sink \<Rightarrow> u32 \<Rightarrow> audit_sink" where
  "ack_staged s gen = (if staged_gen s = gen then s\<lparr>staged_on := False\<rparr> else s)"

definition flush_interval_elapsed :: "u64 \<Rightarrow> u64 \<Rightarrow> u64 \<Rightarrow> bool" where
  "flush_interval_elapsed last_tsc now gap \<longleftrightarrow> last_tsc = 0 \<or> gap \<le> now - last_tsc"

text \<open>\<open>host_clock::audit_stamp_once\<close>: the stamp flag is taken once the clock is in sync; the
  serial line it prints is output only.\<close>

definition audit_stamp_once :: "audit_sink \<Rightarrow> audit_sink" where
  "audit_stamp_once s = (if \<not> clock_synced s then s else s\<lparr>clock_stamped := True\<rparr>)"

definition record_event :: "audit_sink \<Rightarrow> AuditEvent \<Rightarrow> audit_sink option" where
  "record_event s event =
    (case ring_append (boot_ring s) event of
       (_, r) \<Rightarrow> map_option audit_stamp_once (stage_boot_ring (s\<lparr>boot_ring := r\<rparr>)))"

definition adopt_boot_image :: "audit_sink \<Rightarrow> u8 list \<Rightarrow> (bool \<times> audit_sink) option" where
  "adopt_boot_image s img =
    map_option (\<lambda>(ok, r). (ok, s\<lparr>boot_ring := r\<rparr>)) (adopt_image (boot_ring s) img)"

definition boot_ring_verify :: "audit_sink \<Rightarrow> bool" where
  "boot_ring_verify s = verify_chain (boot_ring s)"

fun record_events :: "audit_sink \<Rightarrow> AuditEvent list \<Rightarrow> audit_sink option" where
  "record_events s [] = Some s"
| "record_events s (e # es) =
    (case record_event s e of None \<Rightarrow> None | Some s' \<Rightarrow> record_events s' es)"

section \<open>Slices of an image\<close>

lemma put_slice_put_slice:
  assumes "i + length a + length b \<le> length buf"
  shows "put_slice (i + length a) b (put_slice i a buf) = put_slice i (a @ b) buf"
  using assms by (simp add: put_slice_def ac_simps)

lemma get_slice_inside:
  assumes "i + length bs \<le> length buf" and "k + n \<le> length bs"
  shows "get_slice (i + k) n (put_slice i bs buf) = get_slice k n bs"
  using assms by (simp add: get_slice_def put_slice_def)

lemma take_put_slice:
  "n \<le> i \<Longrightarrow> i \<le> length buf \<Longrightarrow> take n (put_slice i bs buf) = take n buf"
  by (simp add: put_slice_def)

lemma nth_put_slice_before:
  "k < i \<Longrightarrow> i \<le> length buf \<Longrightarrow> put_slice i bs buf ! k = buf ! k"
  by (simp add: put_slice_def nth_append)

definition rec_bytes :: "AuditRecord \<Rightarrow> u8 list" where
  "rec_bytes rec = le_bytes 8 (ar_seq rec) @ le_bytes 8 (event_discriminant (ar_event rec)) @
     le_bytes 8 (ar_prev_hash rec)"

lemma length_rec_bytes [simp]: "length (rec_bytes rec) = 24"
  by (simp add: rec_bytes_def)

lemma length_concat_rec_bytes [simp]: "length (concat (map rec_bytes rs)) = 24 * length rs"
  by (induction rs) simp_all

lemma get_slice_concat_rec_bytes:
  assumes "i < length rs" and "k + n \<le> 24"
  shows "get_slice (24 * i + k) n (concat (map rec_bytes rs)) = get_slice k n (rec_bytes (rs ! i))"
  using assms(1)
proof (induction rs arbitrary: i)
  case (Cons r rs)
  show ?case
  proof (cases i)
    case 0
    then show ?thesis using assms(2) by (simp add: get_slice_def)
  next
    case (Suc j)
    then have "24 * i + k = length (rec_bytes r) + (24 * j + k)" by simp
    then have "get_slice (24 * i + k) n (concat (map rec_bytes (r # rs))) =
        get_slice (24 * j + k) n (concat (map rec_bytes rs))"
      by (simp only: get_slice_def list.map concat.simps drop_append) simp
    with Cons Suc show ?thesis by simp
  qed
qed simp

lemma get_slice_rec_bytes:
  "get_slice 0 8 (rec_bytes rec) = le_bytes 8 (ar_seq rec)"
  "get_slice 8 8 (rec_bytes rec) = le_bytes 8 (event_discriminant (ar_event rec))"
  "get_slice 16 8 (rec_bytes rec) = le_bytes 8 (ar_prev_hash rec)"
  by (simp_all add: get_slice_def rec_bytes_def)

section \<open>Encoding\<close>

lemma encode_records_append:
  "encode_records r (xs @ ys) buf =
    (case encode_records r xs buf of None \<Rightarrow> None | Some b \<Rightarrow> encode_records r ys b)"
  by (induction xs arbitrary: buf) (simp_all add: Let_def split: option.split)

lemma encode_records_ring_of:
  assumes "n \<le> length es" and "length es \<le> AUDIT_RING_CAP" and "IMAGE_BYTES \<le> length buf"
  shows "encode_records (ring_of es) [0..<n] buf =
    Some (put_slice HEADER (concat (map rec_bytes (take n (chain 0 AUDIT_GENESIS_HASH es)))) buf)"
  using assms(1)
proof (induction n)
  case 0
  then show ?case by (simp add: put_slice_def)
next
  case (Suc n)
  let ?c = "chain 0 AUDIT_GENESIS_HASH es"
  let ?b = "put_slice HEADER (concat (map rec_bytes (take n ?c))) buf"
  have off: "HEADER + n * REC = HEADER + length (concat (map rec_bytes (take n ?c)))"
    using Suc.prems by (simp add: REC_def)
  have room: "HEADER + 24 * n + 24 \<le> length buf"
    using Suc.prems assms by (simp add: HEADER_def IMAGE_BYTES_def AUDIT_RING_CAP_def)
  then have lb: "length ?b = length buf" using Suc.prems by simp
  have "put_slice (HEADER + n * REC + 16) (le_bytes 8 (ar_prev_hash (?c ! n)))
      (put_slice (HEADER + n * REC + 8) (le_bytes 8 (event_discriminant (ar_event (?c ! n))))
        (put_slice (HEADER + n * REC) (le_bytes 8 (ar_seq (?c ! n))) ?b)) =
      put_slice (HEADER + n * REC) (rec_bytes (?c ! n)) ?b"
    using put_slice_put_slice [of "HEADER + n * REC" "le_bytes 8 (ar_seq (?c ! n))"
        "le_bytes 8 (event_discriminant (ar_event (?c ! n)))" ?b]
      put_slice_put_slice [of "HEADER + n * REC"
        "le_bytes 8 (ar_seq (?c ! n)) @ le_bytes 8 (event_discriminant (ar_event (?c ! n)))"
        "le_bytes 8 (ar_prev_hash (?c ! n))" ?b] room lb
    by (simp add: rec_bytes_def REC_def add.assoc)
  also have "\<dots> = put_slice HEADER (concat (map rec_bytes (take (Suc n) ?c))) buf"
    unfolding off using room Suc.prems
    by (subst put_slice_put_slice) (simp_all add: take_Suc_conv_app_nth)
  finally show ?case
    using Suc by (simp add: encode_records_append ring_get_ring_of Let_def)
qed

definition header_image :: "AuditEvent list \<Rightarrow> u8 list \<Rightarrow> u8 list" where
  "header_image es buf =
    put_slice 20 (le_bytes 8 (tip_hash (ring_of es)))
     (put_slice 12 (le_bytes 8 (ring_next_seq (ring_of es)))
       (put_slice 10 (le_bytes 2 (of_nat (length es) :: u16))
         ((put_slice 0 MAGIC (put_slice 0 (replicate IMAGE_BYTES 0) buf))[8 := VERSION])))"

definition body_image :: "AuditEvent list \<Rightarrow> u8 list \<Rightarrow> u8 list" where
  "body_image es buf =
    put_slice HEADER (concat (map rec_bytes (chain 0 AUDIT_GENESIS_HASH es))) (header_image es buf)"

definition ring_image :: "AuditEvent list \<Rightarrow> u8 list \<Rightarrow> u8 list" where
  "ring_image es buf =
    put_slice CHECK_OFF (le_bytes 4 (checksum (take CHECK_OFF (body_image es buf)))) (body_image es buf)"

lemma image_lengths:
  assumes "IMAGE_BYTES \<le> length buf" and "length es \<le> AUDIT_RING_CAP"
  shows "length (header_image es buf) = length buf" "length (body_image es buf) = length buf"
    "length (ring_image es buf) = length buf"
  using assms
  by (simp_all add: ring_image_def body_image_def header_image_def IMAGE_BYTES_def MAGIC_def
      HEADER_def CHECK_OFF_def AUDIT_RING_CAP_def)

lemma encode_ring_ring_of:
  assumes "IMAGE_BYTES \<le> length buf" and "length es \<le> AUDIT_RING_CAP"
  shows "encode_ring (ring_of es) buf = Some (True, ring_image es buf)"
  using assms encode_records_ring_of [OF order_refl assms(2), of "header_image es buf"]
    image_lengths [OF assms]
  by (simp add: encode_ring_def Let_def header_image_def [symmetric] ring_image_def body_image_def)

section \<open>Decoding\<close>

definition zero_event :: "AuditEvent \<Rightarrow> AuditEvent" where
  "zero_event e = the (event_from_disc (event_discriminant e))"

lemma zero_event:
  "event_from_disc (event_discriminant e) = Some (zero_event e)"
  "event_discriminant (zero_event e) = event_discriminant e"
  using event_from_disc_disc [of e] by (auto simp: zero_event_def)

lemma chain_nth:
  "k < length es \<Longrightarrow> chain s p es ! k =
    \<lparr>ar_seq = s + of_nat k, ar_event = es ! k, ar_prev_hash = chain_tip s p (take k es),
     ar_hash = hash_record (s + of_nat k) (es ! k) (chain_tip s p (take k es))\<rparr>"
proof (induction es arbitrary: s p k)
  case (Cons e es)
  then show ?case by (cases k) (simp_all add: add.assoc)
qed simp

lemma chain_tip_kinds:
  assumes "map event_discriminant es = map event_discriminant fs"
  shows "chain_tip s p es = chain_tip s p fs"
  using assms
proof (induction es arbitrary: fs s p)
  case (Cons e es)
  then obtain f gs where "fs = f # gs" "event_discriminant e = event_discriminant f"
    "map event_discriminant es = map event_discriminant gs" by (cases fs) auto
  with Cons.IH show ?case using fnv.hash_kind [of e f s p] by simp
qed simp

lemma chain_tip_zero_event: "chain_tip s p (map zero_event es) = chain_tip s p es"
  by (rule chain_tip_kinds) (simp add: zero_event)

lemma decode_records_append:
  "decode_records img (xs @ ys) r =
    (case decode_records img xs r of None \<Rightarrow> None | Some r' \<Rightarrow> decode_records img ys r')"
  by (induction xs arbitrary: r) (simp_all add: Let_def split: option.split prod.split sum.split)

lemma image_record_slices:
  assumes "IMAGE_BYTES \<le> length buf" and "length es \<le> AUDIT_RING_CAP" and "i < length es"
    and "k + n \<le> 24"
  shows "get_slice (HEADER + i * REC + k) n (ring_image es buf) =
    get_slice k n (rec_bytes (chain 0 AUDIT_GENESIS_HASH es ! i))"
proof -
  have i: "24 * i + 24 \<le> 24 * length es" using assms(3) by simp
  have "get_slice (HEADER + i * REC + k) n (ring_image es buf) =
      get_slice (HEADER + (24 * i + k)) n (body_image es buf)"
    unfolding ring_image_def using assms i image_lengths [OF assms(1,2)]
    by (subst get_put_slice_disjoint)
      (simp_all add: CHECK_OFF_def IMAGE_BYTES_def HEADER_def REC_def AUDIT_RING_CAP_def ac_simps)
  also have "\<dots> = get_slice (24 * i + k) n (concat (map rec_bytes (chain 0 AUDIT_GENESIS_HASH es)))"
    unfolding body_image_def using assms i image_lengths [OF assms(1,2)]
    by (intro get_slice_inside) (simp_all add: IMAGE_BYTES_def HEADER_def AUDIT_RING_CAP_def)
  also have "\<dots> = get_slice k n (rec_bytes (chain 0 AUDIT_GENESIS_HASH es ! i))"
    using assms by (intro get_slice_concat_rec_bytes) simp_all
  finally show ?thesis .
qed

lemma image_header:
  assumes "IMAGE_BYTES \<le> length buf" and "length es \<le> AUDIT_RING_CAP"
  shows "take 8 (ring_image es buf) = MAGIC" "ring_image es buf ! 8 = VERSION"
    "get_slice 10 2 (ring_image es buf) = le_bytes 2 (of_nat (length es) :: u16)"
    "get_slice 20 8 (ring_image es buf) = le_bytes 8 (tip_hash (ring_of es))"
proof -
  note len = image_lengths [OF assms]
  have "take 32 (ring_image es buf) = take 32 (body_image es buf)"
    unfolding ring_image_def using len assms
    by (intro take_put_slice) (simp_all add: CHECK_OFF_def IMAGE_BYTES_def)
  also have "\<dots> = take 32 (header_image es buf)"
    unfolding body_image_def using len assms
    by (intro take_put_slice) (simp_all add: HEADER_def IMAGE_BYTES_def)
  finally have hdr: "take 32 (ring_image es buf) = take 32 (header_image es buf)" .
  have sl: "get_slice i n (ring_image es buf) = get_slice i n (header_image es buf)"
    if "i + n \<le> 32" for i n
    using that hdr unfolding get_slice_def take_drop
    by (metis add.commute min.absorb1 take_take)
  show "get_slice 10 2 (ring_image es buf) = le_bytes 2 (of_nat (length es) :: u16)"
    using assms unfolding sl [of 10 2, simplified] header_image_def
    by (simp add: get_put_slice_disjoint get_put_slice_same IMAGE_BYTES_def MAGIC_def)
  show "get_slice 20 8 (ring_image es buf) = le_bytes 8 (tip_hash (ring_of es))"
    using assms unfolding sl [of 20 8, simplified] header_image_def
    by (simp add: get_put_slice_same IMAGE_BYTES_def MAGIC_def)
  have "take 8 (ring_image es buf) = get_slice 0 8 (ring_image es buf)" by (simp add: get_slice_def)
  then show "take 8 (ring_image es buf) = MAGIC"
    using assms unfolding sl [of 0 8, simplified] header_image_def
    by (simp add: get_put_slice_disjoint get_put_slice_same IMAGE_BYTES_def MAGIC_def
        get_slice_def put_slice_def)
  have "ring_image es buf ! 8 = header_image es buf ! 8"
    using arg_cong [OF hdr, of "\<lambda>xs. xs ! 8"] by simp
  then show "ring_image es buf ! 8 = VERSION"
    using assms by (simp add: header_image_def nth_put_slice_before IMAGE_BYTES_def MAGIC_def)
qed

lemma image_checksum:
  assumes "IMAGE_BYTES \<le> length buf" and "length es \<le> AUDIT_RING_CAP"
  shows "from_le_bytes (get_slice CHECK_OFF 4 (ring_image es buf)) =
    checksum (take CHECK_OFF (ring_image es buf))"
proof -
  have "CHECK_OFF + 4 \<le> length (body_image es buf)"
    using image_lengths [OF assms] assms by (simp add: CHECK_OFF_def IMAGE_BYTES_def)
  then show ?thesis
    unfolding ring_image_def by (simp add: get_put_slice_same take_put_slice)
qed

lemma decode_records_ring_image:
  assumes "IMAGE_BYTES \<le> length buf" and "length es \<le> AUDIT_RING_CAP" and "n \<le> length es"
  shows "decode_records (ring_image es buf) [0..<n] ring_new =
    Some (ring_of (take n (map zero_event es)))"
  using assms(3)
proof (induction n)
  case 0
  then show ?case by (simp add: ring_of_Nil)
next
  case (Suc n)
  define zs where "zs = map zero_event es"
  have n: "n < length zs" "n < length es" using Suc.prems by (simp_all add: zs_def)
  have tip: "chain_tip 0 AUDIT_GENESIS_HASH (take n zs) = chain_tip 0 AUDIT_GENESIS_HASH (take n es)"
    unfolding zs_def take_map by (rule chain_tip_zero_event)
  have app: "ring_append (ring_of (take n zs)) (zs ! n) =
      (Inr (chain 0 AUDIT_GENESIS_HASH (take (Suc n) zs) ! n), ring_of (take (Suc n) zs))"
    using n assms(2) by (subst ring_append_ring_of) (simp_all add: zs_def take_Suc_conv_app_nth)
  have z: "event_from_disc (event_discriminant (es ! n)) = Some (zs ! n)"
    using n by (simp add: zs_def zero_event)
  note slices = image_record_slices [OF assms(1,2) n(2), of 0 8] 
    image_record_slices [OF assms(1,2) n(2), of 8 8] image_record_slices [OF assms(1,2) n(2), of 16 8]
  have "decode_records (ring_image es buf) [n] (ring_of (take n zs)) = Some (ring_of (take (Suc n) zs))"
    using n slices
    by (simp add: Let_def get_slice_rec_bytes chain_nth z app tip min_absorb1)
  with Suc show ?case by (simp add: decode_records_append zs_def)
qed

lemma decode_ring_image:
  assumes "IMAGE_BYTES \<le> length buf" and "length es \<le> AUDIT_RING_CAP"
  shows "decode_ring (ring_image es buf) = Some (ring_of (map zero_event es))"
proof -
  have "unat (of_nat (length es) :: u16) = length es"
    using assms(2) by (intro unat_of_nat_small) (simp add: AUDIT_RING_CAP_def)
  moreover have "tip_hash (ring_of (map zero_event es)) = tip_hash (ring_of es)"
    by (simp add: ring_of_def chain_tip_zero_event)
  moreover have "es = [] \<Longrightarrow> tip_hash (ring_of es) = AUDIT_GENESIS_HASH"
    by (simp add: ring_of_def)
  ultimately show ?thesis
    using image_lengths [OF assms] image_header [OF assms] image_checksum [OF assms]
      decode_records_ring_image [OF assms order_refl] assms
    by (simp add: decode_ring_def Let_def)
qed

section \<open>Adoption\<close>

lemma decode_records_ring_of:
  "decode_records img is (ring_of es) = Some r \<Longrightarrow> length es \<le> AUDIT_RING_CAP \<Longrightarrow>
    \<exists>fs. r = ring_of fs \<and> length fs \<le> AUDIT_RING_CAP"
proof (induction "is" arbitrary: es)
  case (Cons i "is")
  from Cons.prems obtain e where less: "length es < AUDIT_RING_CAP"
    and dec: "decode_records img is (ring_of (es @ [e])) = Some r"
    by (auto simp: Let_def ring_append_ring_of split: option.splits if_splits)
  from Cons.IH [OF dec] less show ?case by simp
qed auto

lemma decode_ring_Some:
  assumes "decode_ring img = Some r"
  shows "\<exists>es. r = ring_of es \<and> length es \<le> AUDIT_RING_CAP"
proof -
  from assms obtain n where "decode_records img [0..<n] (ring_of []) = Some r"
    by (auto simp: decode_ring_def Let_def ring_of_Nil split: if_splits option.splits)
  then show ?thesis by (rule decode_records_ring_of) simp
qed

lemma kept_events_ring_of:
  "n \<le> length es \<Longrightarrow> kept_events (ring_of es) [length es - n..<length es] = Some (drop (length es - n) es)"
proof (induction n)
  case (Suc n)
  then have "[length es - Suc n..<length es] = (length es - Suc n) # [length es - n..<length es]"
    by (simp add: upt_conv_Cons Suc_diff_Suc)
  moreover have "drop (length es - Suc n) es = es ! (length es - Suc n) # drop (length es - n) es"
    using Suc.prems Cons_nth_drop_Suc [of "length es - Suc n" es] by (simp add: Suc_diff_Suc)
  ultimately show ?case
    using Suc by (simp add: ring_get_ring_of chain_nth)
qed simp

lemma adopt_image_ring_of:
  assumes "length fs \<le> AUDIT_RING_CAP"
  shows "adopt_image (ring_of fs) img =
    (case decode_ring img of
       None \<Rightarrow> Some (False, ring_of fs)
     | Some prior \<Rightarrow>
         if ring_len prior + length fs \<le> AUDIT_RING_CAP
         then Some (True, snd (append_all prior fs)) else Some (False, ring_of fs))"
proof (cases "decode_ring img")
  case (Some prior)
  then obtain es where es: "prior = ring_of es" using decode_ring_Some by blast
  have "kept_events (ring_of fs) [0..<length fs] = Some fs"
    using kept_events_ring_of [of "length fs" fs] by simp
  then show ?thesis
    using append_all_ring_of [of es fs]
    by (simp add: adopt_image_def Some es verify_chain_ring_of)
qed (simp add: adopt_image_def)

lemma stage_boot_ring_ring_of:
  assumes "boot_ring s = ring_of es" and "length es \<le> AUDIT_RING_CAP"
    and "IMAGE_BYTES \<le> length (staged s)"
  shows "stage_boot_ring s =
    Some (s\<lparr>staged := ring_image es (staged s), staged_gen := staged_gen s + 1, staged_on := True\<rparr>)"
  using assms by (simp add: stage_boot_ring_def encode_ring_ring_of)

section \<open>Properties\<close>

text \<open>
  C26: Round trip of the durable image.  Encoding any ring of at most 256 events into a buffer
  of at least 8192 bytes succeeds, and decoding the result yields the ring of the same event
  kinds with zeroed payloads, which has the same length and the same tip hash.
\<close>

theorem audit_image_roundtrip:
  assumes "length es \<le> AUDIT_RING_CAP" and "IMAGE_BYTES \<le> length buf"
  shows "\<exists>img. encode_ring (ring_of es) buf = Some (True, img) \<and> length img = length buf \<and>
    decode_ring img = Some (ring_of (map zero_event es)) \<and>
    tip_hash (ring_of (map zero_event es)) = tip_hash (ring_of es)"
  using encode_ring_ring_of [OF assms(2,1)] decode_ring_image [OF assms(2,1)]
    image_lengths [OF assms(2,1)]
  by (simp add: ring_of_def chain_tip_zero_event)

theorem audit_image_roundtrip_witness:
  "\<exists>img. encode_ring (ring_of [AuthAllowed 1, VmCreated 9]) (replicate 8192 0) = Some (True, img) \<and>
     decode_ring img = Some (ring_of [AuthAllowed 0, VmCreated 0])"
  using audit_image_roundtrip [of "[AuthAllowed 1, VmCreated 9]" "replicate 8192 0"]
  by (auto simp: AUDIT_RING_CAP_def IMAGE_BYTES_def zero_event_def event_from_disc_def)

text \<open>
  Adoption of the previous boot's image.  An image that does not decode, or whose records
  would not fit beside the current ones, is refused and leaves the ring unchanged; otherwise
  the restored events come first, the events of this boot follow in their order, and the
  joined chain verifies from genesis.  Adoption never panics.
\<close>

theorem adopt_image_correct:
  assumes "length fs \<le> AUDIT_RING_CAP"
  shows "case decode_ring img of
      None \<Rightarrow> adopt_image (ring_of fs) img = Some (False, ring_of fs)
    | Some prior \<Rightarrow> \<exists>es. prior = ring_of es \<and>
        (if length es + length fs \<le> AUDIT_RING_CAP
         then adopt_image (ring_of fs) img = Some (True, ring_of (es @ fs)) \<and>
           verify_chain (ring_of (es @ fs))
         else adopt_image (ring_of fs) img = Some (False, ring_of fs))"
proof (cases "decode_ring img")
  case (Some prior)
  then obtain es where es: "prior = ring_of es" using decode_ring_Some by blast
  then show ?thesis
    using adopt_image_ring_of [OF assms, of img] append_all_ring_of [of es fs]
    by (auto simp: Some verify_chain_ring_of intro!: exI [of _ es])
qed (use adopt_image_ring_of [OF assms, of img] in simp)

theorem adopt_image_correct_witness:
  "adopt_image (ring_of [BootStarted M0]) (ring_image [VmCreated 9] (replicate 8192 0)) \<noteq> None \<and>
   adopt_image (ring_of [BootStarted M0]) [] = Some (False, ring_of [BootStarted M0])"
proof -
  have dec: "decode_ring (ring_image [VmCreated 9] (replicate 8192 0)) \<noteq> None"
    by (simp add: decode_ring_image IMAGE_BYTES_def AUDIT_RING_CAP_def)
  have "decode_ring [] = None" by (simp add: decode_ring_def IMAGE_BYTES_def)
  then show ?thesis
    using adopt_image_correct [of "[BootStarted M0]" "[]"] dec
      adopt_image_correct [of "[BootStarted M0]" "ring_image [VmCreated 9] (replicate 8192 0)"]
    by (auto simp: AUDIT_RING_CAP_def split: if_splits)
qed

text \<open>
  C27: The sink.  Recording an event never panics; it appends the event to the boot ring
  unless the ring is full, keeps the chain verified, and leaves a staged image of a new
  generation that decodes to the ring it was taken from.
\<close>

theorem record_event_stages_chain:
  assumes "boot_ring s = ring_of es" and "length es \<le> AUDIT_RING_CAP"
    and "IMAGE_BYTES \<le> length (staged s)"
  shows "\<exists>s' es'. record_event s e = Some s' \<and>
    es' = (if length es < AUDIT_RING_CAP then es @ [e] else es) \<and>
    boot_ring s' = ring_of es' \<and> boot_ring_verify s' \<and>
    length (staged s') = length (staged s) \<and> staged_on s' \<and> staged_gen s' = staged_gen s + 1 \<and>
    decode_ring (staged s') = Some (ring_of (map zero_event es'))"
proof -
  define es' where "es' = (if length es < AUDIT_RING_CAP then es @ [e] else es)"
  have len: "length es' \<le> AUDIT_RING_CAP" using assms(2) by (simp add: es'_def)
  have "snd (ring_append (boot_ring s) e) = ring_of es'"
    using ring_append_ring_of [OF assms(2), of e] by (simp add: assms(1) es'_def)
  then have "record_event s e = Some (audit_stamp_once (s\<lparr>boot_ring := ring_of es',
      staged := ring_image es' (staged s), staged_gen := staged_gen s + 1, staged_on := True\<rparr>))"
    using stage_boot_ring_ring_of [of "s\<lparr>boot_ring := ring_of es'\<rparr>" es'] len assms(3)
    by (auto simp: record_event_def split: prod.split)
  then show ?thesis
    using len assms(3) image_lengths [OF assms(3) len]
    by (auto simp: es'_def [symmetric] audit_stamp_once_def boot_ring_verify_def
        verify_chain_ring_of decode_ring_image)
qed

theorem record_event_stages_chain_witness:
  "\<exists>s'. record_event \<lparr>boot_ring = ring_new, staged = replicate 8192 0, staged_gen = 0,
      staged_on = False, clock_synced = False, clock_stamped = False\<rparr> (VmCreated 3) = Some s' \<and>
    boot_ring s' = ring_of [VmCreated 3] \<and> decode_ring (staged s') = Some (ring_of [VmCreated 0])"
  using record_event_stages_chain [of "\<lparr>boot_ring = ring_new, staged = replicate 8192 0,
      staged_gen = 0, staged_on = False, clock_synced = False, clock_stamped = False\<rparr>" "[]" "VmCreated 3"]
  by (auto simp: ring_of_Nil IMAGE_BYTES_def AUDIT_RING_CAP_def zero_event_def event_from_disc_def)

end
