(* ===== verification/Ept_Registry.thy ===== *)
theory Ept_Registry
  imports Frame_Alloc Audit_Event
begin

text \<open>
  The run-time ownership registry of \<open>memory/ept.rs\<close>: the fixed table of mappings
  with map, unmap, lookups and the structural self-check, the violation dispositions, the page
  transfer and the boot self-test.  Operations return their result, the new table and, where
  the source calls \<open>audit_log!\<close>, the list of emitted events.  The abstraction to the
  ghost registry of \<open>Ept_Ghost\<close> and the locale \<open>ownership_registry\<close> connect
  the table to the exclusive-ownership model.
\<close>

definition M2_BRINGUP_GUEST_ID :: u64 where "M2_BRINGUP_GUEST_ID = 1"
definition M4_GUEST1_ID :: u64 where "M4_GUEST1_ID = 2"
definition M4_GUEST2_ID :: u64 where "M4_GUEST2_ID = 3"
definition M4_GUEST3_ID :: u64 where "M4_GUEST3_ID = 4"
definition MAP_CAP :: nat where "MAP_CAP = 512"

record EptPermissions =
  perm_read :: bool
  perm_write :: bool
  perm_execute :: bool

definition READ_WRITE :: EptPermissions where
  "READ_WRITE = \<lparr>perm_read = True, perm_write = True, perm_execute = False\<rparr>"

definition READ_WRITE_EXECUTE :: EptPermissions where
  "READ_WRITE_EXECUTE = \<lparr>perm_read = True, perm_write = True, perm_execute = True\<rparr>"

datatype EptError = AlreadyOwned | NotMapped | InvalidGuest | Full | Invariant

record EptMapping =
  map_guest_id :: u64
  map_gpa :: u64
  map_frame :: PhysFrame
  map_permissions :: EptPermissions

record EptMap =
  mappings :: "EptMapping option list"
  map_len :: nat

definition ept_new :: EptMap where
  "ept_new = \<lparr>mappings = replicate MAP_CAP None, map_len = 0\<rparr>"

text \<open>\<open>gpa & !0xfff\<close>\<close>

definition page_base :: "u64 \<Rightarrow> u64" where
  "page_base gpa = gpa AND NOT 0xfff"

definition ept_map ::
  "EptMap \<Rightarrow> u64 \<Rightarrow> u64 \<Rightarrow> PhysFrame \<Rightarrow> EptPermissions \<Rightarrow> (EptError + unit) \<times> EptMap" where
  "ept_map em guest_id gpa frame permissions =
    (if guest_id = 0 then (Inl InvalidGuest, em)
     else let gpa = page_base gpa in
       if list_ex (\<lambda>m. map_frame m = frame \<or> map_guest_id m = guest_id \<and> map_gpa m = gpa)
            (slot_entries (mappings em))
       then (Inl AlreadyOwned, em)
       else case find_index (\<lambda>slot. slot = None) (mappings em) of
         Some i \<Rightarrow>
           (Inr (), em\<lparr>mappings := (mappings em)[i := Some
              \<lparr>map_guest_id = guest_id, map_gpa = gpa, map_frame = frame,
               map_permissions = permissions\<rparr>], map_len := map_len em + 1\<rparr>)
       | None \<Rightarrow> (Inl Full, em))"

definition slot_at :: "u64 \<Rightarrow> u64 \<Rightarrow> EptMapping option \<Rightarrow> bool" where
  "slot_at guest_id gpa slot =
    (case slot of Some m \<Rightarrow> map_guest_id m = guest_id \<and> map_gpa m = gpa | None \<Rightarrow> False)"

definition ept_unmap ::
  "EptMap \<Rightarrow> u64 \<Rightarrow> u64 \<Rightarrow> (EptError + PhysFrame) \<times> EptMap \<times> AuditEvent list" where
  "ept_unmap em guest_id gpa =
    (let gpa = page_base gpa in
     case find_index (slot_at guest_id gpa) (mappings em) of
       None \<Rightarrow> (Inl NotMapped, em, [])
     | Some i \<Rightarrow>
         let frame = map_frame (the (mappings em ! i)) in
         (Inr frame, em\<lparr>mappings := (mappings em)[i := None], map_len := map_len em - 1\<rparr>,
          [EptUnmapped guest_id gpa frame]))"

definition owner_of :: "EptMap \<Rightarrow> PhysFrame \<Rightarrow> u64 option" where
  "owner_of em frame =
    map_option map_guest_id (find (\<lambda>m. map_frame m = frame) (slot_entries (mappings em)))"

definition owner_of_gpa :: "EptMap \<Rightarrow> u64 \<Rightarrow> u64 \<Rightarrow> PhysFrame option" where
  "owner_of_gpa em guest_id gpa =
    (let gpa = page_base gpa in
     map_option map_frame
       (find (\<lambda>m. map_guest_id m = guest_id \<and> map_gpa m = gpa) (slot_entries (mappings em))))"

definition mappings_clash :: "EptMapping \<Rightarrow> EptMapping \<Rightarrow> bool" where
  "mappings_clash ma mb \<longleftrightarrow>
     map_frame ma = map_frame mb \<or> map_guest_id ma = map_guest_id mb \<and> map_gpa ma = map_gpa mb"

definition check_invariants :: "EptMap \<Rightarrow> bool" where
  "check_invariants em =
    (let ms = mappings em; ix = [0..<length ms] in
     list_all (\<lambda>i. case ms ! i of None \<Rightarrow> True | Some ma \<Rightarrow>
       list_all (\<lambda>j. i = j \<or>
         (case ms ! j of None \<Rightarrow> True | Some mb \<Rightarrow> \<not> mappings_clash ma mb)) ix) ix \<and>
     length (slot_entries ms) = map_len em)"

datatype ViolationDisposition =
    EmulateNoMap
  | Reject
  | ClaimMap u64 u64 PhysFrame EptPermissions

fun apply_violation_disposition ::
  "EptMap \<Rightarrow> ViolationDisposition \<Rightarrow> (EptError + unit) \<times> EptMap" where
  "apply_violation_disposition em EmulateNoMap = (Inr (), em)"
| "apply_violation_disposition em Reject = (Inr (), em)"
| "apply_violation_disposition em (ClaimMap guest_id gpa frame permissions) =
     ept_map em guest_id gpa frame permissions"

definition transfer_page ::
  "EptMap \<Rightarrow> u64 \<Rightarrow> u64 \<Rightarrow> u64 \<Rightarrow> u64 \<Rightarrow> EptPermissions \<Rightarrow>
   (EptError + PhysFrame) \<times> EptMap \<times> AuditEvent list" where
  "transfer_page em src_g src_a dst_g dst_a permissions =
    (if src_g = 0 \<or> dst_g = 0 \<or> src_g = dst_g then (Inl InvalidGuest, em, [])
     else let src_a = page_base src_a; dst_a = page_base dst_a in
     if owner_of_gpa em dst_g dst_a \<noteq> None then (Inl AlreadyOwned, em, [])
     else case ept_unmap em src_g src_a of
       (Inl e, em1, evs) \<Rightarrow> (Inl e, em1, evs)
     | (Inr frame, em1, evs) \<Rightarrow>
     case ept_map em1 dst_g dst_a frame permissions of
       (Inr _, em2) \<Rightarrow> (Inr frame, em2, evs)
     | (Inl e, em2) \<Rightarrow> (Inl e, snd (ept_map em2 src_g src_a frame permissions), evs))"

text \<open>\<open>run_ownership_selftest\<close>; the second component is \<open>OWNERSHIP_SELFTEST_OK\<close>.\<close>

definition run_ownership_selftest ::
  "u64 \<Rightarrow> u64 \<Rightarrow> u64 \<Rightarrow> bool \<Rightarrow> (EptError + unit) \<times> bool \<times> AuditEvent list" where
  "run_ownership_selftest code_phys stack_phys idt_phys ok =
    (let code = from_phys code_phys; stack = from_phys stack_phys; idt = from_phys idt_phys;
         g = M2_BRINGUP_GUEST_ID in
     case ept_map ept_new g code_phys code READ_WRITE_EXECUTE of (Inl e, _) \<Rightarrow> (Inl e, ok, [])
     | (Inr _, m1) \<Rightarrow>
     case ept_map m1 g stack_phys stack READ_WRITE of (Inl e, _) \<Rightarrow> (Inl e, ok, [])
     | (Inr _, m2) \<Rightarrow>
     case ept_map m2 g idt_phys idt READ_WRITE of (Inl e, _) \<Rightarrow> (Inl e, ok, [])
     | (Inr _, m3) \<Rightarrow>
     case ept_map m3 2 0x9000 code READ_WRITE of
       (Inr _, _) \<Rightarrow> (Inl Invariant, ok, [])
     | (Inl e, m4) \<Rightarrow>
     if e \<noteq> AlreadyOwned then (Inl e, ok, [])
     else if owner_of m4 code \<noteq> Some g \<or> owner_of m4 stack \<noteq> Some g \<or> owner_of m4 idt \<noteq> Some g
     then (Inl Invariant, ok, [])
     else if \<not> check_invariants m4 \<or> map_len m4 \<noteq> 3 then (Inl Invariant, ok, [])
     else case ept_unmap m4 g stack_phys of (Inl e, _, evs) \<Rightarrow> (Inl e, ok, evs)
     | (Inr freed, m5, evs) \<Rightarrow>
     if freed \<noteq> stack then (Inl Invariant, ok, evs)
     else case ept_map m5 g stack_phys stack READ_WRITE of (Inl e, _) \<Rightarrow> (Inl e, ok, evs)
     | (Inr _, m6) \<Rightarrow>
     if \<not> check_invariants m6 then (Inl Invariant, ok, evs) else (Inr (), True, evs))"

section \<open>Invariant and abstraction\<close>

definition ept_inv :: "EptMap \<Rightarrow> bool" where
  "ept_inv em \<longleftrightarrow> length (mappings em) = MAP_CAP \<and> map_len em = length (slot_entries (mappings em)) \<and>
     distinct (map map_frame (slot_entries (mappings em))) \<and>
     distinct (map (\<lambda>m. (map_guest_id m, map_gpa m)) (slot_entries (mappings em))) \<and>
     (\<forall>m \<in> set (slot_entries (mappings em)). map_guest_id m \<noteq> 0 \<and> map_gpa m AND 0xfff = 0)"

definition ept_abs :: "EptMap \<Rightarrow> GhostEptMap" where
  "ept_abs em =
    \<lparr>owned = map_of (map (\<lambda>m. (map_frame m, map_guest_id m)) (slot_entries (mappings em))),
     by_gpa = map_of (map (\<lambda>m. ((map_guest_id m, map_gpa m), map_frame m))
       (slot_entries (mappings em)))\<rparr>"

definition ept_full :: "EptMap \<Rightarrow> bool" where
  "ept_full em \<longleftrightarrow> map_len em = MAP_CAP"

abbreviation ept_entries :: "EptMap \<Rightarrow> EptMapping list" where
  "ept_entries em \<equiv> slot_entries (mappings em)"

lemma page_base_aligned: "page_base a AND 0xfff = 0"
  by (simp add: page_base_def and.assoc)

lemma page_base_4k: "page_aligned_4k (page_base a)"
proof -
  have "unat (page_base a) mod 4096 = 0"
    using page_base_aligned [of a] by (simp only: page_aligned_def [symmetric] page_aligned_nat)
  then show ?thesis
    by (simp add: page_aligned_4k_def PAGE_4K_def word_unat_eq_iff unat_mod_distrib)
qed

lemma page_base_idem [simp]: "page_base (page_base a) = page_base a"
  by (simp add: page_base_def and.assoc)

lemma ept_new_inv: "ept_inv ept_new"
  by (simp add: ept_inv_def ept_new_def)

lemma ept_new_abs: "ept_abs ept_new = ghost_empty"
  by (simp add: ept_abs_def ept_new_def ghost_empty_def)

lemma map_of_insert_middle:
  assumes "k \<notin> fst ` set (xs @ ys)"
  shows "map_of (xs @ (k, v) # ys) = (map_of (xs @ ys))(k \<mapsto> v)"
proof -
  have "map_of xs k = None" using assms by (auto simp: map_of_eq_None_iff)
  then show ?thesis by (auto simp: fun_eq_iff map_add_def split: option.split)
qed

lemma map_of_delete_middle:
  assumes "distinct (map fst (xs @ (k, v) # ys))"
  shows "map_of (xs @ ys) = (map_of (xs @ (k, v) # ys))(k := None)"
proof -
  have "k \<notin> fst ` set (xs @ ys)" using assms by auto
  then have "map_of (xs @ ys) k = None" by (simp only: map_of_eq_None_iff not_False_eq_True)
  then show ?thesis
    using map_of_insert_middle [OF \<open>k \<notin> fst ` set (xs @ ys)\<close>, of v] by (simp add: fun_upd_idem)
qed

lemma dom_ept_abs:
  "f \<in> dom (owned (ept_abs em)) \<longleftrightarrow> (\<exists>m \<in> set (ept_entries em). map_frame m = f)"
  "(g, a) \<in> dom (by_gpa (ept_abs em)) \<longleftrightarrow>
     (\<exists>m \<in> set (ept_entries em). map_guest_id m = g \<and> map_gpa m = a)"
  by (auto simp: ept_abs_def dom_map_of_conv_image_fst image_image image_iff)

lemma ept_abs_iff:
  assumes "ept_inv em"
  shows "owned (ept_abs em) f = Some g \<longleftrightarrow>
      (\<exists>m \<in> set (ept_entries em). map_frame m = f \<and> map_guest_id m = g)"
    and "by_gpa (ept_abs em) (g, a) = Some f \<longleftrightarrow>
      (\<exists>m \<in> set (ept_entries em). map_guest_id m = g \<and> map_gpa m = a \<and> map_frame m = f)"
proof -
  have "distinct (map fst (map (\<lambda>m. (map_frame m, map_guest_id m)) (ept_entries em)))"
    "distinct (map fst (map (\<lambda>m. ((map_guest_id m, map_gpa m), map_frame m)) (ept_entries em)))"
    using assms by (simp_all add: ept_inv_def comp_def)
  note D = map_of_eq_Some_iff [OF this(1)] map_of_eq_Some_iff [OF this(2)]
  show "owned (ept_abs em) f = Some g \<longleftrightarrow>
      (\<exists>m \<in> set (ept_entries em). map_frame m = f \<and> map_guest_id m = g)"
    and "by_gpa (ept_abs em) (g, a) = Some f \<longleftrightarrow>
      (\<exists>m \<in> set (ept_entries em). map_guest_id m = g \<and> map_gpa m = a \<and> map_frame m = f)"
    by (auto simp: ept_abs_def D)
qed

lemma ept_inv_unique:
  assumes "ept_inv em" and "m \<in> set (ept_entries em)" and "m' \<in> set (ept_entries em)"
  shows "map_frame m = map_frame m' \<Longrightarrow> m = m'"
    and "map_guest_id m = map_guest_id m' \<Longrightarrow> map_gpa m = map_gpa m' \<Longrightarrow> m = m'"
  using assms by (auto simp: ept_inv_def distinct_map inj_on_def)

lemma ept_inv_exclusive:
  assumes "ept_inv em"
  shows "exclusive_ownership (ept_abs em)"
proof (rule exclusive_ownershipI)
  fix f g assume "owned (ept_abs em) f = Some g"
  then show "\<exists>a. by_gpa (ept_abs em) (g, a) = Some f"
    using ept_abs_iff [OF assms] by blast
next
  fix g a f assume "by_gpa (ept_abs em) (g, a) = Some f"
  then show "owned (ept_abs em) f = Some g"
    using ept_abs_iff [OF assms] by blast
next
  fix g a a' f
  assume "by_gpa (ept_abs em) (g, a) = Some f" "by_gpa (ept_abs em) (g, a') = Some f"
  then show "a = a'"
    using ept_abs_iff(2) [OF assms] ept_inv_unique(1) [OF assms] by metis
qed

lemma conflict_iff:
  "list_ex (\<lambda>m. map_frame m = f \<or> map_guest_id m = g \<and> map_gpa m = a) (ept_entries em) \<longleftrightarrow>
     \<not> step_enabled (ept_abs em) (MapStep g a f)"
  using dom_ept_abs [where em = em] by (auto simp: list_ex_iff)

section \<open>Map and unmap\<close>

lemma slot_split:
  assumes "i < length xs" and "xs ! i = s"
  obtains pre post where "slot_entries xs = pre @ slot_entries [s] @ post"
    "\<And>v. slot_entries (xs[i := v]) = pre @ slot_entries [v] @ post"
  using that [of "slot_entries (take i xs)" "slot_entries (drop (Suc i) xs)"]
    slot_entries_split [OF assms(1)] slot_entries_update [OF assms(1)] assms(2) by simp

lemma ept_full_iff:
  assumes "ept_inv em"
  shows "ept_full em \<longleftrightarrow> find_index (\<lambda>slot. slot = None) (mappings em) = None"
  using assms by (simp add: ept_full_def ept_inv_def find_free_slot_None)

lemma ept_map_ok:
  assumes "ept_inv em" and "g \<noteq> 0" and "step_enabled (ept_abs em) (MapStep g (page_base a) f)"
    and "\<not> ept_full em"
  shows "\<exists>em'. ept_map em g a f p = (Inr (), em') \<and> ept_inv em' \<and>
    ept_abs em' = ghost_map (ept_abs em) g (page_base a) f \<and> map_len em' = map_len em + 1"
proof -
  obtain i where i: "find_index (\<lambda>slot. slot = None) (mappings em) = Some i"
    using assms(4) ept_full_iff [OF assms(1)] by auto
  then have "i < length (mappings em)" "mappings em ! i = None"
    using find_index_SomeD [OF i] by simp_all
  then obtain pre post where old: "ept_entries em = pre @ post"
    and new: "\<And>v. slot_entries ((mappings em)[i := v]) = pre @ slot_entries [v] @ post"
    by (rule slot_split) simp
  define m where "m = \<lparr>map_guest_id = g, map_gpa = page_base a, map_frame = f, map_permissions = p\<rparr>"
  define em' where "em' = em\<lparr>mappings := (mappings em)[i := Some m], map_len := map_len em + 1\<rparr>"
  have run: "ept_map em g a f p = (Inr (), em')"
    using assms i conflict_iff [of f g "page_base a" em]
    by (simp add: ept_map_def Let_def em'_def m_def)
  have ent: "ept_entries em' = pre @ m # post" by (simp add: em'_def new)
  have fresh: "f \<notin> map_frame ` set (pre @ post)"
    "(g, page_base a) \<notin> (\<lambda>m. (map_guest_id m, map_gpa m)) ` set (pre @ post)"
    using assms(3) dom_ept_abs [where em = em] by (auto simp: old)
  then have "ept_inv em'"
    using assms(1,2) page_base_aligned [of a] unfolding ept_inv_def ent
    by (auto simp: old em'_def) (simp_all add: m_def)
  moreover have "ept_abs em' = ghost_map (ept_abs em) g (page_base a) f"
  proof -
    note I = map_of_insert_middle
      [of f "map (\<lambda>m. (map_frame m, map_guest_id m)) pre" "map (\<lambda>m. (map_frame m, map_guest_id m)) post"]
      map_of_insert_middle [of "(g, page_base a)"
        "map (\<lambda>m. ((map_guest_id m, map_gpa m), map_frame m)) pre"
        "map (\<lambda>m. ((map_guest_id m, map_gpa m), map_frame m)) post"]
    show ?thesis
      unfolding ept_abs_def ghost_map_def ent old using fresh I
      by (simp add: m_def image_image image_Un del: map_of_append)
  qed
  ultimately show ?thesis using run by (auto simp: em'_def)
qed

lemma ept_map_err:
  assumes "ept_inv em"
  shows "g = 0 \<Longrightarrow> ept_map em g a f p = (Inl InvalidGuest, em)"
    and "g \<noteq> 0 \<Longrightarrow> \<not> step_enabled (ept_abs em) (MapStep g (page_base a) f) \<Longrightarrow>
      ept_map em g a f p = (Inl AlreadyOwned, em)"
    and "g \<noteq> 0 \<Longrightarrow> step_enabled (ept_abs em) (MapStep g (page_base a) f) \<Longrightarrow> ept_full em \<Longrightarrow>
      ept_map em g a f p = (Inl Full, em)"
  using conflict_iff [of f g "page_base a" em] ept_full_iff [OF assms]
  by (simp_all add: ept_map_def Let_def)

lemma ept_unmap_ok:
  assumes "ept_inv em" and "by_gpa (ept_abs em) (g, page_base a) = Some f"
  shows "\<exists>em'. ept_unmap em g a = (Inr f, em', [EptUnmapped g (page_base a) f]) \<and> ept_inv em' \<and>
    ept_abs em' = ghost_unmap (ept_abs em) g (page_base a) \<and> \<not> ept_full em'"
proof -
  obtain m0 where m0: "m0 \<in> set (ept_entries em)" "map_guest_id m0 = g" "map_gpa m0 = page_base a"
    "map_frame m0 = f"
    using assms(2) ept_abs_iff(2) [OF assms(1)] by blast
  then have "find_index (slot_at g (page_base a)) (mappings em) \<noteq> None"
    unfolding find_index_None_iff
    by (auto simp: slot_at_def set_slot_entries intro!: bexI [of _ "Some m0"])
  then obtain i where i: "find_index (slot_at g (page_base a)) (mappings em) = Some i" by auto
  then have "i < length (mappings em)" "slot_at g (page_base a) (mappings em ! i)"
    using find_index_SomeD [OF i] by simp_all
  then obtain m where at_i: "mappings em ! i = Some m" and il: "i < length (mappings em)"
    and m: "map_guest_id m = g" "map_gpa m = page_base a"
    by (auto simp: slot_at_def split: option.splits)
  then have "m \<in> set (ept_entries em)" by (metis nth_mem set_slot_entries)
  then have mf: "map_frame m = f" using ept_inv_unique(2) [OF assms(1) _ m0(1), of m] m m0 by simp
  obtain pre post where old: "ept_entries em = pre @ m # post"
    and new: "\<And>v. slot_entries ((mappings em)[i := v]) = pre @ slot_entries [v] @ post"
    using il at_i by (rule slot_split) simp
  define em' where "em' = em\<lparr>mappings := (mappings em)[i := None], map_len := map_len em - 1\<rparr>"
  have run: "ept_unmap em g a = (Inr f, em', [EptUnmapped g (page_base a) f])"
    using i at_i mf by (simp add: ept_unmap_def Let_def em'_def)
  have ent: "ept_entries em' = pre @ post" by (simp add: em'_def new)
  have inv': "ept_inv em'"
    using assms(1) unfolding ept_inv_def ent old by (auto simp: em'_def)
  moreover have "ept_abs em' = ghost_unmap (ept_abs em) g (page_base a)"
  proof -
    let ?F = "\<lambda>m. (map_frame m, map_guest_id m)"
    let ?G = "\<lambda>m. ((map_guest_id m, map_gpa m), map_frame m)"
    have "distinct (map fst (map ?F pre @ (f, g) # map ?F post))"
      "distinct (map fst (map ?G pre @ ((g, page_base a), f) # map ?G post))"
      using assms(1) m mf by (auto simp: ept_inv_def old comp_def)
    note D = map_of_delete_middle [OF this(1)] map_of_delete_middle [OF this(2)]
    show ?thesis
      using assms(2) D m mf unfolding ghost_unmap_def ept_abs_def ent old
      by (simp add: Let_def del: map_of_append)
  qed
  moreover have "\<not> ept_full em'"
    using inv' assms(1) length_slot_entries_le [of "mappings em"]
    by (simp add: ept_full_def ept_inv_def ent old)
  ultimately show ?thesis using run by blast
qed

lemma ept_unmap_err:
  assumes "ept_inv em" and "by_gpa (ept_abs em) (g, page_base a) = None"
  shows "ept_unmap em g a = (Inl NotMapped, em, [])"
proof -
  have "(g, page_base a) \<notin> dom (by_gpa (ept_abs em))" using assms(2) by (simp add: domIff)
  then have "find_index (slot_at g (page_base a)) (mappings em) = None"
    unfolding find_index_None_iff dom_ept_abs
    by (auto simp: slot_at_def set_slot_entries split: option.splits)
  then show ?thesis by (simp add: ept_unmap_def Let_def)
qed

section \<open>Lookups and the structural check\<close>

lemma owner_of_abs:
  assumes "ept_inv em"
  shows "owner_of em f = owned (ept_abs em) f"
proof -
  have "map_option map_guest_id (find (\<lambda>m. map_frame m = f) ms) =
      map_of (map (\<lambda>m. (map_frame m, map_guest_id m)) ms) f" for ms
    by (induction ms) auto
  then show ?thesis by (simp add: owner_of_def ept_abs_def)
qed

lemma owner_of_gpa_abs: "owner_of_gpa em g a = by_gpa (ept_abs em) (g, page_base a)"
proof -
  have "map_option map_frame (find (\<lambda>m. map_guest_id m = g \<and> map_gpa m = b) ms) =
      map_of (map (\<lambda>m. ((map_guest_id m, map_gpa m), map_frame m)) ms) (g, b)" for ms b
    by (induction ms) auto
  then show ?thesis by (simp add: owner_of_gpa_def ept_abs_def Let_def)
qed

lemma pairs_below_Suc:
  "(\<forall>i < Suc n. \<forall>j < Suc n. i \<noteq> j \<longrightarrow> Q i j) \<longleftrightarrow>
     (\<forall>j < n. Q 0 (Suc j) \<and> Q (Suc j) 0) \<and> (\<forall>i < n. \<forall>j < n. i \<noteq> j \<longrightarrow> Q (Suc i) (Suc j))"
  by (auto simp: All_less_Suc2)

lemma slot_entries_distinct_iff:
  "distinct (map h (slot_entries xs)) \<longleftrightarrow>
     (\<forall>i < length xs. \<forall>j < length xs. i \<noteq> j \<longrightarrow>
       (\<forall>a b. xs ! i = Some a \<longrightarrow> xs ! j = Some b \<longrightarrow> h a \<noteq> h b))"
proof (induction xs)
  case (Cons x xs)
  have mem: "b \<in> set (slot_entries xs) \<longleftrightarrow> (\<exists>j < length xs. xs ! j = Some b)" for b
    unfolding set_slot_entries by (auto simp: in_set_conv_nth)
  show ?case
  proof (cases x)
    case None
    with Cons show ?thesis unfolding length_Cons pairs_below_Suc by simp
  next
    case (Some a)
    have "distinct (map h (slot_entries (x # xs))) \<longleftrightarrow>
        (\<forall>b \<in> set (slot_entries xs). h a \<noteq> h b) \<and> distinct (map h (slot_entries xs))"
      by (simp add: Some image_iff)
    also have "(\<forall>b \<in> set (slot_entries xs). h a \<noteq> h b) \<longleftrightarrow>
        (\<forall>j < length xs. \<forall>b. xs ! j = Some b \<longrightarrow> h a \<noteq> h b)"
      unfolding Ball_def mem by fast
    also have "\<dots> \<longleftrightarrow> (\<forall>j < length xs. (\<forall>c b. x = Some c \<longrightarrow> xs ! j = Some b \<longrightarrow> h c \<noteq> h b) \<and>
          (\<forall>c b. xs ! j = Some c \<longrightarrow> x = Some b \<longrightarrow> h c \<noteq> h b))"
      unfolding Some option.inject by (rule all_cong) (metis (no_types))
    finally show ?thesis
      unfolding length_Cons pairs_below_Suc nth_Cons_0 nth_Cons_Suc Cons.IH .
  qed
qed simp

lemma check_invariants_eq:
  "check_invariants em \<longleftrightarrow> map_len em = length (ept_entries em) \<and>
     distinct (map map_frame (ept_entries em)) \<and>
     distinct (map (\<lambda>m. (map_guest_id m, map_gpa m)) (ept_entries em))"
proof -
  let ?ms = "mappings em"
  have "check_invariants em \<longleftrightarrow> map_len em = length (ept_entries em) \<and>
      (\<forall>i < length ?ms. \<forall>j < length ?ms. i \<noteq> j \<longrightarrow>
        (\<forall>a b. ?ms ! i = Some a \<longrightarrow> ?ms ! j = Some b \<longrightarrow> \<not> mappings_clash a b))"
    unfolding check_invariants_def Let_def list_all_iff
    by (fastforce split: option.splits)
  also have "\<dots> \<longleftrightarrow> map_len em = length (ept_entries em) \<and>
      distinct (map map_frame (ept_entries em)) \<and>
      distinct (map (\<lambda>m. (map_guest_id m, map_gpa m)) (ept_entries em))"
    unfolding slot_entries_distinct_iff mappings_clash_def by auto
  finally show ?thesis .
qed

lemma ept_inv_check: "ept_inv em \<Longrightarrow> check_invariants em"
  by (simp add: check_invariants_eq ept_inv_def)

section \<open>The contract of an ownership registry\<close>

locale ownership_registry =
  fixes inv :: "'s \<Rightarrow> bool" and abs :: "'s \<Rightarrow> GhostEptMap" and full :: "'s \<Rightarrow> bool"
    and map_op :: "'s \<Rightarrow> u64 \<Rightarrow> u64 \<Rightarrow> PhysFrame \<Rightarrow> EptPermissions \<Rightarrow> (EptError + unit) \<times> 's"
    and unmap_op :: "'s \<Rightarrow> u64 \<Rightarrow> u64 \<Rightarrow> (EptError + PhysFrame) \<times> 's \<times> AuditEvent list"
  assumes inv_exclusive: "inv s \<Longrightarrow> exclusive_ownership (abs s)"
    and map_ok: "inv s \<Longrightarrow> g \<noteq> 0 \<Longrightarrow> step_enabled (abs s) (MapStep g (page_base a) f) \<Longrightarrow> \<not> full s \<Longrightarrow>
      \<exists>s'. map_op s g a f p = (Inr (), s') \<and> inv s' \<and> abs s' = ghost_map (abs s) g (page_base a) f"
    and map_err: "inv s \<Longrightarrow> g = 0 \<or> \<not> step_enabled (abs s) (MapStep g (page_base a) f) \<or> full s \<Longrightarrow>
      \<exists>e. map_op s g a f p = (Inl e, s)"
    and unmap_ok: "inv s \<Longrightarrow> by_gpa (abs s) (g, page_base a) = Some f \<Longrightarrow>
      \<exists>s'. unmap_op s g a = (Inr f, s', [EptUnmapped g (page_base a) f]) \<and> inv s' \<and>
        abs s' = ghost_unmap (abs s) g (page_base a) \<and> \<not> full s'"
    and unmap_err: "inv s \<Longrightarrow> by_gpa (abs s) (g, page_base a) = None \<Longrightarrow>
      unmap_op s g a = (Inl NotMapped, s, [])"
    and owner_nonzero: "inv s \<Longrightarrow> by_gpa (abs s) (g, a) = Some f \<Longrightarrow> g \<noteq> 0"
begin

text \<open>Each operation performs an allowed sequence of ghost steps, possibly none.\<close>

lemma map_steps:
  assumes "inv s"
  shows "inv (snd (map_op s g a f p)) \<and>
    (\<exists>ss. steps_ok (abs s) ss \<and> abs (snd (map_op s g a f p)) = fold_steps (abs s) ss)"
proof (cases "g = 0 \<or> \<not> step_enabled (abs s) (MapStep g (page_base a) f) \<or> full s")
  case True
  from map_err [OF assms this] obtain e where "map_op s g a f p = (Inl e, s)" by blast
  then show ?thesis using assms by (auto intro!: exI [of _ "[]"])
next
  case False
  then obtain s' where s': "map_op s g a f p = (Inr (), s')" "inv s'"
    "abs s' = ghost_map (abs s) g (page_base a) f"
    using map_ok [OF assms] by blast
  moreover have "steps_ok (abs s) [MapStep g (page_base a) f]"
    using False by (simp add: page_base_4k)
  ultimately show ?thesis by (auto intro!: exI [of _ "[MapStep g (page_base a) f]"])
qed

lemma unmap_steps:
  assumes "inv s"
  shows "inv (fst (snd (unmap_op s g a))) \<and>
    (\<exists>ss. steps_ok (abs s) ss \<and> abs (fst (snd (unmap_op s g a))) = fold_steps (abs s) ss)"
proof (cases "by_gpa (abs s) (g, page_base a)")
  case None
  from unmap_err [OF assms this] show ?thesis using assms by (auto intro!: exI [of _ "[]"])
next
  case (Some f)
  from unmap_ok [OF assms this] obtain s' where s': "unmap_op s g a = (Inr f, s', [EptUnmapped g (page_base a) f])"
    "inv s'" "abs s' = ghost_unmap (abs s) g (page_base a)" by blast
  moreover have "steps_ok (abs s) [UnmapStep g (page_base a)]"
    using Some owner_nonzero [OF assms Some] by (simp add: page_base_4k domI)
  ultimately show ?thesis by (auto intro!: exI [of _ "[UnmapStep g (page_base a)]"])
qed

text \<open>A mapped frame can always be handed to a free guest address: after the unmap the slot and
  the frame are free, so the second half cannot fail.\<close>

lemma handoff:
  assumes "inv s" and "by_gpa (abs s) (sg, page_base sa) = Some f"
    and "by_gpa (abs s) (dg, page_base da) = None" and "dg \<noteq> 0"
  shows "\<exists>s1 s2. unmap_op s sg sa = (Inr f, s1, [EptUnmapped sg (page_base sa) f]) \<and>
    map_op s1 dg da f p = (Inr (), s2) \<and> inv s2 \<and>
    abs s2 = ghost_map (ghost_unmap (abs s) sg (page_base sa)) dg (page_base da) f"
proof -
  from unmap_ok [OF assms(1,2)] obtain s1 where
    s1: "unmap_op s sg sa = (Inr f, s1, [EptUnmapped sg (page_base sa) f])" "inv s1"
    "abs s1 = ghost_unmap (abs s) sg (page_base sa)" "\<not> full s1" by blast
  moreover have "step_enabled (abs s1) (MapStep dg (page_base da) f)"
    using assms(2,3) by (auto simp: s1(3) ghost_unmap_def domIff)
  ultimately show ?thesis using map_ok [OF s1(2) assms(4) _ s1(4)] by metis
qed

end

interpretation er: ownership_registry ept_inv ept_abs ept_full ept_map ept_unmap
proof unfold_locales
  show "\<exists>s'. ept_map s g a f p = (Inr (), s') \<and> ept_inv s' \<and>
      ept_abs s' = ghost_map (ept_abs s) g (page_base a) f"
    if "ept_inv s" "g \<noteq> 0" "step_enabled (ept_abs s) (MapStep g (page_base a) f)" "\<not> ept_full s"
    for s g a f p
    using ept_map_ok [OF that] by blast
  show "\<exists>e. ept_map s g a f p = (Inl e, s)"
    if "ept_inv s" "g = 0 \<or> \<not> step_enabled (ept_abs s) (MapStep g (page_base a) f) \<or> ept_full s"
    for s g a f p
    using that ept_map_err [OF that(1)] by metis
  show "g \<noteq> 0" if "ept_inv s" "by_gpa (ept_abs s) (g, a) = Some f" for s g a f
    using that ept_abs_iff(2) [OF that(1)] by (auto simp: ept_inv_def)
qed (use ept_inv_exclusive ept_unmap_ok ept_unmap_err in blast)+

section \<open>Sequences of calls\<close>

text \<open>Any client of the registry, as the sequence of its calls.\<close>

datatype RegistryCall =
    CallMap u64 u64 PhysFrame EptPermissions
  | CallUnmap u64 u64
  | CallViolation ViolationDisposition
  | CallTransfer u64 u64 u64 u64 EptPermissions

fun run_call :: "EptMap \<Rightarrow> RegistryCall \<Rightarrow> EptMap" where
  "run_call em (CallMap g a f p) = snd (ept_map em g a f p)"
| "run_call em (CallUnmap g a) = fst (snd (ept_unmap em g a))"
| "run_call em (CallViolation d) = snd (apply_violation_disposition em d)"
| "run_call em (CallTransfer sg sa dg da p) = fst (snd (transfer_page em sg sa dg da p))"

lemma transfer_page_cases:
  assumes "ept_inv em"
  obtains (ok) f em' where "by_gpa (ept_abs em) (sg, page_base sa) = Some f"
      "by_gpa (ept_abs em) (dg, page_base da) = None" "sg \<noteq> 0" "dg \<noteq> 0" "sg \<noteq> dg"
      "transfer_page em sg sa dg da p = (Inr f, em', [EptUnmapped sg (page_base sa) f])"
      "ept_inv em'"
      "ept_abs em' = ghost_map (ghost_unmap (ept_abs em) sg (page_base sa)) dg (page_base da) f"
  | (err) e where "transfer_page em sg sa dg da p = (Inl e, em, [])"
      "sg = 0 \<or> dg = 0 \<or> sg = dg \<or> by_gpa (ept_abs em) (sg, page_base sa) = None \<or>
       by_gpa (ept_abs em) (dg, page_base da) \<noteq> None"
proof (cases "sg = 0 \<or> dg = 0 \<or> sg = dg \<or> by_gpa (ept_abs em) (dg, page_base da) \<noteq> None")
  case True
  then have "transfer_page em sg sa dg da p =
      (Inl (if sg = 0 \<or> dg = 0 \<or> sg = dg then InvalidGuest else AlreadyOwned), em, [])"
    by (auto simp: transfer_page_def Let_def owner_of_gpa_abs)
  with True show ?thesis using err by blast
next
  case F: False
  show ?thesis
  proof (cases "by_gpa (ept_abs em) (sg, page_base sa)")
    case None
    have "ept_unmap em sg (page_base sa) = (Inl NotMapped, em, [])"
      using er.unmap_err [OF assms, of sg "page_base sa"] None by simp
    with F None show ?thesis
      using err by (simp add: transfer_page_def Let_def owner_of_gpa_abs)
  next
    case (Some f)
    with er.handoff [OF assms, of sg "page_base sa" f dg "page_base da" p] F
    obtain em1 em2 where "ept_unmap em sg (page_base sa) = (Inr f, em1, [EptUnmapped sg (page_base sa) f])"
      "ept_map em1 dg (page_base da) f p = (Inr (), em2)" "ept_inv em2"
      "ept_abs em2 = ghost_map (ghost_unmap (ept_abs em) sg (page_base sa)) dg (page_base da) f"
      by auto
    with F Some show ?thesis
      using ok [of f em2] by (simp add: transfer_page_def Let_def owner_of_gpa_abs)
  qed
qed

lemma run_call_steps:
  assumes "ept_inv em"
  shows "ept_inv (run_call em c) \<and>
    (\<exists>ss. steps_ok (ept_abs em) ss \<and> ept_abs (run_call em c) = fold_steps (ept_abs em) ss)"
proof (cases c)
  case (CallMap g a f p)
  then show ?thesis using er.map_steps [OF assms] by simp
next
  case (CallUnmap g a)
  then show ?thesis using er.unmap_steps [OF assms] by simp
next
  case (CallViolation d)
  then show ?thesis
    using assms er.map_steps [OF assms] by (cases d) (auto intro: exI [of _ "[]"])
next
  case (CallTransfer sg sa dg da p)
  from assms show ?thesis
  proof (cases rule: transfer_page_cases [of em sg sa dg da p])
    case (ok f em')
    let ?ss = "[UnmapStep sg (page_base sa), MapStep dg (page_base da) f]"
    have "steps_ok (ept_abs em) ?ss"
      using ok by (auto simp: page_base_4k ghost_unmap_def domIff)
    then show ?thesis
      using ok CallTransfer by (auto intro!: exI [of _ ?ss])
  next
    case (err e)
    then show ?thesis using assms CallTransfer by (auto intro: exI [of _ "[]"])
  qed
qed

lemma run_calls_steps:
  assumes "ept_inv em"
  shows "ept_inv (foldl run_call em cs) \<and>
    (\<exists>ss. steps_ok (ept_abs em) ss \<and> ept_abs (foldl run_call em cs) = fold_steps (ept_abs em) ss)"
  using assms
proof (induction cs arbitrary: em)
  case Nil
  then show ?case by (auto intro: exI [of _ "[]"])
next
  case (Cons c cs)
  from run_call_steps [OF Cons.prems, of c] obtain ss where inv: "ept_inv (run_call em c)"
    and ss: "steps_ok (ept_abs em) ss" "ept_abs (run_call em c) = fold_steps (ept_abs em) ss" by blast
  from Cons.IH [OF inv] obtain ts where "ept_inv (foldl run_call (run_call em c) cs)"
    "steps_ok (ept_abs (run_call em c)) ts"
    "ept_abs (foldl run_call (run_call em c) cs) = fold_steps (ept_abs (run_call em c)) ts" by blast
  with ss show ?case
    by (auto simp: steps_ok_append fold_steps_append intro!: exI [of _ "ss @ ts"])
qed

section \<open>The boot self-test\<close>

lemma page_base_from_phys: "page_base x = push_bit 12 (from_phys x)"
proof (rule bit_word_eqI)
  fix n assume "n < LENGTH(64)"
  moreover have "bit (0xfff :: u64) n \<longleftrightarrow> n < 12"
    using bit_mask_iff [of 12 n, where 'a = u64] \<open>n < LENGTH(64)\<close> by (simp add: mask_eq_exp_minus_1)
  ultimately show "bit (page_base x) n = bit (push_bit 12 (from_phys x)) n"
    unfolding page_base_def from_phys_def bit_and_iff bit_not_iff bit_push_bit_iff bit_drop_bit_eq
    by auto
qed

lemma from_phys_page_base: "from_phys (page_base x) = from_phys x"
  by (rule bit_word_eqI)
    (auto simp: page_base_from_phys from_phys_def bit_push_bit_iff bit_drop_bit_eq
      dest: bit_imp_le_length)

lemma from_phys_eq_iff: "from_phys x = from_phys y \<longleftrightarrow> page_base x = page_base y"
  using page_base_from_phys from_phys_page_base by metis

text \<open>Three claims in a row, with the ghost registry written out.\<close>

lemma map_len_ept_new: "map_len ept_new = 0" "\<not> ept_full ept_new"
  by (simp_all add: ept_new_def ept_full_def MAP_CAP_def)

lemma claim_step:
  assumes "ept_inv em" and "map_len em < MAP_CAP"
  shows "ept_map em M2_BRINGUP_GUEST_ID phys (from_phys phys) p =
      (if step_enabled (ept_abs em) (MapStep M2_BRINGUP_GUEST_ID (page_base phys) (from_phys phys))
       then (Inr (), snd (ept_map em M2_BRINGUP_GUEST_ID phys (from_phys phys) p))
       else (Inl AlreadyOwned, em)) \<and>
    (step_enabled (ept_abs em) (MapStep M2_BRINGUP_GUEST_ID (page_base phys) (from_phys phys)) \<longrightarrow>
      ept_inv (snd (ept_map em M2_BRINGUP_GUEST_ID phys (from_phys phys) p)) \<and>
      ept_abs (snd (ept_map em M2_BRINGUP_GUEST_ID phys (from_phys phys) p)) =
        ghost_map (ept_abs em) M2_BRINGUP_GUEST_ID (page_base phys) (from_phys phys) \<and>
      map_len (snd (ept_map em M2_BRINGUP_GUEST_ID phys (from_phys phys) p)) = map_len em + 1)"
proof -
  have g: "M2_BRINGUP_GUEST_ID \<noteq> 0" by (simp add: M2_BRINGUP_GUEST_ID_def)
  have nf: "\<not> ept_full em" using assms(2) by (simp add: ept_full_def)
  show ?thesis
    using ept_map_ok [OF assms(1) g _ nf, of phys "from_phys phys" p]
      ept_map_err(2) [OF assms(1) g, of phys "from_phys phys" p] by fastforce
qed

lemma selftest_distinct:
  assumes "distinct [from_phys c, from_phys s, from_phys i]"
  shows "run_ownership_selftest c s i ok =
    (Inr (), True, [EptUnmapped M2_BRINGUP_GUEST_ID (page_base s) (from_phys s)])"
proof -
  let ?g = M2_BRINGUP_GUEST_ID
  have ne: "from_phys c \<noteq> from_phys s" "from_phys c \<noteq> from_phys i" "from_phys s \<noteq> from_phys i"
    "page_base c \<noteq> page_base s" "page_base c \<noteq> page_base i" "page_base s \<noteq> page_base i"
    using assms by (auto simp: from_phys_eq_iff)
  obtain m1 where m1: "ept_map ept_new ?g c (from_phys c) READ_WRITE_EXECUTE = (Inr (), m1)"
    "ept_inv m1" "ept_abs m1 = ghost_map ghost_empty ?g (page_base c) (from_phys c)" "map_len m1 = 1"
    using claim_step [OF ept_new_inv, of c READ_WRITE_EXECUTE]
    by (auto simp: ept_new_abs ghost_empty_def map_len_ept_new MAP_CAP_def)
  obtain m2 where m2: "ept_map m1 ?g s (from_phys s) READ_WRITE = (Inr (), m2)"
    "ept_inv m2" "ept_abs m2 = ghost_map (ept_abs m1) ?g (page_base s) (from_phys s)" "map_len m2 = 2"
    using claim_step [OF m1(2), of s READ_WRITE] ne m1
    by (auto simp: ghost_empty_def ghost_map_def MAP_CAP_def)
  obtain m3 where m3: "ept_map m2 ?g i (from_phys i) READ_WRITE = (Inr (), m3)"
    "ept_inv m3" "ept_abs m3 = ghost_map (ept_abs m2) ?g (page_base i) (from_phys i)" "map_len m3 = 3"
    using claim_step [OF m2(2), of i READ_WRITE] ne m1 m2
    by (auto simp: ghost_empty_def ghost_map_def MAP_CAP_def)
  have own: "owned (ept_abs m3) (from_phys c) = Some ?g" "owned (ept_abs m3) (from_phys s) = Some ?g"
    "owned (ept_abs m3) (from_phys i) = Some ?g"
    using ne by (simp_all add: m1 m2 m3 ghost_map_def)
  have steal: "ept_map m3 2 0x9000 (from_phys c) READ_WRITE = (Inl AlreadyOwned, m3)"
    using own(1) by (intro ept_map_err(2) [OF m3(2)]) (auto simp: domI)
  have "by_gpa (ept_abs m3) (?g, page_base s) = Some (from_phys s)"
    using ne by (simp add: m1 m2 m3 ghost_map_def)
  from ept_unmap_ok [OF m3(2) this] obtain m5 where m5:
    "ept_unmap m3 ?g s = (Inr (from_phys s), m5, [EptUnmapped ?g (page_base s) (from_phys s)])"
    "ept_inv m5" "ept_abs m5 = ghost_unmap (ept_abs m3) ?g (page_base s)" "\<not> ept_full m5" by blast
  have "step_enabled (ept_abs m5) (MapStep ?g (page_base s) (from_phys s))"
    using \<open>by_gpa (ept_abs m3) (?g, page_base s) = _\<close> by (simp add: m5 ghost_unmap_def domIff)
  from ept_map_ok [OF m5(2) _ this m5(4)] obtain m6 where
    m6: "ept_map m5 ?g s (from_phys s) READ_WRITE = (Inr (), m6)" "ept_inv m6"
    by (auto simp: M2_BRINGUP_GUEST_ID_def)
  show ?thesis
    unfolding run_ownership_selftest_def Let_def
    using own ept_inv_check [OF m3(2)] ept_inv_check [OF m6(2)]
    by (simp add: m1(1) m2(1) m3(1) steal m3(4) m5(1) m6(1) owner_of_abs [OF m3(2)])
qed

section \<open>Properties\<close>

text \<open>
  C4: Exclusive ownership for every history.  After any sequence of map, unmap, violation and
  transfer calls on a new registry, with any arguments, successful or refused, the table
  satisfies its invariant, the source's own structural check accepts it, its abstraction is
  exclusively owned, and it is the result of an allowed trace of ghost map and unmap steps.
\<close>

theorem registry_history_refines_ghost:
  "ept_inv (foldl run_call ept_new cs) \<and> check_invariants (foldl run_call ept_new cs) \<and>
   exclusive_ownership (ept_abs (foldl run_call ept_new cs)) \<and>
   (\<exists>ss. steps_ok ghost_empty ss \<and> ept_abs (foldl run_call ept_new cs) = fold_steps ghost_empty ss)"
  using run_calls_steps [OF ept_new_inv, of cs] ept_inv_check er.inv_exclusive
  by (simp add: ept_new_abs)

text \<open>
  C5: \<open>map\<close> decides exactly by the ghost rule.  It refuses guest zero, refuses a frame or
  guest page that is already mapped, refuses when all 512 slots are used, and otherwise
  performs exactly the ghost map of the page base; a refusal leaves the table unchanged.
\<close>

theorem ept_map_refines:
  assumes "ept_inv em"
  shows "if g = 0 then ept_map em g a f p = (Inl InvalidGuest, em)
    else if \<not> step_enabled (ept_abs em) (MapStep g (page_base a) f)
    then ept_map em g a f p = (Inl AlreadyOwned, em)
    else if map_len em = MAP_CAP then ept_map em g a f p = (Inl Full, em)
    else \<exists>em'. ept_map em g a f p = (Inr (), em') \<and> ept_inv em' \<and>
      ept_abs em' = ghost_map (ept_abs em) g (page_base a) f \<and> owner_of em' f = Some g \<and>
      owner_of_gpa em' g a = Some f"
proof -
  have "\<exists>em'. ept_map em g a f p = (Inr (), em') \<and> ept_inv em' \<and>
      ept_abs em' = ghost_map (ept_abs em) g (page_base a) f \<and> owner_of em' f = Some g \<and>
      owner_of_gpa em' g a = Some f"
    if new: "g \<noteq> 0" "step_enabled (ept_abs em) (MapStep g (page_base a) f)" "\<not> ept_full em"
  proof -
    from ept_map_ok [OF assms new] obtain em' where
      em': "ept_map em g a f p = (Inr (), em')" "ept_inv em'"
      "ept_abs em' = ghost_map (ept_abs em) g (page_base a) f" by blast
    then show ?thesis
      by (simp add: owner_of_abs owner_of_gpa_abs ghost_map_def)
  qed
  then show ?thesis
    using ept_map_err [OF assms, of g a f p] by (auto simp: ept_full_def simp del: step_enabled.simps)
qed

theorem ept_map_refines_witness:
  "ept_map ept_new 0 0x1000 7 READ_WRITE = (Inl InvalidGuest, ept_new) \<and>
   (\<exists>em'. ept_map ept_new 1 0x1234 7 READ_WRITE = (Inr (), em') \<and> owner_of em' 7 = Some 1)"
  using ept_map_refines [OF ept_new_inv, of 0 "0x1000" 7 READ_WRITE]
    ept_map_refines [OF ept_new_inv, of 1 "0x1234" 7 READ_WRITE]
  by (auto simp: ept_new_abs ghost_empty_def map_len_ept_new MAP_CAP_def split: if_splits)

text \<open>
  C6: Page transfer is atomic.  When the ghost transfer is enabled, \<open>transfer_page\<close>
  succeeds, moves exactly that frame to the destination guest as the ghost transfer does, and
  reports one unmap event; in every other case it fails with the registry unchanged, so the
  restore branch after a failed second half is never taken.
\<close>

theorem transfer_page_refines:
  assumes "ept_inv em"
    and "t = \<lparr>src_guest = sg, src_gpa = page_base sa, dst_guest = dg, dst_gpa = page_base da\<rparr>"
  shows "if transfer_enabled (ept_abs em) t
    then \<exists>f em'. by_gpa (ept_abs em) (sg, page_base sa) = Some f \<and>
      transfer_page em sg sa dg da p = (Inr f, em', [EptUnmapped sg (page_base sa) f]) \<and>
      ept_inv em' \<and> ept_abs em' = apply_transfer (ept_abs em) t \<and>
      transfer_posts (ept_abs em) t (ept_abs em')
    else \<exists>e. transfer_page em sg sa dg da p = (Inl e, em, [])"
proof -
  have en: "transfer_enabled (ept_abs em) t \<longleftrightarrow> sg \<noteq> 0 \<and> dg \<noteq> 0 \<and> sg \<noteq> dg \<and>
      by_gpa (ept_abs em) (sg, page_base sa) \<noteq> None \<and> by_gpa (ept_abs em) (dg, page_base da) = None"
    by (auto simp: assms(2) transfer_enabled_def page_base_4k domIff)
  from assms(1) show ?thesis
  proof (cases rule: transfer_page_cases [of em sg sa dg da p])
    case (ok f em')
    then have enabled: "transfer_enabled (ept_abs em) t" by (simp add: en)
    moreover have "ept_abs em' = apply_transfer (ept_abs em) t"
      using ok by (simp add: assms(2) apply_transfer_def)
    ultimately show ?thesis
      using ok transfer_preserves_exclusive(2) [OF er.inv_exclusive [OF assms(1)] enabled] by simp
  next
    case (err e)
    then have "\<not> transfer_enabled (ept_abs em) t" by (auto simp: en)
    with err show ?thesis by simp
  qed
qed

theorem transfer_page_refines_witness:
  "\<exists>em'. transfer_page (snd (ept_map ept_new 1 0 70 READ_WRITE)) 1 0 2 0x1000 READ_WRITE =
     (Inr 70, em', [EptUnmapped 1 0 70]) \<and> owned (ept_abs em') 70 = Some 2"
proof -
  obtain em where em: "ept_map ept_new 1 0 70 READ_WRITE = (Inr (), em)" "ept_inv em"
    "ept_abs em = ghost_map ghost_empty 1 (page_base 0) 70"
    using ept_map_ok [OF ept_new_inv, of 1 0 70 READ_WRITE]
    by (auto simp: ept_new_abs ghost_empty_def map_len_ept_new)
  have pb: "page_base 0 = 0" "page_base 0x1000 = 0x1000" by (simp_all add: page_base_def)
  let ?t = "\<lparr>src_guest = 1, src_gpa = page_base 0, dst_guest = 2, dst_gpa = page_base 0x1000\<rparr>"
  have "transfer_enabled (ept_abs em) ?t"
    by (simp add: em transfer_enabled_def page_base_4k ghost_map_def ghost_empty_def)
  with transfer_page_refines [OF em(2) refl, of 1 0 2 "0x1000" READ_WRITE] show ?thesis
    by (auto simp: em(1,3) pb ghost_map_def transfer_posts_def Let_def)
qed

text \<open>
  The ownership self-test is exact.  It succeeds, sets its latch and leaves one unmap
  event exactly when the code, stack and IDT pages are three different frames; if two of them
  coincide it reports the clash and leaves the latch alone.
\<close>

theorem run_ownership_selftest_exact:
  "run_ownership_selftest c s i ok =
    (if distinct [from_phys c, from_phys s, from_phys i]
     then (Inr (), True, [EptUnmapped M2_BRINGUP_GUEST_ID (page_base s) (from_phys s)])
     else (Inl AlreadyOwned, ok, []))"
proof (cases "distinct [from_phys c, from_phys s, from_phys i]")
  case True
  then show ?thesis using selftest_distinct by simp
next
  case False
  let ?g = M2_BRINGUP_GUEST_ID
  obtain m1 where m1: "ept_map ept_new ?g c (from_phys c) READ_WRITE_EXECUTE = (Inr (), m1)"
    "ept_inv m1" "ept_abs m1 = ghost_map ghost_empty ?g (page_base c) (from_phys c)" "map_len m1 = 1"
    using claim_step [OF ept_new_inv, of c READ_WRITE_EXECUTE]
    by (auto simp: ept_new_abs ghost_empty_def map_len_ept_new MAP_CAP_def)
  show ?thesis
  proof (cases "from_phys s = from_phys c")
    case True
    then have "ept_map m1 ?g s (from_phys s) READ_WRITE = (Inl AlreadyOwned, m1)"
      using claim_step [OF m1(2), of s READ_WRITE] m1
      by (simp add: ghost_map_def ghost_empty_def MAP_CAP_def)
    with False show ?thesis by (simp add: run_ownership_selftest_def m1(1))
  next
    case sc: False
    then obtain m2 where m2: "ept_map m1 ?g s (from_phys s) READ_WRITE = (Inr (), m2)"
      "ept_inv m2" "ept_abs m2 = ghost_map (ept_abs m1) ?g (page_base s) (from_phys s)" "map_len m2 = 2"
      using claim_step [OF m1(2), of s READ_WRITE] m1
      by (auto simp: ghost_empty_def ghost_map_def MAP_CAP_def from_phys_eq_iff)
    have "from_phys i = from_phys c \<or> from_phys i = from_phys s" using False sc by auto
    then have "ept_map m2 ?g i (from_phys i) READ_WRITE = (Inl AlreadyOwned, m2)"
      using claim_step [OF m2(2), of i READ_WRITE] m1 m2
      by (auto simp: ghost_map_def ghost_empty_def MAP_CAP_def)
    with False show ?thesis by (simp add: run_ownership_selftest_def m1(1) m2(1))
  qed
qed

end
