(* ===== verification/Page_Table.thy ===== *)
theory Page_Table
  imports Phys_Mem
begin

text \<open>
  Four-level page tables in physical memory.  \<open>radix_walk\<close> is the processor's walk over a
  tree of 512-entry tables, for the EPT and for guest paging alike: the two differ in which
  entries count as present.  \<open>radix_tables\<close> is the shape the builders of
  \<open>memory/ept_hw.rs\<close> produce, a root, one page-directory-pointer table, page directories, and
  2 MiB leaves given by a partial function on 2 MiB page numbers.  The locale
  \<open>radix_encoding\<close> collects what an entry format must satisfy for the walk to read a tree back.
\<close>

section \<open>Indices and the walk\<close>

definition pt_index :: "nat \<Rightarrow> u64 \<Rightarrow> nat" where
  "pt_index s a = unat ((drop_bit s a) AND 0x1ff)"

definition large_entry :: "u64 \<Rightarrow> bool" where
  "large_entry e \<longleftrightarrow> e AND 0x80 \<noteq> 0"

definition table_of :: "u64 \<Rightarrow> u64" where
  "table_of e = e AND NOT 0xfff"

definition leaf_target :: "nat \<Rightarrow> u64 \<Rightarrow> u64 \<Rightarrow> u64" where
  "leaf_target s e a = (e AND NOT (mask s)) OR (a AND mask s)"

definition radix_walk :: "(u64 \<Rightarrow> bool) \<Rightarrow> phys_mem \<Rightarrow> u64 \<Rightarrow> u64 \<Rightarrow> u64 option" where
  "radix_walk present m root a =
    (let e0 = load64 m (entry_addr root (pt_index 39 a)) in
     if \<not> present e0 then None else
     let e1 = load64 m (entry_addr (table_of e0) (pt_index 30 a)) in
     if \<not> present e1 then None else
     if large_entry e1 then Some (leaf_target 30 e1 a) else
     let e2 = load64 m (entry_addr (table_of e1) (pt_index 21 a)) in
     if \<not> present e2 then None else
     if large_entry e2 then Some (leaf_target 21 e2 a) else
     let e3 = load64 m (entry_addr (table_of e2) (pt_index 12 a)) in
     if \<not> present e3 then None else Some (leaf_target 12 e3 a))"

lemma low_mask_words:
  "(0xfff :: u64) = mask 12" "(0x1ff :: u64) = mask 9" "(7 :: u64) = mask 3"
  "(0x1fffff :: u64) = mask 21"
  by (simp_all add: mask_eq_exp_minus_1)

lemma pt_index_nat: "pt_index s a = unat a div 2 ^ s mod 512"
  using unat_and_mask_low [of "drop_bit s a" 9]
  unfolding pt_index_def low_mask_words unat_drop_bit_eq by (simp add: drop_bit_eq_div)

lemma pt_index_less [simp]: "pt_index s a < 512"
  by (simp add: pt_index_nat)

lemma large_entry_bit: "large_entry e \<longleftrightarrow> bit e 7"
  using and_exp_eq_0_iff_not_bit [of e 7] by (simp add: large_entry_def)

text \<open>The 2 MiB page number selects the page directory and the entry in it.\<close>

lemma big_page_index:
  assumes "unat a < 2 ^ 48"
  shows "pt_index 39 a = 0 \<and> pt_index 30 a < n \<longleftrightarrow> unat a div 2 ^ 21 < 512 * n \<and> unat a div 2 ^ 39 = 0"
    and "unat a div 2 ^ 39 = 0 \<Longrightarrow> 512 * pt_index 30 a + pt_index 21 a = unat a div 2 ^ 21"
proof -
  have 39: "pt_index 39 a = unat a div 2 ^ 39"
    using assms by (simp add: pt_index_nat less_mult_imp_div_less)
  have low: "pt_index 30 a = unat a div 2 ^ 21 div 512" if "unat a div 2 ^ 39 = 0"
  proof -
    have "unat a div 2 ^ 30 < 512" using that by (simp add: div_eq_0_iff less_mult_imp_div_less)
    then show ?thesis by (simp add: pt_index_nat div_mult2_eq [symmetric])
  qed
  show "unat a div 2 ^ 39 = 0 \<Longrightarrow> 512 * pt_index 30 a + pt_index 21 a = unat a div 2 ^ 21"
    using low by (simp add: pt_index_nat)
  show "pt_index 39 a = 0 \<and> pt_index 30 a < n \<longleftrightarrow> unat a div 2 ^ 21 < 512 * n \<and> unat a div 2 ^ 39 = 0"
    using 39 low by (auto simp: div_less_iff_less_mult mult.commute)
qed

section \<open>Trees with 2 MiB leaves\<close>

definition radix_tables ::
  "(u64 \<Rightarrow> u64) \<Rightarrow> (u64 \<Rightarrow> u64) \<Rightarrow> phys_mem \<Rightarrow> u64 \<Rightarrow> u64 \<Rightarrow> u64 list \<Rightarrow> (nat \<Rightarrow> u64 option) \<Rightarrow> bool" where
  "radix_tables link leaf m root pdpt pds L \<longleftrightarrow>
     distinct (root # pdpt # pds) \<and> (\<forall>f \<in> set (root # pdpt # pds). page_aligned f) \<and>
     length pds \<le> 512 \<and>
     (\<forall>k h. L k = Some h \<longrightarrow> k < 512 * length pds \<and> h AND mask 21 = 0) \<and>
     (\<forall>i<512. load64 m (entry_addr root i) = (if i = 0 then link pdpt else 0)) \<and>
     (\<forall>i<512. load64 m (entry_addr pdpt i) = (if i < length pds then link (pds ! i) else 0)) \<and>
     (\<forall>i<length pds. \<forall>j<512. load64 m (entry_addr (pds ! i) j) =
        (case L (512 * i + j) of None \<Rightarrow> 0 | Some h \<Rightarrow> leaf h))"

lemma radix_tables_cong:
  assumes "radix_tables link leaf m root pdpt pds L"
    and "\<And>f j. f \<in> set (root # pdpt # pds) \<Longrightarrow> j < 512 \<Longrightarrow>
      load64 m' (entry_addr f j) = load64 m (entry_addr f j)"
  shows "radix_tables link leaf m' root pdpt pds L"
  using assms unfolding radix_tables_def by simp

locale radix_encoding =
  fixes present :: "u64 \<Rightarrow> bool"
    and link :: "u64 \<Rightarrow> u64"
    and leaf :: "u64 \<Rightarrow> u64"
  assumes absent: "\<not> present 0"
    and link_present: "page_aligned a \<Longrightarrow> present (link a)"
    and link_small: "page_aligned a \<Longrightarrow> \<not> large_entry (link a)"
    and link_table: "page_aligned a \<Longrightarrow> table_of (link a) = a"
    and leaf_present: "h AND mask 21 = 0 \<Longrightarrow> present (leaf h)"
    and leaf_large: "h AND mask 21 = 0 \<Longrightarrow> large_entry (leaf h)"
    and leaf_base: "h AND mask 21 = 0 \<Longrightarrow> leaf h AND NOT (mask 21) = h"
begin

lemma walk_tables:
  assumes tabs: "radix_tables link leaf m root pdpt pds L" and a: "unat a < 2 ^ 48"
  shows "radix_walk present m root a = map_option (\<lambda>h. h OR (a AND mask 21)) (L (unat a div 2 ^ 21))"
proof -
  note t = tabs [unfolded radix_tables_def]
  define K where "K = unat a div 2 ^ 21"
  let ?i = "pt_index 30 a" let ?j = "pt_index 21 a"
  have al: "page_aligned pdpt" "\<And>i. i < length pds \<Longrightarrow> page_aligned (pds ! i)" using t by auto
  have root: "load64 m (entry_addr root (pt_index 39 a)) = (if pt_index 39 a = 0 then link pdpt else 0)"
    using t by simp
  have mid: "load64 m (entry_addr pdpt ?i) = (if ?i < length pds then link (pds ! ?i) else 0)"
    using t by simp
  have "radix_walk present m root a = map_option (\<lambda>h. h OR (a AND mask 21)) (L K)"
  proof (cases "pt_index 39 a = 0 \<and> ?i < length pds")
    case True
    then have "unat a div 2 ^ 39 = 0"
      unfolding big_page_index(1) [OF a] by (rule conjunct2)
    then have K: "512 * ?i + ?j = K" unfolding K_def by (rule big_page_index(2) [OF a])
    have leafs: "load64 m (entry_addr (pds ! ?i) ?j) = (case L K of None \<Rightarrow> 0 | Some h \<Rightarrow> leaf h)"
      using t True unfolding K [symmetric] by simp
    have r0: "load64 m (entry_addr root 0) = link pdpt" using t by simp
    have "h AND mask 21 = 0" if "L K = Some h" for h using t that by blast
    then show ?thesis
      using True al(2) [of ?i]
      by (cases "L K")
        (simp_all add: radix_walk_def r0 mid leafs Let_def al(1) link_present link_small link_table
          absent leaf_present leaf_large leaf_base leaf_target_def)
  next
    case False
    then have no: "\<not> (K < 512 * length pds \<and> unat a div 2 ^ 39 = 0)"
      unfolding big_page_index(1) [OF a] K_def .
    have "unat a div 2 ^ 39 = 0" if "K < 512 * length pds"
    proof -
      have "K < 512 * 512" using that t by linarith
      then show ?thesis by (simp add: K_def div_less_iff_less_mult)
    qed
    with no have "L K = None" using t by (meson not_None_eq)
    moreover have "radix_walk present m root a = None"
      using False by (auto simp: radix_walk_def root mid Let_def al(1) link_present link_small link_table absent)
    ultimately show ?thesis by simp
  qed
  then show ?thesis unfolding K_def .
qed

text \<open>Clearing one page-directory entry removes one leaf.\<close>

lemma clear_leaf:
  assumes tabs: "radix_tables link leaf m root pdpt pds L" and "i < length pds" "j < 512"
  shows "radix_tables link leaf (store64 m (entry_addr (pds ! i) j) 0) root pdpt pds (L(512 * i + j := None))"
proof -
  note t = tabs [unfolded radix_tables_def]
  have al: "page_aligned root" "page_aligned pdpt" "\<And>k. k < length pds \<Longrightarrow> page_aligned (pds ! k)"
    using t by auto
  have ne: "pds ! i \<noteq> root" "pds ! i \<noteq> pdpt" "\<And>k. k < length pds \<Longrightarrow> pds ! i = pds ! k \<longleftrightarrow> i = k"
    using t assms(2) by (auto simp: nth_eq_iff_index_eq)
  have idx: "512 * i' + j' = 512 * i + j \<longleftrightarrow> i' = i \<and> j' = j" if "j' < 512" for i' j'
  proof
    assume eq: "512 * i' + j' = 512 * i + j"
    have "(512 * i' + j') mod 512 = j'" "(512 * i + j) mod 512 = j" using that assms(3) by simp_all
    with eq show "i' = i \<and> j' = j" by simp
  qed simp
  show ?thesis
    using t al ne assms(2,3) unfolding radix_tables_def
    by (auto simp: load64_store_entry idx)
qed

end

section \<open>Filling tables\<close>

lemma load_fill_entries:
  assumes "page_aligned f" "page_aligned g" "n \<le> 512" "j < 512"
  shows "load64 (fold (\<lambda>i m. store64 m (entry_addr f i) (v i)) [0..<n] m) (entry_addr g j) =
    (if g = f \<and> j < n then v j else load64 m (entry_addr g j))"
  using assms by (induction n) (auto simp: load64_store_entry less_Suc_eq)

lemma load_zero_frames:
  assumes "\<forall>f \<in> set fs. page_aligned f" "page_aligned g" "j < 512"
  shows "load64 (fold (\<lambda>f m. write_bytes m f 0 4096) fs m) (entry_addr g j) =
    (if g \<in> set fs then 0 else load64 m (entry_addr g j))"
  using assms by (induction fs arbitrary: m) (auto simp: load64_zero_page)

definition fill_directory :: "(u64 \<Rightarrow> u64) \<Rightarrow> (nat \<Rightarrow> nat \<Rightarrow> u64) \<Rightarrow> (nat \<Rightarrow> nat) \<Rightarrow> u64 \<Rightarrow> u64 list \<Rightarrow>
    nat \<Rightarrow> phys_mem \<Rightarrow> phys_mem" where
  "fill_directory link v c pdpt pds i m =
    fold (\<lambda>j m. store64 m (entry_addr (pds ! i) j) (v i j)) [0..<c i]
      (store64 m (entry_addr pdpt i) (link (pds ! i)))"

lemma load_fill_directories:
  assumes "distinct (pdpt # pds)" "\<forall>f \<in> set (pdpt # pds). page_aligned f"
    "length pds \<le> 512" "\<And>i. c i \<le> 512" "page_aligned g" "j < 512" "n \<le> length pds"
  shows "load64 (fold (fill_directory link v c pdpt pds) [0..<n] m) (entry_addr pdpt j) =
      (if j < n then link (pds ! j) else load64 m (entry_addr pdpt j)) \<and>
    (\<forall>k<length pds. load64 (fold (fill_directory link v c pdpt pds) [0..<n] m) (entry_addr (pds ! k) j) =
      (if k < n \<and> j < c k then v k j else load64 m (entry_addr (pds ! k) j))) \<and>
    (g \<notin> set (pdpt # pds) \<longrightarrow>
      load64 (fold (fill_directory link v c pdpt pds) [0..<n] m) (entry_addr g j) = load64 m (entry_addr g j))"
  using assms(7)
proof (induction n)
  case (Suc n)
  have al: "page_aligned pdpt" "\<And>k. k < length pds \<Longrightarrow> page_aligned (pds ! k)"
    "\<And>k. k < length pds \<Longrightarrow> pds ! k \<noteq> pdpt" "pds ! n \<in> set pds"
    using assms(1,2) Suc.prems by auto
  have inj: "pds ! k = pds ! n \<longleftrightarrow> k = n" if "k < length pds" for k
    using assms(1) that Suc.prems by (simp add: nth_eq_iff_index_eq)
  let ?m = "fold (fill_directory link v c pdpt pds) [0..<n] m"
  have n: "n < 512" "n < length pds" "page_aligned (pds ! n)" "pds ! n \<noteq> pdpt" "pdpt \<noteq> pds ! n"
    using Suc.prems assms(3) al(2,3) [of n] by auto
  have step: "load64 (fold (fill_directory link v c pdpt pds) [0..<Suc n] m) (entry_addr f j) =
      (if f = pds ! n \<and> j < c n then v n j else
       if f = pdpt \<and> j = n then link (pds ! n) else load64 ?m (entry_addr f j))"
    if "page_aligned f" for f
    using n by (auto simp: fill_directory_def load_fill_entries load64_store_entry that al(1) assms(4,6))
  let ?M = "fold (fill_directory link v c pdpt pds) [0..<Suc n] m"
  have IH: "load64 ?m (entry_addr pdpt j) = (if j < n then link (pds ! j) else load64 m (entry_addr pdpt j))"
    "\<And>k. k < length pds \<Longrightarrow> load64 ?m (entry_addr (pds ! k) j) =
      (if k < n \<and> j < c k then v k j else load64 m (entry_addr (pds ! k) j))"
    "g \<notin> set (pdpt # pds) \<Longrightarrow> load64 ?m (entry_addr g j) = load64 m (entry_addr g j)"
    using Suc by simp_all
  have "load64 ?M (entry_addr pdpt j) =
      (if j < Suc n then link (pds ! j) else load64 m (entry_addr pdpt j))"
    unfolding step [OF al(1)] IH using n by (simp add: less_Suc_eq)
  moreover have "load64 ?M (entry_addr (pds ! k) j) =
      (if k < Suc n \<and> j < c k then v k j else load64 m (entry_addr (pds ! k) j))" if "k < length pds" for k
    unfolding step [OF al(2) [OF that]] IH(2) [OF that] using that al(3) [OF that] inj [OF that]
    by (auto simp: less_Suc_eq)
  moreover have "load64 ?M (entry_addr g j) = load64 m (entry_addr g j)" if "g \<notin> set (pdpt # pds)"
    unfolding step [OF assms(5)] IH(3) [OF that] using that n(2) nth_mem [OF n(2)] by auto
  ultimately show ?case by blast
qed simp

text \<open>Cleared frames, a root entry and filled directories form a tree.\<close>

lemma radix_tables_built:
  assumes fs: "distinct (root # pdpt # pds)" "\<forall>f \<in> set (root # pdpt # pds). page_aligned f"
    "length pds \<le> 512" "\<And>i. c i \<le> 512"
    and zero: "\<And>f j. f \<in> set (root # pdpt # pds) \<Longrightarrow> j < 512 \<Longrightarrow> load64 m (entry_addr f j) = 0"
    and L: "\<And>k h. L k = Some h \<Longrightarrow> k < 512 * length pds \<and> h AND mask 21 = 0"
    and v: "\<And>i j. i < length pds \<Longrightarrow> j < 512 \<Longrightarrow>
      (case L (512 * i + j) of None \<Rightarrow> 0 | Some h \<Rightarrow> leaf h) = (if j < c i then v i j else 0)"
  shows "radix_tables link leaf
    (fold (fill_directory link v c pdpt pds) [0..<length pds] (store64 m (entry_addr root 0) (link pdpt)))
    root pdpt pds L"
proof -
  let ?m = "store64 m (entry_addr root 0) (link pdpt)"
  have al: "page_aligned root" "page_aligned pdpt" "distinct (pdpt # pds)" "root \<notin> set (pdpt # pds)"
    "\<forall>f \<in> set (pdpt # pds). page_aligned f" "\<And>i. i < length pds \<Longrightarrow> page_aligned (pds ! i)"
    using fs by auto
  note fill = load_fill_directories [OF al(3,5) fs(3,4) al(1) _ order_refl, where m = ?m and v = v and link = link]
  have ne: "pds ! i \<noteq> root" if "i < length pds" for i using that fs(1) by auto
  show ?thesis
    unfolding radix_tables_def
    using fs L fill al v ne
    by (auto simp: load64_store_entry zero)
qed

lemma radix_build_frame:
  assumes fs: "distinct (root # pdpt # pds)" "\<forall>f \<in> set (root # pdpt # pds). page_aligned f"
    "length pds \<le> 512" "\<And>i. c i \<le> 512"
    and g: "page_aligned g" "g \<notin> set (root # pdpt # pds)" "j < 512"
  shows "load64 (fold (fill_directory link v c pdpt pds) [0..<length pds]
    (store64 m (entry_addr root 0) (link pdpt))) (entry_addr g j) = load64 m (entry_addr g j)"
proof -
  have "page_aligned root" "distinct (pdpt # pds)" "\<forall>f \<in> set (pdpt # pds). page_aligned f"
    using fs by auto
  then show ?thesis
    using load_fill_directories [where c = c and v = v and link = link, OF _ _ fs(3,4) g(1,3) order_refl] g
    by (auto simp: load64_store_entry)
qed

end
