(* ===== verification/Ept_Hw.thy ===== *)
theory Ept_Hw
  imports Page_Table Ept_Ghost
begin

text \<open>
  The hardware EPT builder, \<open>memory/ept_hw.rs\<close>: entry encodings, the identity and single-slab
  builders, the leaf and APIC punches, the guest's own page tables, and the walk
  \<open>gpa_is_mapped\<close>.  Tables live in \<open>phys_mem\<close>; pointer arithmetic on a table is
  \<open>entry_addr\<close>.  The capability register \<open>IA32_VMX_EPT_VPID_CAP\<close> is the argument
  \<open>cap\<close>.  A builder returns its result and the memory it leaves behind, also on errors.
\<close>

section \<open>Constants\<close>

definition EPT_CAP_WALK4 :: u64 where "EPT_CAP_WALK4 = push_bit 6 1"
definition EPT_CAP_WB :: u64 where "EPT_CAP_WB = push_bit 14 1"
definition EPT_CAP_2M :: u64 where "EPT_CAP_2M = push_bit 16 1"
definition EPT_CAP_1G :: u64 where "EPT_CAP_1G = push_bit 17 1"
definition IDENTITY_GIB :: u64 where "IDENTITY_GIB = 4"
definition TWO_MIB :: u64 where "TWO_MIB = 2 * 1024 * 1024"
definition PRECISE_MIB :: u64 where "PRECISE_MIB = 512"
definition PRECISE_GIB :: u64 where "PRECISE_GIB = 1"
definition PRECISE_BYTES :: u64 where "PRECISE_BYTES = PRECISE_MIB * 1024 * 1024"
definition GUEST_UEFI_LOW_RAM_BYTES :: u64 where "GUEST_UEFI_LOW_RAM_BYTES = 32 * 1024 * 1024"
definition DEFAULT_APIC_PHYS :: u64 where "DEFAULT_APIC_PHYS = 0xFEE00000"
definition G1_SLAB_OFF_CODE :: u64 where "G1_SLAB_OFF_CODE = 0"
definition G1_SLAB_OFF_STACK :: u64 where "G1_SLAB_OFF_STACK = 0x1000"
definition G1_SLAB_OFF_IDT :: u64 where "G1_SLAB_OFF_IDT = 0x2000"
definition G1_SLAB_OFF_PML4 :: u64 where "G1_SLAB_OFF_PML4 = 0x3000"
definition G1_SLAB_OFF_PDPT :: u64 where "G1_SLAB_OFF_PDPT = 0x4000"
definition G1_SLAB_OFF_PD :: u64 where "G1_SLAB_OFF_PD = 0x5000"
definition G1_SLAB_OFF_EPT_PML4 :: u64 where "G1_SLAB_OFF_EPT_PML4 = 0x6000"
definition G1_SLAB_OFF_EPT_PDPT :: u64 where "G1_SLAB_OFF_EPT_PDPT = 0x7000"
definition G1_SLAB_OFF_EPT_PD :: u64 where "G1_SLAB_OFF_EPT_PD = 0x8000"
definition G1_SLAB_OFF_VMCS :: u64 where "G1_SLAB_OFF_VMCS = 0x9000"

lemmas ept_hw_consts = TWO_MIB_def PRECISE_MIB_def PRECISE_BYTES_def DEFAULT_APIC_PHYS_def
  IDENTITY_GIB_def PRECISE_GIB_def GUEST_UEFI_LOW_RAM_BYTES_def

datatype EptHwError = Unsupported | OutOfFrames

datatype EptPageSize = OneGib | TwoMib

section \<open>Capabilities and frame budgets\<close>

definition frames_required_gib :: "EptPageSize \<Rightarrow> u64 \<Rightarrow> nat" where
  "frames_required_gib page_size gib =
    (case page_size of OneGib \<Rightarrow> 2 | TwoMib \<Rightarrow> 2 + unat gib)"

definition frames_required :: "EptPageSize \<Rightarrow> nat" where
  "frames_required page_size = frames_required_gib page_size PRECISE_GIB"

definition frames_required_2m_bytes :: "u64 \<Rightarrow> nat" where
  "frames_required_2m_bytes bytes =
    (if bytes = 0 then 0
     else let gibs = drop_bit 30 (bytes + push_bit 30 1 - 1) in 2 + unat gibs)"

definition frames_required_precise :: nat where
  "frames_required_precise = frames_required_2m_bytes PRECISE_BYTES"

definition select_page_size :: "u64 \<Rightarrow> EptHwError + EptPageSize" where
  "select_page_size cap =
    (if cap AND EPT_CAP_WALK4 = 0 then Inl Unsupported
     else if cap AND EPT_CAP_1G \<noteq> 0 then Inr OneGib
     else if cap AND EPT_CAP_2M \<noteq> 0 then Inr TwoMib
     else Inl Unsupported)"

definition ensure_2m_capable :: "u64 \<Rightarrow> EptHwError + unit" where
  "ensure_2m_capable cap =
    (if cap AND EPT_CAP_WALK4 = 0 \<or> cap AND EPT_CAP_2M = 0 then Inl Unsupported else Inr ())"

definition eptp_memory_type :: "u64 \<Rightarrow> u64" where
  "eptp_memory_type cap = (if cap AND EPT_CAP_WB \<noteq> 0 then 6 else 0)"

section \<open>Entry encodings\<close>

definition pack_eptp :: "u64 \<Rightarrow> u64 \<Rightarrow> u64" where
  "pack_eptp pml4_phys memory_type =
    (let walk_len_minus_1 = 3 in
     (memory_type AND 7) OR push_bit 3 (walk_len_minus_1 AND 7) OR (pml4_phys AND NOT 0xfff))"

definition pml4_from_eptp :: "u64 \<Rightarrow> u64" where
  "pml4_from_eptp eptp = eptp AND NOT 0xfff"

definition ept_rwe :: u64 where
  "ept_rwe = 7"

definition ept_leaf_large :: "u64 \<Rightarrow> u64 \<Rightarrow> u64" where
  "ept_leaf_large hpa memory_type =
    ept_rwe OR push_bit 3 (memory_type AND 7) OR push_bit 7 1 OR (hpa AND NOT 0xfff)"

definition ept_leaf_4k :: "u64 \<Rightarrow> u64 \<Rightarrow> u64" where
  "ept_leaf_4k hpa memory_type = ept_rwe OR push_bit 3 (memory_type AND 7) OR (hpa AND NOT 0xfff)"

definition ept_link :: "u64 \<Rightarrow> u64" where
  "ept_link next_phys = ept_rwe OR (next_phys AND NOT 0xfff)"

definition ept_hpa_from_pte :: "u64 \<Rightarrow> u64" where
  "ept_hpa_from_pte pte = pte AND NOT 0xfff"

definition ept_rwe_present :: "u64 \<Rightarrow> bool" where
  "ept_rwe_present pte \<longleftrightarrow> pte AND 7 = 7"

definition ept_large_bit :: "u64 \<Rightarrow> bool" where
  "ept_large_bit pte \<longleftrightarrow> pte AND push_bit 7 1 \<noteq> 0"

definition firmware_alias_pt_count :: "u64 \<Rightarrow> u64 \<Rightarrow> nat" where
  "firmware_alias_pt_count gpa bytes =
    (if bytes = 0 then 0
     else let start = gpa AND NOT (TWO_MIB - 1) in
       case checked_add gpa bytes of
         None \<Rightarrow> 0
       | Some e \<Rightarrow>
           let end_aln = saturating_add e (TWO_MIB - 1) AND NOT (TWO_MIB - 1) in
           unat ((end_aln - start) div TWO_MIB))"

definition frames_required_firmware_alias :: "u64 \<Rightarrow> u64 \<Rightarrow> nat" where
  "frames_required_firmware_alias gpa bytes = 3 + firmware_alias_pt_count gpa bytes + 1"

text \<open>Present bits of an entry: any of read, write, execute.\<close>

definition ept_present :: "u64 \<Rightarrow> bool" where
  "ept_present e \<longleftrightarrow> e AND 7 \<noteq> 0"

definition ept_translate :: "phys_mem \<Rightarrow> u64 \<Rightarrow> u64 \<Rightarrow> u64 option" where
  "ept_translate m root gpa = radix_walk ept_present m root gpa"

section \<open>Builders\<close>

text \<open>The loop that checks alignment and clears the table frames.\<close>

fun zero_frames :: "u64 list \<Rightarrow> phys_mem \<Rightarrow> (EptHwError + unit) \<times> phys_mem" where
  "zero_frames [] m = (Inr (), m)"
| "zero_frames (f # fs) m =
    (if f AND 0xfff \<noteq> 0 then (Inl Unsupported, m) else zero_frames fs (write_bytes m f 0 4096))"

definition build_identity_gib ::
  "u64 \<Rightarrow> EptPageSize \<Rightarrow> u64 \<Rightarrow> u64 list \<Rightarrow> phys_mem \<Rightarrow> (EptHwError + u64) \<times> phys_mem" where
  "build_identity_gib cap page_size gib frames m =
    (if gib = 0 \<or> gib > 512 then (Inl Unsupported, m)
     else let need = frames_required_gib page_size gib in
     if length frames < need then (Inl OutOfFrames, m)
     else case zero_frames (take need frames) m of
       (Inl e, m1) \<Rightarrow> (Inl e, m1)
     | (Inr _, m1) \<Rightarrow>
         let mt = eptp_memory_type cap; pml4 = frames ! 0; pdpt = frames ! 1;
             m2 = store64 m1 (entry_addr pml4 0) (ept_link pdpt);
             m3 = (case page_size of
                 OneGib \<Rightarrow>
                   fold (\<lambda>i m. store64 m (entry_addr pdpt i) (ept_leaf_large (push_bit 30 (of_nat i)) mt))
                     [0..<unat gib] m2
               | TwoMib \<Rightarrow>
                   fold (\<lambda>i m.
                     let pd = frames ! (2 + i); m' = store64 m (entry_addr pdpt i) (ept_link pd) in
                     fold (\<lambda>j m. store64 m (entry_addr pd j)
                         (ept_leaf_large (push_bit 30 (of_nat i) + push_bit 21 (of_nat j)) mt))
                       [0..<512] m') [0..<unat gib] m2)
         in (Inr (pack_eptp pml4 mt), m3))"

definition build_identity_2m_bytes ::
  "u64 \<Rightarrow> u64 \<Rightarrow> u64 list \<Rightarrow> phys_mem \<Rightarrow> (EptHwError + u64) \<times> phys_mem" where
  "build_identity_2m_bytes cap bytes frames m =
    (if bytes = 0 \<or> bytes AND (TWO_MIB - 1) \<noteq> 0 then (Inl Unsupported, m)
     else if bytes > DEFAULT_APIC_PHYS then (Inl Unsupported, m)
     else let need = frames_required_2m_bytes bytes in
     if length frames < need then (Inl OutOfFrames, m)
     else case zero_frames (take need frames) m of
       (Inl e, m1) \<Rightarrow> (Inl e, m1)
     | (Inr _, m1) \<Rightarrow>
         let mt = eptp_memory_type cap; pml4 = frames ! 0; pdpt = frames ! 1;
             m2 = store64 m1 (entry_addr pml4 0) (ept_link pdpt);
             two_m_pages = unat (bytes div TWO_MIB);
             gibs = (two_m_pages + 511) div 512;
             m3 = fold (\<lambda>i m.
                 let pd = frames ! (2 + i); m' = store64 m (entry_addr pdpt i) (ept_link pd);
                     base_j = i * 512; end_j = min (base_j + 512) two_m_pages in
                 fold (\<lambda>j m. store64 m (entry_addr pd (j - base_j)) (ept_leaf_large (of_nat j * TWO_MIB) mt))
                   [base_j..<end_j] m') [0..<gibs] m2
         in (Inr (pack_eptp pml4 mt), m3))"

definition build_precise_identity ::
  "u64 \<Rightarrow> u64 list \<Rightarrow> phys_mem \<Rightarrow> (EptHwError + u64) \<times> phys_mem" where
  "build_precise_identity cap frames m = build_identity_2m_bytes cap PRECISE_BYTES frames m"

definition frames_required_single_2m :: nat where
  "frames_required_single_2m = 3"

definition build_single_2m_identity ::
  "u64 \<Rightarrow> u64 \<Rightarrow> u64 list \<Rightarrow> phys_mem \<Rightarrow> (EptHwError + u64) \<times> phys_mem" where
  "build_single_2m_identity cap hpa_2m frames m =
    (if hpa_2m AND (TWO_MIB - 1) \<noteq> 0 then (Inl Unsupported, m)
     else if hpa_2m \<ge> PRECISE_BYTES \<or> saturating_add hpa_2m TWO_MIB > PRECISE_BYTES
     then (Inl Unsupported, m)
     else let need = frames_required_single_2m in
     if length frames < need then (Inl OutOfFrames, m)
     else case zero_frames (take need frames) m of
       (Inl e, m1) \<Rightarrow> (Inl e, m1)
     | (Inr _, m1) \<Rightarrow>
         let mt = eptp_memory_type cap; pml4 = frames ! 0; pdpt = frames ! 1; pd = frames ! 2;
             m2 = store64 m1 (entry_addr pml4 (pt_index 39 hpa_2m)) (ept_link pdpt);
             m3 = store64 m2 (entry_addr pdpt (pt_index 30 hpa_2m)) (ept_link pd);
             m4 = store64 m3 (entry_addr pd (pt_index 21 hpa_2m)) (ept_leaf_large hpa_2m mt)
         in (Inr (pack_eptp pml4 mt), m4))"

definition build_identity_4g ::
  "u64 \<Rightarrow> EptPageSize \<Rightarrow> u64 list \<Rightarrow> phys_mem \<Rightarrow> (EptHwError + u64) \<times> phys_mem" where
  "build_identity_4g cap page_size frames m = build_identity_gib cap page_size IDENTITY_GIB frames m"

section \<open>Unmapping and the software walk\<close>

definition clear_2m_identity_leaf :: "u64 \<Rightarrow> u64 \<Rightarrow> phys_mem \<Rightarrow> (EptHwError + unit) \<times> phys_mem" where
  "clear_2m_identity_leaf pml4_phys gpa_2m m =
    (if gpa_2m AND (TWO_MIB - 1) \<noteq> 0 then (Inl Unsupported, m)
     else let e0 = load64 m (entry_addr pml4_phys (pt_index 39 gpa_2m)) in
     if e0 AND 7 = 0 then (Inr (), m)
     else let pdpt = e0 AND NOT 0xfff; e1 = load64 m (entry_addr pdpt (pt_index 30 gpa_2m)) in
     if e1 AND 7 = 0 then (Inr (), m)
     else if e1 AND 0x80 \<noteq> 0 then (Inl Unsupported, m)
     else let pd = e1 AND NOT 0xfff in (Inr (), store64 m (entry_addr pd (pt_index 21 gpa_2m)) 0))"

definition gpa_is_mapped :: "phys_mem \<Rightarrow> u64 \<Rightarrow> u64 \<Rightarrow> bool" where
  "gpa_is_mapped m pml4_phys gpa =
    (let e0 = load64 m (entry_addr pml4_phys (pt_index 39 gpa)) in
     if e0 AND 7 = 0 then False
     else let pdpt = e0 AND NOT 0xfff; e1 = load64 m (entry_addr pdpt (pt_index 30 gpa)) in
     if e1 AND 7 = 0 then False
     else if e1 AND 0x80 \<noteq> 0 then True
     else let pd = e1 AND NOT 0xfff; e2 = load64 m (entry_addr pd (pt_index 21 gpa)) in
     if e2 AND 7 = 0 then False
     else if e2 AND 0x80 \<noteq> 0 then True
     else let pt = e2 AND NOT 0xfff; e3 = load64 m (entry_addr pt (pt_index 12 gpa)) in
     e3 AND 7 \<noteq> 0)"

definition punch_apic_mmio_hole ::
  "u64 \<Rightarrow> u64 \<Rightarrow> u64 \<times> u64 \<Rightarrow> phys_mem \<Rightarrow> (EptHwError + unit) \<times> phys_mem" where
  "punch_apic_mmio_hole cap pml4_phys scratch m =
    (let apic = DEFAULT_APIC_PHYS; mt = eptp_memory_type cap;
         e = load64 m (entry_addr pml4_phys 0) in
     if e AND 7 = 0 then (Inl Unsupported, m)
     else let pdpt = e AND NOT 0xfff; pdpt_i = unat (drop_bit 30 apic);
              pdpt_e = load64 m (entry_addr pdpt pdpt_i) in
     case (if pdpt_e AND 0x80 \<noteq> 0 then
             let pd = fst scratch in
             if pd AND 0xfff \<noteq> 0 then (None, m)
             else let m1 = write_bytes m pd 0 4096; base = push_bit 30 (of_nat pdpt_i);
                      m2 = fold (\<lambda>j m. store64 m (entry_addr pd j)
                             (ept_leaf_large (base + push_bit 21 (of_nat j)) mt)) [0..<512] m1
                  in (Some pd, store64 m2 (entry_addr pdpt pdpt_i) (ept_link pd))
           else (Some (pdpt_e AND NOT 0xfff), m)) of
       (None, m1) \<Rightarrow> (Inl Unsupported, m1)
     | (Some pd, m1) \<Rightarrow>
         let pd_i = pt_index 21 apic; pd_e = load64 m1 (entry_addr pd pd_i) in
         case (if pd_e AND 0x80 \<noteq> 0 then
                 let pt = snd scratch in
                 if pt AND 0xfff \<noteq> 0 then (None, m1)
                 else let m2 = write_bytes m1 pt 0 4096; base = push_bit 21 (drop_bit 21 apic);
                          m3 = fold (\<lambda>j m. store64 m (entry_addr pt j)
                                 (ept_rwe OR push_bit 3 (mt AND 7) OR
                                   ((base + push_bit 12 (of_nat j)) AND NOT 0xfff))) [0..<512] m2
                      in (Some pt, store64 m3 (entry_addr pd pd_i) (ept_link pt))
               else (Some (pd_e AND NOT 0xfff), m1)) of
           (None, m2) \<Rightarrow> (Inl Unsupported, m2)
         | (Some pt, m2) \<Rightarrow> (Inr (), store64 m2 (entry_addr pt (pt_index 12 apic)) 0))"

section \<open>Guest page tables and slabs\<close>

definition host_only_slab_after_shells :: "u64 list \<Rightarrow> u64 option" where
  "host_only_slab_after_shells shell_bases =
    (let top = fold (\<lambda>b mx. let base = b AND NOT (TWO_MIB - 1) in if base > mx then base else mx)
       shell_bases 0 in
     if top = 0 then None
     else let hpa = saturating_add top TWO_MIB in
     if hpa = 0 \<or> saturating_add hpa TWO_MIB > PRECISE_BYTES then None else Some hpa)"

definition guest_present_rw :: u64 where "guest_present_rw = 3"

definition guest_pt_link :: "u64 \<Rightarrow> u64" where
  "guest_pt_link t = t OR guest_present_rw"

definition guest_pt_leaf :: "u64 \<Rightarrow> u64" where
  "guest_pt_leaf hpa = guest_present_rw OR push_bit 7 1 OR hpa"

definition guest_pt_present :: "u64 \<Rightarrow> bool" where
  "guest_pt_present e \<longleftrightarrow> bit e 0"

definition write_guest_identity_2m_tables :: "u64 \<Rightarrow> phys_mem \<Rightarrow> u64 \<times> phys_mem" where
  "write_guest_identity_2m_tables slab_base m =
    (let pml4 = slab_base + G1_SLAB_OFF_PML4; pdpt = slab_base + G1_SLAB_OFF_PDPT;
         pd = slab_base + G1_SLAB_OFF_PD;
         m1 = write_bytes m pml4 0 4096; m2 = write_bytes m1 pdpt 0 4096; m3 = write_bytes m2 pd 0 4096;
         leaf_2m = guest_pt_leaf (slab_base AND NOT 0x1fffff);
         m4 = store64 m3 (entry_addr pml4 (pt_index 39 slab_base)) (guest_pt_link pdpt);
         m5 = store64 m4 (entry_addr pdpt (pt_index 30 slab_base)) (guest_pt_link pd);
         m6 = store64 m5 (entry_addr pd (pt_index 21 slab_base)) leaf_2m
     in (pml4, m6))"

definition write_guest_identity_precise_tables ::
  "u64 \<Rightarrow> u64 \<Rightarrow> u64 \<Rightarrow> phys_mem \<Rightarrow> u64 \<times> phys_mem" where
  "write_guest_identity_precise_tables pml4_phys pdpt_phys pd_phys m =
    (let m1 = write_bytes m pml4_phys 0 4096; m2 = write_bytes m1 pdpt_phys 0 4096;
         m3 = write_bytes m2 pd_phys 0 4096;
         leaves = unat (PRECISE_BYTES div TWO_MIB);
         m4 = store64 m3 (entry_addr pml4_phys 0) (guest_pt_link pdpt_phys);
         m5 = store64 m4 (entry_addr pdpt_phys 0) (guest_pt_link pd_phys);
         m6 = fold (\<lambda>i m. store64 m (entry_addr pd_phys i) (guest_pt_leaf (of_nat i * TWO_MIB)))
           [0..<leaves] m5
     in (pml4_phys, m6))"

section \<open>The two entry formats\<close>

lemma bit_ept_leaf_large:
  "bit (ept_leaf_large h mt) n \<longleftrightarrow>
    n < 64 \<and> (n < 3 \<or> (3 \<le> n \<and> n < 6 \<and> bit mt (n - 3)) \<or> n = 7 \<or> (12 \<le> n \<and> bit h n))"
  unfolding ept_leaf_large_def ept_rwe_def low_mask_words bit_or_iff bit_and_iff bit_push_bit_iff
    bit_not_iff bit_mask_iff bit_1_iff
  by auto

lemma bit_ept_leaf_4k:
  "bit (ept_leaf_4k h mt) n \<longleftrightarrow>
    n < 64 \<and> (n < 3 \<or> (3 \<le> n \<and> n < 6 \<and> bit mt (n - 3)) \<or> (12 \<le> n \<and> bit h n))"
  unfolding ept_leaf_4k_def ept_rwe_def low_mask_words bit_or_iff bit_and_iff bit_push_bit_iff
    bit_not_iff bit_mask_iff bit_1_iff
  by auto

lemma bit_ept_link: "bit (ept_link a) n \<longleftrightarrow> n < 64 \<and> (n < 3 \<or> (12 \<le> n \<and> bit a n))"
  unfolding ept_link_def ept_rwe_def low_mask_words bit_or_iff bit_and_iff bit_not_iff bit_mask_iff
  by auto

lemma three_mask: "(3 :: u64) = mask 2"
  by (simp add: mask_eq_exp_minus_1)

lemma bit_guest_pt_leaf: "bit (guest_pt_leaf h) n \<longleftrightarrow> n < 64 \<and> (n < 2 \<or> n = 7 \<or> bit h n)"
  unfolding guest_pt_leaf_def guest_present_rw_def three_mask bit_or_iff bit_push_bit_iff bit_1_iff
    bit_mask_iff
  by (auto dest: bit_imp_le_length)

lemma bit_guest_pt_link: "bit (guest_pt_link a) n \<longleftrightarrow> n < 64 \<and> (n < 2 \<or> bit a n)"
  unfolding guest_pt_link_def guest_present_rw_def three_mask bit_or_iff bit_mask_iff
  by (auto dest: bit_imp_le_length)

lemma low_clear_bit:
  fixes a :: u64
  assumes "a AND mask s = 0" "bit a n"
  shows "s \<le> n"
proof (rule ccontr)
  assume "\<not> s \<le> n"
  with assms(2) have "bit (a AND mask s) n"
    using bit_imp_le_length [OF assms(2)] by (simp add: bit_and_iff bit_mask_iff)
  with assms(1) show False by simp
qed

lemma ept_present_bit0:
  assumes "bit e 0"
  shows "ept_present e"
proof -
  have "bit (e AND mask 3) 0" using assms by (simp add: bit_and_iff bit_mask_iff)
  then have "e AND mask 3 \<noteq> 0" by auto
  then show ?thesis unfolding ept_present_def low_mask_words .
qed

interpretation ept_enc: radix_encoding ept_present ept_link "\<lambda>h. ept_leaf_large h mt" for mt
  by unfold_locales
    (auto simp: large_entry_bit table_of_def bit_ept_link bit_ept_leaf_large low_mask_words
      page_aligned_def bit_simps ept_present_def dest: low_clear_bit
      intro!: bit_word_eqI ept_present_bit0 [unfolded ept_present_def low_mask_words])

interpretation gpt_enc: radix_encoding guest_pt_present guest_pt_link guest_pt_leaf
  by unfold_locales
    (auto simp: guest_pt_present_def large_entry_bit table_of_def bit_guest_pt_link bit_guest_pt_leaf low_mask_words
      page_aligned_def bit_simps dest: low_clear_bit intro!: bit_word_eqI)

section \<open>What the builders leave in memory\<close>

abbreviation ept_tables ::
  "u64 \<Rightarrow> phys_mem \<Rightarrow> u64 \<Rightarrow> u64 \<Rightarrow> u64 list \<Rightarrow> (nat \<Rightarrow> u64 option) \<Rightarrow> bool" where
  "ept_tables mt \<equiv> radix_tables ept_link (\<lambda>h. ept_leaf_large h mt)"

definition pages_intact :: "u64 list \<Rightarrow> phys_mem \<Rightarrow> phys_mem \<Rightarrow> bool" where
  "pages_intact fs m m' \<longleftrightarrow>
    (\<forall>g j. page_aligned g \<longrightarrow> g \<notin> set fs \<longrightarrow> j < 512 \<longrightarrow>
      load64 m' (entry_addr g j) = load64 m (entry_addr g j))"

definition ident_leaves :: "nat \<Rightarrow> nat \<Rightarrow> u64 option" where
  "ident_leaves n k = (if k < n then Some (of_nat k * TWO_MIB) else None)"

lemma two_mib_mask: "TWO_MIB - 1 = mask 21" "TWO_MIB = 2 ^ 21"
  by (simp_all add: TWO_MIB_def mask_eq_exp_minus_1)

lemma two_mib_aligned: "a AND (TWO_MIB - 1) = 0 \<longleftrightarrow> unat a mod 2 ^ 21 = 0"
  unfolding two_mib_mask(1) unat_and_mask_low [symmetric] by (simp add: word_unat_eq_iff)

lemma two_mib_multiple: "(of_nat k * TWO_MIB) AND mask 21 = 0"
proof -
  have "of_nat k * TWO_MIB = push_bit 21 (of_nat k)" by (simp add: push_bit_eq_mult TWO_MIB_def)
  then have "take_bit 21 (of_nat k * TWO_MIB) = 0" by (simp only: take_bit_push_bit) simp
  then show ?thesis by (simp add: take_bit_eq_mask)
qed

lemma two_mib_floor: "of_nat (unat a div 2 ^ 21) * TWO_MIB = a AND NOT (mask 21)"
proof (rule word_eq_unatI)
  have "unat a div 2 ^ 21 * 2 ^ 21 < 2 ^ 64"
    using unat_u64_bound [of a] div_times_less_eq_dividend [of "unat a" "2 ^ 21"] by simp
  then have "unat (of_nat (unat a div 2 ^ 21 * 2 ^ 21) :: u64) = unat a div 2 ^ 21 * 2 ^ 21"
    by (intro unat_of_nat_small) simp
  then show "unat (of_nat (unat a div 2 ^ 21) * TWO_MIB) = unat (a AND NOT (mask 21))"
    unfolding unat_and_not_mask by (simp add: TWO_MIB_def)
qed

lemma zero_frames_ok:
  "\<forall>f \<in> set fs. page_aligned f \<Longrightarrow>
    zero_frames fs m = (Inr (), fold (\<lambda>f m. write_bytes m f 0 4096) fs m)"
  by (induction fs arbitrary: m) (auto simp: page_aligned_def)

lemma zero_frames_bad:
  "\<exists>f \<in> set fs. \<not> page_aligned f \<Longrightarrow> fst (zero_frames fs m) = Inl Unsupported"
  by (induction fs arbitrary: m) (auto simp: page_aligned_def)

lemma take_table_frames:
  "2 + k \<le> length frames \<Longrightarrow>
    take (2 + k) frames = frames ! 0 # frames ! 1 # map (\<lambda>i. frames ! (2 + i)) [0..<k]"
proof (rule nth_equalityI)
  fix i assume "2 + k \<le> length frames" "i < length (take (2 + k) frames)"
  then show "take (2 + k) frames ! i = (frames ! 0 # frames ! 1 # map (\<lambda>i. frames ! (2 + i)) [0..<k]) ! i"
    by (cases i; cases "i - 1") (auto simp: nth_Cons')
qed simp

lemma fold_upt_shift: "fold f [a..<b] s = fold (\<lambda>j. f (a + j)) [0..<b - a] s"
proof (cases "a \<le> b")
  case True
  then have "[a..<b] = map (\<lambda>j. j + a) [0..<b - a]" by (simp add: map_add_upt)
  then show ?thesis by (simp add: fold_map comp_def add.commute)
qed simp

lemma pml4_pack: "page_aligned a \<Longrightarrow> pml4_from_eptp (pack_eptp a mt) = a"
proof (rule bit_word_eqI)
  fix n assume al: "page_aligned a" and "n < LENGTH(64)"
  have "(3 :: u64) AND 7 = mask 2" by (simp add: mask_eq_exp_minus_1)
  then show "bit (pml4_from_eptp (pack_eptp a mt)) n = bit a n"
    using low_clear_bit [of a 12 n] al \<open>n < LENGTH(64)\<close>
    unfolding pml4_from_eptp_def pack_eptp_def Let_def page_aligned_def low_mask_words
    by (auto simp: bit_simps)
qed

text \<open>Clearing the frames and filling directories gives a tree and touches nothing else.\<close>

lemma ept_tables_from_zero:
  assumes fs: "distinct (root # pdpt # pds)" "\<forall>f \<in> set (root # pdpt # pds). page_aligned f"
    "length pds \<le> 512" "\<And>i. c i \<le> 512"
    and L: "\<And>k h. L k = Some h \<Longrightarrow> k < 512 * length pds \<and> h AND mask 21 = 0"
    and v: "\<And>i j. i < length pds \<Longrightarrow> j < 512 \<Longrightarrow>
      (case L (512 * i + j) of None \<Rightarrow> 0 | Some h \<Rightarrow> leaf h) = (if j < c i then v i j else 0)"
    and m': "m' = fold (fill_directory link v c pdpt pds) [0..<length pds]
      (store64 (fold (\<lambda>f m. write_bytes m f 0 4096) (root # pdpt # pds) m) (entry_addr root 0) (link pdpt))"
  shows "radix_tables link leaf m' root pdpt pds L" and "pages_intact (root # pdpt # pds) m m'"
proof -
  let ?m = "fold (\<lambda>f m. write_bytes m f 0 4096) (root # pdpt # pds) m"
  note zero = load_zero_frames [OF fs(2), of _ _ m]
  have z: "load64 ?m (entry_addr f j) = 0" if "f \<in> set (root # pdpt # pds)" "j < 512" for f j
  proof -
    have "page_aligned f" using that(1) fs(2) by blast
    with zero [of f j] that show ?thesis by (simp del: fold_simps)
  qed
  show "radix_tables link leaf m' root pdpt pds L"
    unfolding m' by (rule radix_tables_built [OF fs z L v])
  show "pages_intact (root # pdpt # pds) m m'"
    unfolding pages_intact_def m'
    using radix_build_frame [where c = c and m = ?m and link = link and v = v, OF fs] zero
    by (simp del: fold_simps)
qed

lemma identity_2m_tables:
  assumes b: "bytes \<noteq> 0" "bytes AND (TWO_MIB - 1) = 0" "bytes \<le> DEFAULT_APIC_PHYS"
    and need: "need = frames_required_2m_bytes bytes" "need \<le> length frames"
    and fs: "distinct (take need frames)" "\<forall>f \<in> set (take need frames). page_aligned f"
  shows "\<exists>m'. build_identity_2m_bytes cap bytes frames m =
      (Inr (pack_eptp (frames ! 0) (eptp_memory_type cap)), m') \<and>
    ept_tables (eptp_memory_type cap) m' (frames ! 0) (frames ! 1) (drop 2 (take need frames))
      (ident_leaves (unat bytes div 2 ^ 21)) \<and>
    pages_intact (take need frames) m m'"
proof -
  define n where "n = unat bytes div 2 ^ 21"
  define k where "k = (n + 511) div 512"
  define pds where "pds = map (\<lambda>i. frames ! (2 + i)) [0..<k]"
  define mt where "mt = eptp_memory_type cap"
  define c where "c i = min (i * 512 + 512) n - i * 512" for i
  define v where "v i j = ept_leaf_large (of_nat (i * 512 + j) * TWO_MIB) mt" for i j
  have "unat bytes mod 2 ^ 21 = 0"
    using b(2) by (simp only: two_mib_aligned)
  then have bn: "unat bytes = n * 2 ^ 21" by (metis n_def add_0_right div_mult_mod_eq)
  have small: "unat bytes \<le> 4276092928" using b(3) by (simp add: word_le_nat_alt DEFAULT_APIC_PHYS_def)
  then have nb: "n \<le> 2039" using bn by simp
  have "need = 2 + k"
  proof -
    have "unat (bytes + push_bit 30 1 - 1) = unat bytes + 1073741823"
    proof -
      have "bytes + push_bit 30 1 - 1 = bytes + 1073741823" by (simp add: push_bit_eq_mult)
      moreover have "unat (bytes + 1073741823) = unat bytes + 1073741823"
        using small by (subst unat_add_small) simp_all
      ultimately show ?thesis by (simp only:)
    qed
    then have "unat (drop_bit 30 (bytes + push_bit 30 1 - 1)) = (unat bytes + 1073741823) div 2 ^ 30"
      unfolding unat_drop_bit_eq by (simp add: drop_bit_eq_div)
    then show ?thesis using b(1) unfolding need(1) frames_required_2m_bytes_def Let_def k_def bn by simp
  qed
  then have take: "take need frames = frames ! 0 # frames ! 1 # pds" and drop: "drop 2 (take need frames) = pds"
    using take_table_frames [of k frames] need(2) by (simp_all add: pds_def)
  have len: "length pds = k" "k \<le> 4" using nb by (simp_all add: pds_def k_def)
  define m' where "m' = fold (fill_directory ept_link v c (frames ! 1) pds) [0..<length pds]
    (store64 (fold (\<lambda>f m. write_bytes m f 0 4096) (frames ! 0 # frames ! 1 # pds) m)
      (entry_addr (frames ! 0) 0) (ept_link (frames ! 1)))"
  have pages: "unat (bytes div TWO_MIB) = n" by (simp add: n_def unat_div TWO_MIB_def)
  have run: "build_identity_2m_bytes cap bytes frames m = (Inr (pack_eptp (frames ! 0) mt), m')"
  proof -
    let ?Z = "fold (\<lambda>f m. write_bytes m f 0 4096) (frames ! 0 # frames ! 1 # pds) m"
    have zf: "zero_frames (take need frames) m = (Inr (), ?Z)"
      using zero_frames_ok [OF fs(2)] unfolding take .
    have loop: "fold (\<lambda>i m.
          let pd = frames ! (2 + i); m' = store64 m (entry_addr (frames ! 1) i) (ept_link pd);
            base_j = i * 512; end_j = min (base_j + 512) n in
          fold (\<lambda>j m. store64 m (entry_addr pd (j - base_j)) (ept_leaf_large (of_nat j * TWO_MIB) mt))
            [base_j..<end_j] m') [0..<k] s =
        fold (fill_directory ept_link v c (frames ! 1) pds) [0..<length pds] s" for s
      by (intro fold_cong) (auto simp: len(1) fun_eq_iff fill_directory_def fold_upt_shift [of _ "_ * 512"]
          c_def v_def pds_def Let_def)
    show ?thesis
      using b need(2)
      unfolding build_identity_2m_bytes_def need(1) [symmetric] pages zf mt_def [symmetric] m'_def Let_def
        k_def [symmetric] loop [unfolded Let_def]
      by (simp add: not_less del: fold_simps)
  qed
  have hyp: "distinct (frames ! 0 # frames ! 1 # pds)" "\<forall>f \<in> set (frames ! 0 # frames ! 1 # pds). page_aligned f"
    "length pds \<le> 512" "\<And>i. c i \<le> 512"
    using fs len unfolding take by (auto simp: c_def)
  have L: "k' < 512 * length pds \<and> h AND mask 21 = 0" if "ident_leaves n k' = Some h" for k' h
    using that two_mib_multiple [of k'] len(1) unfolding ident_leaves_def k_def by (auto split: if_splits)
  have vv: "(case ident_leaves n (512 * i + j) of None \<Rightarrow> 0 | Some h \<Rightarrow> ept_leaf_large h mt) =
      (if j < c i then v i j else 0)" if "j < 512" for i j
    using that by (auto simp: ident_leaves_def c_def v_def mult.commute)
  have T: "ept_tables mt m' (frames ! 0) (frames ! 1) pds (ident_leaves n)"
    by (rule ept_tables_from_zero(1) [OF hyp L vv m'_def])
  have P: "pages_intact (frames ! 0 # frames ! 1 # pds) m m'"
    by (rule ept_tables_from_zero(2) [OF hyp L vv m'_def])
  show ?thesis
    unfolding drop n_def [symmetric] mt_def [symmetric] unfolding take using run T P by blast
qed

lemma identity_gib_2m_tables:
  assumes g: "gib \<noteq> 0" "gib \<le> 512"
    and need: "need = frames_required_gib TwoMib gib" "need \<le> length frames"
    and fs: "distinct (take need frames)" "\<forall>f \<in> set (take need frames). page_aligned f"
  shows "\<exists>m'. build_identity_gib cap TwoMib gib frames m =
      (Inr (pack_eptp (frames ! 0) (eptp_memory_type cap)), m') \<and>
    ept_tables (eptp_memory_type cap) m' (frames ! 0) (frames ! 1) (drop 2 (take need frames))
      (ident_leaves (512 * unat gib)) \<and>
    pages_intact (take need frames) m m'"
proof -
  define k where "k = unat gib"
  define pds where "pds = map (\<lambda>i. frames ! (2 + i)) [0..<k]"
  define mt where "mt = eptp_memory_type cap"
  define v where "v i j = ept_leaf_large (push_bit 30 (of_nat i) + push_bit 21 (of_nat j)) mt" for i j :: nat
  have k: "k \<le> 512" using g(2) by (simp add: word_le_nat_alt k_def)
  have needk: "need = 2 + k" by (simp add: need(1) frames_required_gib_def k_def)
  then have take: "take need frames = frames ! 0 # frames ! 1 # pds" and drop: "drop 2 (take need frames) = pds"
    using take_table_frames [of k frames] need(2) by (simp_all add: pds_def)
  have len: "length pds = k" by (simp add: pds_def)
  define m' where "m' = fold (fill_directory ept_link v (\<lambda>_. 512) (frames ! 1) pds) [0..<length pds]
    (store64 (fold (\<lambda>f m. write_bytes m f 0 4096) (frames ! 0 # frames ! 1 # pds) m)
      (entry_addr (frames ! 0) 0) (ept_link (frames ! 1)))"
  have run: "build_identity_gib cap TwoMib gib frames m = (Inr (pack_eptp (frames ! 0) mt), m')"
  proof -
    let ?Z = "fold (\<lambda>f m. write_bytes m f 0 4096) (frames ! 0 # frames ! 1 # pds) m"
    have zf: "zero_frames (take need frames) m = (Inr (), ?Z)"
      using zero_frames_ok [OF fs(2)] unfolding take .
    have loop: "fold (\<lambda>i m.
          let pd = frames ! (2 + i); m' = store64 m (entry_addr (frames ! 1) i) (ept_link pd) in
          fold (\<lambda>j m. store64 m (entry_addr pd j)
            (ept_leaf_large (push_bit 30 (of_nat i) + push_bit 21 (of_nat j)) mt)) [0..<512] m') [0..<k] s =
        fold (fill_directory ept_link v (\<lambda>_. 512) (frames ! 1) pds) [0..<length pds] s" for s
      by (intro fold_cong) (auto simp: len fun_eq_iff fill_directory_def v_def pds_def Let_def simp del: upt_rec_numeral)
    show ?thesis
      using g need(2)
      unfolding build_identity_gib_def need(1) [symmetric] zf mt_def [symmetric] m'_def Let_def
        k_def [symmetric] EptPageSize.case loop [unfolded Let_def]
      by (simp add: not_less del: fold_simps upt_rec_numeral)
  qed
  have hyp: "distinct (frames ! 0 # frames ! 1 # pds)" "\<forall>f \<in> set (frames ! 0 # frames ! 1 # pds). page_aligned f"
    "length pds \<le> 512" "\<And>i. (512 :: nat) \<le> 512"
    using fs len k unfolding take by auto
  have L: "k' < 512 * length pds \<and> h AND mask 21 = 0" if "ident_leaves (512 * k) k' = Some h" for k' h
    using that two_mib_multiple [of k'] len unfolding ident_leaves_def by (auto split: if_splits)
  have vv: "(case ident_leaves (512 * k) (512 * i + j) of None \<Rightarrow> 0 | Some h \<Rightarrow> ept_leaf_large h mt) =
      (if j < 512 then v i j else 0)" if "i < length pds" "j < 512" for i j
  proof -
    have "512 * i + j < 512 * k" using that len by linarith
    moreover have "push_bit 30 (of_nat i) + push_bit 21 (of_nat j) = of_nat (512 * i + j) * TWO_MIB"
      by (simp add: push_bit_eq_mult TWO_MIB_def algebra_simps)
    ultimately show ?thesis using that by (simp add: ident_leaves_def v_def)
  qed
  have T: "ept_tables mt m' (frames ! 0) (frames ! 1) pds (ident_leaves (512 * k))"
    by (rule ept_tables_from_zero(1) [OF hyp L vv m'_def])
  have P: "pages_intact (frames ! 0 # frames ! 1 # pds) m m'"
    by (rule ept_tables_from_zero(2) [OF hyp L vv m'_def])
  show ?thesis
    unfolding drop k_def [symmetric] mt_def [symmetric] unfolding take using run T P by blast
qed

text \<open>One directory with a single leaf, for the shell slabs and their guest tables.\<close>

lemma single_leaf_tables:
  assumes fs: "distinct [root, pdpt, pd]" "page_aligned root" "page_aligned pdpt" "page_aligned pd"
    and h: "unat h mod 2 ^ 21 = 0" "unat h < 2 ^ 30"
    and zero: "\<And>f j. f \<in> {root, pdpt, pd} \<Longrightarrow> j < 512 \<Longrightarrow> load64 m (entry_addr f j) = 0"
    and m': "m' = store64 (store64 (store64 m (entry_addr root (pt_index 39 h)) (link pdpt))
      (entry_addr pdpt (pt_index 30 h)) (link pd)) (entry_addr pd (pt_index 21 h)) (leaf h)"
  shows "radix_tables link leaf m' root pdpt [pd] [unat h div 2 ^ 21 \<mapsto> h]"
    and "page_aligned g \<Longrightarrow> g \<notin> {root, pdpt, pd} \<Longrightarrow> j < 512 \<Longrightarrow>
      load64 m' (entry_addr g j) = load64 m (entry_addr g j)"
proof -
  have idx: "pt_index 39 h = 0" "pt_index 30 h = 0" "pt_index 21 h = unat h div 2 ^ 21"
    "unat h div 2 ^ 21 < 512"
    using h(2) by (simp_all add: pt_index_nat div_less_iff_less_mult)
  have low: "h AND mask 21 = 0"
    using h(1) unfolding unat_and_mask_low [symmetric] by (simp add: word_unat_eq_iff)
  have ne: "root \<noteq> pdpt" "root \<noteq> pd" "pdpt \<noteq> pd" "pdpt \<noteq> root" "pd \<noteq> root" "pd \<noteq> pdpt"
    using fs(1) by auto
  show "radix_tables link leaf m' root pdpt [pd] [unat h div 2 ^ 21 \<mapsto> h]"
    using fs low idx(4) ne zero unfolding radix_tables_def m' idx
    by (auto simp: load64_store_entry)
  show "page_aligned g \<Longrightarrow> g \<notin> {root, pdpt, pd} \<Longrightarrow> j < 512 \<Longrightarrow>
      load64 m' (entry_addr g j) = load64 m (entry_addr g j)"
    using fs idx(4) unfolding m' idx by (auto simp: load64_store_entry)
qed

lemma single_2m_tables:
  assumes h: "hpa AND (TWO_MIB - 1) = 0" "unat hpa + 2 ^ 21 \<le> unat PRECISE_BYTES"
    and fs: "frames = [root, pdpt, pd]" "distinct frames" "\<forall>f \<in> set frames. page_aligned f"
  shows "\<exists>m'. build_single_2m_identity cap hpa frames m = (Inr (pack_eptp root (eptp_memory_type cap)), m') \<and>
    ept_tables (eptp_memory_type cap) m' root pdpt [pd] [unat hpa div 2 ^ 21 \<mapsto> hpa] \<and>
    pages_intact frames m m'"
proof -
  let ?Z = "fold (\<lambda>f m. write_bytes m f 0 4096) frames m"
  let ?mt = "eptp_memory_type cap"
  define m' where "m' = store64 (store64 (store64 ?Z (entry_addr root (pt_index 39 hpa)) (ept_link pdpt))
      (entry_addr pdpt (pt_index 30 hpa)) (ept_link pd)) (entry_addr pd (pt_index 21 hpa)) (ept_leaf_large hpa ?mt)"
  have zf: "zero_frames frames m = (Inr (), ?Z)" by (rule zero_frames_ok [OF fs(3)])
  have sat: "\<not> (hpa \<ge> PRECISE_BYTES \<or> saturating_add hpa TWO_MIB > PRECISE_BYTES)"
    using h(2) unat_saturating_add [of hpa TWO_MIB]
    by (simp add: word_le_nat_alt word_less_nat_alt ept_hw_consts)
  have run: "build_single_2m_identity cap hpa frames m = (Inr (pack_eptp root ?mt), m')"
    using h(1) sat zf unfolding build_single_2m_identity_def
    by (simp add: frames_required_single_2m_def fs(1) m'_def Let_def)
  note Z = load_zero_frames [OF fs(3), of _ _ m]
  have zero: "load64 ?Z (entry_addr f j) = 0" if "f \<in> {root, pdpt, pd}" "j < 512" for f j
  proof -
    have "f \<in> set frames" "page_aligned f" using that(1) fs by auto
    with Z [of f j] that(2) show ?thesis by (simp del: fold_simps)
  qed
  have hn: "unat hpa mod 2 ^ 21 = 0" "unat hpa < 2 ^ 30"
    using h two_mib_aligned [of hpa] by (simp_all add: ept_hw_consts)
  have al: "distinct [root, pdpt, pd]" "page_aligned root" "page_aligned pdpt" "page_aligned pd"
    using fs by auto
  have "pages_intact frames m m'"
    unfolding pages_intact_def
    using single_leaf_tables(2) [where link = ept_link and leaf = "\<lambda>h. ept_leaf_large h ?mt",
      OF al hn zero m'_def] Z fs(1) by (simp del: fold_simps)
  with run single_leaf_tables(1) [where link = ept_link and leaf = "\<lambda>h. ept_leaf_large h ?mt",
      OF al hn zero m'_def]
  show ?thesis by blast
qed

lemma clear_2m_tables:
  assumes tabs: "ept_tables mt m root pdpt pds L" and a: "gpa AND (TWO_MIB - 1) = 0" "unat gpa < 2 ^ 48"
  shows "\<exists>m'. clear_2m_identity_leaf root gpa m = (Inr (), m') \<and>
    ept_tables mt m' root pdpt pds (L(unat gpa div 2 ^ 21 := None)) \<and> pages_intact pds m m'"
proof -
  note t = tabs [unfolded radix_tables_def]
  let ?i = "pt_index 30 gpa" let ?j = "pt_index 21 gpa"
  have al: "page_aligned pdpt" "\<And>i. i < length pds \<Longrightarrow> page_aligned (pds ! i)" using t by auto
  have root: "load64 m (entry_addr root (pt_index 39 gpa)) = (if pt_index 39 gpa = 0 then ept_link pdpt else 0)"
    and mid: "load64 m (entry_addr pdpt ?i) = (if ?i < length pds then ept_link (pds ! ?i) else 0)"
    using t by simp_all
  have link: "ept_link f AND 7 \<noteq> 0" "ept_link f AND 0x80 = 0" "ept_link f AND NOT 0xfff = f"
    if "page_aligned f" for f
    using ept_enc.link_present [OF that] ept_enc.link_small [OF that] ept_enc.link_table [OF that]
    unfolding ept_present_def large_entry_def table_of_def by simp_all
  show ?thesis
  proof (cases "pt_index 39 gpa = 0 \<and> ?i < length pds")
    case True
    then have "unat gpa div 2 ^ 39 = 0" unfolding big_page_index(1) [OF a(2)] by (rule conjunct2)
    then have K: "512 * ?i + ?j = unat gpa div 2 ^ 21" by (rule big_page_index(2) [OF a(2)])
    let ?m = "store64 m (entry_addr (pds ! ?i) ?j) 0"
    have r0: "load64 m (entry_addr root 0) = ept_link pdpt" using t by simp
    have "clear_2m_identity_leaf root gpa m = (Inr (), ?m)"
      using True a(1) link [OF al(1)] link [OF al(2) [of ?i]]
      unfolding clear_2m_identity_leaf_def Let_def by (simp add: r0 mid)
    moreover have "ept_tables mt ?m root pdpt pds (L(unat gpa div 2 ^ 21 := None))"
      using ept_enc.clear_leaf [OF tabs, of ?i ?j] True unfolding K by simp
    moreover have "pages_intact pds m ?m"
      using True al(2) [of ?i] unfolding pages_intact_def by (auto simp: load64_store_entry)
    ultimately show ?thesis by blast
  next
    case False
    then have no: "\<not> (unat gpa div 2 ^ 21 < 512 * length pds \<and> unat gpa div 2 ^ 39 = 0)"
      unfolding big_page_index(1) [OF a(2)] .
    have "unat gpa div 2 ^ 39 = 0" if "unat gpa div 2 ^ 21 < 512 * length pds"
    proof -
      have "unat gpa div 2 ^ 21 < 512 * 512" using that t by linarith
      then show ?thesis by (simp add: div_less_iff_less_mult)
    qed
    with no have "L (unat gpa div 2 ^ 21) = None" using t by (meson not_None_eq)
    then have "L(unat gpa div 2 ^ 21 := None) = L" by auto
    moreover have "clear_2m_identity_leaf root gpa m = (Inr (), m)"
      using False a(1) link [OF al(1)] link(3) [OF al(1)]
      unfolding clear_2m_identity_leaf_def Let_def root by (auto simp: mid)
    ultimately show ?thesis using tabs unfolding pages_intact_def by metis
  qed
qed

section \<open>Translations\<close>

lemma gpa_is_mapped_translate: "gpa_is_mapped m root gpa \<longleftrightarrow> ept_translate m root gpa \<noteq> None"
  unfolding gpa_is_mapped_def ept_translate_def radix_walk_def ept_present_def large_entry_def
    table_of_def Let_def
  by simp

lemma ident_target: "(of_nat (unat a div 2 ^ 21) * TWO_MIB) OR (a AND mask 21) = a"
  unfolding two_mib_floor by (rule split_low)

lemma translate_ident:
  assumes "ept_tables mt m root pdpt pds (ident_leaves n)" and "unat a < 2 ^ 48"
  shows "ept_translate m root a = (if unat a < n * 2 ^ 21 then Some a else None)"
  unfolding ept_translate_def ept_enc.walk_tables [OF assms] ident_leaves_def
  using ident_target [of a] by (simp add: div_less_iff_less_mult del: two_mib_mask(2))

text \<open>With 1 GiB pages the leaves sit one level higher.\<close>

lemma leaf_1g:
  assumes "i < 512"
  shows "ept_present (ept_leaf_large (push_bit 30 (of_nat i)) mt)"
    and "large_entry (ept_leaf_large (push_bit 30 (of_nat i)) mt)"
    and "ept_leaf_large (push_bit 30 (of_nat i)) mt AND NOT (mask 30) = push_bit 30 (of_nat i)"
  by (auto simp: large_entry_bit bit_ept_leaf_large bit_simps simp del: push_bit_of_nat push_bit_numeral
      intro!: bit_word_eqI ept_present_bit0)

lemma translate_gib_1g:
  assumes root: "load64 m (entry_addr root 0) = ept_link pdpt"
      "\<And>i. 0 < i \<Longrightarrow> i < 512 \<Longrightarrow> load64 m (entry_addr root i) = 0"
    and pdpt: "\<And>i. i < 512 \<Longrightarrow> load64 m (entry_addr pdpt i) =
      (if i < n then ept_leaf_large (push_bit 30 (of_nat i)) mt else 0)"
    and al: "page_aligned pdpt" "n \<le> 512" and a: "unat a < 2 ^ 48"
  shows "ept_translate m root a = (if unat a < n * 2 ^ 30 then Some a else None)"
proof -
  let ?i = "pt_index 30 a"
  note link = ept_enc.link_present [OF al(1)] ept_enc.link_small [OF al(1)] ept_enc.link_table [OF al(1)]
  show ?thesis
  proof (cases "pt_index 39 a = 0")
    case True
    have small: "unat a < 2 ^ 39"
      using True a by (simp add: pt_index_nat div_less_iff_less_mult div_eq_0_iff)
    then have i: "?i = unat a div 2 ^ 30" by (simp add: pt_index_nat less_mult_imp_div_less)
    have "push_bit 30 (of_nat ?i) = a AND NOT (mask 30)"
    proof (rule word_eq_unatI)
      have "unat (push_bit 30 (of_nat ?i) :: u64) = ?i * 2 ^ 30"
        using small unfolding i by (simp add: push_bit_eq_mult unat_word_ariths unat_of_nat)
      then show "unat (push_bit 30 (of_nat ?i) :: u64) = unat (a AND NOT (mask 30))"
        unfolding unat_and_not_mask i .
    qed
    then have "leaf_target 30 (ept_leaf_large (push_bit 30 (of_nat ?i)) mt) a = a"
      unfolding leaf_target_def leaf_1g(3) [OF pt_index_less] using split_low [of a 30] by simp
    moreover have "?i < n \<longleftrightarrow> unat a < n * 2 ^ 30"
      unfolding i by (simp add: div_less_iff_less_mult)
    ultimately show ?thesis
      using leaf_1g(1,2) [OF pt_index_less, of 30 a mt]
      unfolding ept_translate_def radix_walk_def Let_def
      by (simp add: True root link pdpt ept_enc.absent)
  next
    case False
    then have "unat a \<ge> 2 ^ 39" by (rule_tac ccontr) (simp add: pt_index_nat)
    then have "\<not> unat a < n * 2 ^ 30" using al(2) by simp
    then show ?thesis
      using False root(2) [of "pt_index 39 a"] unfolding ept_translate_def radix_walk_def Let_def
      by (simp add: ept_enc.absent)
  qed
qed

lemma identity_gib_1g:
  assumes g: "gib \<noteq> 0" "gib \<le> 512" and len: "2 \<le> length frames"
    and fs: "distinct (take 2 frames)" "\<forall>f \<in> set (take 2 frames). page_aligned f"
  shows "\<exists>m'. build_identity_gib cap OneGib gib frames m =
      (Inr (pack_eptp (frames ! 0) (eptp_memory_type cap)), m') \<and>
    (\<forall>a. unat a < 2 ^ 48 \<longrightarrow>
      ept_translate m' (frames ! 0) a = (if unat a < unat gib * 2 ^ 30 then Some a else None)) \<and>
    pages_intact (take 2 frames) m m'"
proof -
  define root where "root = frames ! 0"
  define pdpt where "pdpt = frames ! 1"
  define mt where "mt = eptp_memory_type cap"
  have take: "take 2 frames = [root, pdpt]"
    using take_table_frames [of 0 frames] len by (simp add: root_def pdpt_def)
  have al: "page_aligned root" "page_aligned pdpt" "root \<noteq> pdpt" "pdpt \<noteq> root" using fs unfolding take by auto
  let ?Z = "fold (\<lambda>f m. write_bytes m f 0 4096) (take 2 frames) m"
  let ?R = "store64 ?Z (entry_addr root 0) (ept_link pdpt)"
  define m' where "m' = fold (\<lambda>i m. store64 m (entry_addr pdpt i) (ept_leaf_large (push_bit 30 (of_nat i)) mt)) [0..<unat gib] ?R"
  have n: "unat gib \<le> 512" using g(2) by (simp add: word_le_nat_alt)
  have run: "build_identity_gib cap OneGib gib frames m = (Inr (pack_eptp root mt), m')"
    using g len zero_frames_ok [OF fs(2), of m]
    unfolding build_identity_gib_def frames_required_gib_def EptPageSize.case Let_def root_def pdpt_def mt_def m'_def
    by (simp add: not_less del: fold_simps)
  have ld: "load64 m' (entry_addr f j) =
      (if f = pdpt \<and> j < unat gib then ept_leaf_large (push_bit 30 (of_nat j)) mt
       else if f = root \<and> j = 0 then ept_link pdpt
       else if f \<in> {root, pdpt} then 0 else load64 m (entry_addr f j))"
    if "page_aligned f" "j < 512" for f j
    unfolding m'_def load_fill_entries [OF al(2) that(1) n that(2)]
    using that al by (auto simp: load64_store_entry load64_zero_page take)
  have "ept_translate m' root a = (if unat a < unat gib * 2 ^ 30 then Some a else None)"
    if "unat a < 2 ^ 48" for a
    by (rule translate_gib_1g [OF _ _ _ al(2) n that, where mt = mt]) (simp_all add: ld al)
  moreover have "pages_intact (take 2 frames) m m'"
    unfolding pages_intact_def take by (simp add: ld)
  ultimately show ?thesis using run unfolding root_def mt_def by blast
qed

lemma guest_precise_tables:
  assumes fs: "distinct [root, pdpt, pd]" "page_aligned root" "page_aligned pdpt" "page_aligned pd"
    and run: "write_guest_identity_precise_tables root pdpt pd m = (cr3, m')"
  shows "cr3 = root" and "radix_tables guest_pt_link guest_pt_leaf m' root pdpt [pd] (ident_leaves 256)"
    and "pages_intact [root, pdpt, pd] m m'"
proof -
  define c where "c i = (256 :: nat)" for i :: nat
  define v where "v i j = guest_pt_leaf (of_nat j * TWO_MIB)" for i j :: nat
  have leaves: "unat (PRECISE_BYTES div TWO_MIB) = 256" by (simp add: ept_hw_consts)
  have m': "m' = fold (fill_directory guest_pt_link v c pdpt [pd]) [0..<length [pd]]
      (store64 (fold (\<lambda>f m. write_bytes m f 0 4096) [root, pdpt, pd] m) (entry_addr root 0) (guest_pt_link pdpt))"
    and "cr3 = root"
    using run unfolding write_guest_identity_precise_tables_def Let_def leaves
    by (auto simp: fill_directory_def v_def c_def simp del: upt_rec_numeral)
  then show "cr3 = root" by simp
  have hyp: "distinct (root # pdpt # [pd])" "\<forall>f \<in> set (root # pdpt # [pd]). page_aligned f"
    "length [pd] \<le> 512" "\<And>i. c i \<le> 512"
    using fs by (auto simp: c_def)
  have L: "k < 512 * length [pd] \<and> h AND mask 21 = 0" if "ident_leaves 256 k = Some h" for k h
    using that two_mib_multiple [of k] unfolding ident_leaves_def by (auto split: if_splits)
  have vv: "(case ident_leaves 256 (512 * i + j) of None \<Rightarrow> 0 | Some h \<Rightarrow> guest_pt_leaf h) =
      (if j < c i then v i j else 0)" if "i < length [pd]" "j < 512" for i j
    using that by (simp add: ident_leaves_def v_def c_def)
  show "radix_tables guest_pt_link guest_pt_leaf m' root pdpt [pd] (ident_leaves 256)"
    by (rule ept_tables_from_zero(1) [OF hyp L vv m'])
  show "pages_intact [root, pdpt, pd] m m'"
    by (rule ept_tables_from_zero(2) [OF hyp L vv m'])
qed

lemma slab_frames:
  assumes "slab AND (TWO_MIB - 1) = 0" "unat slab < 2 ^ 40" "unat off < 2 ^ 21" "unat off mod 4096 = 0"
  shows "page_aligned (slab + off)" and "unat (slab + off) = unat slab + unat off"
proof -
  show un: "unat (slab + off) = unat slab + unat off"
    using assms by (intro unat_add_small) simp
  have "unat slab mod 4096 = 0"
  proof -
    have "unat slab mod 2 ^ 21 = 0" using assms(1) by (simp only: two_mib_aligned)
    then have "(2 ^ 21 :: nat) dvd unat slab" by (simp only: dvd_eq_mod_eq_0)
    moreover have "(4096 :: nat) dvd 2 ^ 21" by simp
    ultimately have "4096 dvd unat slab" by (rule dvd_trans [rotated])
    then show ?thesis by (simp only: dvd_eq_mod_eq_0)
  qed
  with assms(4) show "page_aligned (slab + off)"
    unfolding page_aligned_nat un by (simp add: mod_add_eq [symmetric])
qed

lemma guest_2m_tables:
  assumes h: "slab AND (TWO_MIB - 1) = 0" "unat slab < 2 ^ 30"
    and run: "write_guest_identity_2m_tables slab m = (cr3, m')"
  shows "cr3 = slab + G1_SLAB_OFF_PML4"
    and "radix_tables guest_pt_link guest_pt_leaf m' (slab + G1_SLAB_OFF_PML4) (slab + G1_SLAB_OFF_PDPT)
      [slab + G1_SLAB_OFF_PD] [unat slab div 2 ^ 21 \<mapsto> slab]"
    and "pages_intact [slab + G1_SLAB_OFF_PML4, slab + G1_SLAB_OFF_PDPT, slab + G1_SLAB_OFF_PD] m m'"
proof -
  let ?r = "slab + G1_SLAB_OFF_PML4" let ?p = "slab + G1_SLAB_OFF_PDPT" let ?d = "slab + G1_SLAB_OFF_PD"
  let ?fs = "[?r, ?p, ?d]"
  have fs: "\<forall>f \<in> set ?fs. page_aligned f"
    using slab_frames(1) [OF h(1)] h(2)
    by (auto simp: G1_SLAB_OFF_PML4_def G1_SLAB_OFF_PDPT_def G1_SLAB_OFF_PD_def)
  have al: "distinct ?fs" "page_aligned ?r" "page_aligned ?p" "page_aligned ?d"
    using fs by (auto simp: G1_SLAB_OFF_PML4_def G1_SLAB_OFF_PDPT_def G1_SLAB_OFF_PD_def)
  let ?Z = "fold (\<lambda>f m. write_bytes m f 0 4096) ?fs m"
  have low: "unat slab mod 2 ^ 21 = 0" using h(1) by (simp only: two_mib_aligned)
  have base: "slab AND NOT 0x1fffff = slab"
  proof -
    have "slab AND mask 21 = 0" using h(1) by (simp only: two_mib_mask(1))
    then show ?thesis using split_low [of slab 21] unfolding low_mask_words by simp
  qed
  have m': "m' = store64 (store64 (store64 ?Z (entry_addr ?r (pt_index 39 slab)) (guest_pt_link ?p))
      (entry_addr ?p (pt_index 30 slab)) (guest_pt_link ?d)) (entry_addr ?d (pt_index 21 slab)) (guest_pt_leaf slab)"
    and "cr3 = ?r"
    using run unfolding write_guest_identity_2m_tables_def Let_def base by auto
  then show "cr3 = ?r" by simp
  note Z = load_zero_frames [OF fs, of _ _ m]
  have zero: "load64 ?Z (entry_addr f j) = 0" if "f \<in> {?r, ?p, ?d}" "j < 512" for f j
  proof -
    have "f \<in> set ?fs" "page_aligned f" using that(1) al by auto
    with Z [of f j] that(2) show ?thesis by (simp del: fold_simps)
  qed
  note S = single_leaf_tables [where link = guest_pt_link and leaf = guest_pt_leaf, OF al low h(2) zero m']
  show "radix_tables guest_pt_link guest_pt_leaf m' ?r ?p [?d] [unat slab div 2 ^ 21 \<mapsto> slab]" by (rule S(1))
  show "pages_intact ?fs m m'"
    unfolding pages_intact_def using S(2) Z by (simp del: fold_simps)
qed

section \<open>Properties\<close>

text \<open>
  C22: The 2 MiB identity builder is exact.  It refuses an empty, unaligned or APIC-reaching
  window and a short frame list without writing, refuses unaligned frames, and otherwise
  returns an EPTP rooted at the first frame under which every guest physical address below
  the window translates to itself, every other address is unmapped, and no other page of
  physical memory has changed.
\<close>

theorem build_identity_2m_bytes_correct:
  assumes "need = frames_required_2m_bytes bytes" and "distinct (take need frames)"
  shows "if bytes = 0 \<or> unat bytes mod 2 ^ 21 \<noteq> 0 \<or> bytes > DEFAULT_APIC_PHYS
    then build_identity_2m_bytes cap bytes frames m = (Inl Unsupported, m)
    else if length frames < need then build_identity_2m_bytes cap bytes frames m = (Inl OutOfFrames, m)
    else if \<exists>f \<in> set (take need frames). \<not> page_aligned f
    then fst (build_identity_2m_bytes cap bytes frames m) = Inl Unsupported
    else \<exists>eptp m'. build_identity_2m_bytes cap bytes frames m = (Inr eptp, m') \<and>
      pml4_from_eptp eptp = frames ! 0 \<and> pages_intact (take need frames) m m' \<and>
      (\<forall>gpa. unat gpa < 2 ^ 48 \<longrightarrow>
        ept_translate m' (pml4_from_eptp eptp) gpa = (if gpa < bytes then Some gpa else None))"
proof -
  have bad: "fst (build_identity_2m_bytes cap bytes frames m) = Inl Unsupported"
    if "\<exists>f \<in> set (take need frames). \<not> page_aligned f" "bytes \<noteq> 0" "bytes AND (TWO_MIB - 1) = 0"
      "\<not> bytes > DEFAULT_APIC_PHYS" "\<not> length frames < need"
    using zero_frames_bad [OF that(1), of m] that(2-5) assms(1)
    unfolding build_identity_2m_bytes_def Let_def by (auto split: sum.splits prod.splits)
  have good: "\<exists>eptp m'. build_identity_2m_bytes cap bytes frames m = (Inr eptp, m') \<and>
      pml4_from_eptp eptp = frames ! 0 \<and> pages_intact (take need frames) m m' \<and>
      (\<forall>gpa. unat gpa < 2 ^ 48 \<longrightarrow>
        ept_translate m' (pml4_from_eptp eptp) gpa = (if gpa < bytes then Some gpa else None))"
    if b: "bytes \<noteq> 0" "bytes AND (TWO_MIB - 1) = 0" "bytes \<le> DEFAULT_APIC_PHYS" "need \<le> length frames"
      "\<forall>f \<in> set (take need frames). page_aligned f"
  proof -
    from identity_2m_tables [OF b(1-3) assms(1) b(4) assms(2) b(5), of cap m] obtain m' where
      m': "build_identity_2m_bytes cap bytes frames m =
        (Inr (pack_eptp (frames ! 0) (eptp_memory_type cap)), m')"
      "ept_tables (eptp_memory_type cap) m' (frames ! 0) (frames ! 1) (drop 2 (take need frames))
        (ident_leaves (unat bytes div 2 ^ 21))" "pages_intact (take need frames) m m'" by blast
    have "0 < need" using assms(1) b(1) by (simp add: frames_required_2m_bytes_def Let_def)
    then have "frames ! 0 \<in> set (take need frames)"
      using b(4) by (auto simp: in_set_conv_nth intro!: exI [of _ 0])
    then have pml4: "pml4_from_eptp (pack_eptp (frames ! 0) (eptp_memory_type cap)) = frames ! 0"
      using b(5) pml4_pack by blast
    have "unat bytes div 2 ^ 21 * 2 ^ 21 = unat bytes"
      using b(2) two_mib_aligned [of bytes] by (metis add_0_right div_mult_mod_eq)
    then show ?thesis
      using m' translate_ident [OF m'(2)] pml4 by (auto simp: word_less_nat_alt)
  qed
  show ?thesis
    using bad good two_mib_aligned [of bytes]
    by (auto simp: not_less build_identity_2m_bytes_def Let_def assms(1))
qed

theorem build_identity_2m_bytes_correct_witness:
  "\<exists>eptp m'. build_identity_2m_bytes 0x14040 0x400000 [0x1000, 0x2000, 0x3000] (\<lambda>_. 0xAA) = (Inr eptp, m') \<and>
     ept_translate m' (pml4_from_eptp eptp) 0x3FF123 = Some 0x3FF123 \<and>
     ept_translate m' (pml4_from_eptp eptp) 0x400000 = None"
proof -
  have need: "frames_required_2m_bytes 0x400000 = 3"
    by (simp add: frames_required_2m_bytes_def Let_def push_bit_eq_mult drop_bit_eq_div)
  have al: "\<forall>f \<in> set [0x1000, 0x2000, 0x3000]. page_aligned f" by (simp add: page_aligned_def)
  show ?thesis
    using build_identity_2m_bytes_correct [of 3 "0x400000" "[0x1000, 0x2000, 0x3000]" "0x14040" "\<lambda>_. 0xAA"] need al
    by (auto simp: DEFAULT_APIC_PHYS_def)
qed

text \<open>
  The whole-GiB identity builder gives the same translation with 1 GiB and with 2 MiB
  pages: identity below \<open>gib\<close> GiB and nothing above, for one to 512 GiB.
\<close>

theorem build_identity_gib_correct:
  assumes "gib \<noteq> 0" "gib \<le> 512" "need = frames_required_gib page_size gib" "need \<le> length frames"
    and "distinct (take need frames)" "\<forall>f \<in> set (take need frames). page_aligned f"
  shows "\<exists>eptp m'. build_identity_gib cap page_size gib frames m = (Inr eptp, m') \<and>
    pml4_from_eptp eptp = frames ! 0 \<and> pages_intact (take need frames) m m' \<and>
    (\<forall>gpa. unat gpa < 2 ^ 48 \<longrightarrow>
      ept_translate m' (frames ! 0) gpa = (if unat gpa < unat gib * 2 ^ 30 then Some gpa else None))"
proof (cases page_size)
  case OneGib
  then have need: "need = 2" using assms(3) by (simp add: frames_required_gib_def)
  have "page_aligned (frames ! 0)" using assms(4,6) take_table_frames [of 0 frames] unfolding need by simp
  then show ?thesis
    using identity_gib_1g [OF assms(1,2) assms(4-6) [unfolded need], of cap m] pml4_pack
    unfolding OneGib need by blast
next
  case TwoMib
  then have "need = 2 + unat gib" using assms(3) by (simp add: frames_required_gib_def)
  then have "page_aligned (frames ! 0)" using assms(4,6) take_table_frames [of "unat gib" frames] by simp
  moreover have "512 * unat gib * 2 ^ 21 = unat gib * 2 ^ 30" by simp
  ultimately show ?thesis
    using identity_gib_2m_tables [OF assms(1,2) assms(3) [unfolded TwoMib] assms(4-6), of cap m]
      translate_ident pml4_pack unfolding TwoMib by metis
qed

theorem build_identity_gib_correct_witness:
  "\<exists>eptp m'. build_identity_gib 0 OneGib 1 [0x1000, 0x2000] (\<lambda>_. 0xAA) = (Inr eptp, m') \<and>
     ept_translate m' 0x1000 0x3FFFFFFF = Some 0x3FFFFFFF \<and> ept_translate m' 0x1000 0x40000000 = None"
proof -
  have h: "(1 :: u64) \<noteq> 0" "(1 :: u64) \<le> 512" "2 = frames_required_gib OneGib 1"
    "2 \<le> length [0x1000, 0x2000 :: u64]" "distinct (take 2 [0x1000, 0x2000 :: u64])"
    "\<forall>f \<in> set (take 2 [0x1000, 0x2000]). page_aligned f"
    by (simp_all add: page_aligned_def frames_required_gib_def)
  from build_identity_gib_correct [OF h, of 0 "\<lambda>_. 0xAA"] obtain eptp m' where
    run: "build_identity_gib 0 OneGib 1 [0x1000, 0x2000] (\<lambda>_. 0xAA) = (Inr eptp, m')"
    and t: "\<forall>gpa. unat gpa < 2 ^ 48 \<longrightarrow> ept_translate m' ([0x1000, 0x2000] ! 0) gpa =
      (if unat gpa < unat (1 :: u64) * 2 ^ 30 then Some gpa else None)" by blast
  have "ept_translate m' 0x1000 0x3FFFFFFF = Some 0x3FFFFFFF" "ept_translate m' 0x1000 0x40000000 = None"
    using t [rule_format, of "0x3FFFFFFF"] t [rule_format, of "0x40000000"] by simp_all
  with run show ?thesis by blast
qed

text \<open>
  The single-slab builder maps exactly one 2 MiB page onto itself.  A slab that is not 2 MiB
  aligned or does not lie inside the precise window is refused without writing.
\<close>

theorem build_single_2m_identity_correct:
  assumes "distinct [pml4, pdpt, pd]" "\<forall>f \<in> {pml4, pdpt, pd}. page_aligned f"
  shows "if unat hpa mod 2 ^ 21 \<noteq> 0 \<or> unat PRECISE_BYTES < unat hpa + 2 ^ 21
    then build_single_2m_identity cap hpa [pml4, pdpt, pd] m = (Inl Unsupported, m)
    else \<exists>eptp m'. build_single_2m_identity cap hpa [pml4, pdpt, pd] m = (Inr eptp, m') \<and>
      pml4_from_eptp eptp = pml4 \<and> pages_intact [pml4, pdpt, pd] m m' \<and>
      (\<forall>gpa. unat gpa < 2 ^ 48 \<longrightarrow> ept_translate m' (pml4_from_eptp eptp) gpa =
        (if hpa \<le> gpa \<and> unat gpa < unat hpa + 2 ^ 21 then Some gpa else None))"
proof (cases "unat hpa mod 2 ^ 21 \<noteq> 0 \<or> unat PRECISE_BYTES < unat hpa + 2 ^ 21")
  case True
  have "PRECISE_BYTES \<le> hpa \<or> PRECISE_BYTES < saturating_add hpa TWO_MIB"
    if "unat PRECISE_BYTES < unat hpa + 2 ^ 21"
    using that unat_saturating_add [of hpa TWO_MIB]
    by (simp add: word_le_nat_alt word_less_nat_alt ept_hw_consts)
  with True have "build_single_2m_identity cap hpa [pml4, pdpt, pd] m = (Inl Unsupported, m)"
    using two_mib_aligned [of hpa] unfolding build_single_2m_identity_def by auto
  with True show ?thesis by simp
next
  case False
  then have h: "hpa AND (TWO_MIB - 1) = 0" "unat hpa + 2 ^ 21 \<le> unat PRECISE_BYTES"
    using two_mib_aligned [of hpa] by auto
  obtain m' where m': "build_single_2m_identity cap hpa [pml4, pdpt, pd] m =
      (Inr (pack_eptp pml4 (eptp_memory_type cap)), m')"
    "ept_tables (eptp_memory_type cap) m' pml4 pdpt [pd] [unat hpa div 2 ^ 21 \<mapsto> hpa]"
    "pages_intact [pml4, pdpt, pd] m m'"
    using single_2m_tables [OF h refl assms(1)] assms(2) by auto
  have hk: "unat hpa = unat hpa div 2 ^ 21 * 2 ^ 21"
    using False by (metis add_0_right div_mult_mod_eq)
  have "ept_translate m' pml4 gpa = (if hpa \<le> gpa \<and> unat gpa < unat hpa + 2 ^ 21 then Some gpa else None)"
    if "unat gpa < 2 ^ 48" for gpa
  proof -
    have same: "unat gpa div 2 ^ 21 = unat hpa div 2 ^ 21 \<longleftrightarrow> hpa \<le> gpa \<and> unat gpa < unat hpa + 2 ^ 21"
    proof
      assume "unat gpa div 2 ^ 21 = unat hpa div 2 ^ 21"
      then have "unat gpa = unat hpa + unat gpa mod 2 ^ 21" using hk by (metis div_mult_mod_eq)
      moreover have "unat gpa mod 2 ^ 21 < 2 ^ 21" by simp
      ultimately show "hpa \<le> gpa \<and> unat gpa < unat hpa + 2 ^ 21"
        unfolding word_le_nat_alt by linarith
    next
      assume "hpa \<le> gpa \<and> unat gpa < unat hpa + 2 ^ 21"
      then show "unat gpa div 2 ^ 21 = unat hpa div 2 ^ 21"
        using hk unfolding word_le_nat_alt by (intro div_nat_eqI) (simp_all add: algebra_simps)
    qed
    have "hpa OR (gpa AND mask 21) = gpa" if "unat gpa div 2 ^ 21 = unat hpa div 2 ^ 21"
    proof -
      have "hpa = of_nat (unat gpa div 2 ^ 21) * TWO_MIB"
        unfolding that two_mib_floor using h(1) split_low [of hpa 21] unfolding two_mib_mask(1) by simp
      then show ?thesis using ident_target [of gpa] by simp
    qed
    then show ?thesis
      unfolding ept_translate_def ept_enc.walk_tables [OF m'(2) that] same [symmetric] by simp
  qed
  moreover have "pml4_from_eptp (pack_eptp pml4 (eptp_memory_type cap)) = pml4"
    using pml4_pack assms(2) by simp
  ultimately show ?thesis using False m'(1,3) by simp
qed

theorem build_single_2m_identity_correct_witness:
  "\<exists>eptp m'. build_single_2m_identity 0 0x10400000 [0x1000, 0x2000, 0x3000] (\<lambda>_. 0xAA) = (Inr eptp, m') \<and>
     ept_translate m' (pml4_from_eptp eptp) 0x10403000 = Some 0x10403000 \<and>
     ept_translate m' (pml4_from_eptp eptp) 0x10600000 = None"
  using build_single_2m_identity_correct [of "0x1000" "0x2000" "0x3000" "0x10400000" 0 "\<lambda>_. 0xAA"]
  by (auto simp: page_aligned_def ept_hw_consts word_le_nat_alt)

text \<open>
  C23: The guest's own long-mode page tables map its physical window onto itself: the precise
  builder maps \<open>[0, 512 MiB)\<close> by identity and nothing else, as seen by a walk over present
  bits, and changes only its three frames.
\<close>

theorem write_guest_identity_precise_tables_correct:
  assumes "distinct [pml4, pdpt, pd]" "\<forall>f \<in> {pml4, pdpt, pd}. page_aligned f"
    and "write_guest_identity_precise_tables pml4 pdpt pd m = (cr3, m')"
  shows "cr3 = pml4 \<and> pages_intact [pml4, pdpt, pd] m m' \<and>
    (\<forall>va. unat va < 2 ^ 48 \<longrightarrow>
      radix_walk guest_pt_present m' cr3 va = (if va < PRECISE_BYTES then Some va else None))"
proof -
  have al: "page_aligned pml4" "page_aligned pdpt" "page_aligned pd" using assms(2) by auto
  note g = guest_precise_tables [OF assms(1) al assms(3)]
  have "radix_walk guest_pt_present m' pml4 va = (if va < PRECISE_BYTES then Some va else None)"
    if "unat va < 2 ^ 48" for va
    unfolding gpt_enc.walk_tables [OF g(2) that] ident_leaves_def
    using ident_target [of va] by (simp add: div_less_iff_less_mult word_less_nat_alt ept_hw_consts)
  with g show ?thesis by simp
qed

theorem write_guest_identity_precise_tables_correct_witness:
  "radix_walk guest_pt_present (snd (write_guest_identity_precise_tables 0x1000 0x2000 0x3000 (\<lambda>_. 0)))
     0x1000 0x1FFFFFFF = Some 0x1FFFFFFF"
proof -
  obtain cr3 m' where run: "write_guest_identity_precise_tables 0x1000 0x2000 0x3000 (\<lambda>_. 0) = (cr3, m')"
    by (rule prod.exhaust)
  have "distinct [0x1000, 0x2000, 0x3000 :: u64]" "\<forall>f \<in> {0x1000, 0x2000, 0x3000}. page_aligned f"
    by (simp_all add: page_aligned_def)
  from write_guest_identity_precise_tables_correct [OF this run] show ?thesis
    by (auto simp: run ept_hw_consts word_less_nat_alt)
qed

end
