(* ===== verification/Insertion_Sort.thy ===== *)
theory Insertion_Sort
  imports Main "HOL-Library.Multiset"
begin

text \<open>
  The in-place insertion sort that several modules write out over a fixed array: the inner
  loop \<open>sift_by\<close> moves element \<open>j\<close> left past larger keys by swaps, the outer loop runs it
  over a prefix of the array.  The lemmas give the sorted permutation of that prefix.
\<close>

fun sift_by :: "('a \<Rightarrow> 'k::linorder) \<Rightarrow> 'a list \<Rightarrow> nat \<Rightarrow> 'a list" where
  "sift_by key xs 0 = xs"
| "sift_by key xs (Suc j) =
    (if key (xs ! Suc j) < key (xs ! j) then sift_by key (xs[Suc j := xs ! j, j := xs ! Suc j]) j else xs)"

definition sort_prefix :: "('a \<Rightarrow> 'k::linorder) \<Rightarrow> nat \<Rightarrow> 'a list \<Rightarrow> 'a list" where
  "sort_prefix key n xs = fold (\<lambda>i xs. sift_by key xs i) [1..<n] xs"

lemma sift_by_inserts:
  "sorted (map key ys) \<Longrightarrow>
    \<exists>ws. sift_by key (ys @ x # zs) (length ys) = ws @ zs \<and> mset ws = mset (x # ys) \<and> sorted (map key ws)"
proof (induction ys arbitrary: zs rule: rev_induct)
  case (snoc y ys)
  let ?xs = "(ys @ [y]) @ x # zs"
  have at: "?xs ! Suc (length ys) = x" "?xs ! length ys = y" by (simp_all add: nth_append)
  show ?case
  proof (cases "key x < key y")
    case True
    have "?xs[Suc (length ys) := y, length ys := x] = ys @ x # y # zs" by (simp add: list_update_append)
    then have step: "sift_by key ?xs (length (ys @ [y])) = sift_by key (ys @ x # y # zs) (length ys)"
      using True at by simp
    from snoc obtain ws where ws: "sift_by key (ys @ x # y # zs) (length ys) = ws @ y # zs"
      "mset ws = mset (x # ys)" "sorted (map key ws)" by (auto simp: sorted_append)
    have "set ws = set (x # ys)" using ws(2) by (rule mset_eq_setD)
    then have "\<forall>w \<in> set ws. key w \<le> key y"
      using True snoc.prems by (auto simp: sorted_append)
    then have "sorted (map key (ws @ [y]))" using ws(3) by (auto simp: sorted_append)
    then show ?thesis using step ws(1,2) by (intro exI [of _ "ws @ [y]"]) simp
  next
    case False
    then have "sorted (map key (ys @ [y, x]))" using snoc.prems by (auto simp: sorted_append)
    then show ?thesis using False at by (intro exI [of _ "ys @ [y, x]"]) simp
  qed
qed simp

lemma sort_prefix_split:
  "n \<le> length xs \<Longrightarrow>
    \<exists>ws. sort_prefix key n xs = ws @ drop n xs \<and> mset ws = mset (take n xs) \<and> sorted (map key ws)"
proof (induction n)
  case (Suc n)
  show ?case
  proof (cases "n = 0")
    case True
    with Suc.prems show ?thesis by (cases xs) (auto simp: sort_prefix_def)
  next
    case False
    with Suc obtain ws where ws: "sort_prefix key n xs = ws @ drop n xs"
      "mset ws = mset (take n xs)" "sorted (map key ws)" by auto
    have len: "length ws = n" using mset_eq_length [OF ws(2)] Suc.prems by simp
    have dr: "drop n xs = xs ! n # drop (Suc n) xs" using Suc.prems by (simp add: Cons_nth_drop_Suc)
    from sift_by_inserts [OF ws(3), of "xs ! n" "drop (Suc n) xs"] obtain vs where
      vs: "sift_by key (ws @ xs ! n # drop (Suc n) xs) n = vs @ drop (Suc n) xs"
      "mset vs = mset (xs ! n # ws)" "sorted (map key vs)" unfolding len by blast
    then show ?thesis
      using False ws dr Suc.prems
      by (intro exI [of _ vs]) (simp add: take_Suc_conv_app_nth sort_prefix_def)
  qed
qed (simp add: sort_prefix_def)

lemma take_sort_prefix:
  assumes "n \<le> length xs"
  shows "mset (take n (sort_prefix key n xs)) = mset (take n xs)"
    and "sorted (map key (take n (sort_prefix key n xs)))"
proof -
  obtain ws where ws: "sort_prefix key n xs = ws @ drop n xs" "mset ws = mset (take n xs)" "sorted (map key ws)"
    using sort_prefix_split [OF assms] by blast
  then have "length ws = n" using mset_eq_length [OF ws(2)] assms by simp
  then show "mset (take n (sort_prefix key n xs)) = mset (take n xs)"
    "sorted (map key (take n (sort_prefix key n xs)))" using ws by simp_all
qed

end
