(* ===== verification/Ept_Ranges.thy ===== *)
theory Ept_Ranges
  imports Ept_Registry Ept_Hw Insertion_Sort
begin

text \<open>
  The identity-range registry of \<open>memory/ept.rs\<close>: \<open>EptRangeMap\<close> with
  \<open>claim_range\<close> and \<open>contains_gpa\<close>, and the claim of the precise window with holes for the
  private slabs of the shell guests.  A registry is read as a partial function from
  addresses to guests, \<open>range_owner\<close>; the claim with holes is shown to partition the window.
\<close>

definition RANGE_CAP :: nat where "RANGE_CAP = 16"
definition GUEST_RAM_BYTES :: u64 where "GUEST_RAM_BYTES = 256 * 1024 * 1024"

record EptRange =
  range_guest_id :: u64
  range_gpa :: u64
  range_len :: u64

record EptRangeMap =
  ranges :: "EptRange option list"
  ranges_len :: nat

definition range_map_new :: EptRangeMap where
  "range_map_new = \<lparr>ranges = replicate RANGE_CAP None, ranges_len = 0\<rparr>"

definition claim_range :: "EptRangeMap \<Rightarrow> u64 \<Rightarrow> u64 \<Rightarrow> u64 \<Rightarrow> (EptError + unit) \<times> EptRangeMap" where
  "claim_range rm guest_id gpa len =
    (if guest_id = 0 then (Inl InvalidGuest, rm)
     else if len = 0 \<or> gpa AND 0xfff \<noteq> 0 \<or> len AND 0xfff \<noteq> 0 then (Inl Invariant, rm)
     else case checked_add gpa len of
       None \<Rightarrow> (Inl Invariant, rm)
     | Some fin \<Rightarrow>
         if list_ex (\<lambda>r. gpa < range_gpa r + range_len r \<and> range_gpa r < fin) (slot_entries (ranges rm))
         then (Inl AlreadyOwned, rm)
         else case find_index (\<lambda>slot. slot = None) (ranges rm) of
           Some i \<Rightarrow>
             (Inr (), rm\<lparr>ranges := (ranges rm)
                [i := Some \<lparr>range_guest_id = guest_id, range_gpa = gpa, range_len = len\<rparr>],
                ranges_len := ranges_len rm + 1\<rparr>)
         | None \<Rightarrow> (Inl Full, rm))"

definition contains_gpa :: "EptRangeMap \<Rightarrow> u64 \<Rightarrow> u64 \<Rightarrow> bool" where
  "contains_gpa rm guest_id gpa =
    list_ex (\<lambda>r. range_guest_id r = guest_id \<and> gpa \<ge> range_gpa r \<and> gpa < range_gpa r + range_len r)
      (slot_entries (ranges rm))"

text \<open>The two statics of the module: the durable registry and its success latch.\<close>

record precise_state =
  precise_ranges :: EptRangeMap
  precise_ranges_ok :: bool

text \<open>The insertion sort of the hole list, in an array of eight.\<close>

definition order_holes :: "(u64 \<times> u64 \<times> u64) list \<Rightarrow> (u64 \<times> u64 \<times> u64) list" where
  "order_holes holes =
    (let ordered = holes @ replicate (8 - length holes) (0, 0, 0) in
     take (length holes) (sort_prefix fst (length holes) ordered))"

fun claim_holes ::
  "(u64 \<times> u64 \<times> u64) list \<Rightarrow> u64 \<Rightarrow> EptRangeMap \<Rightarrow> (EptError + u64) \<times> EptRangeMap" where
  "claim_holes [] cursor rm = (Inr cursor, rm)"
| "claim_holes ((hpa, len, gid) # hs) cursor rm =
    (if len = 0 \<or> hpa AND 0xfff \<noteq> 0 \<or> len AND 0xfff \<noteq> 0 then (Inl Invariant, rm)
     else if gid = 0 \<or> gid = M2_BRINGUP_GUEST_ID then (Inl InvalidGuest, rm)
     else case checked_add hpa len of
       None \<Rightarrow> (Inl Invariant, rm)
     | Some fin \<Rightarrow>
         if fin > PRECISE_BYTES \<or> hpa < cursor then (Inl Invariant, rm)
         else if hpa < GUEST_RAM_BYTES then (Inl Invariant, rm)
         else case (if hpa > cursor then claim_range rm M2_BRINGUP_GUEST_ID cursor (hpa - cursor)
                    else (Inr (), rm)) of
           (Inl e, rm1) \<Rightarrow> (Inl e, rm1)
         | (Inr _, rm1) \<Rightarrow>
             (case claim_range rm1 gid hpa len of
                (Inl e, rm2) \<Rightarrow> (Inl e, rm2)
              | (Inr _, rm2) \<Rightarrow> claim_holes hs fin rm2))"

definition claim_precise_with_shell_holes ::
  "(u64 \<times> u64 \<times> u64) list \<Rightarrow> precise_state \<Rightarrow> (EptError + unit) \<times> precise_state" where
  "claim_precise_with_shell_holes holes st =
    (let rm0 = range_map_new; n = length holes in
     if n > 8 then (Inl Full, st\<lparr>precise_ranges := rm0\<rparr>)
     else let ordered = order_holes holes in
     if GUEST_RAM_BYTES > PRECISE_BYTES then (Inl Invariant, st\<lparr>precise_ranges := rm0\<rparr>)
     else case claim_holes ordered 0 rm0 of
       (Inl e, rm) \<Rightarrow> (Inl e, st\<lparr>precise_ranges := rm\<rparr>)
     | (Inr cursor, rm) \<Rightarrow>
         (case (if cursor < PRECISE_BYTES
                then claim_range rm M2_BRINGUP_GUEST_ID cursor (PRECISE_BYTES - cursor)
                else if n = 0 then claim_range rm M2_BRINGUP_GUEST_ID 0 PRECISE_BYTES
                else (Inr (), rm)) of
            (Inl e, rm1) \<Rightarrow> (Inl e, st\<lparr>precise_ranges := rm1\<rparr>)
          | (Inr _, rm1) \<Rightarrow>
              if \<not> contains_gpa rm1 M2_BRINGUP_GUEST_ID 0 \<or>
                 \<not> contains_gpa rm1 M2_BRINGUP_GUEST_ID (GUEST_RAM_BYTES - 0x1000)
              then (Inl Invariant, st\<lparr>precise_ranges := rm1\<rparr>)
              else if list_ex (\<lambda>(hpa, _, gid). \<not> contains_gpa rm1 gid hpa \<or>
                     contains_gpa rm1 M2_BRINGUP_GUEST_ID hpa) ordered
              then (Inl Invariant, st\<lparr>precise_ranges := rm1\<rparr>)
              else if PRECISE_BYTES > DEFAULT_APIC_PHYS then (Inl Invariant, st\<lparr>precise_ranges := rm1\<rparr>)
              else if PRECISE_BYTES \<ge> push_bit 30 1 then (Inl Invariant, st\<lparr>precise_ranges := rm1\<rparr>)
              else (Inr (), st\<lparr>precise_ranges := rm1, precise_ranges_ok := True\<rparr>)))"

definition claim_precise_with_guest1_hole ::
  "u64 \<Rightarrow> u64 \<Rightarrow> precise_state \<Rightarrow> (EptError + unit) \<times> precise_state" where
  "claim_precise_with_guest1_hole g1_hpa g1_len st =
    (if g1_len = 0 then claim_precise_with_shell_holes [] st
     else claim_precise_with_shell_holes [(g1_hpa, g1_len, M4_GUEST1_ID)] st)"

definition claim_precise_identity_ranges :: "precise_state \<Rightarrow> (EptError + unit) \<times> precise_state" where
  "claim_precise_identity_ranges st = claim_precise_with_guest1_hole 0 0 st"

section \<open>The registry as a partial function\<close>

abbreviation range_entries :: "EptRangeMap \<Rightarrow> EptRange list" where
  "range_entries rm \<equiv> slot_entries (ranges rm)"

definition range_covers :: "EptRange \<Rightarrow> u64 \<Rightarrow> bool" where
  "range_covers r a \<longleftrightarrow> unat (range_gpa r) \<le> unat a \<and> unat a < unat (range_gpa r) + unat (range_len r)"

definition range_valid :: "EptRange \<Rightarrow> bool" where
  "range_valid r \<longleftrightarrow> range_guest_id r \<noteq> 0 \<and> range_len r \<noteq> 0 \<and> page_aligned (range_gpa r) \<and>
     page_aligned (range_len r) \<and> unat (range_gpa r) + unat (range_len r) < 2 ^ 64"

definition ranges_apart :: "EptRange \<Rightarrow> EptRange \<Rightarrow> bool" where
  "ranges_apart r s \<longleftrightarrow> unat (range_gpa r) + unat (range_len r) \<le> unat (range_gpa s) \<or>
     unat (range_gpa s) + unat (range_len s) \<le> unat (range_gpa r)"

definition range_inv :: "EptRangeMap \<Rightarrow> bool" where
  "range_inv rm \<longleftrightarrow> length (ranges rm) = RANGE_CAP \<and> ranges_len rm = length (range_entries rm) \<and>
     (\<forall>r \<in> set (range_entries rm). range_valid r) \<and> sorted_wrt ranges_apart (range_entries rm)"

definition range_owner :: "EptRangeMap \<Rightarrow> u64 \<Rightarrow> u64 option" where
  "range_owner rm a = map_option range_guest_id (find (\<lambda>r. range_covers r a) (range_entries rm))"

lemma range_map_new_inv: "range_inv range_map_new" "range_owner range_map_new a = None"
  by (simp_all add: range_map_new_def range_inv_def range_owner_def)

lemma ranges_apart_sym: "ranges_apart r s \<Longrightarrow> ranges_apart s r"
  by (auto simp: ranges_apart_def)

lemma ranges_apart_covers: "ranges_apart r s \<Longrightarrow> range_covers r a \<Longrightarrow> \<not> range_covers s a"
  by (auto simp: ranges_apart_def range_covers_def)

lemma unat_range_end:
  "range_valid r \<Longrightarrow> unat (range_gpa r + range_len r) = unat (range_gpa r) + unat (range_len r)"
  by (simp add: range_valid_def unat_add_small)

lemma contains_range_covers:
  "range_valid r \<Longrightarrow> a \<ge> range_gpa r \<and> a < range_gpa r + range_len r \<longleftrightarrow> range_covers r a"
  by (simp add: range_covers_def word_le_nat_alt word_less_nat_alt unat_range_end)

lemma overlap_iff_not_apart:
  assumes "range_valid r" "range_valid s"
  shows "range_gpa s < range_gpa r + range_len r \<and> range_gpa r < range_gpa s + range_len s \<longleftrightarrow>
    \<not> ranges_apart r s"
  using assms by (auto simp: ranges_apart_def word_less_nat_alt unat_range_end)

lemma not_apart_meets:
  assumes "range_valid r" "range_valid s" "\<not> ranges_apart r s"
  shows "\<exists>a. range_covers r a \<and> range_covers s a"
proof (cases "unat (range_gpa r) \<le> unat (range_gpa s)")
  case True
  with assms have "range_covers r (range_gpa s)" "range_covers s (range_gpa s)"
    by (auto simp: ranges_apart_def range_covers_def range_valid_def unat_gt_0)
  then show ?thesis by blast
next
  case False
  with assms have "range_covers r (range_gpa r)" "range_covers s (range_gpa r)"
    by (auto simp: ranges_apart_def range_covers_def range_valid_def unat_gt_0)
  then show ?thesis by blast
qed

text \<open>In a list of disjoint ranges an address has at most one covering range.\<close>

lemma sorted_wrt_apart_unique:
  "sorted_wrt ranges_apart rs \<Longrightarrow> r \<in> set rs \<Longrightarrow> s \<in> set rs \<Longrightarrow> range_covers r a \<Longrightarrow> range_covers s a \<Longrightarrow> r = s"
  by (induction rs) (auto dest: ranges_apart_covers)

lemma find_covers_iff:
  assumes "sorted_wrt ranges_apart rs"
  shows "find (\<lambda>r. range_covers r a) rs = Some r \<longleftrightarrow> r \<in> set rs \<and> range_covers r a"
proof
  assume "find (\<lambda>r. range_covers r a) rs = Some r"
  then show "r \<in> set rs \<and> range_covers r a" by (auto simp: find_Some_iff)
next
  assume r: "r \<in> set rs \<and> range_covers r a"
  then obtain s where s: "find (\<lambda>r. range_covers r a) rs = Some s"
    by (cases "find (\<lambda>r. range_covers r a) rs") (auto simp: find_None_iff)
  then have "s \<in> set rs" "range_covers s a" by (auto simp: find_Some_iff)
  with r assms s show "find (\<lambda>r. range_covers r a) rs = Some r"
    using sorted_wrt_apart_unique by blast
qed

lemma range_owner_iff:
  assumes "range_inv rm"
  shows "range_owner rm a = Some g \<longleftrightarrow> (\<exists>r \<in> set (range_entries rm). range_covers r a \<and> range_guest_id r = g)"
  using assms unfolding range_owner_def range_inv_def by (auto simp: find_covers_iff)

lemma contains_gpa_owner: "range_inv rm \<Longrightarrow> contains_gpa rm g a \<longleftrightarrow> range_owner rm a = Some g"
  by (auto simp: contains_gpa_def list_ex_iff range_owner_iff range_inv_def contains_range_covers)

section \<open>Claiming one range\<close>

lemma claim_range_new:
  assumes inv: "range_inv rm" and r: "r = \<lparr>range_guest_id = g, range_gpa = p, range_len = l\<rparr>" "range_valid r"
    and free: "\<forall>s \<in> set (range_entries rm). ranges_apart s r" and room: "ranges_len rm < RANGE_CAP"
  shows "\<exists>rm'. claim_range rm g p l = (Inr (), rm') \<and> range_inv rm' \<and> ranges_len rm' = ranges_len rm + 1 \<and>
    (\<forall>a. range_owner rm' a = (if range_covers r a then Some g else range_owner rm a))"
proof -
  have len: "length (ranges rm) = RANGE_CAP" "ranges_len rm = length (range_entries rm)" using inv by (auto simp: range_inv_def)
  then obtain i where i: "find_index (\<lambda>slot. slot = None) (ranges rm) = Some i"
    using room find_free_slot_None [of "ranges rm"] by fastforce
  then have il: "i < length (ranges rm)" "ranges rm ! i = None" using find_index_SomeD by fastforce+
  define pre where "pre = slot_entries (take i (ranges rm))"
  define post where "post = slot_entries (drop (Suc i) (ranges rm))"
  define rm' where "rm' = rm\<lparr>ranges := (ranges rm)[i := Some r], ranges_len := ranges_len rm + 1\<rparr>"
  have ent: "range_entries rm = pre @ post" "range_entries rm' = pre @ r # post"
    using slot_entries_split [OF il(1)] slot_entries_update [OF il(1), of "Some r"] il(2)
    by (simp_all add: rm'_def pre_def post_def)
  have no: "\<not> list_ex (\<lambda>s. p < range_gpa s + range_len s \<and> range_gpa s < p + l) (range_entries rm)"
    using free inv r overlap_iff_not_apart [of _ r] unfolding list_ex_iff range_inv_def by fastforce
  have "claim_range rm g p l = (Inr (), rm')"
    using r no i
    by (simp add: claim_range_def range_valid_def page_aligned_def checked_add_def rm'_def)
  moreover have inv': "range_inv rm'"
    using inv len r(2) free il ranges_apart_sym unfolding range_inv_def ent
    by (auto simp: rm'_def sorted_wrt_append ent)
  moreover have "range_owner rm' a = (if range_covers r a then Some g else range_owner rm a)" for a
  proof (cases "range_covers r a")
    case True
    then show ?thesis using range_owner_iff [OF inv', of a g] r(1) by (auto simp: ent)
  next
    case False
    then have "range_owner rm' a = Some h \<longleftrightarrow> range_owner rm a = Some h" for h
      by (auto simp: range_owner_iff [OF inv'] range_owner_iff [OF inv] ent)
    with False show ?thesis by (metis not_None_eq)
  qed
  ultimately show ?thesis using r(1) by (auto simp: rm'_def)
qed

lemma claim_range_full:
  assumes "range_inv rm" "ranges_len rm = RANGE_CAP" "g \<noteq> 0"
    and r: "r = \<lparr>range_guest_id = g, range_gpa = p, range_len = l\<rparr>" "range_valid r"
    and free: "\<forall>s \<in> set (range_entries rm). ranges_apart s r"
  shows "claim_range rm g p l = (Inl Full, rm)"
proof -
  have "\<not> list_ex (\<lambda>s. p < range_gpa s + range_len s \<and> range_gpa s < p + l) (range_entries rm)"
    using free assms(1) r overlap_iff_not_apart [of _ r] unfolding list_ex_iff range_inv_def by fastforce
  moreover have "find_index (\<lambda>slot. slot = None) (ranges rm) = None"
    using assms(1,2) by (simp add: find_free_slot_None range_inv_def)
  ultimately show ?thesis
    using assms(3) r by (simp add: claim_range_def range_valid_def page_aligned_def checked_add_def)
qed

lemma claim_range_taken:
  assumes "range_inv rm" and r: "r = \<lparr>range_guest_id = g, range_gpa = p, range_len = l\<rparr>" "range_valid r"
    and "\<not> (\<forall>s \<in> set (range_entries rm). ranges_apart s r)"
  shows "claim_range rm g p l = (Inl AlreadyOwned, rm)"
proof -
  have "list_ex (\<lambda>s. p < range_gpa s + range_len s \<and> range_gpa s < p + l) (range_entries rm)"
    using assms overlap_iff_not_apart [of _ r] unfolding list_ex_iff range_inv_def by fastforce
  then show ?thesis
    using r by (simp add: claim_range_def range_valid_def page_aligned_def checked_add_def)
qed

lemma apart_iff_unowned:
  assumes "range_inv rm" "range_valid r"
  shows "(\<forall>s \<in> set (range_entries rm). ranges_apart s r) \<longleftrightarrow> (\<forall>a. range_covers r a \<longrightarrow> range_owner rm a = None)"
proof
  assume apart: "\<forall>s \<in> set (range_entries rm). ranges_apart s r"
  show "\<forall>a. range_covers r a \<longrightarrow> range_owner rm a = None"
  proof (intro allI impI)
    fix a assume "range_covers r a"
    with apart have "range_owner rm a \<noteq> Some g" for g
      unfolding range_owner_iff [OF assms(1)] using ranges_apart_covers ranges_apart_sym by blast
    then show "range_owner rm a = None" by (metis not_None_eq)
  qed
next
  assume un: "\<forall>a. range_covers r a \<longrightarrow> range_owner rm a = None"
  show "\<forall>s \<in> set (range_entries rm). ranges_apart s r"
  proof (rule ballI, rule ccontr)
    fix s assume s: "s \<in> set (range_entries rm)" "\<not> ranges_apart s r"
    then obtain a where "range_covers s a" "range_covers r a"
      using not_apart_meets assms unfolding range_inv_def by blast
    with s un range_owner_iff [OF assms(1), of a "range_guest_id s"] show False by auto
  qed
qed

section \<open>Ordering the holes\<close>

lemma order_holes_sorts:
  shows "mset (order_holes holes) = mset holes" and "sorted (map fst (order_holes holes))"
  using take_sort_prefix [of "length holes" "holes @ replicate (8 - length holes) (0, 0, 0)" fst]
  by (simp_all add: order_holes_def)

section \<open>Claiming around the holes\<close>

definition hole_valid :: "u64 \<times> u64 \<times> u64 \<Rightarrow> bool" where
  "hole_valid x = (case x of (h, l, g) \<Rightarrow>
     l \<noteq> 0 \<and> page_aligned h \<and> page_aligned l \<and> g \<noteq> 0 \<and> g \<noteq> M2_BRINGUP_GUEST_ID \<and>
     unat GUEST_RAM_BYTES \<le> unat h \<and> unat h + unat l \<le> unat PRECISE_BYTES)"

definition in_hole :: "u64 \<times> u64 \<times> u64 \<Rightarrow> u64 \<Rightarrow> bool" where
  "in_hole x a = (case x of (h, l, g) \<Rightarrow> unat h \<le> unat a \<and> unat a < unat h + unat l)"

definition holes_apart :: "u64 \<times> u64 \<times> u64 \<Rightarrow> u64 \<times> u64 \<times> u64 \<Rightarrow> bool" where
  "holes_apart x y = (case (x, y) of ((h, l, _), (h', l', _)) \<Rightarrow>
     unat h + unat l \<le> unat h' \<or> unat h' + unat l' \<le> unat h)"

definition holes_ok :: "(u64 \<times> u64 \<times> u64) list \<Rightarrow> bool" where
  "holes_ok hs \<longleftrightarrow> (\<forall>x \<in> set hs. hole_valid x) \<and> sorted_wrt holes_apart hs"

fun ordered_ok :: "nat \<Rightarrow> (u64 \<times> u64 \<times> u64) list \<Rightarrow> bool" where
  "ordered_ok c [] = True"
| "ordered_ok c ((h, l, g) # hs) \<longleftrightarrow> hole_valid (h, l, g) \<and> c \<le> unat h \<and> ordered_ok (unat h + unat l) hs"

lemma precise_nat: "unat PRECISE_BYTES = 536870912" "unat GUEST_RAM_BYTES = 268435456"
  by (simp_all add: ept_hw_consts GUEST_RAM_BYTES_def)

lemma ordered_ok_iff:
  "sorted (map fst hs) \<Longrightarrow>
    ordered_ok c hs \<longleftrightarrow> (\<forall>x \<in> set hs. hole_valid x \<and> c \<le> unat (fst x)) \<and> sorted_wrt holes_apart hs"
proof (induction hs arbitrary: c)
  case (Cons x hs)
  obtain h l g where x: "x = (h, l, g)" by (cases x)
  have "holes_apart x y \<longleftrightarrow> unat h + unat l \<le> unat (fst y)" if "y \<in> set hs" "hole_valid y" "hole_valid x" for y
  proof -
    have "unat h \<le> unat (fst y)" using Cons.prems that(1) by (auto simp: x word_le_nat_alt)
    moreover have "0 < unat (fst (snd y))" using that(2) by (auto simp: hole_valid_def unat_gt_0)
    ultimately show ?thesis by (auto simp: holes_apart_def x split: prod.splits)
  qed
  moreover have "unat h \<le> unat (fst y)" if "y \<in> set hs" for y
    using Cons.prems that by (auto simp: x word_le_nat_alt)
  ultimately show ?case using Cons by (auto simp: x)
qed simp

lemma page_aligned_diff: "page_aligned a \<Longrightarrow> page_aligned b \<Longrightarrow> b \<le> a \<Longrightarrow> page_aligned (a - b)"
  by (simp add: page_aligned_nat unat_sub_le word_le_nat_alt mod_eq_0_iff_dvd dvd_diff_nat)

lemma page_aligned_sum:
  "page_aligned a \<Longrightarrow> page_aligned b \<Longrightarrow> unat a + unat b < 2 ^ 64 \<Longrightarrow> page_aligned (a + b)"
  by (simp add: page_aligned_nat unat_add_small mod_eq_0_iff_dvd)

text \<open>One claim above everything already owned.\<close>

lemma claim_above:
  assumes inv: "range_inv rm" and clear: "\<forall>a. unat c \<le> unat a \<longrightarrow> range_owner rm a = None"
    and arg: "g \<noteq> 0" "page_aligned p" "page_aligned l" "l \<noteq> 0" "unat c \<le> unat p" "unat p + unat l < 2 ^ 64"
    and room: "ranges_len rm < RANGE_CAP"
  shows "\<exists>rm'. claim_range rm g p l = (Inr (), rm') \<and> range_inv rm' \<and> ranges_len rm' = ranges_len rm + 1 \<and>
    (\<forall>a. range_owner rm' a = (if unat p \<le> unat a \<and> unat a < unat p + unat l then Some g else range_owner rm a))"
proof -
  let ?r = "\<lparr>range_guest_id = g, range_gpa = p, range_len = l\<rparr>"
  have v: "range_valid ?r" using arg by (simp add: range_valid_def)
  then have "\<forall>s \<in> set (range_entries rm). ranges_apart s ?r"
    using apart_iff_unowned [OF inv v] clear arg(5) by (simp add: range_covers_def)
  from claim_range_new [OF inv refl v this room] show ?thesis by (simp add: range_covers_def)
qed

lemma claim_holes_bad:
  assumes "\<not> (hole_valid (h, l, g) \<and> unat c \<le> unat h)"
  shows "\<exists>e. claim_holes ((h, l, g) # hs) c rm = (Inl e, rm)"
proof (cases "l = 0 \<or> h AND 0xfff \<noteq> 0 \<or> l AND 0xfff \<noteq> 0 \<or> g = 0 \<or> g = M2_BRINGUP_GUEST_ID")
  case False
  then have "\<not> (unat h + unat l \<le> unat PRECISE_BYTES \<and> unat GUEST_RAM_BYTES \<le> unat h \<and> unat c \<le> unat h)"
    using assms by (auto simp: hole_valid_def page_aligned_def)
  note out = this
  show ?thesis
  proof (cases "unat h + unat l < 2 ^ 64")
    case True
    then have "h + l > PRECISE_BYTES \<or> h < c \<or> h < GUEST_RAM_BYTES"
      using out unfolding word_less_nat_alt
      by (auto simp: unat_add_small)
    then show ?thesis using False True by (auto simp: checked_add_def)
  next
    case over: False
    then show ?thesis using False by (auto simp: checked_add_def)
  qed
qed auto

lemma claim_holes_step:
  assumes inv: "range_inv rm" and clear: "\<forall>a. unat c \<le> unat a \<longrightarrow> range_owner rm a = None"
    and x: "hole_valid (h, l, g)" "unat c \<le> unat h" and c: "page_aligned c"
    and room: "ranges_len rm + 2 \<le> RANGE_CAP"
  shows "\<exists>rm2. claim_holes ((h, l, g) # hs) c rm = claim_holes hs (h + l) rm2 \<and> range_inv rm2 \<and>
    ranges_len rm2 \<le> ranges_len rm + 2 \<and>
    (\<forall>a. range_owner rm2 a = (if unat h \<le> unat a \<and> unat a < unat h + unat l then Some g
       else if unat c \<le> unat a \<and> unat a < unat h then Some M2_BRINGUP_GUEST_ID else range_owner rm a))"
proof -
  have v: "l \<noteq> 0" "page_aligned h" "page_aligned l" "g \<noteq> 0" "g \<noteq> M2_BRINGUP_GUEST_ID"
    "unat GUEST_RAM_BYTES \<le> unat h" "unat h + unat l \<le> unat PRECISE_BYTES"
    using x(1) by (auto simp: hole_valid_def)
  have sum: "unat h + unat l < 2 ^ 64" using v(7) by (simp add: precise_nat)
  define gap where "gap = (if h > c then claim_range rm M2_BRINGUP_GUEST_ID c (h - c) else (Inr (), rm))"
  have "\<exists>rm1. gap = (Inr (), rm1) \<and> range_inv rm1 \<and> ranges_len rm1 \<le> ranges_len rm + 1 \<and>
    (\<forall>a. range_owner rm1 a = (if unat c \<le> unat a \<and> unat a < unat h then Some M2_BRINGUP_GUEST_ID
      else range_owner rm a))"
  proof (cases "h > c")
    case True
    have d: "unat (h - c) = unat h - unat c" using x(2) by (simp add: unat_sub_le word_le_nat_alt)
    have arg: "M2_BRINGUP_GUEST_ID \<noteq> 0" "page_aligned (h - c)" "h - c \<noteq> 0" "unat c + unat (h - c) < 2 ^ 64"
      "ranges_len rm < RANGE_CAP"
      using True x(2) c v(2) room sum unfolding d
      by (auto simp: M2_BRINGUP_GUEST_ID_def page_aligned_diff word_le_nat_alt)
    have "unat c + (unat h - unat c) = unat h" using x(2) by simp
    then show ?thesis
      using claim_above [OF inv clear arg(1) c arg(2,3) order_refl arg(4,5)] True
      unfolding d gap_def by auto
  next
    case False
    then have "h = c" using x(2) by (simp add: word_le_nat_alt not_less word_unat_eq_iff)
    then show ?thesis using inv by (auto simp: gap_def)
  qed
  then obtain rm1 where rm1: "gap = (Inr (), rm1)" "range_inv rm1" "ranges_len rm1 \<le> ranges_len rm + 1"
    "\<And>a. range_owner rm1 a = (if unat c \<le> unat a \<and> unat a < unat h then Some M2_BRINGUP_GUEST_ID
      else range_owner rm a)" by blast
  have "\<forall>a. unat h \<le> unat a \<longrightarrow> range_owner rm1 a = None" using rm1(4) clear x(2) by simp
  from claim_above [OF rm1(2) this, of g h l] obtain rm2 where
    rm2: "claim_range rm1 g h l = (Inr (), rm2)" "range_inv rm2" "ranges_len rm2 = ranges_len rm1 + 1"
    "\<And>a. range_owner rm2 a = (if unat h \<le> unat a \<and> unat a < unat h + unat l then Some g else range_owner rm1 a)"
    using v sum rm1(3) room by auto
  have "checked_add h l = Some (h + l)" using sum by (simp add: checked_add_def)
  moreover have "\<not> h + l > PRECISE_BYTES" "\<not> h < c" "\<not> h < GUEST_RAM_BYTES"
    using v(6,7) x(2) sum by (simp_all add: word_less_nat_alt unat_add_small)
  ultimately have "claim_holes ((h, l, g) # hs) c rm = claim_holes hs (h + l) rm2"
    using v rm1(1) rm2(1) by (simp add: page_aligned_def gap_def)
  then show ?thesis using rm1 rm2 by auto
qed

lemma claim_holes_ok:
  "\<lbrakk>ordered_ok (unat c) hs; range_inv rm; \<forall>a. unat c \<le> unat a \<longrightarrow> range_owner rm a = None; page_aligned c;
    unat c \<le> unat PRECISE_BYTES; ranges_len rm + 2 * length hs \<le> RANGE_CAP\<rbrakk> \<Longrightarrow>
   \<exists>c' rm'. claim_holes hs c rm = (Inr c', rm') \<and> range_inv rm' \<and> page_aligned c' \<and> unat c \<le> unat c' \<and>
     unat c' \<le> unat PRECISE_BYTES \<and> ranges_len rm' \<le> ranges_len rm + 2 * length hs \<and>
     (\<forall>x \<in> set hs. unat (fst x) \<ge> unat c \<and> unat (fst x) + unat (fst (snd x)) \<le> unat c') \<and>
     (\<forall>a g. range_owner rm' a = Some g \<longleftrightarrow> range_owner rm a = Some g \<or>
       unat c \<le> unat a \<and> unat a < unat c' \<and>
       ((\<exists>x \<in> set hs. in_hole x a \<and> snd (snd x) = g) \<or>
        g = M2_BRINGUP_GUEST_ID \<and> \<not> (\<exists>x \<in> set hs. in_hole x a)))"
proof (induction hs arbitrary: c rm)
  case Nil
  then show ?case by auto
next
  case (Cons x hs)
  obtain h l g where x: "x = (h, l, g)" by (cases x)
  have v: "hole_valid (h, l, g)" "unat c \<le> unat h" "ordered_ok (unat h + unat l) hs"
    using Cons.prems(1) by (simp_all add: x)
  have sum: "unat h + unat l \<le> unat PRECISE_BYTES" using v(1) by (simp add: hole_valid_def)
  then have un: "unat (h + l) = unat h + unat l" by (intro unat_add_small) (simp add: precise_nat)
  from claim_holes_step [OF Cons.prems(2,3) v(1,2) Cons.prems(4), of hs] Cons.prems(6) obtain rm2 where
    rm2: "claim_holes (x # hs) c rm = claim_holes hs (h + l) rm2" "range_inv rm2"
    "ranges_len rm2 \<le> ranges_len rm + 2"
    and own2: "\<And>a. range_owner rm2 a = (if unat h \<le> unat a \<and> unat a < unat h + unat l then Some g
       else if unat c \<le> unat a \<and> unat a < unat h then Some M2_BRINGUP_GUEST_ID else range_owner rm a)"
    by (auto simp: x)
  have "\<forall>a. unat (h + l) \<le> unat a \<longrightarrow> range_owner rm2 a = None"
    using own2 Cons.prems(3) v(2) by (simp add: un)
  moreover have "page_aligned (h + l)"
    using v(1) sum by (intro page_aligned_sum) (auto simp: hole_valid_def precise_nat)
  ultimately obtain c' rm' where r: "claim_holes hs (h + l) rm2 = (Inr c', rm')" "range_inv rm'" "page_aligned c'"
    "unat (h + l) \<le> unat c'" "unat c' \<le> unat PRECISE_BYTES" "ranges_len rm' \<le> ranges_len rm2 + 2 * length hs"
    and ends: "\<forall>x \<in> set hs. unat (fst x) \<ge> unat (h + l) \<and> unat (fst x) + unat (fst (snd x)) \<le> unat c'"
    and own: "\<And>a g. range_owner rm' a = Some g \<longleftrightarrow> range_owner rm2 a = Some g \<or>
       unat (h + l) \<le> unat a \<and> unat a < unat c' \<and>
       ((\<exists>x \<in> set hs. in_hole x a \<and> snd (snd x) = g) \<or>
        g = M2_BRINGUP_GUEST_ID \<and> \<not> (\<exists>x \<in> set hs. in_hole x a))"
    using Cons.IH [of "h + l" rm2] v(3) rm2 sum Cons.prems(6) un by auto
  have later: "\<not> in_hole y a" if "y \<in> set hs" "unat a < unat h + unat l" for y a
    using ends that by (force simp: in_hole_def un split: prod.splits)
  have "range_owner rm' a = Some q \<longleftrightarrow> range_owner rm a = Some q \<or>
       unat c \<le> unat a \<and> unat a < unat c' \<and>
       ((\<exists>y \<in> set (x # hs). in_hole y a \<and> snd (snd y) = q) \<or>
        q = M2_BRINGUP_GUEST_ID \<and> \<not> (\<exists>y \<in> set (x # hs). in_hole y a))" for a q
  proof -
    have here: "in_hole x a \<longleftrightarrow> unat h \<le> unat a \<and> unat a < unat h + unat l" by (simp add: x in_hole_def)
    consider "unat a < unat c" | "unat c \<le> unat a" "unat a < unat h" | "in_hole x a" | "unat h + unat l \<le> unat a"
      using here by linarith
    then show ?thesis
    proof cases
      case 1
      then show ?thesis using own [of a q] own2 [of a] v(2) by (simp add: un)
    next
      case 2
      have "range_owner rm a = None" using Cons.prems(3) 2 by blast
      moreover have "\<not> (\<exists>y \<in> set (x # hs). in_hole y a)" using 2 here later [of _ a] by auto
      moreover have "unat a < unat c'" using 2 r(4) un by linarith
      ultimately show ?thesis using own [of a q] own2 [of a] 2 by (auto simp: un)
    next
      case 3
      have "range_owner rm a = None" using Cons.prems(3) 3 here v(2) by auto
      moreover have "\<not> (\<exists>y \<in> set hs. in_hole y a)" using 3 here later [of _ a] by auto
      moreover have "unat a < unat c'" using 3 here r(4) un by linarith
      ultimately show ?thesis using own [of a q] own2 [of a] 3 here v(2) by (auto simp: un x)
    next
      case 4
      have "range_owner rm a = None" using Cons.prems(3) 4 v(2) by auto
      then show ?thesis using own [of a q] own2 [of a] 4 here v(2) by (auto simp: un)
    qed
  qed
  moreover have "\<forall>y \<in> set (x # hs). unat (fst y) \<ge> unat c \<and> unat (fst y) + unat (fst (snd y)) \<le> unat c'"
    using ends v(2) r(4) un by (auto simp: x)
  ultimately show ?case
    using rm2 r un v(2) by (intro exI [of _ c'] exI [of _ rm']) auto
qed

lemma claim_holes_err:
  "\<lbrakk>\<not> ordered_ok (unat c) hs; range_inv rm; \<forall>a. unat c \<le> unat a \<longrightarrow> range_owner rm a = None; page_aligned c;
    ranges_len rm + 2 * length hs \<le> RANGE_CAP\<rbrakk> \<Longrightarrow> \<exists>e rm'. claim_holes hs c rm = (Inl e, rm')"
proof (induction hs arbitrary: c rm)
  case (Cons x hs)
  obtain h l g where x: "x = (h, l, g)" by (cases x)
  show ?case
  proof (cases "hole_valid (h, l, g) \<and> unat c \<le> unat h")
    case True
    then have sum: "unat h + unat l \<le> unat PRECISE_BYTES" by (simp add: hole_valid_def)
    then have un: "unat (h + l) = unat h + unat l" by (intro unat_add_small) (simp add: precise_nat)
    from claim_holes_step [OF Cons.prems(2,3) _ _ Cons.prems(4), of h l g hs] True Cons.prems(5) obtain rm2 where
      rm2: "claim_holes (x # hs) c rm = claim_holes hs (h + l) rm2" "range_inv rm2"
      "ranges_len rm2 \<le> ranges_len rm + 2"
      and own2: "\<And>a. range_owner rm2 a = (if unat h \<le> unat a \<and> unat a < unat h + unat l then Some g
         else if unat c \<le> unat a \<and> unat a < unat h then Some M2_BRINGUP_GUEST_ID else range_owner rm a)"
      by (auto simp: x)
    have "\<forall>a. unat (h + l) \<le> unat a \<longrightarrow> range_owner rm2 a = None"
      using own2 Cons.prems(3) True by (simp add: un)
    moreover have "page_aligned (h + l)"
      using True sum by (intro page_aligned_sum) (auto simp: hole_valid_def precise_nat)
    ultimately show ?thesis
      using Cons.IH [of "h + l" rm2] Cons.prems(1,5) True rm2 un by (simp add: x)
  next
    case False
    then show ?thesis using claim_holes_bad [OF False, of hs rm] by (auto simp: x simp del: claim_holes.simps)
  qed
qed simp

lemma sorted_wrt_sym_mset:
  assumes sym: "\<And>x y. R x y \<Longrightarrow> R y x"
  shows "mset xs = mset ys \<Longrightarrow> sorted_wrt R xs \<Longrightarrow> sorted_wrt R ys"
proof (induction xs arbitrary: ys)
  case (Cons x xs)
  have "x \<in> set ys" using mset_eq_setD [OF Cons.prems(1)] by auto
  then obtain ps qs where ys: "ys = ps @ x # qs" by (meson split_list)
  then have eq: "mset xs = mset (ps @ qs)" using Cons.prems(1) by simp
  then have "sorted_wrt R (ps @ qs)" using Cons.IH Cons.prems(2) by simp
  moreover have "\<forall>y \<in> set (ps @ qs). R x y" using Cons.prems(2) mset_eq_setD [OF eq] by simp
  moreover from this have "\<forall>y \<in> set ps. R y x" by (simp add: sym)
  ultimately show ?case unfolding ys by (simp add: sorted_wrt_append)
qed simp

lemma holes_ok_order:
  assumes "length holes \<le> 8"
  shows "ordered_ok 0 (order_holes holes) \<longleftrightarrow> holes_ok holes"
proof -
  note o = order_holes_sorts [of holes]
  have sym: "holes_apart x y \<Longrightarrow> holes_apart y x" for x y by (auto simp: holes_apart_def split: prod.splits)
  have "sorted_wrt holes_apart (order_holes holes) \<longleftrightarrow> sorted_wrt holes_apart holes"
    using sorted_wrt_sym_mset [of holes_apart, OF sym] o(1) by metis
  then show ?thesis
    unfolding ordered_ok_iff [OF o(2)] holes_ok_def using mset_eq_setD [OF o(1)] by simp
qed

text \<open>The addresses of a window \<open>[0, c)\<close> belong to the guests of the holes, or to the bring-up guest.\<close>

definition owned_below :: "u64 \<Rightarrow> (u64 \<times> u64 \<times> u64) list \<Rightarrow> EptRangeMap \<Rightarrow> bool" where
  "owned_below c holes rm \<longleftrightarrow> (\<forall>g a. range_owner rm a = Some g \<longleftrightarrow> a < c \<and>
     ((\<exists>x \<in> set holes. in_hole x a \<and> snd (snd x) = g) \<or>
      g = M2_BRINGUP_GUEST_ID \<and> \<not> (\<exists>x \<in> set holes. in_hole x a)))"

lemma claim_tail:
  assumes c: "range_inv rm" "page_aligned c" "unat c < unat PRECISE_BYTES" "ranges_len rm < RANGE_CAP"
    and own: "owned_below c holes rm" and ends: "\<forall>x \<in> set holes. unat (fst x) + unat (fst (snd x)) \<le> unat c"
  shows "\<exists>rm1. claim_range rm M2_BRINGUP_GUEST_ID c (PRECISE_BYTES - c) = (Inr (), rm1) \<and> range_inv rm1 \<and>
    owned_below PRECISE_BYTES holes rm1"
proof -
  let ?B = M2_BRINGUP_GUEST_ID
  have d: "unat (PRECISE_BYTES - c) = unat PRECISE_BYTES - unat c"
    using c(3) by (simp add: unat_sub_le word_le_nat_alt)
  have clear: "\<forall>a. unat c \<le> unat a \<longrightarrow> range_owner rm a = None"
    using own unfolding owned_below_def word_less_nat_alt by (metis not_None_eq not_less)
  have "page_aligned PRECISE_BYTES" by (simp add: page_aligned_def ept_hw_consts)
  then have arg: "?B \<noteq> 0" "page_aligned (PRECISE_BYTES - c)" "PRECISE_BYTES - c \<noteq> 0"
    "unat c + unat (PRECISE_BYTES - c) < 2 ^ 64"
    using c unfolding d by (auto simp: M2_BRINGUP_GUEST_ID_def word_le_nat_alt precise_nat intro!: page_aligned_diff)
  from claim_above [OF c(1) clear arg(1) c(2) arg(2,3) order_refl arg(4) c(4)] obtain rm1 where
    rm1: "claim_range rm ?B c (PRECISE_BYTES - c) = (Inr (), rm1)" "range_inv rm1"
    "\<And>a. range_owner rm1 a = (if unat c \<le> unat a \<and> unat a < unat PRECISE_BYTES then Some ?B else range_owner rm a)"
    using c(3) unfolding d by auto
  have above: "\<not> in_hole x a" if "x \<in> set holes" "unat c \<le> unat a" for x a
    using ends that by (force simp: in_hole_def split: prod.splits)
  have "range_owner rm1 a = Some g \<longleftrightarrow> a < PRECISE_BYTES \<and>
     ((\<exists>x \<in> set holes. in_hole x a \<and> snd (snd x) = g) \<or> g = ?B \<and> \<not> (\<exists>x \<in> set holes. in_hole x a))" for a g
    using rm1(3) [of a] own [unfolded owned_below_def, rule_format, of a g] above [of _ a] c(3)
    unfolding word_less_nat_alt by (cases "unat c \<le> unat a") auto
  then show ?thesis using rm1 unfolding owned_below_def by blast
qed

text \<open>The final checks of the claim hold for a registry that partitions the window.\<close>

lemma owned_below_checks:
  assumes rm: "range_inv rm" "owned_below PRECISE_BYTES holes rm" and valid: "\<forall>x \<in> set holes. hole_valid x"
  shows "contains_gpa rm M2_BRINGUP_GUEST_ID 0"
    and "contains_gpa rm M2_BRINGUP_GUEST_ID (GUEST_RAM_BYTES - 0x1000)"
    and "(h, l, g) \<in> set holes \<Longrightarrow> contains_gpa rm g h \<and> \<not> contains_gpa rm M2_BRINGUP_GUEST_ID h"
proof -
  let ?B = M2_BRINGUP_GUEST_ID
  note own = rm(2) [unfolded owned_below_def, folded contains_gpa_owner [OF rm(1)], rule_format]
  have low: "contains_gpa rm ?B a" if "unat a < unat GUEST_RAM_BYTES" for a
  proof -
    have "\<not> in_hole x a" if "x \<in> set holes" for x
      using bspec [OF valid that] \<open>unat a < _\<close> by (auto simp: hole_valid_def in_hole_def)
    with that show ?thesis by (auto simp: own precise_nat word_less_nat_alt)
  qed
  show "contains_gpa rm ?B 0" "contains_gpa rm ?B (GUEST_RAM_BYTES - 0x1000)"
    by (rule low; simp add: GUEST_RAM_BYTES_def)+
  assume x: "(h, l, g) \<in> set holes"
  then have v: "hole_valid (h, l, g)" by (rule bspec [OF valid])
  then have "0 < unat l" by (simp add: hole_valid_def unat_gt_0)
  with v have ih: "in_hole (h, l, g) h" "h < PRECISE_BYTES"
    by (auto simp: hole_valid_def in_hole_def word_less_nat_alt)
  have "snd (snd y) \<noteq> ?B" if "y \<in> set holes" for y using bspec [OF valid that] by (auto simp: hole_valid_def)
  then show "contains_gpa rm g h \<and> \<not> contains_gpa rm ?B h" using ih x unfolding own by force
qed

section \<open>Properties\<close>

text \<open>
  C21: \<open>claim_range\<close> keeps ranges disjoint.  It refuses guest zero, an empty, unaligned or
  wrapping range, a range with an address that already has an owner, and a full registry, each
  without a change; otherwise exactly the addresses of the range become owned by the guest.
\<close>

theorem claim_range_correct:
  assumes "range_inv rm" and "r = \<lparr>range_guest_id = g, range_gpa = p, range_len = l\<rparr>"
  shows "if g = 0 then claim_range rm g p l = (Inl InvalidGuest, rm)
    else if \<not> range_valid r then claim_range rm g p l = (Inl Invariant, rm)
    else if \<exists>a. range_covers r a \<and> range_owner rm a \<noteq> None then claim_range rm g p l = (Inl AlreadyOwned, rm)
    else if ranges_len rm = RANGE_CAP then claim_range rm g p l = (Inl Full, rm)
    else \<exists>rm'. claim_range rm g p l = (Inr (), rm') \<and> range_inv rm' \<and>
      (\<forall>q a. contains_gpa rm' q a \<longleftrightarrow> (if range_covers r a then q = g else contains_gpa rm q a))"
proof -
  consider "g = 0" | "g \<noteq> 0" "\<not> range_valid r" | "g \<noteq> 0" "range_valid r" by blast
  then show ?thesis
  proof cases
    case 2
    then have "claim_range rm g p l = (Inl Invariant, rm)"
      by (auto simp: claim_range_def assms(2) range_valid_def page_aligned_def checked_add_def)
    with 2 show ?thesis by simp
  next
    case 3
    note un = apart_iff_unowned [OF assms(1) 3(2)]
    have le: "ranges_len rm \<le> RANGE_CAP"
      using assms(1) length_slot_entries_le [of "ranges rm"] by (simp add: range_inv_def)
    have new: "\<exists>rm'. claim_range rm g p l = (Inr (), rm') \<and> range_inv rm' \<and>
      (\<forall>q a. contains_gpa rm' q a \<longleftrightarrow> (if range_covers r a then q = g else contains_gpa rm q a))"
      if free: "\<forall>s \<in> set (range_entries rm). ranges_apart s r" and room: "ranges_len rm \<noteq> RANGE_CAP"
    proof -
      have "ranges_len rm < RANGE_CAP" using le room by simp
      from claim_range_new [OF assms(1,2) 3(2) free this] obtain rm' where
        rm': "claim_range rm g p l = (Inr (), rm')" "range_inv rm'"
        "\<forall>a. range_owner rm' a = (if range_covers r a then Some g else range_owner rm a)" by blast
      then show ?thesis by (auto simp: contains_gpa_owner [OF rm'(2)] contains_gpa_owner [OF assms(1)])
    qed
    show ?thesis
      using 3 new claim_range_full [OF assms(1) _ 3(1) assms(2) 3(2)] claim_range_taken [OF assms(1,2) 3(2)] un
      by (auto simp del: not_None_eq)
  qed (simp add: claim_range_def)
qed

theorem claim_range_correct_witness:
  "fst (claim_range range_map_new 1 0 0x1001) = Inl Invariant \<and>
   (\<exists>rm'. claim_range range_map_new 1 0x2000 0x1000 = (Inr (), rm') \<and> contains_gpa rm' 1 0x2FFF \<and>
     \<not> contains_gpa rm' 1 0x3000)"
proof -
  have new: "ranges_len range_map_new = 0" by (simp add: range_map_new_def)
  have none: "\<not> contains_gpa range_map_new q a" for q a
    using contains_gpa_owner [OF range_map_new_inv(1)] range_map_new_inv(2) by simp
  show ?thesis
    using claim_range_correct [OF range_map_new_inv(1) refl, of 1 0 "0x1001"]
      claim_range_correct [OF range_map_new_inv(1) refl, of 1 "0x2000" "0x1000"] none
    by (auto simp: range_valid_def page_aligned_def range_map_new_inv(2) new RANGE_CAP_def range_covers_def)
qed

text \<open>
  C20: The precise claim partitions the window.  With up to seven holes, in any order, the claim
  succeeds exactly when every hole is a non-empty page-aligned slab of a shell guest between
  guest RAM and the end of the window and no two holes overlap.  Then every address below 512
  MiB belongs to exactly the guest of its hole, or to the bring-up guest outside all holes, and
  no address above belongs to anyone.  A failure leaves the success latch as it was.
\<close>

theorem claim_precise_partition:
  assumes "length holes \<le> 7"
  shows "if holes_ok holes
    then \<exists>rm. claim_precise_with_shell_holes holes st =
        (Inr (), st\<lparr>precise_ranges := rm, precise_ranges_ok := True\<rparr>) \<and> range_inv rm \<and>
      (\<forall>g a. contains_gpa rm g a \<longleftrightarrow> a < PRECISE_BYTES \<and>
        ((\<exists>x \<in> set holes. in_hole x a \<and> snd (snd x) = g) \<or>
         g = M2_BRINGUP_GUEST_ID \<and> \<not> (\<exists>x \<in> set holes. in_hole x a)))
    else \<exists>e st'. claim_precise_with_shell_holes holes st = (Inl e, st') \<and>
      precise_ranges_ok st' = precise_ranges_ok st"
proof (cases "holes_ok holes")
  case False
  let ?o = "order_holes holes"
  have len: "length ?o = length holes"
    using order_holes_sorts(1) [of holes] assms mset_eq_length [of ?o holes] by simp
  have "\<not> ordered_ok (unat (0 :: u64)) ?o" using False holes_ok_order [of holes] assms by simp
  from claim_holes_err [OF this range_map_new_inv(1)] obtain e rm where
    "claim_holes ?o 0 range_map_new = (Inl e, rm)"
    using assms len range_map_new_inv(2) by (auto simp: range_map_new_def RANGE_CAP_def page_aligned_def)
  then have "claim_precise_with_shell_holes holes st = (Inl e, st\<lparr>precise_ranges := rm\<rparr>)"
    using assms by (simp add: claim_precise_with_shell_holes_def Let_def word_less_nat_alt precise_nat)
  with False show ?thesis by simp
next
  case True
  let ?o = "order_holes holes"
  let ?B = M2_BRINGUP_GUEST_ID
  have len: "length ?o = length holes" and so: "set ?o = set holes"
    using order_holes_sorts(1) [of holes] assms mset_eq_length [of ?o holes] mset_eq_setD [of ?o holes] by auto
  have "ordered_ok (unat (0 :: u64)) ?o" using True holes_ok_order [of holes] assms by simp
  from claim_holes_ok [OF this range_map_new_inv(1)] obtain c rm where
    c: "claim_holes ?o 0 range_map_new = (Inr c, rm)" "range_inv rm" "page_aligned c"
      "unat c \<le> unat PRECISE_BYTES" "ranges_len rm < RANGE_CAP" "owned_below c holes rm"
      "\<forall>x \<in> set holes. unat (fst x) + unat (fst (snd x)) \<le> unat c"
    using assms len range_map_new_inv(2) unfolding so owned_below_def word_less_nat_alt
    by (auto simp: range_map_new_def RANGE_CAP_def page_aligned_def)
  define fin where "fin = (if c < PRECISE_BYTES then claim_range rm ?B c (PRECISE_BYTES - c)
    else if length holes = 0 then claim_range rm ?B 0 PRECISE_BYTES else (Inr (), rm))"
  have "holes \<noteq> []" if "c = PRECISE_BYTES"
  proof
    assume "holes = []"
    with len c(1) that show False by (simp add: ept_hw_consts)
  qed
  then obtain rm1 where rm1: "fin = (Inr (), rm1)" "range_inv rm1" "owned_below PRECISE_BYTES holes rm1"
    using claim_tail [OF c(2,3) _ c(5-7)] c(2,4,6)
    by (cases c PRECISE_BYTES rule: linorder_cases) (auto simp: fin_def word_less_nat_alt)
  have "\<forall>x \<in> set holes. hole_valid x" using True by (simp add: holes_ok_def)
  note checks = owned_below_checks [OF rm1(2,3) this]
  have "\<not> list_ex (\<lambda>(hpa, _, gid). \<not> contains_gpa rm1 gid hpa \<or> contains_gpa rm1 ?B hpa) ?o"
    using checks(3) so by (auto simp: list_ex_iff)
  moreover have "\<not> GUEST_RAM_BYTES > PRECISE_BYTES" "\<not> PRECISE_BYTES > DEFAULT_APIC_PHYS"
    "\<not> PRECISE_BYTES \<ge> push_bit 30 1"
    by (simp_all add: ept_hw_consts GUEST_RAM_BYTES_def word_less_nat_alt word_le_nat_alt push_bit_eq_mult)
  ultimately have "claim_precise_with_shell_holes holes st =
      (Inr (), st\<lparr>precise_ranges := rm1, precise_ranges_ok := True\<rparr>)"
    using assms c(1) rm1(1) checks(1,2) unfolding claim_precise_with_shell_holes_def fin_def Let_def by simp
  with True rm1(2) rm1(3) [unfolded owned_below_def, folded contains_gpa_owner [OF rm1(2)]] show ?thesis
    by auto
qed

theorem claim_precise_partition_witness:
  "\<exists>rm. fst (claim_precise_with_shell_holes
      [(0x10600000, 0x200000, 3), (0x10400000, 0x200000, 2)] \<lparr>precise_ranges = range_map_new, precise_ranges_ok = False\<rparr>) = Inr () \<and>
    precise_ranges (snd (claim_precise_with_shell_holes
      [(0x10600000, 0x200000, 3), (0x10400000, 0x200000, 2)] \<lparr>precise_ranges = range_map_new, precise_ranges_ok = False\<rparr>)) = rm \<and>
    contains_gpa rm 2 0x105FFFFF \<and> contains_gpa rm 3 0x10600000 \<and> contains_gpa rm 1 0x10800000"
proof -
  let ?h = "[(0x10600000, 0x200000, 3), (0x10400000, 0x200000, 2 :: u64)]"
  have ok: "holes_ok ?h"
    by (simp add: holes_ok_def hole_valid_def holes_apart_def page_aligned_def precise_nat M2_BRINGUP_GUEST_ID_def)
  show ?thesis
    using claim_precise_partition [of ?h "\<lparr>precise_ranges = range_map_new, precise_ranges_ok = False\<rparr>"] ok
    by (auto simp: in_hole_def M2_BRINGUP_GUEST_ID_def ept_hw_consts)
qed

end
