(* ===== verification/Bit_Scan.thy ===== *)
theory Bit_Scan
  imports RayNu_Prelude
begin

text \<open>
  Single bits and bit scans on machine words: the shifts \<open>1 << n\<close> that interrupt
  controllers use as masks, and \<open>trailing_zeros\<close> and \<open>leading_zeros\<close> of
  \<open>core\<close> with the position they find.
\<close>

named_theorems one_bit "reading one bit of a word that sets, clears or tests bits"

definition one_at :: "nat \<Rightarrow> 'a::len word" where
  "one_at n = push_bit n 1"

definition trailing_zeros :: "'a::len word \<Rightarrow> nat" where
  "trailing_zeros w = length (takeWhile (\<lambda>i. \<not> bit w i) [0..<LENGTH('a)])"

definition leading_zeros :: "'a::len word \<Rightarrow> nat" where
  "leading_zeros w = length (takeWhile (\<lambda>i. \<not> bit w i) (rev [0..<LENGTH('a)]))"

lemma bit_one_at [one_bit]: "bit (one_at n :: 'a::len word) i \<longleftrightarrow> i = n \<and> n < LENGTH('a)"
  by (auto simp: one_at_def push_bit_of_1 bit_exp_iff possible_bit_word)

lemma and_one_at_eq_0 [one_bit]: "w AND one_at n = 0 \<longleftrightarrow> \<not> bit (w :: 'a::len word) n"
proof -
  have "w AND one_at n = 0 \<longleftrightarrow> (\<forall>i < LENGTH('a). \<not> (bit w i \<and> bit (one_at n :: 'a word) i))"
    by (simp add: bit_eq_iff possible_bit_word bit_and_iff)
  also have "\<dots> \<longleftrightarrow> \<not> bit w n" by (auto simp: bit_one_at dest: bit_imp_le_length)
  finally show ?thesis .
qed

lemma bit_set_one [one_bit]:
  "bit (w OR one_at n :: 'a::len word) i \<longleftrightarrow> bit w i \<or> i = n \<and> n < LENGTH('a)"
  by (simp add: bit_or_iff bit_one_at)

lemma bit_clear_one [one_bit]:
  "bit (w AND NOT (one_at n) :: 'a::len word) i \<longleftrightarrow> bit w i \<and> i \<noteq> n"
  by (auto simp: bit_and_iff bit_not_iff bit_one_at dest: bit_imp_le_length)

lemma set_clear_one:
  "\<not> bit w n \<Longrightarrow> (w OR one_at n) AND NOT (one_at n) = (w :: 'a::len word)"
  by (rule bit_word_eqI) (auto simp: one_bit)

lemma takeWhile_stops:
  "\<exists>x \<in> set xs. \<not> P x \<Longrightarrow> length (takeWhile P xs) < length xs"
  by (induction xs) auto

lemma takeWhile_upt_split:
  assumes "\<exists>i < n. P i"
  shows "P (length (takeWhile (\<lambda>i. \<not> P i) [0..<n]))"
    and "length (takeWhile (\<lambda>i. \<not> P i) [0..<n]) < n"
    and "\<And>i. i < length (takeWhile (\<lambda>i. \<not> P i) [0..<n]) \<Longrightarrow> \<not> P i"
proof -
  let ?k = "length (takeWhile (\<lambda>i. \<not> P i) [0..<n])"
  show lt: "?k < n"
    using takeWhile_stops [of "[0..<n]" "\<lambda>i. \<not> P i"] assms by (simp add: Bex_def)
  then show "P ?k" using nth_length_takeWhile [of "\<lambda>i. \<not> P i" "[0..<n]"] by simp
  show "\<not> P i" if "i < ?k" for i
    using that lt set_takeWhileD [OF nth_mem [OF that]] takeWhile_nth [OF that] by simp
qed

lemma word_nonzero_bit: "w \<noteq> 0 \<longleftrightarrow> (\<exists>i < LENGTH('a). bit (w :: 'a::len word) i)"
  by (auto simp: bit_eq_iff possible_bit_word)

lemma trailing_zeros_bit:
  fixes w :: "'a::len word"
  assumes "w \<noteq> 0"
  shows "bit w (trailing_zeros w)" and "trailing_zeros w < LENGTH('a)"
    and "\<And>i. bit w i \<Longrightarrow> trailing_zeros w \<le> i"
  using takeWhile_upt_split [OF assms [unfolded word_nonzero_bit]]
  unfolding trailing_zeros_def by (blast, blast, meson not_less)

lemma takeWhile_rev_upt_split:
  assumes "\<exists>i < n. P i"
  shows "P (n - 1 - length (takeWhile (\<lambda>i. \<not> P i) (rev [0..<n])))"
    and "length (takeWhile (\<lambda>i. \<not> P i) (rev [0..<n])) < n"
    and "\<And>i. i < n \<Longrightarrow> P i \<Longrightarrow> i \<le> n - 1 - length (takeWhile (\<lambda>i. \<not> P i) (rev [0..<n]))"
proof -
  let ?t = "takeWhile (\<lambda>i. \<not> P i) (rev [0..<n])"
  have nth: "rev [0..<n] ! j = n - 1 - j" if "j < n" for j
    using that by (simp add: rev_nth)
  show lt: "length ?t < n"
    using takeWhile_stops [of "rev [0..<n]" "\<lambda>i. \<not> P i"] assms by (simp add: Bex_def)
  show "P (n - 1 - length ?t)"
    using nth_length_takeWhile [of "\<lambda>i. \<not> P i" "rev [0..<n]"] lt by (simp add: nth)
  show "i \<le> n - 1 - length ?t" if i: "i < n" "P i" for i
  proof (rule ccontr)
    assume "\<not> i \<le> n - 1 - length ?t"
    then have j: "n - 1 - i < length ?t" using i by linarith
    have "?t ! (n - 1 - i) = i" using j lt i by (simp add: takeWhile_nth nth)
    with set_takeWhileD [OF nth_mem [OF j]] i show False by simp
  qed
qed

lemma leading_zeros_bit:
  fixes w :: "'a::len word"
  assumes "w \<noteq> 0"
  shows "bit w (LENGTH('a) - 1 - leading_zeros w)" and "leading_zeros w < LENGTH('a)"
    and "\<And>i. bit w i \<Longrightarrow> i \<le> LENGTH('a) - 1 - leading_zeros w"
proof -
  note s = takeWhile_rev_upt_split [OF assms [unfolded word_nonzero_bit], folded leading_zeros_def]
  show "bit w (LENGTH('a) - 1 - leading_zeros w)" by (rule s(1))
  show "leading_zeros w < LENGTH('a)" by (rule s(2))
  show "i \<le> LENGTH('a) - 1 - leading_zeros w" if "bit w i" for i
    using that s(3) bit_imp_le_length by blast
qed

end
