(* ===== verification/Guest_Irq.thy ===== *)
theory Guest_Irq
  imports Bit_Scan
begin

text \<open>
  The interrupt controllers of the guest platform: the i8253 counter of
  \<open>devices/guest_platform.rs\<close>, and the 8259 pair and the IOAPIC of
  \<open>devices/guest_irq.rs\<close>.  The record \<open>IrqState\<close> holds the chip behind
  \<open>IRQ\<close> and the atomics of the module; the fields \<open>ISO_LEN\<close>,
  \<open>PERC_IMAGE_BOOT\<close>, \<open>MEDIA_MOUNTED\<close>, \<open>HOLD_TSC\<close> and
  \<open>TSC_HZ\<close> are the statics of other modules the chip reads, and a time-stamp
  argument is the value \<open>rdtsc\<close> returns.  Every operation runs under \<open>IRQ_LOCK\<close>,
  so it is one state transformer.
\<close>

section \<open>The i8253 counter\<close>

record Platform_Pit =
  pit :: u16
  pit_reload :: u16
  pit_hi :: bool
  pit_rd_hi :: bool
  pit_access :: u8
  pit_latch :: u16
  pit_latch_n :: u8

definition pit_empty :: Platform_Pit where
  "pit_empty = \<lparr>pit = 0xFFFF, pit_reload = 0xFFFF, pit_hi = False, pit_rd_hi = False,
     pit_access = 0, pit_latch = 0, pit_latch_n = 0\<rparr>"

definition pit_restart :: "Platform_Pit \<Rightarrow> Platform_Pit" where
  "pit_restart p = p\<lparr>pit := if pit_reload p = 0 then 0xFFFF else pit_reload p\<rparr>"

definition pit_tick_locked :: "Platform_Pit \<Rightarrow> Platform_Pit" where
  "pit_tick_locked p =
    (let step = 0x40 in
     if pit p \<le> step then pit_restart p else p\<lparr>pit := pit p - step\<rparr>)"

definition pit_write_cmd :: "Platform_Pit \<Rightarrow> u8 \<Rightarrow> Platform_Pit" where
  "pit_write_cmd p val =
    (if drop_bit 6 val AND 3 \<noteq> 0 then p
     else let access = drop_bit 4 val AND 3 in
       if access = 0 then p\<lparr>pit_latch := pit p, pit_latch_n := 2\<rparr>
       else p\<lparr>pit_hi := False, pit_rd_hi := False, pit_access := access, pit_latch_n := 0,
              pit := 0xFFFF\<rparr>)"

definition pit_set_low :: "Platform_Pit \<Rightarrow> u8 \<Rightarrow> Platform_Pit" where
  "pit_set_low p val = p\<lparr>pit_reload := (pit_reload p AND 0xFF00) OR ucast val\<rparr>"

definition pit_set_high :: "Platform_Pit \<Rightarrow> u8 \<Rightarrow> Platform_Pit" where
  "pit_set_high p val = p\<lparr>pit_reload := (pit_reload p AND 0x00FF) OR push_bit 8 (ucast val)\<rparr>"

definition pit_write_data :: "Platform_Pit \<Rightarrow> u8 \<Rightarrow> Platform_Pit" where
  "pit_write_data p val =
    (if pit_access p = 1 then pit_restart (pit_set_low p val)
     else if pit_access p = 2 then pit_restart (pit_set_high p val)
     else if \<not> pit_hi p then (pit_set_low p val)\<lparr>pit_hi := True\<rparr>
     else (pit_restart (pit_set_high p val))\<lparr>pit_hi := False\<rparr>)"

definition pit_read_data :: "Platform_Pit \<Rightarrow> u8 \<times> Platform_Pit" where
  "pit_read_data p =
    (if pit_latch_n p = 2 then (ucast (pit_latch p), p\<lparr>pit_latch_n := 1\<rparr>)
     else if pit_latch_n p = 1 then (ucast (drop_bit 8 (pit_latch p)), p\<lparr>pit_latch_n := 0\<rparr>)
     else if pit_access p = 3 then
       (if \<not> pit_rd_hi p then (ucast (pit p), p\<lparr>pit_rd_hi := True\<rparr>)
        else (ucast (drop_bit 8 (pit p)), pit_tick_locked (p\<lparr>pit_rd_hi := False\<rparr>)))
     else (ucast (pit p), pit_tick_locked p))"

lemma pit_program_readback:
  assumes "lo \<noteq> 0 \<or> hi \<noteq> 0"
  shows "let p = pit_write_cmd (pit_write_data (pit_write_data (pit_write_cmd p 0x34) lo) hi) 0;
             (a, p) = pit_read_data p; (b, p) = pit_read_data p in a = lo \<and> b = hi"
proof -
  let ?r = "\<lambda>r :: u16. ((r AND 0xFF00) OR ucast lo) AND 0x00FF OR push_bit 8 (ucast hi)"
  have m: "(0xFF :: u16) = mask 8" by (simp add: mask_eq_exp_minus_1)
  have lo: "ucast (?r r) = lo" and hi: "ucast (drop_bit 8 (?r r)) = hi" for r
  proof -
    have c: "(0xFF00 :: u16) = NOT (mask 8)" by (simp add: mask_eq_exp_minus_1)
    show "ucast (?r r) = lo" "ucast (drop_bit 8 (?r r)) = hi"
      unfolding m c
      by (rule bit_word_eqI; auto simp: bit_ucast_iff bit_or_iff bit_and_iff bit_not_iff
          bit_mask_iff bit_push_bit_iff bit_drop_bit_eq dest: bit_imp_le_length)+
  qed
  then have nz: "?r r \<noteq> 0" for r
    using assms by (metis ucast_0 drop_bit_0 drop_bit_of_0)
  show ?thesis
    using nz lo hi
    by (simp add: pit_write_cmd_def pit_write_data_def pit_set_low_def pit_set_high_def
        pit_restart_def pit_read_data_def Let_def del: drop_bit_or drop_bit_and)
qed

section \<open>The chip and the statics of the module\<close>

definition IOAPIC_GPA :: u64 where "IOAPIC_GPA = 0xFEC00000"
definition IOAPIC_SIZE :: u64 where "IOAPIC_SIZE = 0x1000"
definition IOAPIC_PINS :: nat where "IOAPIC_PINS = 24"
definition IOAPIC_VERSION :: u32 where "IOAPIC_VERSION = 0x00170011"
definition ATA_GSI :: u8 where "ATA_GSI = 14"
definition VIRTIO_GSI :: u8 where "VIRTIO_GSI = 17"
definition VIRTIO_ISO_GSI :: u8 where "VIRTIO_ISO_GSI = 18"
definition VIRTIO_PIC_IRQ :: u8 where "VIRTIO_PIC_IRQ = 11"
definition UART_GSI :: u8 where "UART_GSI = 4"
definition PIT_IRQ :: u8 where "PIT_IRQ = 0"
definition PIT_IOAPIC_GSI :: u8 where "PIT_IOAPIC_GSI = 2"
definition IOAPIC_IO_PINS :: "u8 list" where
  "IOAPIC_IO_PINS = [ATA_GSI, VIRTIO_GSI, VIRTIO_ISO_GSI, VIRTIO_PIC_IRQ, UART_GSI]"
definition RTE_MASK :: u64 where "RTE_MASK = one_at 16"
definition RTE_TRIG_LEVEL :: u64 where "RTE_TRIG_LEVEL = one_at 15"
definition RTE_REMOTE_IRR :: u64 where "RTE_REMOTE_IRR = one_at 14"
definition PIC_SLAVE_IRQ :: u8 where "PIC_SLAVE_IRQ = 2"
definition GUEST_CD_ISO_CAP :: usize where "GUEST_CD_ISO_CAP = 36 * 2048"
definition HPET_SINK_PAGE :: u64 where "HPET_SINK_PAGE = 0xFEC00000"

lemmas irq_consts = IOAPIC_GPA_def IOAPIC_SIZE_def IOAPIC_PINS_def IOAPIC_VERSION_def ATA_GSI_def
  VIRTIO_GSI_def VIRTIO_ISO_GSI_def VIRTIO_PIC_IRQ_def UART_GSI_def PIT_IRQ_def
  PIT_IOAPIC_GSI_def IOAPIC_IO_PINS_def PIC_SLAVE_IRQ_def GUEST_CD_ISO_CAP_def HPET_SINK_PAGE_def

record Pic =
  imr :: u8
  irr :: u8
  isr :: u8
  vector :: u8
  init_state :: u8
  expect_icw4 :: bool
  ready :: bool
  read_isr :: bool
  aeoi :: bool

record Ioapic =
  io_sel :: u32
  io_id :: u32
  redir :: "u64 list"
  io_irr :: u32

record IrqChip =
  master :: Pic
  slave :: Pic
  ioapic :: Ioapic

definition pic_empty :: Pic where
  "pic_empty = \<lparr>imr = 0xFF, irr = 0, isr = 0, vector = 0x08, init_state = 0,
     expect_icw4 = False, ready = False, read_isr = False, aeoi = False\<rparr>"

definition ioapic_empty :: Ioapic where
  "ioapic_empty = \<lparr>io_sel = 0, io_id = 0, redir = replicate IOAPIC_PINS RTE_MASK, io_irr = 0\<rparr>"

definition chip_empty :: IrqChip where
  "chip_empty = \<lparr>master = pic_empty, slave = pic_empty, ioapic = ioapic_empty\<rparr>"

record IrqState =
  chip :: IrqChip
  LINUX_DEV_IRQ :: bool
  PREFER_PIT_ONCE :: bool
  PREFER_PIT_HOLD :: bool
  IRQ11_YIELD_PIT :: bool
  PIC11_SINCE_PIT :: u8
  FIRMWARE_WIRE :: bool
  LINUX_IOAPIC_GSI2 :: bool
  TAKE_IRQ0 :: u32
  TAKE_IRQ4 :: u32
  TAKE_IRQ11 :: u32
  PIT_RAISES :: u32
  EOI_MASTER :: u32
  EOI_SLAVE :: u32
  LAST_OCW2_MASTER :: u8
  LAST_OCW2_SLAVE :: u8
  plat_pit :: Platform_Pit
  ISO_LEN :: usize
  PERC_IMAGE_BOOT :: bool
  MEDIA_MOUNTED :: bool
  HOLD_TSC :: u64
  TSC_HZ :: u64

definition irq_statics :: IrqState where
  "irq_statics = \<lparr>chip = chip_empty, LINUX_DEV_IRQ = False, PREFER_PIT_ONCE = False,
     PREFER_PIT_HOLD = False, IRQ11_YIELD_PIT = False, PIC11_SINCE_PIT = 0, FIRMWARE_WIRE = False,
     LINUX_IOAPIC_GSI2 = False, TAKE_IRQ0 = 0, TAKE_IRQ4 = 0, TAKE_IRQ11 = 0, PIT_RAISES = 0,
     EOI_MASTER = 0, EOI_SLAVE = 0, LAST_OCW2_MASTER = 0, LAST_OCW2_SLAVE = 0,
     plat_pit = pit_empty, ISO_LEN = 0, PERC_IMAGE_BOOT = False, MEDIA_MOUNTED = False,
     HOLD_TSC = 0, TSC_HZ = 0\<rparr>"

definition irq_reset :: "IrqState \<Rightarrow> IrqState" where
  "irq_reset s = s\<lparr>LINUX_DEV_IRQ := False, PREFER_PIT_ONCE := False, PREFER_PIT_HOLD := False,
     IRQ11_YIELD_PIT := False, PIC11_SINCE_PIT := 0, FIRMWARE_WIRE := False,
     LINUX_IOAPIC_GSI2 := False, TAKE_IRQ0 := 0, TAKE_IRQ4 := 0, TAKE_IRQ11 := 0,
     PIT_RAISES := 0, EOI_MASTER := 0, EOI_SLAVE := 0, LAST_OCW2_MASTER := 0,
     LAST_OCW2_SLAVE := 0, chip := chip_empty\<rparr>"

definition guest_irq_live :: "bool \<Rightarrow> bool \<Rightarrow> bool" where
  "guest_irq_live product_iso linux_handoff \<longleftrightarrow> product_iso \<or> linux_handoff"

definition product_window_armed_from :: "usize \<Rightarrow> bool \<Rightarrow> bool" where
  "product_window_armed_from cd_len perc_image_latched \<longleftrightarrow>
     GUEST_CD_ISO_CAP < cd_len \<or> perc_image_latched"

definition product_iso_window_armed :: "IrqState \<Rightarrow> bool" where
  "product_iso_window_armed s = product_window_armed_from (ISO_LEN s) (PERC_IMAGE_BOOT s)"

definition product_live :: "IrqState \<Rightarrow> bool" where
  "product_live s = guest_irq_live (product_iso_window_armed s) (LINUX_DEV_IRQ s)"

definition note_linux_dev_irq :: "IrqState \<Rightarrow> IrqState" where
  "note_linux_dev_irq s = s\<lparr>LINUX_DEV_IRQ := True\<rparr>"

definition prefer_pit_priority :: "IrqState \<Rightarrow> bool" where
  "prefer_pit_priority s \<longleftrightarrow> PREFER_PIT_HOLD s \<or> PREFER_PIT_ONCE s"

definition prefer_pit_once :: "IrqState \<Rightarrow> IrqState" where
  "prefer_pit_once s = s\<lparr>PREFER_PIT_ONCE := True\<rparr>"

definition note_overlay_hold :: "u64 \<Rightarrow> IrqState \<Rightarrow> IrqState" where
  "note_overlay_hold tsc s = (if HOLD_TSC s = 0 then s\<lparr>HOLD_TSC := tsc\<rparr> else s)"

definition prefer_pit_hold :: "u64 \<Rightarrow> bool \<Rightarrow> IrqState \<Rightarrow> IrqState" where
  "prefer_pit_hold tsc need s =
    (let s = s\<lparr>PREFER_PIT_HOLD := need\<rparr> in if need then note_overlay_hold tsc s else s)"

definition is_ioapic_gpa :: "IrqState \<Rightarrow> u64 \<Rightarrow> bool" where
  "is_ioapic_gpa s gpa \<longleftrightarrow> product_live s \<and> IOAPIC_GPA \<le> gpa \<and> gpa < IOAPIC_GPA + IOAPIC_SIZE"

definition is_hpet_split_2m_gpa :: "IrqState \<Rightarrow> u64 \<Rightarrow> bool" where
  "is_hpet_split_2m_gpa s gpa \<longleftrightarrow> product_live s \<and> gpa AND NOT 0x1FFFFF = HPET_SINK_PAGE"

section \<open>Raising and lowering lines\<close>

definition pic_level_intx :: "u8 \<Rightarrow> bool" where
  "pic_level_intx irq \<longleftrightarrow> irq = VIRTIO_PIC_IRQ"

definition unmask_pic_locked :: "u8 \<Rightarrow> IrqChip \<Rightarrow> IrqChip" where
  "unmask_pic_locked irq c =
    (if irq < 8 then master_update (imr_update (\<lambda>r. r AND NOT (one_at (unat irq)))) c
     else master_update (imr_update (\<lambda>r. r AND NOT (one_at (unat PIC_SLAVE_IRQ))))
            (slave_update (imr_update (\<lambda>r. r AND NOT (one_at (unat (irq - 8))))) c))"

definition raise_pic_locked :: "u8 \<Rightarrow> IrqChip \<Rightarrow> IrqChip" where
  "raise_pic_locked irq c =
    (let c' = (if irq < 8 then master_update (irr_update (\<lambda>r. r OR one_at (unat irq))) c
               else master_update (irr_update (\<lambda>r. r OR one_at (unat PIC_SLAVE_IRQ)))
                      (slave_update (irr_update (\<lambda>r. r OR one_at (unat (irq - 8)))) c))
     in if pic_level_intx irq then unmask_pic_locked irq c' else c')"

definition drop_idle_cascade :: "IrqChip \<Rightarrow> IrqChip" where
  "drop_idle_cascade c =
    (if irr (slave c) AND NOT (imr (slave c)) = 0
     then master_update (irr_update (\<lambda>r. r AND NOT (one_at (unat PIC_SLAVE_IRQ)))) c else c)"

definition lower_pic_locked :: "u8 \<Rightarrow> IrqChip \<Rightarrow> IrqChip" where
  "lower_pic_locked irq c =
    (if irq < 8 then master_update (irr_update (\<lambda>r. r AND NOT (one_at (unat irq)))) c
     else drop_idle_cascade
            (slave_update (irr_update (\<lambda>r. r AND NOT (one_at (unat (irq - 8))))) c))"

definition raise_pic_irq :: "u8 \<Rightarrow> IrqState \<Rightarrow> IrqState" where
  "raise_pic_irq irq s = (if \<not> product_live s then s else chip_update (raise_pic_locked irq) s)"

definition latch_pin :: "u8 \<Rightarrow> IrqChip \<Rightarrow> IrqChip" where
  "latch_pin gsi c =
    (if unat gsi < IOAPIC_PINS then ioapic_update (io_irr_update (\<lambda>r. r OR one_at (unat gsi))) c
     else c)"

definition raise_ioapic_gsi :: "u8 \<Rightarrow> IrqState \<Rightarrow> IrqState" where
  "raise_ioapic_gsi gsi s = (if \<not> product_live s then s else chip_update (latch_pin gsi) s)"

definition raise_gsi :: "u8 \<Rightarrow> IrqState \<Rightarrow> IrqState" where
  "raise_gsi gsi s =
    (if \<not> product_live s then s
     else chip_update (\<lambda>c. let c = latch_pin gsi c in if gsi < 16 then raise_pic_locked gsi c else c) s)"

definition lower_gsi :: "u8 \<Rightarrow> IrqState \<Rightarrow> IrqState" where
  "lower_gsi gsi s =
    chip_update (\<lambda>c. let c = (if unat gsi < IOAPIC_PINS
                               then ioapic_update (io_irr_update (\<lambda>r. r AND NOT (one_at (unat gsi)))) c
                               else c)
                     in if gsi < 16 then lower_pic_locked gsi c else c) s"

definition raise_ata :: "IrqState \<Rightarrow> IrqState" where "raise_ata = raise_gsi ATA_GSI"
definition lower_ata :: "IrqState \<Rightarrow> IrqState" where "lower_ata = lower_gsi ATA_GSI"

definition raise_virtio :: "IrqState \<Rightarrow> IrqState" where
  "raise_virtio s = raise_gsi VIRTIO_PIC_IRQ (raise_gsi VIRTIO_GSI s)"

definition lower_virtio :: "IrqState \<Rightarrow> IrqState" where
  "lower_virtio s = lower_gsi VIRTIO_PIC_IRQ (lower_gsi VIRTIO_GSI s)"

definition raise_virtio_iso :: "IrqState \<Rightarrow> IrqState" where
  "raise_virtio_iso s = raise_gsi VIRTIO_PIC_IRQ (raise_gsi VIRTIO_ISO_GSI s)"

definition lower_virtio_iso :: "IrqState \<Rightarrow> IrqState" where
  "lower_virtio_iso s = lower_gsi VIRTIO_PIC_IRQ (lower_gsi VIRTIO_ISO_GSI s)"

definition raise_pit :: "IrqState \<Rightarrow> IrqState" where
  "raise_pit s = raise_ioapic_gsi PIT_IOAPIC_GSI (raise_pic_irq PIT_IRQ
     (s\<lparr>PIT_RAISES := PIT_RAISES s + 1, plat_pit := pit_tick_locked (plat_pit s)\<rparr>))"

section \<open>The IOAPIC\<close>

definition rte_vec :: "u64 \<Rightarrow> u8" where "rte_vec rte = ucast (rte AND 0xff)"

definition ioapic_pin_ready :: "IrqChip \<Rightarrow> u8 \<Rightarrow> u8 option" where
  "ioapic_pin_ready c pin =
    (if IOAPIC_PINS \<le> unat pin then None
     else if io_irr (ioapic c) AND one_at (unat pin) = 0 then None
     else let rte = redir (ioapic c) ! unat pin in
       if rte AND RTE_MASK \<noteq> 0 then None
       else if rte AND RTE_TRIG_LEVEL \<noteq> 0 \<and> rte AND RTE_REMOTE_IRR \<noteq> 0 then None
       else let vec = rte_vec rte in if vec < 16 then None else Some vec)"

definition ioapic_pin_is_io :: "u8 \<Rightarrow> bool" where
  "ioapic_pin_is_io pin \<longleftrightarrow> pin = ATA_GSI \<or> pin = VIRTIO_GSI \<or> pin = VIRTIO_ISO_GSI \<or>
     pin = VIRTIO_PIC_IRQ \<or> pin = UART_GSI"

fun first_ready :: "IrqChip \<Rightarrow> u8 list \<Rightarrow> (u8 \<times> u8) option" where
  "first_ready c [] = None"
| "first_ready c (pin # pins) =
    (case ioapic_pin_ready c pin of Some vec \<Rightarrow> Some (pin, vec) | None \<Rightarrow> first_ready c pins)"

text \<open>The pins in the order the loops of \<open>ioapic_peek_pin\<close> visit them.\<close>

definition peek_order :: "IrqState \<Rightarrow> u8 list" where
  "peek_order s =
     filter (\<lambda>pin. \<not> (prefer_pit_priority s \<and> pin = UART_GSI)) IOAPIC_IO_PINS @
     [PIT_IOAPIC_GSI] @
     (if prefer_pit_priority s then [UART_GSI] else []) @
     filter (\<lambda>pin. \<not> (ioapic_pin_is_io pin \<or> pin = PIT_IOAPIC_GSI)) (map of_nat [0..<IOAPIC_PINS])"

definition ioapic_peek_pin :: "IrqState \<Rightarrow> (u8 \<times> u8) option" where
  "ioapic_peek_pin s = first_ready (chip s) (peek_order s)"

definition ioapic_peek :: "IrqState \<Rightarrow> u8 option" where
  "ioapic_peek s = map_option snd (ioapic_peek_pin s)"

definition ioapic_accept :: "u8 \<Rightarrow> IrqChip \<Rightarrow> IrqChip" where
  "ioapic_accept pin c =
    (let i = unat pin; rte = redir (ioapic c) ! i in
     if rte AND RTE_TRIG_LEVEL \<noteq> 0
     then ioapic_update (redir_update (\<lambda>r. r[i := rte OR RTE_REMOTE_IRR])) c
     else ioapic_update (io_irr_update (\<lambda>r. r AND NOT (one_at i))) c)"

definition take_ioapic_vector :: "IrqState \<Rightarrow> u8 option \<times> IrqState" where
  "take_ioapic_vector s =
    (if \<not> product_live s then (None, s)
     else case ioapic_peek_pin s of
       None \<Rightarrow> (None, s)
     | Some (pin, vec) \<Rightarrow> (Some vec, chip_update (ioapic_accept pin) s))"

definition take_ioapic_ata_vector :: "IrqState \<Rightarrow> u8 option \<times> IrqState" where
  "take_ioapic_ata_vector s =
    (if \<not> product_live s then (None, s)
     else case ioapic_pin_ready (chip s) ATA_GSI of
       None \<Rightarrow> (None, s)
     | Some vec \<Rightarrow> (Some vec, chip_update (ioapic_accept ATA_GSI) s))"

definition eoi_rte :: "u8 \<Rightarrow> u64 \<Rightarrow> u64" where
  "eoi_rte vec rte =
    (if rte_vec rte = vec \<and> rte AND RTE_REMOTE_IRR \<noteq> 0 then rte AND NOT RTE_REMOTE_IRR else rte)"

definition ioapic_eoi :: "u8 \<Rightarrow> IrqState \<Rightarrow> IrqState" where
  "ioapic_eoi vec s =
    (if \<not> product_live s then s
     else chip_update (ioapic_update (redir_update (map (eoi_rte vec)))) s)"

definition ioapic_win_read :: "Ioapic \<Rightarrow> u32" where
  "ioapic_win_read io =
    (let n = io_sel io AND 0xff in
     if n = 0 then io_id io
     else if n = 1 then IOAPIC_VERSION
     else if n = 2 then 0
     else if 0x10 \<le> n \<and> n \<le> 0x3F then
       (let pin = unat ((n - 0x10) div 2) in
        if IOAPIC_PINS \<le> pin then 0
        else let rte = redir io ! pin in
          if n AND 1 = 0 then ucast rte else ucast (drop_bit 32 rte))
     else 0)"

definition ioapic_win_write :: "u32 \<Rightarrow> Ioapic \<Rightarrow> Ioapic" where
  "ioapic_win_write val io =
    (let n = io_sel io AND 0xff in
     if n = 0 then io\<lparr>io_id := val AND 0x0F000000\<rparr>
     else if 0x10 \<le> n \<and> n \<le> 0x3F then
       (let pin = unat ((n - 0x10) div 2) in
        if IOAPIC_PINS \<le> pin then io
        else let rte = redir io ! pin;
                 rte' = (if n AND 1 = 0 then (rte AND NOT 0xFFFFFFFF) OR ucast val
                         else (rte AND 0xFFFFFFFF) OR push_bit 32 (ucast val))
             in io\<lparr>redir := (redir io)[pin := rte']\<rparr>)
     else io)"

definition ioapic_read_locked :: "Ioapic \<Rightarrow> u16 \<Rightarrow> u32" where
  "ioapic_read_locked io off =
    (if off AND 0xff = 0 then io_sel io
     else if off AND 0xff = 0x10 then ioapic_win_read io
     else 0)"

definition ioapic_write_locked :: "u16 \<Rightarrow> u32 \<Rightarrow> Ioapic \<Rightarrow> Ioapic" where
  "ioapic_write_locked off val io =
    (if off AND 0xff = 0 then io\<lparr>io_sel := val\<rparr>
     else if off AND 0xff = 0x10 then ioapic_win_write val io
     else io)"

definition ioapic_read :: "IrqState \<Rightarrow> u16 \<Rightarrow> u32" where
  "ioapic_read s off = ioapic_read_locked (ioapic (chip s)) off"

definition ioapic_write :: "u16 \<Rightarrow> u32 \<Rightarrow> IrqState \<Rightarrow> IrqState" where
  "ioapic_write off val = chip_update (ioapic_update (ioapic_write_locked off val))"

definition note_linux_ioapic_write :: "u16 \<Rightarrow> IrqState \<Rightarrow> IrqState" where
  "note_linux_ioapic_write off s =
    (if off AND 0xff \<noteq> 0x10 then s
     else let n = io_sel (ioapic (chip s)) AND 0xff; pin_lo = 0x10 + 2 * ucast PIT_IOAPIC_GSI in
       if n = pin_lo \<or> n = pin_lo + 1 then s\<lparr>LINUX_IOAPIC_GSI2 := True\<rparr> else s)"

definition ioapic_pin_unmasked :: "IrqState \<Rightarrow> u8 \<Rightarrow> bool" where
  "ioapic_pin_unmasked s pin \<longleftrightarrow> product_live s \<and> unat pin < IOAPIC_PINS \<and>
     (let rte = redir (ioapic (chip s)) ! unat pin in rte AND RTE_MASK = 0 \<and> 16 \<le> rte_vec rte)"

definition ioapic_gsi2_armed :: "IrqState \<Rightarrow> bool" where
  "ioapic_gsi2_armed s = ioapic_pin_unmasked s PIT_IOAPIC_GSI"

definition ioapic_ata_ready :: "IrqState \<Rightarrow> bool" where
  "ioapic_ata_ready s \<longleftrightarrow> product_live s \<and> ioapic_pin_ready (chip s) ATA_GSI \<noteq> None"

section \<open>The 8259 pair\<close>

definition usbdelay_elapsed :: "u64 \<Rightarrow> IrqState \<Rightarrow> bool" where
  "usbdelay_elapsed tsc s \<longleftrightarrow> HOLD_TSC s \<noteq> 0 \<and>
     (let hz = (if TSC_HZ s = 0 then 2100000000 else TSC_HZ s)
      in saturating_mul hz 30 \<le> tsc - HOLD_TSC s)"

definition apk_media_mounted :: "u64 \<Rightarrow> IrqState \<Rightarrow> bool \<times> IrqState" where
  "apk_media_mounted tsc s =
    (if MEDIA_MOUNTED s then (True, s)
     else if usbdelay_elapsed tsc s then (True, s\<lparr>MEDIA_MOUNTED := True\<rparr>)
     else (False, s))"

definition pic_requests :: "Pic \<Rightarrow> u8" where
  "pic_requests p = irr p AND NOT (imr p) AND NOT (isr p)"

definition slave_pending :: "IrqChip \<Rightarrow> u8 option" where
  "slave_pending c =
    (if pic_requests (master c) AND one_at (unat PIC_SLAVE_IRQ) \<noteq> 0 \<and> ready (slave c) \<and>
        16 \<le> vector (slave c)
     then (let slave_req = pic_requests (slave c) in
           if slave_req \<noteq> 0 then Some (8 + of_nat (trailing_zeros slave_req)) else None)
     else None)"

definition pic_pending_irq :: "IrqState \<Rightarrow> u8 option" where
  "pic_pending_irq s =
    (let c = chip s; master_req = pic_requests (master c); slave_irq = slave_pending c;
         pit_first = (prefer_pit_priority s \<and> master_req AND 1 \<noteq> 0) in
     if \<not> ready (master c) \<or> vector (master c) < 16 then None
     else if master_req = 0 then None
     else if slave_irq = Some VIRTIO_PIC_IRQ \<and> pit_first \<and> IRQ11_YIELD_PIT s then Some 0
     else case slave_irq of
       Some irq \<Rightarrow> Some irq
     | None \<Rightarrow>
         if pit_first then Some 0
         else let master_dev = master_req AND NOT 1 AND NOT (one_at (unat PIC_SLAVE_IRQ)) in
           if master_dev \<noteq> 0 then Some (of_nat (trailing_zeros master_dev))
           else let irq = of_nat (trailing_zeros master_req) in
             if irq = PIC_SLAVE_IRQ then None else Some irq)"

definition irq_vector :: "IrqChip \<Rightarrow> u8 \<Rightarrow> u8" where
  "irq_vector c irq = (if irq < 8 then vector (master c) + irq else vector (slave c) + (irq - 8))"

definition pic_peek :: "IrqState \<Rightarrow> u8 option" where
  "pic_peek s = map_option (irq_vector (chip s)) (pic_pending_irq s)"

definition count_take :: "u8 \<Rightarrow> IrqState \<Rightarrow> IrqState" where
  "count_take irq s =
    (if irq = 0 then s\<lparr>TAKE_IRQ0 := TAKE_IRQ0 s + 1\<rparr>
     else if irq = 4 then s\<lparr>TAKE_IRQ4 := TAKE_IRQ4 s + 1\<rparr>
     else if irq = VIRTIO_PIC_IRQ then s\<lparr>TAKE_IRQ11 := TAKE_IRQ11 s + 1\<rparr>
     else s)"

definition note_yield :: "u64 \<Rightarrow> u8 \<Rightarrow> IrqState \<Rightarrow> IrqState" where
  "note_yield tsc irq s =
    (if irq = 0 then s\<lparr>PREFER_PIT_ONCE := False, IRQ11_YIELD_PIT := False, PIC11_SINCE_PIT := 0\<rparr>
     else if irq = VIRTIO_PIC_IRQ then
       (case apk_media_mounted tsc s of (mounted, s) \<Rightarrow>
          if mounted then
            let n = saturating_add (PIC11_SINCE_PIT s) 1;
                s = s\<lparr>PIC11_SINCE_PIT := PIC11_SINCE_PIT s + 1, IRQ11_YIELD_PIT := 3 \<le> n\<rparr>
            in if 3 \<le> n then s\<lparr>PIC11_SINCE_PIT := 0\<rparr> else s
          else s\<lparr>IRQ11_YIELD_PIT := True\<rparr>)
     else s)"

definition pic_inta :: "u8 \<Rightarrow> IrqChip \<Rightarrow> IrqChip" where
  "pic_inta irq c =
    (if irq < 8 then
       (let c = master_update (irr_update (\<lambda>r. r AND NOT (one_at (unat irq)))) c in
        if \<not> aeoi (master c) then master_update (isr_update (\<lambda>r. r OR one_at (unat irq))) c else c)
     else
       (let n = unat (irq - 8);
            c = (if \<not> pic_level_intx irq
                 then slave_update (irr_update (\<lambda>r. r AND NOT (one_at n))) c else c);
            c = (if \<not> aeoi (slave c)
                 then master_update (isr_update (\<lambda>r. r OR one_at (unat PIC_SLAVE_IRQ)))
                        (slave_update (isr_update (\<lambda>r. r OR one_at n)) c) else c)
        in drop_idle_cascade c))"

definition pic_take :: "u64 \<Rightarrow> IrqState \<Rightarrow> u8 option \<times> IrqState" where
  "pic_take tsc s =
    (case pic_pending_irq s of
       None \<Rightarrow> (None, s)
     | Some irq \<Rightarrow>
         (Some (irq_vector (chip s) irq),
          chip_update (pic_inta irq) (note_yield tsc irq (count_take irq s))))"

definition peek_vector :: "IrqState \<Rightarrow> u8 option" where
  "peek_vector s = (case ioapic_peek s of Some v \<Rightarrow> Some v | None \<Rightarrow> pic_peek s)"

definition take_vector :: "u64 \<Rightarrow> IrqState \<Rightarrow> u8 option \<times> IrqState" where
  "take_vector tsc s =
    (case ioapic_peek_pin s of
       Some (pin, vec) \<Rightarrow> (Some vec, chip_update (ioapic_accept pin) s)
     | None \<Rightarrow> pic_take tsc s)"

definition has_deliverable :: "IrqState \<Rightarrow> bool" where
  "has_deliverable s \<longleftrightarrow> product_live s \<and> peek_vector s \<noteq> None"

definition pic_has_deliverable :: "IrqState \<Rightarrow> bool" where
  "pic_has_deliverable s \<longleftrightarrow> product_live s \<and> pic_peek s \<noteq> None"

definition take_pic_vector :: "u64 \<Rightarrow> IrqState \<Rightarrow> u8 option \<times> IrqState" where
  "take_pic_vector tsc s = (if \<not> product_live s then (None, s) else pic_take tsc s)"

definition take_inject_vector :: "u64 \<Rightarrow> IrqState \<Rightarrow> u8 option \<times> IrqState" where
  "take_inject_vector tsc s = (if \<not> product_live s then (None, s) else take_vector tsc s)"

definition pic_ocw2_is_eoi :: "u8 \<Rightarrow> bool" where
  "pic_ocw2_is_eoi val \<longleftrightarrow> val AND 0x18 = 0 \<and> val AND 0x20 \<noteq> 0"

definition pic_ocw2_eoi_bit :: "u8 \<Rightarrow> u8 \<Rightarrow> u8" where
  "pic_ocw2_eoi_bit in_service val =
    (if \<not> pic_ocw2_is_eoi val \<or> in_service = 0 then 0
     else if val AND 0x40 \<noteq> 0 then
       (let b = one_at (unat (val AND 7)) in if in_service AND b \<noteq> 0 then b else 0)
     else one_at (trailing_zeros in_service))"

definition pic_cmd :: "u8 \<Rightarrow> Pic \<Rightarrow> Pic" where
  "pic_cmd val p =
    (if val AND 0x10 \<noteq> 0 then
       p\<lparr>init_state := 1, expect_icw4 := val AND 1 \<noteq> 0, imr := 0, isr := 0, irr := 0,
         ready := False, read_isr := False, aeoi := False\<rparr>
     else if val AND 0x08 \<noteq> 0 then p\<lparr>read_isr := val AND 0x03 = 0x03\<rparr>
     else p\<lparr>isr := isr p AND NOT (pic_ocw2_eoi_bit (isr p) val)\<rparr>)"

definition pic_data :: "u8 \<Rightarrow> Pic \<Rightarrow> Pic" where
  "pic_data val p =
    (if init_state p = 1 then p\<lparr>vector := val, init_state := 2\<rparr>
     else if init_state p = 2 then
       (let p = p\<lparr>init_state := if expect_icw4 p then 3 else 0\<rparr> in
        if init_state p = 0 then p\<lparr>ready := 16 \<le> vector p\<rparr> else p)
     else if init_state p = 3 then
       p\<lparr>init_state := 0, ready := 16 \<le> vector p, aeoi := val AND 2 \<noteq> 0\<rparr>
     else p\<lparr>imr := val\<rparr>)"

definition pic_read :: "IrqChip \<Rightarrow> u16 \<Rightarrow> u8" where
  "pic_read c port =
    (if port = 0x21 then imr (master c)
     else if port = 0xA1 then imr (slave c)
     else if port = 0x20 then (if read_isr (master c) then isr (master c) else irr (master c))
     else if port = 0xA0 then (if read_isr (slave c) then isr (slave c) else irr (slave c))
     else 0)"

definition pic_of_update :: "u16 \<Rightarrow> (Pic \<Rightarrow> Pic) \<Rightarrow> IrqChip \<Rightarrow> IrqChip" where
  "pic_of_update port f =
    (if port = 0xA0 \<or> port = 0xA1 \<or> port = 0x4D1 then slave_update f else master_update f)"

definition note_eoi :: "u16 \<Rightarrow> u8 \<Rightarrow> IrqState \<Rightarrow> IrqState" where
  "note_eoi port val s =
    (if pic_ocw2_is_eoi val then
       (if port = 0xA0 then s\<lparr>EOI_SLAVE := EOI_SLAVE s + 1, LAST_OCW2_SLAVE := val\<rparr>
        else s\<lparr>EOI_MASTER := EOI_MASTER s + 1, LAST_OCW2_MASTER := val\<rparr>)
     else s)"

definition pic_write :: "u16 \<Rightarrow> u8 \<Rightarrow> IrqState \<Rightarrow> IrqState" where
  "pic_write port val s =
    (if port = 0x20 \<or> port = 0xA0
     then chip_update (pic_of_update port (pic_cmd val)) (note_eoi port val s)
     else if port = 0x21 \<or> port = 0xA1 then chip_update (pic_of_update port (pic_data val)) s
     else s)"

definition pic_io :: "u16 \<Rightarrow> bool \<Rightarrow> u8 \<Rightarrow> u64 \<Rightarrow> IrqState \<Rightarrow> u64 \<times> IrqState" where
  "pic_io port is_in sz rax s =
    (let msk = (if sz = 1 then 0xff else if sz = 2 then 0xffff else 0xffffffff) in
     if is_in then ((rax AND NOT msk) OR (ucast (pic_read (chip s) port) AND msk), s)
     else (rax, pic_write port (ucast rax) s))"

section \<open>Firmware wiring\<close>

definition ata_vec_default :: u8 where "ata_vec_default = 0x20 + ATA_GSI"

definition pic_idle_default :: "u8 \<Rightarrow> Pic \<Rightarrow> Pic" where
  "pic_idle_default vec p =
    (if init_state p \<noteq> 0 then p
     else if \<not> ready p \<or> vector p < 16 then p\<lparr>ready := True, vector := vec\<rparr>
     else p)"

definition pic_irq14_vec :: "IrqChip \<Rightarrow> u8" where
  "pic_irq14_vec c =
    (if 16 \<le> vector (slave c) then vector (slave c) + (ATA_GSI - 8) else 0x20 + ATA_GSI)"

definition firmware_ata_vec_locked :: "IrqChip \<Rightarrow> u8" where
  "firmware_ata_vec_locked c =
    (let io = rte_vec (redir (ioapic c) ! unat ATA_GSI); pic = pic_irq14_vec c;
         dflt = ata_vec_default in
     if 16 \<le> io \<and> io \<noteq> dflt then io
     else if pic \<noteq> dflt then pic
     else if 16 \<le> io then io
     else pic)"

definition firmware_ata_vec :: "IrqState \<Rightarrow> u8" where
  "firmware_ata_vec s =
    (if \<not> product_live s then 0x20 + ATA_GSI else firmware_ata_vec_locked (chip s))"

definition firmware_is_pit_vec :: "IrqState \<Rightarrow> u8 \<Rightarrow> bool" where
  "firmware_is_pit_vec s vec \<longleftrightarrow> vec = 0x20 \<or>
     product_live s \<and> ready (master (chip s)) \<and> 16 \<le> vector (master (chip s)) \<and>
     vec = vector (master (chip s))"

definition pic_ata_ready :: "IrqState \<Rightarrow> bool" where
  "pic_ata_ready s \<longleftrightarrow> product_live s \<and>
     (let want = firmware_ata_vec_locked (chip s)
      in pic_peek s = Some want \<and> want = pic_irq14_vec (chip s))"

definition arm_firmware_virtual_wire :: "IrqState \<Rightarrow> IrqState" where
  "arm_firmware_virtual_wire s =
    (if \<not> product_live s then s
     else chip_update (\<lambda>c.
            ioapic_update (redir_update
              (\<lambda>r. r[unat PIT_IOAPIC_GSI := 0x20, unat ATA_GSI := ucast (0x20 + ATA_GSI)]))
              (master_update (\<lambda>p. let p = pic_idle_default 0x20 p
                                  in p\<lparr>imr := imr p AND NOT 1, aeoi := True\<rparr>) c))
          (s\<lparr>FIRMWARE_WIRE := True\<rparr>))"

definition arm_firmware_ata_gsi14 :: "IrqState \<Rightarrow> IrqState" where
  "arm_firmware_ata_gsi14 s =
    (if \<not> product_live s then s
     else chip_update (\<lambda>c.
       let c = master_update (\<lambda>p. (pic_idle_default 0x20 p)\<lparr>aeoi := True\<rparr>)
                 (slave_update (\<lambda>p. (pic_idle_default 0x28 p)\<lparr>aeoi := True\<rparr>) c);
           rte = redir (ioapic c) ! unat ATA_GSI;
           want = firmware_ata_vec_locked c
       in master_update (imr_update (\<lambda>r. r AND NOT (one_at (unat PIC_SLAVE_IRQ))))
            (slave_update (imr_update (\<lambda>r. r AND NOT (one_at (unat (ATA_GSI - 8)))))
              (ioapic_update (redir_update (\<lambda>r. r[unat ATA_GSI :=
                 (rte AND NOT 0xff AND NOT RTE_MASK) OR ucast want])) c))) s)"

section \<open>Runs of the chip\<close>

datatype IrqOp = RaiseGsi u8 | LowerGsi u8 | RaisePit | PicIo u16 bool u8 u64
  | IoapicWrite u16 u32 | NoteIoapicWrite u16 | TakePic u64 | TakeInject u64 | TakeIoapic
  | TakeIoapicAta | IoapicEoi u8 | ArmWire | ArmAta | PreferOnce | PreferHold u64 bool
  | LinuxDevIrq

fun irq_exec :: "IrqOp \<Rightarrow> IrqState \<Rightarrow> IrqState" where
  "irq_exec (RaiseGsi gsi) s = raise_gsi gsi s"
| "irq_exec (LowerGsi gsi) s = lower_gsi gsi s"
| "irq_exec RaisePit s = raise_pit s"
| "irq_exec (PicIo port is_in sz rax) s = snd (pic_io port is_in sz rax s)"
| "irq_exec (IoapicWrite off val) s = ioapic_write off val s"
| "irq_exec (NoteIoapicWrite off) s = note_linux_ioapic_write off s"
| "irq_exec (TakePic tsc) s = snd (take_pic_vector tsc s)"
| "irq_exec (TakeInject tsc) s = snd (take_inject_vector tsc s)"
| "irq_exec TakeIoapic s = snd (take_ioapic_vector s)"
| "irq_exec TakeIoapicAta s = snd (take_ioapic_ata_vector s)"
| "irq_exec (IoapicEoi vec) s = ioapic_eoi vec s"
| "irq_exec ArmWire s = arm_firmware_virtual_wire s"
| "irq_exec ArmAta s = arm_firmware_ata_gsi14 s"
| "irq_exec PreferOnce s = prefer_pit_once s"
| "irq_exec (PreferHold tsc need) s = prefer_pit_hold tsc need s"
| "irq_exec LinuxDevIrq s = note_linux_dev_irq s"

abbreviation irq_run :: "IrqOp list \<Rightarrow> IrqState \<Rightarrow> IrqState" where
  "irq_run ops s \<equiv> fold irq_exec ops s"

text \<open>The 8259 request an operation acknowledges, if any.\<close>

fun inta_irq :: "IrqOp \<Rightarrow> IrqState \<Rightarrow> u8 option" where
  "inta_irq (TakePic tsc) s = (if product_live s then pic_pending_irq s else None)"
| "inta_irq (TakeInject tsc) s =
    (if product_live s \<and> ioapic_peek_pin s = None then pic_pending_irq s else None)"
| "inta_irq op s = None"

definition pit_waits :: "IrqState \<Rightarrow> bool" where
  "pit_waits s \<longleftrightarrow> prefer_pit_priority s \<and> bit (pic_requests (master (chip s))) 0"

text \<open>
  The number of consecutive acknowledgements of IRQ 11 that went ahead of a preferred and
  requested IRQ 0.
\<close>

definition bypass_step :: "IrqOp \<Rightarrow> IrqState \<Rightarrow> nat \<Rightarrow> nat" where
  "bypass_step op s k =
    (case inta_irq op s of
       None \<Rightarrow> k
     | Some irq \<Rightarrow>
         if irq = VIRTIO_PIC_IRQ \<and> pit_waits s then k + 1
         else if irq = VIRTIO_PIC_IRQ \<or> irq = PIT_IRQ then 0 else k)"

fun pit_bypasses :: "nat \<Rightarrow> IrqState \<Rightarrow> IrqOp list \<Rightarrow> nat" where
  "pit_bypasses k s [] = k"
| "pit_bypasses k s (op # ops) = pit_bypasses (bypass_step op s k) (irq_exec op s) ops"

definition yield_inv :: "nat \<Rightarrow> IrqState \<Rightarrow> bool" where
  "yield_inv k s \<longleftrightarrow> unat (PIC11_SINCE_PIT s) < 3 \<and>
     (IRQ11_YIELD_PIT s \<longrightarrow> k \<le> 3) \<and> (\<not> IRQ11_YIELD_PIT s \<longrightarrow> k \<le> unat (PIC11_SINCE_PIT s))"

lemma and_1_bit0: "(w :: 'a::len word) AND 1 \<noteq> 0 \<longleftrightarrow> bit w 0"
  using and_one_at_eq_0 [of w 0] by (simp add: one_at_def)

lemma yield_pending:
  assumes "pic_pending_irq s = Some VIRTIO_PIC_IRQ" and "pit_waits s"
  shows "\<not> IRQ11_YIELD_PIT s"
  using assms unfolding pic_pending_irq_def pit_waits_def Let_def and_1_bit0
  by (auto simp: irq_consts split: if_splits option.splits)

lemma yield_frame:
  "PIC11_SINCE_PIT (raise_gsi gsi s) = PIC11_SINCE_PIT s"
  "IRQ11_YIELD_PIT (raise_gsi gsi s) = IRQ11_YIELD_PIT s"
  "PIC11_SINCE_PIT (lower_gsi gsi s) = PIC11_SINCE_PIT s"
  "IRQ11_YIELD_PIT (lower_gsi gsi s) = IRQ11_YIELD_PIT s"
  "PIC11_SINCE_PIT (raise_pit s) = PIC11_SINCE_PIT s"
  "IRQ11_YIELD_PIT (raise_pit s) = IRQ11_YIELD_PIT s"
  "PIC11_SINCE_PIT (ioapic_write off w s) = PIC11_SINCE_PIT s"
  "IRQ11_YIELD_PIT (ioapic_write off w s) = IRQ11_YIELD_PIT s"
  "PIC11_SINCE_PIT (ioapic_eoi v s) = PIC11_SINCE_PIT s"
  "IRQ11_YIELD_PIT (ioapic_eoi v s) = IRQ11_YIELD_PIT s"
  "PIC11_SINCE_PIT (arm_firmware_virtual_wire s) = PIC11_SINCE_PIT s"
  "IRQ11_YIELD_PIT (arm_firmware_virtual_wire s) = IRQ11_YIELD_PIT s"
  "PIC11_SINCE_PIT (arm_firmware_ata_gsi14 s) = PIC11_SINCE_PIT s"
  "IRQ11_YIELD_PIT (arm_firmware_ata_gsi14 s) = IRQ11_YIELD_PIT s"
  "PIC11_SINCE_PIT (prefer_pit_once s) = PIC11_SINCE_PIT s"
  "IRQ11_YIELD_PIT (prefer_pit_once s) = IRQ11_YIELD_PIT s"
  "PIC11_SINCE_PIT (prefer_pit_hold tsc b s) = PIC11_SINCE_PIT s"
  "IRQ11_YIELD_PIT (prefer_pit_hold tsc b s) = IRQ11_YIELD_PIT s"
  "PIC11_SINCE_PIT (note_linux_dev_irq s) = PIC11_SINCE_PIT s"
  "IRQ11_YIELD_PIT (note_linux_dev_irq s) = IRQ11_YIELD_PIT s"
  "PIC11_SINCE_PIT (note_linux_ioapic_write off s) = PIC11_SINCE_PIT s"
  "IRQ11_YIELD_PIT (note_linux_ioapic_write off s) = IRQ11_YIELD_PIT s"
  "PIC11_SINCE_PIT (pic_write port val s) = PIC11_SINCE_PIT s"
  "IRQ11_YIELD_PIT (pic_write port val s) = IRQ11_YIELD_PIT s"
  by (simp_all add: raise_gsi_def lower_gsi_def raise_pit_def raise_ioapic_gsi_def
      raise_pic_irq_def ioapic_write_def ioapic_eoi_def arm_firmware_virtual_wire_def
      arm_firmware_ata_gsi14_def prefer_pit_once_def prefer_pit_hold_def note_overlay_hold_def
      note_linux_dev_irq_def note_linux_ioapic_write_def pic_write_def note_eoi_def Let_def)

lemma take_ioapic_frame:
  "PIC11_SINCE_PIT (snd (take_ioapic_vector s)) = PIC11_SINCE_PIT s"
  "IRQ11_YIELD_PIT (snd (take_ioapic_vector s)) = IRQ11_YIELD_PIT s"
  "PIC11_SINCE_PIT (snd (take_ioapic_ata_vector s)) = PIC11_SINCE_PIT s"
  "IRQ11_YIELD_PIT (snd (take_ioapic_ata_vector s)) = IRQ11_YIELD_PIT s"
  by (simp_all add: take_ioapic_vector_def take_ioapic_ata_vector_def split: option.split)

lemma snd_pic_io: "snd (pic_io port is_in sz rax s) = (if is_in then s else pic_write port (ucast rax) s)"
  by (simp add: pic_io_def Let_def)

lemma snd_take_pic_vector:
  "snd (take_pic_vector tsc s) =
    (case inta_irq (TakePic tsc) s of None \<Rightarrow> s
     | Some irq \<Rightarrow> chip_update (pic_inta irq) (note_yield tsc irq (count_take irq s)))"
  by (simp add: take_pic_vector_def pic_take_def split: option.split)

lemma snd_take_inject_vector:
  "snd (take_inject_vector tsc s) =
    (if product_live s \<and> ioapic_peek_pin s \<noteq> None
     then chip_update (ioapic_accept (fst (the (ioapic_peek_pin s)))) s
     else case inta_irq (TakeInject tsc) s of None \<Rightarrow> s
     | Some irq \<Rightarrow> chip_update (pic_inta irq) (note_yield tsc irq (count_take irq s)))"
  by (simp add: take_inject_vector_def take_vector_def pic_take_def split: option.split)

lemma no_inta_keeps_yield:
  assumes "inta_irq op s = None"
  shows "PIC11_SINCE_PIT (irq_exec op s) = PIC11_SINCE_PIT s \<and>
    IRQ11_YIELD_PIT (irq_exec op s) = IRQ11_YIELD_PIT s"
proof (cases op)
  case (TakePic tsc)
  then show ?thesis using assms by (simp only: irq_exec.simps snd_take_pic_vector option.case simp_thms)
next
  case (TakeInject tsc)
  then show ?thesis
    using assms by (cases "product_live s \<and> ioapic_peek_pin s \<noteq> None")
      (simp_all only: irq_exec.simps snd_take_inject_vector option.case simp_thms if_True if_False,
       simp)
qed (simp_all add: yield_frame take_ioapic_frame snd_pic_io)

lemma inta_exec:
  assumes "inta_irq op s = Some irq"
  obtains tsc where "pic_pending_irq s = Some irq"
    and "irq_exec op s = chip_update (pic_inta irq) (note_yield tsc irq (count_take irq s))"
proof (cases op)
  case (TakePic tsc)
  have "irq_exec op s = chip_update (pic_inta irq) (note_yield tsc irq (count_take irq s))"
    using assms unfolding TakePic irq_exec.simps snd_take_pic_vector by simp
  moreover have "pic_pending_irq s = Some irq"
    using assms TakePic by (simp split: if_splits)
  ultimately show thesis using that by blast
next
  case (TakeInject tsc)
  have no: "\<not> (product_live s \<and> ioapic_peek_pin s \<noteq> None)"
    using assms TakeInject by (auto split: if_splits)
  have "irq_exec op s = chip_update (pic_inta irq) (note_yield tsc irq (count_take irq s))"
    using assms unfolding TakeInject irq_exec.simps snd_take_inject_vector if_not_P [OF no] by simp
  moreover have "pic_pending_irq s = Some irq"
    using assms TakeInject by (simp split: if_splits)
  ultimately show thesis using that by blast
qed (use assms in simp_all)

lemma yield_fields_of_take:
  "PIC11_SINCE_PIT (chip_update f s) = PIC11_SINCE_PIT s"
  "IRQ11_YIELD_PIT (chip_update f s) = IRQ11_YIELD_PIT s"
  "PIC11_SINCE_PIT (count_take irq s) = PIC11_SINCE_PIT s"
  "IRQ11_YIELD_PIT (count_take irq s) = IRQ11_YIELD_PIT s"
  by (simp_all add: count_take_def)

lemma note_yield_irq11:
  assumes "unat (PIC11_SINCE_PIT s) < 3"
  shows "unat (PIC11_SINCE_PIT (note_yield tsc VIRTIO_PIC_IRQ s)) < 3"
    and "IRQ11_YIELD_PIT (note_yield tsc VIRTIO_PIC_IRQ s) \<or>
         unat (PIC11_SINCE_PIT (note_yield tsc VIRTIO_PIC_IRQ s)) = unat (PIC11_SINCE_PIT s) + 1"
proof -
  have n: "unat (saturating_add (PIC11_SINCE_PIT s) 1) = unat (PIC11_SINCE_PIT s) + 1"
    "unat (PIC11_SINCE_PIT s + 1) = unat (PIC11_SINCE_PIT s) + 1"
    using assms by (simp_all add: unat_saturating_add word_nat_simps)
  then have le: "3 \<le> saturating_add (PIC11_SINCE_PIT s) 1 \<longleftrightarrow> 2 \<le> unat (PIC11_SINCE_PIT s)"
    by (simp add: word_le_nat_alt)
  show "unat (PIC11_SINCE_PIT (note_yield tsc VIRTIO_PIC_IRQ s)) < 3"
    using assms n by (simp add: note_yield_def apk_media_mounted_def irq_consts Let_def le)
  show "IRQ11_YIELD_PIT (note_yield tsc VIRTIO_PIC_IRQ s) \<or>
      unat (PIC11_SINCE_PIT (note_yield tsc VIRTIO_PIC_IRQ s)) = unat (PIC11_SINCE_PIT s) + 1"
    using n by (simp add: note_yield_def apk_media_mounted_def irq_consts Let_def le)
qed

lemma yield_inv_step:
  assumes "yield_inv k s"
  shows "yield_inv (bypass_step op s k) (irq_exec op s)"
proof (cases "inta_irq op s")
  case None
  then show ?thesis
    using assms no_inta_keeps_yield [OF None] by (simp add: bypass_step_def yield_inv_def)
next
  case (Some irq)
  then obtain tsc where p: "pic_pending_irq s = Some irq"
    and e: "irq_exec op s = chip_update (pic_inta irq) (note_yield tsc irq (count_take irq s))"
    by (rule inta_exec)
  have inv: "unat (PIC11_SINCE_PIT s) < 3"
    "\<not> IRQ11_YIELD_PIT s \<longrightarrow> k \<le> unat (PIC11_SINCE_PIT s)"
    using assms unfolding yield_inv_def by blast+
  consider (virtio) "irq = VIRTIO_PIC_IRQ" | (timer) "irq = PIT_IRQ"
    | (other) "irq \<noteq> VIRTIO_PIC_IRQ" "irq \<noteq> PIT_IRQ" by blast
  then show ?thesis
  proof cases
    case virtio
    let ?s = "count_take VIRTIO_PIC_IRQ s"
    have y: "unat (PIC11_SINCE_PIT (note_yield tsc VIRTIO_PIC_IRQ ?s)) < 3"
      "IRQ11_YIELD_PIT (note_yield tsc VIRTIO_PIC_IRQ ?s) \<or>
       unat (PIC11_SINCE_PIT (note_yield tsc VIRTIO_PIC_IRQ ?s)) = unat (PIC11_SINCE_PIT s) + 1"
      using note_yield_irq11 [of ?s tsc] inv by (simp_all add: yield_fields_of_take)
    have "k \<le> unat (PIC11_SINCE_PIT s)" if "pit_waits s"
      using yield_pending that p inv virtio by simp
    then show ?thesis
      using y inv(1) Some virtio
      by (auto simp: yield_inv_def bypass_step_def e yield_fields_of_take irq_consts)
  next
    case timer
    then show ?thesis
      using Some by (simp add: yield_inv_def bypass_step_def e yield_fields_of_take note_yield_def
          irq_consts)
  next
    case other
    then show ?thesis
      using Some assms by (simp add: yield_inv_def bypass_step_def e yield_fields_of_take
          note_yield_def irq_consts)
  qed
qed

lemma yield_inv_run:
  "yield_inv k s \<Longrightarrow> yield_inv (pit_bypasses k s ops) (irq_run ops s)"
  by (induction ops arbitrary: k s) (simp_all add: yield_inv_step)

text \<open>
  C34: while a timer preference is set, the virtio interrupt IRQ 11 cannot starve the timer: in
  any sequence of operations on the chip at most three acknowledgements of IRQ 11 in a row go
  ahead of a requested IRQ 0, and once three have, the next acknowledgement that would
  choose IRQ 11 delivers IRQ 0 instead.
\<close>

theorem irq11_yields_to_pit:
  assumes "unat (PIC11_SINCE_PIT s) < 3"
  shows "let k = pit_bypasses 0 s ops; s' = irq_run ops s; m = master (chip s') in
    k \<le> 3 \<and>
    (k = 3 \<and> pit_waits s' \<and> ready m \<and> 16 \<le> vector m \<and>
       slave_pending (chip s') = Some VIRTIO_PIC_IRQ \<longrightarrow> pic_pending_irq s' = Some PIT_IRQ)"
proof -
  define k s' where "k = pit_bypasses 0 s ops" and "s' = irq_run ops s"
  have "yield_inv 0 s" using assms by (simp add: yield_inv_def)
  then have inv: "yield_inv k s'" unfolding k_def s'_def by (rule yield_inv_run)
  then have "k \<le> 3" by (auto simp: yield_inv_def)
  moreover have "IRQ11_YIELD_PIT s'" if "k = 3"
    using inv that by (auto simp: yield_inv_def)
  ultimately have "k \<le> 3 \<and> (k = 3 \<and> pit_waits s' \<and> ready (master (chip s')) \<and>
      16 \<le> vector (master (chip s')) \<and> slave_pending (chip s') = Some VIRTIO_PIC_IRQ \<longrightarrow>
      pic_pending_irq s' = Some PIT_IRQ)"
    by (auto simp: pic_pending_irq_def pit_waits_def Let_def and_1_bit0 irq_consts)
  then show ?thesis by (simp add: Let_def k_def s'_def)
qed

text \<open>An initialised 8259 pair with both lines requested: the bound is reached.\<close>

definition yield_example :: IrqState where
  "yield_example = irq_statics\<lparr>LINUX_DEV_IRQ := True, PREFER_PIT_HOLD := True, MEDIA_MOUNTED := True,
     chip := chip_empty\<lparr>
       master := pic_empty\<lparr>imr := 0, irr := 5, vector := 0x20, ready := True, aeoi := True\<rparr>,
       slave := pic_empty\<lparr>imr := 0, irr := 8, vector := 0x28, ready := True, aeoi := True\<rparr>\<rparr>\<rparr>"

theorem irq11_yields_to_pit_witness:
  "pic_pending_irq yield_example = Some VIRTIO_PIC_IRQ \<and>
   pit_bypasses 0 yield_example [TakePic 1, TakePic 2, TakePic 3] = 3 \<and>
   pic_pending_irq (irq_run [TakePic 1, TakePic 2, TakePic 3] yield_example) = Some PIT_IRQ"
proof -
  let ?ops = "[TakePic 1, TakePic 2, TakePic 3]"
  let ?s = "irq_run ?ops yield_example"
  have p: "pic_pending_irq yield_example = Some VIRTIO_PIC_IRQ" by code_simp
  have k: "pit_bypasses 0 yield_example ?ops = 3" by code_simp
  have "pit_waits ?s \<and> ready (master (chip ?s)) \<and> 16 \<le> vector (master (chip ?s)) \<and>
      slave_pending (chip ?s) = Some VIRTIO_PIC_IRQ"
    by code_simp
  moreover have "unat (PIC11_SINCE_PIT yield_example) < 3" by (simp add: yield_example_def irq_statics_def)
  ultimately show ?thesis
    using irq11_yields_to_pit [of yield_example ?ops] p k by (simp only: Let_def simp_thms)
qed

section \<open>Acknowledge and end of interrupt\<close>

text \<open>Line \<open>irq\<close> of the 8259 pair is requested, unmasked and not in service.\<close>

definition requested :: "IrqChip \<Rightarrow> u8 \<Rightarrow> bool" where
  "requested c irq \<longleftrightarrow>
     irq < 8 \<and> irq \<noteq> PIC_SLAVE_IRQ \<and> bit (pic_requests (master c)) (unat irq) \<or>
     8 \<le> irq \<and> irq < 16 \<and> bit (pic_requests (slave c)) (unat (irq - 8)) \<and>
       bit (pic_requests (master c)) 2"

text \<open>The specific end-of-interrupt commands a guest driver writes for line \<open>irq\<close>.\<close>

definition guest_eoi :: "u8 \<Rightarrow> IrqState \<Rightarrow> IrqState" where
  "guest_eoi irq s =
    (if irq < 8 then pic_write 0x20 (0x60 OR irq) s
     else pic_write 0x20 0x62 (pic_write 0xA0 (0x60 OR (irq - 8)) s))"

lemma bit_pic_requests:
  "bit (pic_requests p) n \<longleftrightarrow> n < 8 \<and> bit (irr p) n \<and> \<not> bit (imr p) n \<and> \<not> bit (isr p) n"
  by (auto simp: pic_requests_def bit_and_iff bit_not_iff dest: bit_imp_le_length)

lemma u8_of_nat_small: "n < 8 \<Longrightarrow> unat (of_nat n :: u8) = n"
  by (simp add: unat_of_nat_small)

lemma u8_less_8_cases:
  assumes "(n :: u8) < 8"
  shows "n = 0 \<or> n = 1 \<or> n = 2 \<or> n = 3 \<or> n = 4 \<or> n = 5 \<or> n = 6 \<or> n = 7"
proof -
  have "unat n < 8" using assms by (simp add: word_less_nat_alt)
  then have "unat n \<in> set [0..<8]" by simp
  then show ?thesis by (auto simp: upt_rec word_unat_eq_iff)
qed

lemma slave_pending_requested:
  assumes "slave_pending c = Some irq"
  shows "requested c irq"
proof -
  have m: "bit (pic_requests (master c)) 2" and nz: "pic_requests (slave c) \<noteq> 0"
    and irq: "irq = 8 + of_nat (trailing_zeros (pic_requests (slave c)))"
    using assms unfolding slave_pending_def Let_def
    by (auto simp: one_bit irq_consts split: if_splits)
  let ?n = "trailing_zeros (pic_requests (slave c))"
  have n: "?n < 8" "bit (pic_requests (slave c)) ?n"
    using trailing_zeros_bit [OF nz] by simp_all
  have "unat irq = 8 + ?n"
    unfolding irq using n by (subst unat_add_small) (simp_all add: u8_of_nat_small)
  moreover have "unat (irq - 8) = ?n" unfolding irq using n by (simp add: u8_of_nat_small)
  ultimately show ?thesis
    using m n by (simp add: requested_def word_le_nat_alt word_less_nat_alt)
qed

lemma pic_pending_cases:
  assumes "pic_pending_irq s = Some irq"
  defines "req \<equiv> pic_requests (master (chip s))"
  defines "dev \<equiv> req AND NOT 1 AND NOT (one_at (unat PIC_SLAVE_IRQ))"
  obtains "irq = 0" "req AND 1 \<noteq> 0"
    | "slave_pending (chip s) = Some irq"
    | "irq = of_nat (trailing_zeros dev)" "dev \<noteq> 0"
    | "irq = of_nat (trailing_zeros req)" "req \<noteq> 0" "irq \<noteq> PIC_SLAVE_IRQ"
proof -
  have chain: "\<not> A \<and> \<not> B \<and> (C \<and> i = z \<or> \<not> C \<and> X = Some i)"
    if "(if A then None else if B then None else if C then Some z else X) = Some i"
    for A B C and z i :: u8 and X
    using that by (simp split: if_splits)
  have scan: "P \<and> i = 0 \<or> D \<and> i = d \<or> i = r \<and> r \<noteq> c"
    if "(if P then Some 0 else if D then Some d else if r = c then None else Some r) = Some i"
    for P D and d r c i :: u8
    using that by (auto split: if_splits)
  note c = chain [OF assms(1) [unfolded pic_pending_irq_def Let_def], folded req_def]
  show thesis
  proof (cases "slave_pending (chip s)")
    case None
    have "(if prefer_pit_priority s \<and> req AND 1 \<noteq> 0 then Some 0
        else if dev \<noteq> 0 then Some (of_nat (trailing_zeros dev))
        else if of_nat (trailing_zeros req) = PIC_SLAVE_IRQ then None
        else Some (of_nat (trailing_zeros req))) = Some irq"
      using c unfolding None dev_def by (simp only: option.case option.distinct simp_thms)
    from scan [OF this] show thesis using that(1,3,4) c by blast
  next
    case (Some i)
    then show thesis using that(1,2) c by (simp only: option.case option.inject) blast
  qed
qed

lemma pending_irq_requested:
  assumes "pic_pending_irq s = Some irq"
  shows "requested (chip s) irq"
proof -
  let ?req = "pic_requests (master (chip s))"
  let ?dev = "?req AND NOT 1 AND NOT (one_at (unat PIC_SLAVE_IRQ))"
  have dev: "bit ?dev n \<longleftrightarrow> bit ?req n \<and> n \<noteq> 0 \<and> n \<noteq> 2" for n
    by (auto simp: bit_and_iff bit_not_iff bit_1_iff one_bit irq_consts dest: bit_imp_le_length)
  have scan: "requested (chip s) (of_nat (trailing_zeros w))"
    if "w \<noteq> 0" "\<And>n. bit w n \<Longrightarrow> bit ?req n" "trailing_zeros w \<noteq> 2" for w :: u8
  proof -
    have n: "trailing_zeros w < 8" "bit ?req (trailing_zeros w)"
      using trailing_zeros_bit [OF that(1)] that(2) by simp_all
    then show ?thesis
      using that(3) by (simp add: requested_def u8_of_nat_small word_less_nat_alt irq_consts
          word_unat_eq_iff)
  qed
  have zero: "requested (chip s) 0" if "?req AND 1 \<noteq> 0"
    using that by (simp add: requested_def and_1_bit0 irq_consts)
  consider "irq = 0" "?req AND 1 \<noteq> 0"
    | "slave_pending (chip s) = Some irq"
    | "irq = of_nat (trailing_zeros ?dev)" "?dev \<noteq> 0"
    | "irq = of_nat (trailing_zeros ?req)" "?req \<noteq> 0" "irq \<noteq> PIC_SLAVE_IRQ"
    by (rule pic_pending_cases [OF assms])
  then show ?thesis
  proof cases
    case 3
    have "trailing_zeros ?dev \<noteq> 2" using trailing_zeros_bit(1) [OF 3(2)] unfolding dev by blast
    then show ?thesis unfolding 3(1) using 3(2) dev by (intro scan) blast+
  next
    case 4
    then have "trailing_zeros ?req \<noteq> 2" by (auto simp: irq_consts)
    then show ?thesis unfolding 4(1) using 4(2) by (intro scan) simp_all
  qed (use zero slave_pending_requested in auto)
qed

lemma specific_eoi:
  assumes "n < 8"
  shows "pic_cmd (0x60 OR n) p = p\<lparr>isr := isr p AND NOT (one_at (unat n))\<rparr>"
proof -
  let ?v = "0x60 OR n"
  have v: "?v AND 0x10 = 0" "?v AND 0x08 = 0" "?v AND 0x18 = 0" "?v AND 0x20 \<noteq> 0"
    "?v AND 0x40 \<noteq> 0" "?v AND 7 = n"
    using u8_less_8_cases [OF assms] by (elim disjE; simp)+
  have clear: "r AND NOT (if r = 0 then 0 else if r AND b \<noteq> 0 then b else 0) = r AND NOT b"
    if "b = one_at k" for r b :: u8 and k
    unfolding that by (rule bit_word_eqI) (auto simp: one_bit)
  have "pic_ocw2_eoi_bit r ?v =
      (if r = 0 then 0 else if r AND one_at (unat n) \<noteq> 0 then one_at (unat n) else 0)" for r
    unfolding pic_ocw2_eoi_bit_def pic_ocw2_is_eoi_def Let_def v by (simp add: v)
  then show ?thesis
    unfolding pic_cmd_def by (simp only: v simp_thms if_False clear [OF refl])
qed

lemma guest_eoi_isr:
  "irq < 8 \<Longrightarrow> chip (guest_eoi irq s) =
     master_update (isr_update (\<lambda>r. r AND NOT (one_at (unat irq)))) (chip s)"
  "8 \<le> irq \<Longrightarrow> irq < 16 \<Longrightarrow> chip (guest_eoi irq s) =
     master_update (isr_update (\<lambda>r. r AND NOT (one_at 2)))
       (slave_update (isr_update (\<lambda>r. r AND NOT (one_at (unat (irq - 8))))) (chip s))"
proof -
  have two: "pic_cmd 0x62 p = p\<lparr>isr := isr p AND NOT (one_at 2)\<rparr>" for p
    using specific_eoi [of 2 p] by simp
  have s: "chip (note_eoi port val s) = chip s" for port val s
    by (simp add: note_eoi_def)
  show "irq < 8 \<Longrightarrow> chip (guest_eoi irq s) =
     master_update (isr_update (\<lambda>r. r AND NOT (one_at (unat irq)))) (chip s)"
    by (simp add: guest_eoi_def pic_write_def pic_of_update_def specific_eoi s)
  assume "8 \<le> irq" "irq < 16"
  moreover from this have "irq - 8 < 8"
    by (simp add: word_less_nat_alt word_le_nat_alt unat_sub_le)
  ultimately show "chip (guest_eoi irq s) =
     master_update (isr_update (\<lambda>r. r AND NOT (one_at 2)))
       (slave_update (isr_update (\<lambda>r. r AND NOT (one_at (unat (irq - 8))))) (chip s))"
    by (simp add: guest_eoi_def pic_write_def pic_of_update_def specific_eoi two s)
qed

lemma chip_of_take:
  "chip (note_yield tsc irq s) = chip s" "chip (count_take irq s) = chip s"
  by (simp_all add: note_yield_def count_take_def apk_media_mounted_def Let_def)

lemma drop_idle_cascade_fields:
  "isr (master (drop_idle_cascade c)) = isr (master c)"
  "imr (master (drop_idle_cascade c)) = imr (master c)"
  "slave (drop_idle_cascade c) = slave c"
  "n \<noteq> 2 \<Longrightarrow> bit (irr (master (drop_idle_cascade c))) n = bit (irr (master c)) n"
  by (simp_all add: drop_idle_cascade_def one_bit irq_consts)

lemma pic_inta_slave:
  assumes "8 \<le> irq" and "\<not> aeoi (slave c)"
  shows "isr (master (pic_inta irq c)) = isr (master c) OR one_at 2"
    and "isr (slave (pic_inta irq c)) = isr (slave c) OR one_at (unat (irq - 8))"
    and "imr (master (pic_inta irq c)) = imr (master c)"
    and "imr (slave (pic_inta irq c)) = imr (slave c)"
    and "irr (slave (pic_inta irq c)) =
      (if irq = VIRTIO_PIC_IRQ then irr (slave c) else irr (slave c) AND NOT (one_at (unat (irq - 8))))"
    and "k \<noteq> 2 \<Longrightarrow> bit (irr (master (pic_inta irq c))) k = bit (irr (master c)) k"
proof -
  have "\<not> irq < 8" using assms(1) by simp
  then show "isr (master (pic_inta irq c)) = isr (master c) OR one_at 2"
    "isr (slave (pic_inta irq c)) = isr (slave c) OR one_at (unat (irq - 8))"
    "imr (master (pic_inta irq c)) = imr (master c)"
    "imr (slave (pic_inta irq c)) = imr (slave c)"
    "irr (slave (pic_inta irq c)) =
      (if irq = VIRTIO_PIC_IRQ then irr (slave c) else irr (slave c) AND NOT (one_at (unat (irq - 8))))"
    "k \<noteq> 2 \<Longrightarrow> bit (irr (master (pic_inta irq c))) k = bit (irr (master c)) k"
    using assms(2)
    by (simp_all add: pic_inta_def Let_def drop_idle_cascade_fields pic_level_intx_def irq_consts)
qed

text \<open>
  acknowledging an interrupt of the 8259 pair and ending it is a round trip.  The vector
  delivered is the one of a line that was requested, unmasked and not in service; the line is
  in service from then on; the specific end-of-interrupt commands for it restore the
  in-service registers of both chips.  Masks do not change, and of the requests only the
  acknowledged line is dropped, and not even that one for the level-triggered line 11.
\<close>

theorem pic_take_eoi_roundtrip:
  assumes "pic_take tsc s = (Some v, s')"
    and "\<not> aeoi (master (chip s))" and "\<not> aeoi (slave (chip s))"
  shows "\<exists>irq. pic_pending_irq s = Some irq \<and> requested (chip s) irq \<and>
    v = irq_vector (chip s) irq \<and> \<not> requested (chip s') irq \<and>
    (let c = chip s; c' = chip (guest_eoi irq s') in
     isr (master c') = isr (master c) \<and> isr (slave c') = isr (slave c) \<and>
     imr (master c') = imr (master c) \<and> imr (slave c') = imr (slave c) \<and>
     (\<forall>n. n \<noteq> 2 \<longrightarrow> bit (irr (master c')) n = (bit (irr (master c)) n \<and> n \<noteq> unat irq)) \<and>
     (\<forall>n < 8. bit (irr (slave c')) n = (bit (irr (slave c)) n \<and> (n + 8 \<noteq> unat irq \<or> irq = VIRTIO_PIC_IRQ))))"
proof -
  obtain irq where p: "pic_pending_irq s = Some irq" and v: "v = irq_vector (chip s) irq"
    and s': "chip s' = pic_inta irq (chip s)"
    using assms(1) by (auto simp: pic_take_def chip_of_take split: option.splits)
  have r: "requested (chip s) irq" using p by (rule pending_irq_requested)
  let ?c = "chip s" and ?n = "unat (irq - 8)"
  show ?thesis
  proof (cases "irq < 8")
    case True
    have c': "chip s' = master_update (isr_update (\<lambda>r. r OR one_at (unat irq)))
        (master_update (irr_update (\<lambda>r. r AND NOT (one_at (unat irq)))) ?c)"
      using True assms(2) by (simp add: s' pic_inta_def Let_def)
    have f: "\<not> bit (isr (master ?c)) (unat irq)" "unat irq \<noteq> 2" "unat irq < 8"
      using r True by (auto simp: requested_def bit_pic_requests irq_consts word_le_nat_alt
          word_less_nat_alt word_unat_eq_iff)
    show ?thesis
      using p v r f True
      by (intro exI [of _ irq])
        (simp add: guest_eoi_isr c' Let_def set_clear_one one_bit requested_def bit_pic_requests
          word_less_nat_alt word_le_nat_alt)
  next
    case False
    then have b: "8 \<le> irq" "irq < 16" "bit (pic_requests (slave ?c)) ?n"
      "bit (pic_requests (master ?c)) 2"
      using r by (auto simp: requested_def)
    note i = pic_inta_slave [OF b(1) assms(3), folded s']
    have n: "?n < 8" "unat irq = ?n + 8" "\<not> irq < 8"
      using b(1,2) by (simp_all add: unat_sub_le word_le_nat_alt word_less_nat_alt)
    have f: "\<not> bit (isr (master ?c)) 2" "\<not> bit (isr (slave ?c)) ?n"
      using b by (simp_all add: bit_pic_requests)
    have q: "\<not> requested (chip s') irq"
      using n(3) by (simp add: requested_def bit_pic_requests i one_bit)
    have level: "irr (slave (chip s')) = (if irq = VIRTIO_PIC_IRQ then irr (slave ?c)
        else irr (slave ?c) AND NOT (one_at ?n))" by (rule i(5))
    have m: "bit (irr (master (chip s'))) k = (bit (irr (master ?c)) k \<and> k \<noteq> unat irq)" if "k \<noteq> 2" for k
      using n(2) i(6) [OF that] by (auto dest: bit_imp_le_length)
    show ?thesis
      using p v r q f n(1)
      by (intro exI [of _ irq])
        (simp add: guest_eoi_isr(2) [OF b(1,2)] Let_def i(1-4) m set_clear_one level one_bit n(2))
  qed
qed

definition ata_example :: IrqState where
  "ata_example = irq_statics\<lparr>chip := chip_empty\<lparr>
     master := pic_empty\<lparr>imr := 0, irr := 4, vector := 0x30, ready := True\<rparr>,
     slave := pic_empty\<lparr>imr := 0, irr := 0x40, vector := 0x38, ready := True\<rparr>\<rparr>\<rparr>"

theorem pic_take_eoi_roundtrip_witness:
  "fst (pic_take 0 ata_example) = Some 0x3E \<and>
   (\<exists>irq. pic_pending_irq ata_example = Some irq \<and> requested (chip ata_example) irq \<and>
     isr (slave (chip (guest_eoi irq (snd (pic_take 0 ata_example))))) = isr (slave (chip ata_example)))"
proof -
  have v: "fst (pic_take 0 ata_example) = Some 0x3E" by code_simp
  then have t: "pic_take 0 ata_example = (Some 0x3E, snd (pic_take 0 ata_example))"
    by (simp add: prod_eq_iff)
  have "\<not> aeoi (master (chip ata_example))" "\<not> aeoi (slave (chip ata_example))"
    by (simp_all add: ata_example_def pic_empty_def)
  from pic_take_eoi_roundtrip [OF t this] v show ?thesis
    by (auto simp only: Let_def)
qed

text \<open>
  The request line from the slave to the master is a stored bit here.  When the last unmasked
  slave request goes away the bit is cleared, even if a masked request is still latched;
  unmasking that request later does not set the bit again, so the request is not
  delivered until its device raises the line once more.
\<close>

lemma masked_slave_request_lost:
  assumes "irr (slave (chip s)) AND NOT (imr (slave (chip s))) AND NOT (one_at 3) = 0"
    and "init_state (slave (chip s)) = 0" and "bit (irr (slave (chip s))) 6"
  defines "c \<equiv> chip (pic_write 0xA1 0 (lower_gsi VIRTIO_PIC_IRQ s))"
  shows "bit (irr (slave c)) 6 \<and> imr (slave c) = 0 \<and> slave_pending c = None"
proof -
  let ?c = "chip s"
  have "(irr (slave ?c) AND NOT (one_at 3)) AND NOT (imr (slave ?c)) = 0"
    using assms(1) by (metis and.assoc and.commute)
  then have c: "c = slave_update (imr_update (\<lambda>_. 0)) (master_update (irr_update (\<lambda>r. r AND NOT (one_at 2)))
      (slave_update (irr_update (\<lambda>r. r AND NOT (one_at 3)))
        (ioapic_update (io_irr_update (\<lambda>r. r AND NOT (one_at 11))) ?c)))"
    using assms(2)
    by (simp add: c_def pic_write_def pic_of_update_def pic_data_def lower_gsi_def
        lower_pic_locked_def drop_idle_cascade_def irq_consts Let_def)
  show ?thesis
    using assms(3) by (simp add: c slave_pending_def one_bit bit_pic_requests irq_consts)
qed

section \<open>The redirection table\<close>

definition irq_shape :: "IrqState \<Rightarrow> bool" where
  "irq_shape s \<longleftrightarrow> length (redir (ioapic (chip s))) = IOAPIC_PINS"

lemma pic_ioapic_frame:
  "ioapic (raise_pic_locked irq c) = ioapic c"
  "ioapic (lower_pic_locked irq c) = ioapic c"
  "ioapic (pic_inta irq c) = ioapic c"
  "ioapic (pic_of_update port f c) = ioapic c"
  by (simp_all add: raise_pic_locked_def unmask_pic_locked_def lower_pic_locked_def pic_inta_def
      drop_idle_cascade_def pic_of_update_def Let_def)

lemma irq_shape_exec: "irq_shape s \<Longrightarrow> irq_shape (irq_exec op s)"
proof (cases op)
  case (IoapicWrite off val)
  then show "irq_shape s \<Longrightarrow> ?thesis"
    by (simp add: irq_shape_def ioapic_write_def ioapic_write_locked_def ioapic_win_write_def Let_def)
next
  case (TakePic tsc)
  then show "irq_shape s \<Longrightarrow> ?thesis"
    by (simp add: irq_shape_def snd_take_pic_vector chip_of_take pic_ioapic_frame
        del: inta_irq.simps split: option.split)
next
  case (TakeInject tsc)
  then show "irq_shape s \<Longrightarrow> ?thesis"
    by (simp add: irq_shape_def snd_take_inject_vector chip_of_take pic_ioapic_frame
        ioapic_accept_def Let_def del: inta_irq.simps split: option.split)
qed (simp_all add: irq_shape_def raise_gsi_def lower_gsi_def raise_pit_def raise_ioapic_gsi_def
      raise_pic_irq_def latch_pin_def pic_ioapic_frame snd_pic_io pic_write_def note_eoi_def
      note_linux_ioapic_write_def take_ioapic_vector_def take_ioapic_ata_vector_def
      ioapic_accept_def ioapic_eoi_def arm_firmware_virtual_wire_def arm_firmware_ata_gsi14_def
      prefer_pit_once_def prefer_pit_hold_def note_overlay_hold_def note_linux_dev_irq_def Let_def
      split: option.split)

lemma irq_shape_run: "irq_shape s \<Longrightarrow> irq_shape (irq_run ops s)"
  by (induction ops arbitrary: s) (simp_all add: irq_shape_exec)

lemma bit_rte_vec: "bit (rte_vec rte) n \<longleftrightarrow> n < 8 \<and> bit rte n"
proof -
  have m: "(0xff :: u64) = mask 8" by (simp add: mask_eq_exp_minus_1)
  show ?thesis
    unfolding rte_vec_def m
    by (auto simp: bit_ucast_iff bit_and_iff bit_mask_iff dest: bit_imp_le_length)
qed

lemma rte_vec_control_bits:
  "rte_vec (rte OR RTE_REMOTE_IRR) = rte_vec rte" "rte_vec (rte AND NOT RTE_REMOTE_IRR) = rte_vec rte"
  by (rule bit_word_eqI; auto simp: bit_rte_vec RTE_REMOTE_IRR_def one_bit)+

lemma first_ready_Some:
  "first_ready c pins = Some (pin, vec) \<Longrightarrow> pin \<in> set pins \<and> ioapic_pin_ready c pin = Some vec"
  by (induction pins) (auto split: option.splits)

lemma first_ready_None:
  "first_ready c pins = None \<longleftrightarrow> (\<forall>pin \<in> set pins. ioapic_pin_ready c pin = None)"
  by (induction pins) (auto split: option.splits)

lemma pin_ready_iff:
  "ioapic_pin_ready c pin = Some v \<longleftrightarrow>
     unat pin < IOAPIC_PINS \<and> bit (io_irr (ioapic c)) (unat pin) \<and>
     (let rte = redir (ioapic c) ! unat pin in
      \<not> bit rte 16 \<and> \<not> (bit rte 15 \<and> bit rte 14) \<and> v = rte_vec rte \<and> 16 \<le> v)"
  by (auto simp: ioapic_pin_ready_def RTE_MASK_def RTE_TRIG_LEVEL_def RTE_REMOTE_IRR_def one_bit
      Let_def not_less split: if_splits)

lemma accept_level:
  assumes "bit (redir (ioapic c) ! unat pin) 15"
  shows "ioapic_accept pin c =
    ioapic_update (redir_update (\<lambda>r. r[unat pin := redir (ioapic c) ! unat pin OR RTE_REMOTE_IRR])) c"
  using assms by (simp add: ioapic_accept_def RTE_TRIG_LEVEL_def one_bit Let_def)

lemma accepted_level_pin_blocked:
  assumes "irq_shape s" and "ioapic_pin_ready (chip s) pin = Some v"
    and "bit (redir (ioapic (chip s)) ! unat pin) 15"
  shows "ioapic_pin_ready (ioapic_accept pin (chip s)) pin = None"
proof -
  have "unat pin < length (redir (ioapic (chip s)))"
    using assms(1,2) by (simp add: irq_shape_def pin_ready_iff)
  then have "ioapic_pin_ready (ioapic_accept pin (chip s)) pin \<noteq> Some w" for w
    using assms(3) by (simp add: accept_level pin_ready_iff RTE_REMOTE_IRR_def bit_set_one Let_def)
  then show ?thesis by blast
qed

lemma eoi_after_accept:
  assumes "irq_shape s" and "ioapic_pin_ready (chip s) pin = Some v"
    and "bit (redir (ioapic (chip s)) ! unat pin) 15"
  shows "map (eoi_rte v) (redir (ioapic (ioapic_accept pin (chip s)))) =
      map (eoi_rte v) (redir (ioapic (chip s)))"
    and "eoi_rte v (redir (ioapic (chip s)) ! unat pin) = redir (ioapic (chip s)) ! unat pin"
proof -
  let ?r = "redir (ioapic (chip s))" and ?i = "unat pin"
  have i: "?i < length ?r" and v: "v = rte_vec (?r ! ?i)" and irr: "\<not> bit (?r ! ?i) 14"
    using assms by (simp_all add: irq_shape_def pin_ready_iff Let_def)
  then show same: "eoi_rte v (?r ! ?i) = ?r ! ?i"
    by (simp add: eoi_rte_def RTE_REMOTE_IRR_def one_bit)
  have "eoi_rte v (?r ! ?i OR RTE_REMOTE_IRR) = ?r ! ?i"
    using v irr by (simp add: eoi_rte_def rte_vec_control_bits)
      (simp add: RTE_REMOTE_IRR_def one_bit set_clear_one)
  then show "map (eoi_rte v) (redir (ioapic (ioapic_accept pin (chip s)))) = map (eoi_rte v) ?r"
    using assms(3) same i by (simp add: accept_level map_update)
      (metis length_map list_update_id map_nth nth_map)
qed

lemma ioapic_reg_index:
  fixes pin h :: nat
  assumes "pin < IOAPIC_PINS" and "h < 2"
  defines "n \<equiv> of_nat (16 + 2 * pin + h) :: u32"
  shows "n AND 0xff = n" "n \<noteq> 0" "n \<noteq> 1" "n \<noteq> 2" "0x10 \<le> n" "n \<le> 0x3F" "unat ((n - 0x10) div 2) = pin"
    "n AND 1 = 0 \<longleftrightarrow> h = 0"
proof -
  have u: "unat n = 16 + 2 * pin + h"
    unfolding n_def using assms(1,2) by (intro unat_of_nat_small) (simp add: irq_consts)
  have "n AND mask 8 = n"
    using u assms(1,2) by (intro word_eq_unatI) (simp add: unat_and_mask_low irq_consts)
  then show "n AND 0xff = n" by (simp add: mask_eq_exp_minus_1)
  show "n \<noteq> 0" "n \<noteq> 1" "n \<noteq> 2" "0x10 \<le> n" "n \<le> 0x3F"
    using u assms(1,2) by (auto simp: word_unat_eq_iff word_le_nat_alt irq_consts)
  then have "unat (n - 0x10) = 2 * pin + h" using u by (simp add: unat_sub_le)
  then show "unat ((n - 0x10) div 2) = pin" using assms(2) by (simp add: unat_div)
  have "unat (n AND mask 1) = h" unfolding unat_and_mask_low u using assms(2) by simp presburger
  then show "n AND 1 = 0 \<longleftrightarrow> h = 0" by (simp add: word_unat_eq_iff)
qed

lemma rte_halves:
  fixes r :: u64 and v :: u32
  shows "ucast ((r AND NOT 0xFFFFFFFF) OR ucast v :: u64) = v"
    and "ucast (drop_bit 32 ((r AND NOT 0xFFFFFFFF) OR ucast v :: u64)) = (ucast (drop_bit 32 r) :: u32)"
    and "ucast ((r AND 0xFFFFFFFF) OR push_bit 32 (ucast v) :: u64) = (ucast r :: u32)"
    and "ucast (drop_bit 32 ((r AND 0xFFFFFFFF) OR push_bit 32 (ucast v) :: u64)) = v"
proof -
  have m: "(0xFFFFFFFF :: u64) = mask 32" by (simp add: mask_eq_exp_minus_1)
  show "ucast ((r AND NOT 0xFFFFFFFF) OR ucast v :: u64) = v"
    "ucast (drop_bit 32 ((r AND NOT 0xFFFFFFFF) OR ucast v :: u64)) = (ucast (drop_bit 32 r) :: u32)"
    "ucast ((r AND 0xFFFFFFFF) OR push_bit 32 (ucast v) :: u64) = (ucast r :: u32)"
    "ucast (drop_bit 32 ((r AND 0xFFFFFFFF) OR push_bit 32 (ucast v) :: u64)) = v"
    unfolding m
    by (rule bit_word_eqI; auto simp: bit_ucast_iff bit_or_iff bit_and_iff bit_not_iff bit_mask_iff
        bit_drop_bit_eq bit_push_bit_iff dest: bit_imp_le_length)+
qed

text \<open>The guest's write of the index register for the low or the high half of a pin's entry.\<close>

definition select_rte :: "nat \<Rightarrow> nat \<Rightarrow> IrqState \<Rightarrow> IrqState" where
  "select_rte pin h = ioapic_write 0 (of_nat (16 + 2 * pin + h))"

text \<open>
  the redirection table behaves as memory behind the index and data registers: selecting
  one half of a pin's entry and writing the data register makes the next read of the data
  register return the written value, leaves the other half of the entry alone, and leaves
  every other entry alone.  The table keeps its twenty-four entries.
\<close>

theorem ioapic_rte_roundtrip:
  assumes "irq_shape s" and "pin < IOAPIC_PINS" and "h < 2"
  shows "let s1 = ioapic_write 0x10 val (select_rte pin h s) in
    ioapic_read s1 0x10 = val \<and>
    ioapic_read (select_rte pin (1 - h) s1) 0x10 = ioapic_read (select_rte pin (1 - h) s) 0x10 \<and>
    (\<forall>p < IOAPIC_PINS. p \<noteq> pin \<longrightarrow> redir (ioapic (chip s1)) ! p = redir (ioapic (chip s)) ! p) \<and>
    irq_shape s1"
proof -
  let ?r = "redir (ioapic (chip s))"
  have len: "pin < length ?r" using assms(1,2) by (simp add: irq_shape_def)
  have h: "h = 0 \<or> h = Suc 0" using assms(3) by linarith
  have c: "NOT 0xFFFFFFFF = (- 0x100000000 :: u64)" by simp
  note i0 = ioapic_reg_index [OF assms(2), of 0] and i1 = ioapic_reg_index [OF assms(2), of 1]
  show ?thesis
    using h i0 i1 assms(1,2) len unfolding select_rte_def
    by (elim disjE) (simp_all add: Let_def ioapic_write_def ioapic_read_def ioapic_write_locked_def
        ioapic_read_locked_def ioapic_win_write_def ioapic_win_read_def rte_halves rte_halves(1,2) [unfolded c] irq_shape_def
        del: of_nat_add of_nat_Suc of_nat_mult drop_bit_and drop_bit_or)
qed

theorem ioapic_rte_roundtrip_witness:
  "irq_shape irq_statics \<and> (14 :: nat) < IOAPIC_PINS \<and>
   ioapic_read (ioapic_write 0x10 0x2E (select_rte 14 0 irq_statics)) 0x10 = 0x2E"
proof -
  have "irq_shape irq_statics"
    by (simp add: irq_shape_def irq_statics_def chip_empty_def ioapic_empty_def)
  moreover have "(14 :: nat) < IOAPIC_PINS" by (simp add: irq_consts)
  ultimately show ?thesis
    using ioapic_rte_roundtrip [of irq_statics 14 0 "0x2E"] by (simp add: Let_def)
qed

end
