(* ===== verification/Lapic.thy ===== *)
theory Lapic
  imports Guest_Irq Phys_Mem
begin

text \<open>
  The virtual local APIC of \<open>devices/lapic_virt.rs\<close>: the request and in-service registers,
  priorities, end of interrupt, the countdown timer, self-IPIs, the x2APIC and MMIO register
  windows, and the MSR bitmap the launch code builds.  The statics of the module are the record
  \<open>Lapic\<close>.  A time-stamp argument stands for one reading of \<open>rdtsc\<close>; an
  operation that reads it several times takes one argument per reading, in order.
\<close>

section \<open>Registers and state\<close>

definition APIC_GPA :: u64 where "APIC_GPA = 0xFEE00000"
definition X2APIC_MSR_BASE :: u32 where "X2APIC_MSR_BASE = 0x800"
definition X2APIC_MSR_LAST :: u32 where "X2APIC_MSR_LAST = 0x83F"
definition REG_ID :: u32 where "REG_ID = 0x20"
definition REG_VERSION :: u32 where "REG_VERSION = 0x30"
definition REG_TPR :: u32 where "REG_TPR = 0x80"
definition REG_PPR :: u32 where "REG_PPR = 0xA0"
definition REG_EOI :: u32 where "REG_EOI = 0xB0"
definition REG_SVR :: u32 where "REG_SVR = 0xF0"
definition REG_ISR_BASE :: u32 where "REG_ISR_BASE = 0x100"
definition REG_IRR_BASE :: u32 where "REG_IRR_BASE = 0x200"
definition REG_LVT_TIMER :: u32 where "REG_LVT_TIMER = 0x320"
definition REG_INIT_COUNT :: u32 where "REG_INIT_COUNT = 0x380"
definition REG_CUR_COUNT :: u32 where "REG_CUR_COUNT = 0x390"
definition REG_DIVIDE :: u32 where "REG_DIVIDE = 0x3E0"
definition REG_ICR_LOW :: u32 where "REG_ICR_LOW = 0x300"
definition REG_ICR_HIGH :: u32 where "REG_ICR_HIGH = 0x310"
definition LVT_MASKED :: u32 where "LVT_MASKED = one_at 16"
definition LVT_PERIODIC :: u32 where "LVT_PERIODIC = one_at 17"
definition SVR_ENABLED :: u32 where "SVR_ENABLED = one_at 8"
definition XAPIC_VERSION :: u32 where "XAPIC_VERSION = 0x00050014"
definition TSC_PER_BUS_CYCLE :: u64 where "TSC_PER_BUS_CYCLE = 32"

lemmas lapic_regs = REG_ID_def REG_VERSION_def REG_TPR_def REG_PPR_def REG_EOI_def REG_SVR_def
  REG_ISR_BASE_def REG_IRR_BASE_def REG_LVT_TIMER_def REG_INIT_COUNT_def REG_CUR_COUNT_def
  REG_DIVIDE_def REG_ICR_LOW_def REG_ICR_HIGH_def

record Lapic =
  APIC_ID :: u32
  APIC_TPR :: u32
  APIC_SVR :: u32
  APIC_LVT_TIMER :: u32
  APIC_DIVIDE :: u32
  APIC_INIT_COUNT :: u32
  APIC_ISR :: "u32 list"
  APIC_IRR :: "u32 list"
  HOST_TIMER_FOR_GUEST :: bool
  GTIMER3_OK :: bool
  GTIMER3_PRINT :: bool
  APIC_OK :: bool
  APIC_OK_PRINT :: bool
  PENDING_VECTOR :: "u8 option"
  TIMER_RELA_TSC :: u64
  TIMER_START_TSC :: u64
  TIMER_RUNNING :: bool
  APIC_ICR_HIGH :: u32
  SELF_IPI_MASK :: "u32 list"

definition lapic_reset :: Lapic where
  "lapic_reset = \<lparr>APIC_ID = 0, APIC_TPR = 0, APIC_SVR = 0xFF OR SVR_ENABLED,
     APIC_LVT_TIMER = LVT_MASKED OR 0xEF, APIC_DIVIDE = 3, APIC_INIT_COUNT = 0,
     APIC_ISR = replicate 8 0, APIC_IRR = replicate 8 0, HOST_TIMER_FOR_GUEST = False,
     GTIMER3_OK = False, GTIMER3_PRINT = False, APIC_OK = False, APIC_OK_PRINT = False,
     PENDING_VECTOR = None, TIMER_RELA_TSC = 0, TIMER_START_TSC = 0, TIMER_RUNNING = False,
     APIC_ICR_HIGH = 0, SELF_IPI_MASK = replicate 8 0\<rparr>"

section \<open>Vector registers\<close>

definition bit_set :: "u8 \<Rightarrow> u32 list \<Rightarrow> u32 list" where
  "bit_set vec regs =
    (let i = unat (vec div 32) in regs[i := regs ! i OR one_at (unat (vec mod 32))])"

definition bit_clear :: "u8 \<Rightarrow> u32 list \<Rightarrow> u32 list" where
  "bit_clear vec regs =
    (let i = unat (vec div 32) in regs[i := regs ! i AND NOT (one_at (unat (vec mod 32)))])"

definition bit_is_set :: "u32 list \<Rightarrow> u8 \<Rightarrow> bool" where
  "bit_is_set regs vec \<longleftrightarrow> regs ! unat (vec div 32) AND one_at (unat (vec mod 32)) \<noteq> 0"

definition word_vector :: "nat \<Rightarrow> u32 \<Rightarrow> u8" where
  "word_vector i w = of_nat i * 32 + of_nat (31 - leading_zeros w)"

definition highest_bit :: "u32 list \<Rightarrow> u8 option" where
  "highest_bit regs =
    map_option (\<lambda>i. word_vector i (regs ! i)) (find (\<lambda>i. regs ! i \<noteq> 0) (rev [0..<8]))"

locale vector_register =
  fixes inv :: "'r \<Rightarrow> bool"
    and put :: "u8 \<Rightarrow> 'r \<Rightarrow> 'r" and drop_vec :: "u8 \<Rightarrow> 'r \<Rightarrow> 'r"
    and test :: "'r \<Rightarrow> u8 \<Rightarrow> bool" and top_vec :: "'r \<Rightarrow> u8 option"
  assumes inv_put: "inv r \<Longrightarrow> inv (put v r)"
    and inv_drop: "inv r \<Longrightarrow> inv (drop_vec v r)"
    and test_put: "inv r \<Longrightarrow> test (put v r) w \<longleftrightarrow> w = v \<or> test r w"
    and test_drop: "inv r \<Longrightarrow> test (drop_vec v r) w \<longleftrightarrow> w \<noteq> v \<and> test r w"
    and ext: "inv r \<Longrightarrow> inv r' \<Longrightarrow> (\<And>v. test r v = test r' v) \<Longrightarrow> r = r'"
    and top_Some: "inv r \<Longrightarrow> top_vec r = Some v \<Longrightarrow> test r v"
    and top_max: "inv r \<Longrightarrow> top_vec r = Some v \<Longrightarrow> test r w \<Longrightarrow> w \<le> v"
    and top_None: "inv r \<Longrightarrow> top_vec r = None \<Longrightarrow> \<not> test r w"
begin

lemma top_iff:
  assumes "inv r"
  shows "top_vec r = Some v \<longleftrightarrow> test r v \<and> (\<forall>w. test r w \<longrightarrow> w \<le> v)"
proof
  assume r: "test r v \<and> (\<forall>w. test r w \<longrightarrow> w \<le> v)"
  then obtain u where u: "top_vec r = Some u" using top_None [OF assms] by (cases "top_vec r") auto
  with r top_Some [OF assms u] top_max [OF assms u] have "u = v" by (meson antisym)
  with u show "top_vec r = Some v" by simp
qed (use top_Some [OF assms] top_max [OF assms] in blast)

lemma drop_put:
  "inv r \<Longrightarrow> \<not> test r v \<Longrightarrow> drop_vec v (put v r) = r"
  by (rule ext) (auto simp: inv_put inv_drop test_put test_drop)

lemma top_of_put:
  "inv r \<Longrightarrow> (\<And>w. test r w \<Longrightarrow> w < v) \<Longrightarrow> top_vec (put v r) = Some v"
  using top_iff [of "put v r" v] by (auto simp: inv_put test_put less_imp_le)

text \<open>Ending the most urgent vector undoes the delivery of a more urgent one.\<close>

lemma end_after_deliver:
  assumes "inv r" and "\<And>w. test r w \<Longrightarrow> w < v"
  shows "top_vec (put v r) = Some v" and "drop_vec v (put v r) = r"
  using top_of_put [OF assms] drop_put [OF assms(1)] assms(2) [of v] by auto

end

abbreviation vec_regs :: "u32 list \<Rightarrow> bool" where
  "vec_regs r \<equiv> length r = 8"

lemma vec_split:
  fixes v w :: u8
  shows "unat (v div 32) < 8" and "unat (v mod 32) < 32"
    and "v = w \<longleftrightarrow> unat (v div 32) = unat (w div 32) \<and> unat (v mod 32) = unat (w mod 32)"
proof -
  have u: "unat (v div 32) = unat v div 32" "unat (v mod 32) = unat v mod 32" for v :: u8
    by (simp_all add: unat_div unat_mod)
  show "unat (v div 32) < 8" "unat (v mod 32) < 32"
    using unat_u8_bound [of v] by (simp_all add: u)
  show "v = w \<longleftrightarrow> unat (v div 32) = unat (w div 32) \<and> unat (v mod 32) = unat (w mod 32)"
    unfolding u word_unat_eq_iff by (metis div_mult_mod_eq)
qed

lemma bit_is_set_iff: "bit_is_set r v \<longleftrightarrow> bit (r ! unat (v div 32)) (unat (v mod 32))"
  by (simp add: bit_is_set_def one_bit)

lemma bit_is_set_set:
  "vec_regs r \<Longrightarrow> bit_is_set (bit_set v r) w \<longleftrightarrow> w = v \<or> bit_is_set r w"
  using vec_split(1,2) [of v] vec_split(1,2) [of w] vec_split(3) [of w v]
  by (auto simp: bit_is_set_iff bit_set_def Let_def nth_list_update one_bit)

lemma bit_is_set_clear:
  "vec_regs r \<Longrightarrow> bit_is_set (bit_clear v r) w \<longleftrightarrow> w \<noteq> v \<and> bit_is_set r w"
  using vec_split(1,2) [of v] vec_split(1,2) [of w] vec_split(3) [of w v]
  by (auto simp: bit_is_set_iff bit_clear_def Let_def nth_list_update one_bit)

lemma vec_of_index:
  assumes "i < 8" and "b < 32"
  shows "unat (of_nat i * 32 + of_nat b :: u8) = i * 32 + b"
    and "unat ((of_nat i * 32 + of_nat b :: u8) div 32) = i"
    and "unat ((of_nat i * 32 + of_nat b :: u8) mod 32) = b"
proof -
  have m: "unat (of_nat i * 32 :: u8) = i * 32"
    using assms(1) by (subst unat_mult_small) (simp_all add: unat_of_nat_small)
  show u: "unat (of_nat i * 32 + of_nat b :: u8) = i * 32 + b"
    using assms by (subst unat_add_small) (simp_all add: m unat_of_nat_small)
  show "unat ((of_nat i * 32 + of_nat b :: u8) div 32) = i"
    "unat ((of_nat i * 32 + of_nat b :: u8) mod 32) = b"
    using assms by (simp_all add: unat_div unat_mod u)
qed

lemma find_rev_upt:
  "find P (rev [0..<n]) = Some i \<Longrightarrow> i < n \<and> P i \<and> (\<forall>j. i < j \<and> j < n \<longrightarrow> \<not> P j)"
  by (induction n) (auto split: if_splits simp: less_Suc_eq)

lemma highest_bit_Some:
  assumes "highest_bit r = Some v"
  shows "bit_is_set r v" and "bit_is_set r w \<Longrightarrow> w \<le> v"
proof -
  obtain i where f: "find (\<lambda>i. r ! i \<noteq> 0) (rev [0..<8]) = Some i"
    and v: "v = of_nat i * 32 + of_nat (31 - leading_zeros (r ! i))"
    using assms by (auto simp: highest_bit_def word_vector_def)
  have i: "i < 8" "r ! i \<noteq> 0" and above: "\<And>j. i < j \<Longrightarrow> j < 8 \<Longrightarrow> r ! j = 0"
    using find_rev_upt [OF f] by auto
  note z = leading_zeros_bit [OF i(2), simplified]
  have b: "31 - leading_zeros (r ! i) < 32" by simp
  note ix = vec_of_index [OF i(1) b, folded v]
  show "bit_is_set r v" using z(1) by (simp add: bit_is_set_iff ix)
  assume w: "bit_is_set r w"
  let ?j = "unat (w div 32)" and ?k = "unat (w mod 32)"
  have "r ! ?j \<noteq> 0" using w by (auto simp: bit_is_set_iff)
  then have ji: "?j \<le> i" using above [of ?j] vec_split(1) [of w] by (meson not_less)
  have "unat w = ?j * 32 + ?k" by (simp add: unat_div unat_mod)
  moreover have "?k \<le> 31 - leading_zeros (r ! i)" if "?j = i"
    using z(3) w that by (simp add: bit_is_set_iff)
  ultimately have "unat w \<le> i * 32 + (31 - leading_zeros (r ! i))"
    using ji vec_split(2) [of w] by (cases "?j = i") auto
  then show "w \<le> v" by (simp add: word_le_nat_alt ix)
qed

lemma highest_bit_None: "highest_bit r = None \<Longrightarrow> \<not> bit_is_set r w"
  using vec_split(1) [of w] by (force simp: highest_bit_def find_None_iff bit_is_set_iff)

lemma length_vec_regs [simp]:
  "length (bit_set v r) = length r" "length (bit_clear v r) = length r"
  by (simp_all add: bit_set_def bit_clear_def Let_def)

lemma vec_regs_ext:
  assumes "vec_regs r" and "vec_regs r'" and "\<And>v. bit_is_set r v = bit_is_set r' v"
  shows "r = r'"
proof (rule nth_equalityI)
  fix i assume "i < length r"
  then have i: "i < 8" using assms(1) by simp
  show "r ! i = r' ! i"
  proof (rule bit_word_eqI)
    fix b assume "b < LENGTH(32)"
    then have b: "b < 32" by simp
    show "bit (r ! i) b = bit (r' ! i) b"
      using assms(3) [of "of_nat i * 32 + of_nat b"] by (simp add: bit_is_set_iff vec_of_index i b)
  qed
qed (use assms in simp)

interpretation vr: vector_register vec_regs bit_set bit_clear bit_is_set highest_bit
proof unfold_locales
  show "\<And>r r'. vec_regs r \<Longrightarrow> vec_regs r' \<Longrightarrow> (\<And>v. bit_is_set r v = bit_is_set r' v) \<Longrightarrow> r = r'"
    by (rule vec_regs_ext)
qed (auto simp: bit_is_set_set bit_is_set_clear
      intro: highest_bit_Some dest: highest_bit_None)

section \<open>Priorities and delivery\<close>

definition set_irr :: "u8 \<Rightarrow> Lapic \<Rightarrow> Lapic" where
  "set_irr vec = APIC_IRR_update (bit_set vec)"

definition timer_should_deliver :: "Lapic \<Rightarrow> bool" where
  "timer_should_deliver l \<longleftrightarrow> APIC_LVT_TIMER l AND LVT_MASKED = 0 \<and> APIC_SVR l AND SVR_ENABLED \<noteq> 0"

definition lvt_timer_vector :: "Lapic \<Rightarrow> u8" where
  "lvt_timer_vector l = ucast (APIC_LVT_TIMER l AND 0xFF)"

definition tpr :: "Lapic \<Rightarrow> u32" where "tpr l = APIC_TPR l AND 0xFF"

definition set_tpr :: "u32 \<Rightarrow> Lapic \<Rightarrow> Lapic" where
  "set_tpr val l = l\<lparr>APIC_TPR := val AND 0xFF\<rparr>"

definition cr8 :: "Lapic \<Rightarrow> u64" where "cr8 l = ucast (drop_bit 4 (tpr l) AND 0xF)"

definition set_cr8 :: "u64 \<Rightarrow> Lapic \<Rightarrow> Lapic" where
  "set_cr8 val = set_tpr (push_bit 4 (ucast val AND 0xF))"

definition latch_irr :: "u8 \<Rightarrow> Lapic \<Rightarrow> Lapic" where
  "latch_irr vec l = (if 16 \<le> vec then set_irr vec l else l)"

definition processor_priority :: "Lapic \<Rightarrow> u32" where
  "processor_priority l =
    (let t = APIC_TPR l AND 0xFF;
         in_service = (case highest_bit (APIC_ISR l) of Some v \<Rightarrow> ucast v AND 0xF0 | None \<Rightarrow> 0);
         tpr_class = t AND 0xF0
     in if tpr_class < in_service then in_service else t)"

text \<open>The test \<open>(vec & 0xF0) <= (processor_priority() & 0xF0)\<close> of the delivery paths.\<close>

definition vec_blocked :: "Lapic \<Rightarrow> u8 \<Rightarrow> bool" where
  "vec_blocked l vec \<longleftrightarrow> (ucast vec :: u32) AND 0xF0 \<le> processor_priority l AND 0xF0"

definition has_deliverable_irr :: "Lapic \<Rightarrow> bool" where
  "has_deliverable_irr l =
    (case highest_bit (APIC_IRR l) of None \<Rightarrow> False
     | Some vec \<Rightarrow> processor_priority l AND 0xF0 < (ucast vec :: u32) AND 0xF0)"

definition has_pending_irr :: "Lapic \<Rightarrow> bool" where
  "has_pending_irr l \<longleftrightarrow> highest_bit (APIC_IRR l) \<noteq> None"

definition has_irr_vec :: "Lapic \<Rightarrow> u8 \<Rightarrow> bool" where
  "has_irr_vec l vec \<longleftrightarrow> 16 \<le> vec \<and> bit_is_set (APIC_IRR l) vec"

definition timer_vector_pending :: "Lapic \<Rightarrow> bool" where
  "timer_vector_pending l = has_irr_vec l (lvt_timer_vector l)"

text \<open>Moving a vector from request to in-service, with the first-delivery marker.\<close>

definition deliver_vec :: "u8 \<Rightarrow> Lapic \<Rightarrow> Lapic" where
  "deliver_vec vec l =
    (let l = l\<lparr>APIC_IRR := bit_clear vec (APIC_IRR l), APIC_ISR := bit_set vec (APIC_ISR l)\<rparr> in
     if (vec = lvt_timer_vector l \<or> vec = 0xEF) \<and> \<not> APIC_OK l
     then l\<lparr>APIC_OK := True, APIC_OK_PRINT := True\<rparr> else l)"

definition take_irr_vector :: "bool \<Rightarrow> Lapic \<Rightarrow> u32 option \<times> Lapic" where
  "take_irr_vector ignore_tpr l =
    (case highest_bit (APIC_IRR l) of
       None \<Rightarrow> (None, l)
     | Some vec \<Rightarrow>
         if \<not> ignore_tpr \<and> vec_blocked l vec then (None, l)
         else (Some (ucast vec), deliver_vec vec l))"

definition take_deliverable_vector :: "Lapic \<Rightarrow> u32 option \<times> Lapic" where
  "take_deliverable_vector = take_irr_vector False"

definition take_highest_irr :: "Lapic \<Rightarrow> u32 option \<times> Lapic" where
  "take_highest_irr = take_irr_vector True"

definition take_irr_vec :: "u8 \<Rightarrow> bool \<Rightarrow> Lapic \<Rightarrow> u32 option \<times> Lapic" where
  "take_irr_vec vec ignore_tpr l =
    (if vec < 16 then (None, l)
     else if \<not> bit_is_set (APIC_IRR l) vec then (None, l)
     else if \<not> ignore_tpr \<and> vec_blocked l vec then (None, l)
     else (Some (ucast vec), deliver_vec vec l))"

definition take_timer_vector :: "Lapic \<Rightarrow> u32 option \<times> Lapic" where
  "take_timer_vector l = take_irr_vec (lvt_timer_vector l) False l"

definition accept_icr_low :: "u32 \<Rightarrow> Lapic \<Rightarrow> Lapic" where
  "accept_icr_low val l =
    (let shorthand = drop_bit 18 val AND 0x3; mode = drop_bit 8 val AND 0x7;
         vec = (ucast (val AND 0xFF) :: u8) in
     if mode \<noteq> 0 \<or> vec < 32 then l
     else let dest = drop_bit 24 (APIC_ICR_HIGH l); apic_id = drop_bit 24 (APIC_ID l);
              to_self = (shorthand = 1 \<or> shorthand = 2 \<or> shorthand = 0 \<and> dest = apic_id) in
       if \<not> to_self then l
       else SELF_IPI_MASK_update (bit_set vec) (set_irr vec l))"

definition highest_self_ipi :: "Lapic \<Rightarrow> u8 option" where
  "highest_self_ipi l = highest_bit (map2 (AND) (SELF_IPI_MASK l) (APIC_IRR l))"

definition take_self_ipi :: "Lapic \<Rightarrow> u32 option \<times> Lapic" where
  "take_self_ipi l =
    (case highest_self_ipi l of
       None \<Rightarrow> (None, l)
     | Some vec \<Rightarrow>
         if vec_blocked l vec then (None, l)
         else take_irr_vec vec False (SELF_IPI_MASK_update (bit_clear vec) l))"

definition handle_eoi :: "Lapic \<times> IrqState \<Rightarrow> Lapic \<times> IrqState" where
  "handle_eoi lq =
    (let (l, q) = lq in
     case highest_bit (APIC_ISR l) of
       Some v \<Rightarrow> (l\<lparr>APIC_ISR := bit_clear v (APIC_ISR l)\<rparr>, ioapic_eoi v q)
     | None \<Rightarrow> (l, q))"

section \<open>The countdown timer\<close>

definition divide_value :: "u32 \<Rightarrow> u32" where
  "divide_value dcr =
    (let d = dcr AND 0xB in
     if d = 0 then 2 else if d = 1 then 4 else if d = 2 then 8 else if d = 3 then 16
     else if d = 8 then 1 else if d = 9 then 32 else if d = 10 then 64 else if d = 11 then 128
     else 16)"

definition elapsed_counts :: "u64 \<Rightarrow> Lapic \<Rightarrow> u64" where
  "elapsed_counts t l =
    (if \<not> TIMER_RUNNING l \<or> APIC_INIT_COUNT l = 0 then 0
     else let elapsed_tsc = t - TIMER_START_TSC l; bus = elapsed_tsc div TSC_PER_BUS_CYCLE
          in bus div ucast (divide_value (APIC_DIVIDE l)))"

definition current_count_raw :: "u64 \<Rightarrow> Lapic \<Rightarrow> u32" where
  "current_count_raw t l =
    (if \<not> TIMER_RUNNING l \<or> APIC_INIT_COUNT l = 0 then 0
     else let ini = (ucast (APIC_INIT_COUNT l) :: u64); elapsed = elapsed_counts t l in
       if APIC_LVT_TIMER l AND LVT_PERIODIC \<noteq> 0 then
         (if ini = 0 then 0 else ucast (ini - elapsed mod ini))
       else if ini \<le> elapsed then 0
       else ucast (ini - elapsed))"

definition arm_guest_delivery_if_needed :: "u64 \<Rightarrow> Lapic \<Rightarrow> Lapic" where
  "arm_guest_delivery_if_needed t l =
    (if TIMER_RUNNING l \<and> timer_should_deliver l \<and> current_count_raw t l \<noteq> 0
     then l\<lparr>HOST_TIMER_FOR_GUEST := True, PENDING_VECTOR := Some (lvt_timer_vector l)\<rparr>
     else l)"

definition start_countdown :: "u64 \<Rightarrow> u64 \<Rightarrow> u32 \<Rightarrow> Lapic \<Rightarrow> Lapic" where
  "start_countdown t0 t1 val l =
    (let l = l\<lparr>APIC_INIT_COUNT := val\<rparr> in
     if val = 0 then l\<lparr>TIMER_RUNNING := False, HOST_TIMER_FOR_GUEST := False, PENDING_VECTOR := None\<rparr>
     else arm_guest_delivery_if_needed t1 (l\<lparr>TIMER_START_TSC := t0, TIMER_RUNNING := True\<rparr>))"

definition on_host_timer_fire :: "u64 \<Rightarrow> u64 \<Rightarrow> Lapic \<Rightarrow> bool \<times> Lapic" where
  "on_host_timer_fire t0 t1 l =
    (if \<not> HOST_TIMER_FOR_GUEST l then (False, l)
     else let l = l\<lparr>HOST_TIMER_FOR_GUEST := False\<rparr>;
              v = (case PENDING_VECTOR l of Some v \<Rightarrow> v | None \<Rightarrow> lvt_timer_vector l);
              l = l\<lparr>PENDING_VECTOR := None\<rparr>;
              l = (if timer_should_deliver l then set_irr v l else l);
              l = (if \<not> GTIMER3_OK l then l\<lparr>GTIMER3_OK := True, GTIMER3_PRINT := True\<rparr> else l)
          in (True,
              if APIC_LVT_TIMER l AND LVT_PERIODIC \<noteq> 0 \<and> APIC_INIT_COUNT l \<noteq> 0 \<and> timer_should_deliver l
              then arm_guest_delivery_if_needed t1 (l\<lparr>TIMER_START_TSC := t0, TIMER_RUNNING := True\<rparr>)
              else l\<lparr>TIMER_RUNNING := False\<rparr>))"

definition poll_timer_expiry :: "u64 \<Rightarrow> u64 \<Rightarrow> u64 \<Rightarrow> Lapic \<Rightarrow> bool \<times> Lapic" where
  "poll_timer_expiry t t0 t1 l =
    (if \<not> HOST_TIMER_FOR_GUEST l \<or> \<not> TIMER_RUNNING l \<or> APIC_INIT_COUNT l = 0 then (False, l)
     else if elapsed_counts t l < ucast (APIC_INIT_COUNT l) then (False, l)
     else on_host_timer_fire t0 t1 l)"

definition force_firmware_lapic_timer_expiry :: "u64 \<Rightarrow> u64 \<Rightarrow> Lapic \<Rightarrow> bool \<times> Lapic" where
  "force_firmware_lapic_timer_expiry t0 t1 l =
    (let masked = APIC_LVT_TIMER l AND LVT_MASKED \<noteq> 0;
         l = l\<lparr>APIC_LVT_TIMER :=
               if masked then (APIC_LVT_TIMER l AND NOT 0xFF AND NOT LVT_MASKED) OR 0x20 OR LVT_PERIODIC
               else (APIC_LVT_TIMER l AND NOT LVT_MASKED) OR LVT_PERIODIC\<rparr>;
         l = l\<lparr>APIC_SVR := APIC_SVR l OR SVR_ENABLED\<rparr>;
         l = (if APIC_INIT_COUNT l = 0 then l\<lparr>APIC_INIT_COUNT := 1\<rparr> else l);
         l = l\<lparr>TIMER_START_TSC := 0, TIMER_RUNNING := True, HOST_TIMER_FOR_GUEST := True,
               PENDING_VECTOR := Some (lvt_timer_vector l)\<rparr>
     in on_host_timer_fire t0 t1 l)"

definition relatch_if_idle :: "u64 \<Rightarrow> Lapic \<Rightarrow> bool \<times> Lapic" where
  "relatch_if_idle now l =
    (if \<not> timer_should_deliver l \<or> timer_vector_pending l then (False, l)
     else if APIC_INIT_COUNT l = 0 \<or> TIMER_RUNNING l \<and> HOST_TIMER_FOR_GUEST l then (False, l)
     else if TIMER_RELA_TSC l \<noteq> 0 \<and> now - TIMER_RELA_TSC l < 2000000 then (False, l)
     else (True, set_irr (lvt_timer_vector l) (l\<lparr>TIMER_RELA_TSC := now\<rparr>)))"

definition take_gtimer3_latch :: "Lapic \<Rightarrow> bool \<times> Lapic" where
  "take_gtimer3_latch l = (if GTIMER3_PRINT l then (True, l\<lparr>GTIMER3_PRINT := False\<rparr>) else (False, l))"

definition take_apic_ok_latch :: "Lapic \<Rightarrow> bool \<times> Lapic" where
  "take_apic_ok_latch l = (if APIC_OK_PRINT l then (True, l\<lparr>APIC_OK_PRINT := False\<rparr>) else (False, l))"

section \<open>Register windows\<close>

definition is_x2apic_msr :: "u32 \<Rightarrow> bool" where
  "is_x2apic_msr index \<longleftrightarrow> X2APIC_MSR_BASE \<le> index \<and> index \<le> X2APIC_MSR_LAST"

definition reg_from_msr :: "u32 \<Rightarrow> u32" where
  "reg_from_msr index = push_bit 4 (index - X2APIC_MSR_BASE)"

definition is_xapic_mmio_gpa :: "u64 \<Rightarrow> bool" where
  "is_xapic_mmio_gpa gpa \<longleftrightarrow> APIC_GPA \<le> gpa \<and> gpa < APIC_GPA + 0x1000"

definition reg_from_gpa :: "u64 \<Rightarrow> u32 option" where
  "reg_from_gpa gpa = (if \<not> is_xapic_mmio_gpa gpa then None else Some (ucast (gpa - APIC_GPA)))"

definition isr_reg_index :: "u32 \<Rightarrow> nat option" where
  "isr_reg_index reg =
    (if REG_ISR_BASE \<le> reg \<and> reg < REG_ISR_BASE + 0x80 \<and> reg AND 0xF = 0
     then Some (unat ((reg - REG_ISR_BASE) div 0x10)) else None)"

definition irr_reg_index :: "u32 \<Rightarrow> nat option" where
  "irr_reg_index reg =
    (if REG_IRR_BASE \<le> reg \<and> reg < REG_IRR_BASE + 0x80 \<and> reg AND 0xF = 0
     then Some (unat ((reg - REG_IRR_BASE) div 0x10)) else None)"

definition read_reg :: "u64 \<Rightarrow> Lapic \<Rightarrow> u32 \<Rightarrow> u32" where
  "read_reg t l reg =
    (case isr_reg_index reg of
       Some i \<Rightarrow> APIC_ISR l ! i
     | None \<Rightarrow> (case irr_reg_index reg of
       Some i \<Rightarrow> APIC_IRR l ! i
     | None \<Rightarrow>
         if reg = REG_ID then APIC_ID l
         else if reg = REG_VERSION then XAPIC_VERSION
         else if reg = REG_TPR then APIC_TPR l
         else if reg = REG_PPR then processor_priority l
         else if reg = REG_EOI then 0
         else if reg = REG_SVR then APIC_SVR l
         else if reg = REG_LVT_TIMER then APIC_LVT_TIMER l
         else if reg = REG_INIT_COUNT then APIC_INIT_COUNT l
         else if reg = REG_CUR_COUNT then current_count_raw t l
         else if reg = REG_DIVIDE then APIC_DIVIDE l
         else 0))"

definition write_reg :: "u64 \<Rightarrow> u64 \<Rightarrow> u32 \<Rightarrow> u32 \<Rightarrow> Lapic \<times> IrqState \<Rightarrow> Lapic \<times> IrqState" where
  "write_reg t0 t1 reg val lq =
    (let (l, q) = lq in
     if reg = REG_TPR then (l\<lparr>APIC_TPR := val\<rparr>, q)
     else if reg = REG_EOI then handle_eoi (l, q)
     else if reg = REG_SVR then (arm_guest_delivery_if_needed t0 (l\<lparr>APIC_SVR := val\<rparr>), q)
     else if reg = REG_LVT_TIMER then (arm_guest_delivery_if_needed t0 (l\<lparr>APIC_LVT_TIMER := val\<rparr>), q)
     else if reg = REG_DIVIDE then (l\<lparr>APIC_DIVIDE := val AND 0xB\<rparr>, q)
     else if reg = REG_INIT_COUNT then (start_countdown t0 t1 val l, q)
     else if reg = REG_ICR_HIGH then (l\<lparr>APIC_ICR_HIGH := val\<rparr>, q)
     else if reg = REG_ICR_LOW then (accept_icr_low val l, q)
     else (l, q))"

definition lapic_rdmsr :: "u64 \<Rightarrow> Lapic \<Rightarrow> u32 \<Rightarrow> u64 option" where
  "lapic_rdmsr t l index =
    (if \<not> is_x2apic_msr index then None else Some (ucast (read_reg t l (reg_from_msr index))))"

definition lapic_wrmsr ::
    "u64 \<Rightarrow> u64 \<Rightarrow> u32 \<Rightarrow> u64 \<Rightarrow> Lapic \<times> IrqState \<Rightarrow> bool option \<times> Lapic \<times> IrqState" where
  "lapic_wrmsr t0 t1 index value lq =
    (if \<not> is_x2apic_msr index then (None, lq)
     else let lq = write_reg t0 t1 (reg_from_msr index) (ucast value) lq
          in (Some (HOST_TIMER_FOR_GUEST (fst lq)), lq))"

definition lapic_mmio_access ::
    "u64 \<Rightarrow> u64 \<Rightarrow> u64 \<Rightarrow> bool \<Rightarrow> u32 \<Rightarrow> Lapic \<times> IrqState \<Rightarrow> u32 option option \<times> Lapic \<times> IrqState" where
  "lapic_mmio_access t0 t1 gpa is_write write_val lq =
    (case reg_from_gpa gpa of
       None \<Rightarrow> (None, lq)
     | Some reg \<Rightarrow>
         if is_write then (Some None, write_reg t0 t1 reg write_val lq)
         else (Some (Some (read_reg t0 (fst lq) reg)), lq))"

section \<open>The MSR bitmap\<close>

definition set_msr_bit :: "u64 \<Rightarrow> u32 \<Rightarrow> bool \<Rightarrow> phys_mem \<Rightarrow> phys_mem" where
  "set_msr_bit bitmap msr rd m =
    (let region = (if rd then 0 else 1024); idx = region + ucast msr div 8; p = bitmap + idx
     in m(p := m p OR one_at (unat (msr mod 8))))"

definition trap_x2apic_msrs :: "u64 \<Rightarrow> phys_mem \<Rightarrow> phys_mem" where
  "trap_x2apic_msrs bitmap m =
    (let m = fold (\<lambda>msr m. set_msr_bit bitmap msr False (set_msr_bit bitmap msr True m))
               (map of_nat [unat X2APIC_MSR_BASE..<Suc (unat X2APIC_MSR_LAST)]) m
     in set_msr_bit bitmap 0x1B False (set_msr_bit bitmap 0x1B True m))"

section \<open>Delivery is by priority and nests\<close>

definition lapic_inv :: "Lapic \<Rightarrow> bool" where
  "lapic_inv l \<longleftrightarrow> vec_regs (APIC_ISR l) \<and> vec_regs (APIC_IRR l) \<and> vec_regs (SELF_IPI_MASK l)"

lemma class_nat: "unat (x AND 0xF0 :: u32) = unat x mod 256 div 16 * 16"
proof -
  have "(0xF0 :: u32) = mask 8 AND NOT (mask 4)" by (simp add: mask_eq_exp_minus_1)
  then have "x AND 0xF0 = (x AND mask 8) AND NOT (mask 4)" by (simp only: and.assoc)
  then show ?thesis by (simp only: unat_and_not_mask unat_and_mask_low) simp
qed

lemma unat_vec32: "unat (ucast (v :: u8) :: u32) = unat v"
  using unat_u8_bound [of v] by (simp add: unsigned_ucast_eq take_bit_nat_eq_self)

lemma vec32_inj: "(ucast (v :: u8) :: u32) = ucast w \<longleftrightarrow> v = w"
  by (metis unat_vec32 word_unat_eq_iff)

lemma class_vec: "unat ((ucast (v :: u8) :: u32) AND 0xF0) = unat v div 16 * 16"
  using unat_u8_bound [of v] by (simp add: class_nat unat_vec32)

lemma ppr_class:
  assumes "highest_bit (APIC_ISR l) = Some h"
  shows "unat h div 16 * 16 \<le> unat (processor_priority l AND 0xF0)"
proof -
  let ?in = "(ucast h :: u32) AND 0xF0" and ?t = "APIC_TPR l AND 0xFF"
  have "?in AND 0xF0 = ?in" by (simp only: and.assoc) simp
  then have "?in \<le> processor_priority l AND 0xF0"
    using assms by (auto simp: processor_priority_def Let_def not_less)
  then show ?thesis unfolding word_le_nat_alt class_vec .
qed

lemma unblocked_above_in_service:
  assumes "lapic_inv l" and "\<not> vec_blocked l v" and "bit_is_set (APIC_ISR l) w"
  shows "w < v"
proof -
  have inv: "vec_regs (APIC_ISR l)" using assms(1) by (simp add: lapic_inv_def)
  obtain h where h: "highest_bit (APIC_ISR l) = Some h"
    using assms(3) highest_bit_None by (cases "highest_bit (APIC_ISR l)") auto
  have "unat h div 16 * 16 < unat v div 16 * 16"
    using assms(2) ppr_class [OF h] unfolding vec_blocked_def word_le_nat_alt class_vec by linarith
  then have "unat h < unat v" by (meson div_le_mono mult_le_mono1 not_less)
  moreover have "unat w \<le> unat h"
    using vr.top_max [OF inv h assms(3)] by (simp add: word_le_nat_alt)
  ultimately show ?thesis by (simp add: word_less_nat_alt)
qed

lemma deliver_vec_fields:
  "APIC_IRR (deliver_vec v l) = bit_clear v (APIC_IRR l)"
  "APIC_ISR (deliver_vec v l) = bit_set v (APIC_ISR l)"
  "SELF_IPI_MASK (deliver_vec v l) = SELF_IPI_MASK l"
  "APIC_TPR (deliver_vec v l) = APIC_TPR l"
  by (simp_all add: deliver_vec_def Let_def)

text \<open>
  C37: \<open>take_deliverable_vector\<close> delivers by priority: it returns the largest requested
  vector when its class is above the processor priority, moves exactly that vector from the
  request to the in-service register, and otherwise returns nothing and changes nothing.
\<close>

theorem take_deliverable_vector_correct:
  assumes "lapic_inv l" and "take_deliverable_vector l = (r, l')"
  shows "case r of
      None \<Rightarrow> l' = l \<and> (\<forall>v. bit_is_set (APIC_IRR l) v \<longrightarrow> vec_blocked l v)
    | Some x \<Rightarrow> \<exists>v. x = ucast v \<and> bit_is_set (APIC_IRR l) v \<and> \<not> vec_blocked l v \<and>
        (\<forall>w. bit_is_set (APIC_IRR l) w \<longrightarrow> w \<le> v) \<and>
        (\<forall>w. bit_is_set (APIC_IRR l') w \<longleftrightarrow> bit_is_set (APIC_IRR l) w \<and> w \<noteq> v) \<and>
        (\<forall>w. bit_is_set (APIC_ISR l') w \<longleftrightarrow> bit_is_set (APIC_ISR l) w \<or> w = v) \<and>
        APIC_TPR l' = APIC_TPR l \<and> lapic_inv l'"
proof -
  have irr: "vec_regs (APIC_IRR l)" and isr: "vec_regs (APIC_ISR l)"
    using assms(1) by (simp_all add: lapic_inv_def)
  have mono: "vec_blocked l w" if "vec_blocked l v" "w \<le> v" for v w
  proof -
    have "unat w div 16 * 16 \<le> unat v div 16 * 16"
      using that(2) by (simp add: word_le_nat_alt div_le_mono)
    then show ?thesis
      using that(1) unfolding vec_blocked_def word_le_nat_alt class_vec by linarith
  qed
  show ?thesis
  proof (cases "highest_bit (APIC_IRR l)")
    case None
    then show ?thesis
      using assms(2) highest_bit_None [OF None]
      by (auto simp: take_deliverable_vector_def take_irr_vector_def)
  next
    case (Some v)
    note top = vr.top_Some [OF irr Some] vr.top_max [OF irr Some]
    show ?thesis
    proof (cases "vec_blocked l v")
      case True
      then have "r = None" "l' = l"
        using assms(2) Some by (auto simp: take_deliverable_vector_def take_irr_vector_def)
      then show ?thesis using mono [OF True] top(2) by auto
    next
      case False
      then have r: "r = Some (ucast v)" "l' = deliver_vec v l"
        using assms(2) Some by (auto simp: take_deliverable_vector_def take_irr_vector_def)
      show ?thesis
        unfolding r using False top irr isr assms(1)
        by (auto simp: deliver_vec_fields bit_is_set_set bit_is_set_clear lapic_inv_def)
    qed
  qed
qed

definition deliver_example :: Lapic where
  "deliver_example = latch_irr 0x51 (latch_irr 0x30 (lapic_reset\<lparr>APIC_TPR := 0x40\<rparr>))"

theorem take_deliverable_vector_correct_witness:
  "lapic_inv deliver_example \<and> fst (take_deliverable_vector deliver_example) = Some 0x51 \<and>
   (\<exists>v. (0x51 :: u32) = ucast v \<and> bit_is_set (APIC_IRR deliver_example) v \<and>
      \<not> bit_is_set (APIC_IRR (snd (take_deliverable_vector deliver_example))) v)"
proof -
  have inv: "lapic_inv deliver_example"
    by (simp add: deliver_example_def latch_irr_def set_irr_def lapic_inv_def lapic_reset_def)
  moreover have r: "fst (take_deliverable_vector deliver_example) = Some 0x51" by code_simp
  ultimately show ?thesis
    using take_deliverable_vector_correct [OF inv, of "Some 0x51" "snd (take_deliverable_vector deliver_example)"]
    by (auto simp: prod_eq_iff)
qed

lemma take_deliverable_Some:
  assumes "lapic_inv l" and "take_deliverable_vector l = (Some (ucast v), l')"
  shows "l' = deliver_vec v l" and "\<not> vec_blocked l v" and "bit_is_set (APIC_IRR l) v"
proof -
  obtain u where u: "highest_bit (APIC_IRR l) = Some u" "\<not> vec_blocked l u"
    "ucast u = (ucast v :: u32)" "l' = deliver_vec u l"
    using assms(2)
    by (auto simp: take_deliverable_vector_def take_irr_vector_def split: option.splits if_splits)
  then show "l' = deliver_vec v l" "\<not> vec_blocked l v" "bit_is_set (APIC_IRR l) v"
    using highest_bit_Some(1) [OF u(1)] by (simp_all add: vec32_inj)
qed

lemma eoi_undoes_delivery:
  assumes "lapic_inv l" and "\<not> vec_blocked l v"
  shows "handle_eoi (deliver_vec v l, q) =
    ((deliver_vec v l)\<lparr>APIC_ISR := APIC_ISR l\<rparr>, ioapic_eoi v q)"
proof -
  have "vec_regs (APIC_ISR l)" using assms(1) by (simp add: lapic_inv_def)
  note e = vr.end_after_deliver [OF this unblocked_above_in_service [OF assms]]
  show ?thesis by (simp add: handle_eoi_def deliver_vec_fields e)
qed

lemma write_reg_eoi: "write_reg t0 t1 REG_EOI val lq = handle_eoi lq"
  by (simp add: write_reg_def lapic_regs split: prod.split)

text \<open>
  C33: the whole life of a level-triggered device interrupt, across the IOAPIC and the local
  APIC.  Once the IOAPIC has handed out the vector of a level pin, that pin is held back.
  The vector is latched and delivered by the local APIC; the guest's write to the EOI
  register restores the in-service register and releases the pin: it is ready again with the
  same vector if the device still asserts its line, and idle if the device dropped it.
\<close>

theorem level_irq_lifecycle:
  assumes "irq_shape q" and "lapic_inv l" and "product_live q"
    and "ioapic_peek_pin q = Some (pin, v)" and "bit (redir (ioapic (chip q)) ! unat pin) 15"
    and "take_ioapic_vector q = (Some v, q1)"
    and "take_deliverable_vector (latch_irr v l) = (Some (ucast v), l2)"
  shows "ioapic_pin_ready (chip q1) pin = None \<and>
    (let (l3, q3) = write_reg t0 t1 REG_EOI val (l2, q1) in
       APIC_ISR l3 = APIC_ISR l \<and> APIC_IRR l3 = bit_clear v (APIC_IRR l) \<and>
       ioapic_pin_ready (chip q3) pin = Some v) \<and>
    (let (l3, q3) = write_reg t0 t1 REG_EOI val (l2, lower_gsi pin q1) in
       APIC_ISR l3 = APIC_ISR l \<and> ioapic_pin_ready (chip q3) pin = None \<and>
       redir (ioapic (chip q3)) ! unat pin = redir (ioapic (chip q)) ! unat pin)"
proof -
  let ?r = "redir (ioapic (chip q))" and ?i = "unat pin"
  have ready: "ioapic_pin_ready (chip q) pin = Some v"
    using first_ready_Some assms(4) unfolding ioapic_peek_pin_def by blast
  then have i: "?i < IOAPIC_PINS" "16 \<le> v" "bit (io_irr (ioapic (chip q))) ?i"
    by (auto simp: pin_ready_iff Let_def)
  have q1: "q1 = chip_update (ioapic_accept pin) q"
    using assms(3,4,6) by (simp add: take_ioapic_vector_def)
  have acc: "chip q1 = ioapic_update (redir_update (\<lambda>r. r[?i := ?r ! ?i OR RTE_REMOTE_IRR])) (chip q)"
    unfolding q1 using accept_level [OF assms(5)] by simp
  have blocked: "ioapic_pin_ready (chip q1) pin = None"
    using accepted_level_pin_blocked [OF assms(1) ready assms(5)] by (simp add: q1)
  have live: "product_live q1" "product_live (lower_gsi pin q1)"
    using assms(3) by (simp_all add: q1 product_live_def product_iso_window_armed_def lower_gsi_def)
  note e = eoi_after_accept [OF assms(1) ready assms(5)]
  have len: "?i < length ?r" using i(1) assms(1) by (simp add: irq_shape_def)
  have redir3: "map (eoi_rte v) (redir (ioapic (chip q1))) ! ?i = ?r ! ?i"
    using e len by (simp add: q1)
  have lowered: "redir (ioapic (chip (lower_gsi pin q1))) = redir (ioapic (chip q1))"
    "\<not> bit (io_irr (ioapic (chip (lower_gsi pin q1)))) ?i"
    using i(1) by (simp_all add: lower_gsi_def pic_ioapic_frame Let_def one_bit)
  have inv1: "lapic_inv (latch_irr v l)"
    using assms(2) i(2) by (simp add: lapic_inv_def latch_irr_def set_irr_def)
  note d = take_deliverable_Some [OF inv1 assms(7)]
  have l: "APIC_ISR (latch_irr v l) = APIC_ISR l" "APIC_IRR (latch_irr v l) = bit_set v (APIC_IRR l)"
    using i(2) by (simp_all add: latch_irr_def set_irr_def)
  have irr: "bit_clear v (bit_set v (APIC_IRR l)) = bit_clear v (APIC_IRR l)"
    using assms(2) by (intro vec_regs_ext) (auto simp: lapic_inv_def bit_is_set_set bit_is_set_clear)
  note eoi = eoi_undoes_delivery [OF inv1 d(2)]
  have "ioapic_pin_ready (chip (ioapic_eoi v q1)) pin = Some v"
    using ready live redir3 acc by (simp add: pin_ready_iff ioapic_eoi_def)
  moreover have "ioapic_pin_ready (chip (ioapic_eoi v (lower_gsi pin q1))) pin = None"
    using lowered live by (simp add: ioapic_eoi_def ioapic_pin_ready_def one_bit)
  moreover have "redir (ioapic (chip (ioapic_eoi v (lower_gsi pin q1)))) ! ?i = ?r ! ?i"
    using redir3 lowered live by (simp add: ioapic_eoi_def)
  ultimately show ?thesis
    using blocked by (simp add: write_reg_eoi eoi l irr d(1) deliver_vec_fields)
qed

definition level_pin_example :: IrqState where
  "level_pin_example = raise_gsi VIRTIO_GSI (note_linux_dev_irq
     (ioapic_write 0x10 0x8051 (select_rte 17 0 irq_statics)))"

theorem level_irq_lifecycle_witness:
  "(let q = level_pin_example; q1 = snd (take_ioapic_vector q);
        l2 = snd (take_deliverable_vector (latch_irr 0x51 lapic_reset)) in
    fst (take_ioapic_vector q) = Some 0x51 \<and> ioapic_pin_ready (chip q1) 17 = None \<and>
    ioapic_pin_ready (chip (snd (write_reg 0 0 REG_EOI 0 (l2, q1)))) 17 = Some 0x51)"
proof -
  let ?q = level_pin_example
  let ?q1 = "snd (take_ioapic_vector ?q)"
  let ?l2 = "snd (take_deliverable_vector (latch_irr 0x51 lapic_reset))"
  have "irq_shape ?q" "product_live ?q" "bit (redir (ioapic (chip ?q)) ! unat (17 :: u8)) 15"
    and p: "ioapic_peek_pin ?q = Some (17, 0x51)" and t: "fst (take_ioapic_vector ?q) = Some 0x51"
    by code_simp+
  moreover have "lapic_inv lapic_reset" by (simp add: lapic_inv_def lapic_reset_def)
  moreover have "take_ioapic_vector ?q = (Some 0x51, ?q1)" using t by (simp add: prod_eq_iff)
  moreover have "fst (take_deliverable_vector (latch_irr 0x51 lapic_reset)) = Some 0x51" by code_simp
  then have "take_deliverable_vector (latch_irr 0x51 lapic_reset) = (Some (ucast (0x51 :: u8)), ?l2)"
    by (simp add: prod_eq_iff)
  ultimately show ?thesis
    using level_irq_lifecycle [of ?q lapic_reset 17 "0x51" ?q1 ?l2 0 0 0] t
    by (simp add: Let_def split_beta)
qed

section \<open>Runs of the local APIC\<close>

datatype LapicOp = WriteMsr u64 u64 u32 u64 | WriteMmio u64 u64 u64 u32 | LatchIrr u8
  | SetCr8 u64 | TakeDeliverable | TakeHighest | TakeVec u8 bool | TakeTimer | TakeSelfIpi
  | PollTimer u64 u64 u64 | HostTimer u64 u64 | ForceTimer u64 u64 | Relatch u64

fun lapic_exec :: "LapicOp \<Rightarrow> Lapic \<times> IrqState \<Rightarrow> Lapic \<times> IrqState" where
  "lapic_exec (WriteMsr t0 t1 index value) lq = snd (lapic_wrmsr t0 t1 index value lq)"
| "lapic_exec (WriteMmio t0 t1 gpa val) lq = snd (lapic_mmio_access t0 t1 gpa True val lq)"
| "lapic_exec (LatchIrr vec) (l, q) = (latch_irr vec l, q)"
| "lapic_exec (SetCr8 val) (l, q) = (set_cr8 val l, q)"
| "lapic_exec TakeDeliverable (l, q) = (snd (take_deliverable_vector l), q)"
| "lapic_exec TakeHighest (l, q) = (snd (take_highest_irr l), q)"
| "lapic_exec (TakeVec vec ignore_tpr) (l, q) = (snd (take_irr_vec vec ignore_tpr l), q)"
| "lapic_exec TakeTimer (l, q) = (snd (take_timer_vector l), q)"
| "lapic_exec TakeSelfIpi (l, q) = (snd (take_self_ipi l), q)"
| "lapic_exec (PollTimer t t0 t1) (l, q) = (snd (poll_timer_expiry t t0 t1 l), q)"
| "lapic_exec (HostTimer t0 t1) (l, q) = (snd (on_host_timer_fire t0 t1 l), q)"
| "lapic_exec (ForceTimer t0 t1) (l, q) = (snd (force_firmware_lapic_timer_expiry t0 t1 l), q)"
| "lapic_exec (Relatch now) (l, q) = (snd (relatch_if_idle now l), q)"

lemma lapic_inv_regs:
  "lapic_inv l \<Longrightarrow> APIC_ISR l' = APIC_ISR l \<Longrightarrow> APIC_IRR l' = APIC_IRR l \<Longrightarrow>
     SELF_IPI_MASK l' = SELF_IPI_MASK l \<Longrightarrow> lapic_inv l'"
  by (simp add: lapic_inv_def)

lemma arm_regs:
  "APIC_ISR (arm_guest_delivery_if_needed t l) = APIC_ISR l"
  "APIC_IRR (arm_guest_delivery_if_needed t l) = APIC_IRR l"
  "SELF_IPI_MASK (arm_guest_delivery_if_needed t l) = SELF_IPI_MASK l"
  by (simp_all add: arm_guest_delivery_if_needed_def)

lemma lapic_inv_simple:
  "lapic_inv l \<Longrightarrow> lapic_inv (latch_irr v l)" "lapic_inv l \<Longrightarrow> lapic_inv (set_cr8 x l)"
  "lapic_inv l \<Longrightarrow> lapic_inv (set_irr v (l\<lparr>TIMER_RELA_TSC := t\<rparr>))"
  by (simp_all add: lapic_inv_def latch_irr_def set_irr_def set_cr8_def set_tpr_def)

lemma lapic_inv_deliver: "lapic_inv l \<Longrightarrow> lapic_inv (deliver_vec v l)"
  by (simp add: lapic_inv_def deliver_vec_fields)

lemma lapic_inv_take:
  "lapic_inv l \<Longrightarrow> lapic_inv (snd (take_irr_vector b l))"
  "lapic_inv l \<Longrightarrow> lapic_inv (snd (take_irr_vec v b l))"
  "lapic_inv l \<Longrightarrow> lapic_inv (snd (take_self_ipi l))"
proof -
  show "lapic_inv l \<Longrightarrow> lapic_inv (snd (take_irr_vector b l))"
    by (simp add: take_irr_vector_def lapic_inv_deliver split: option.split)
  show vec: "lapic_inv l \<Longrightarrow> lapic_inv (snd (take_irr_vec v b l))" for v b l
    by (simp add: take_irr_vec_def lapic_inv_deliver)
  have "lapic_inv l \<Longrightarrow> lapic_inv (SELF_IPI_MASK_update (bit_clear w) l)" for w
    by (simp add: lapic_inv_def)
  then show "lapic_inv l \<Longrightarrow> lapic_inv (snd (take_self_ipi l))"
    by (simp add: take_self_ipi_def vec split: option.split)
qed

lemma lapic_inv_fire: "lapic_inv l \<Longrightarrow> lapic_inv (snd (on_host_timer_fire t0 t1 l))"
  by (simp add: on_host_timer_fire_def Let_def lapic_inv_def arm_regs set_irr_def)

lemma lapic_inv_force:
  assumes "lapic_inv l"
  shows "lapic_inv (snd (force_firmware_lapic_timer_expiry t0 t1 l))"
  unfolding force_firmware_lapic_timer_expiry_def Let_def
  by (rule lapic_inv_fire, rule lapic_inv_regs [OF assms]) simp_all

lemma lapic_inv_write_reg:
  assumes "lapic_inv (fst lq)"
  shows "lapic_inv (fst (write_reg t0 t1 reg val lq))"
proof -
  obtain l q where lq: "lq = (l, q)" by fastforce
  have "lapic_inv (fst (handle_eoi (l, q)))"
    using assms lq by (simp add: handle_eoi_def lapic_inv_def split: option.split)
  moreover have "lapic_inv (start_countdown t0 t1 val l)"
    using assms lq by (simp add: start_countdown_def lapic_inv_def arm_regs Let_def)
  moreover have "lapic_inv (accept_icr_low val l)"
    using assms lq by (simp add: accept_icr_low_def lapic_inv_def set_irr_def Let_def)
  ultimately show ?thesis
    using assms lq by (simp add: write_reg_def lapic_inv_def arm_regs)
qed

text \<open>
  The registers keep the shape that the lemmas of this theory assume, over any run from the reset
  state.
\<close>

lemma lapic_run_inv: "lapic_inv (fst (fold lapic_exec ops (lapic_reset, q)))"
proof -
  have step: "lapic_inv (fst (lapic_exec op lq))" if "lapic_inv (fst lq)" for op lq
  proof (cases op)
    case (WriteMsr t0 t1 index x)
    then show ?thesis
      using that by (simp add: lapic_wrmsr_def lapic_inv_write_reg Let_def)
  next
    case (WriteMmio t0 t1 gpa val)
    then show ?thesis
      using that by (simp add: lapic_mmio_access_def lapic_inv_write_reg split: option.split)
  qed (use that in \<open>(cases lq; simp add: lapic_inv_simple take_deliverable_vector_def
      take_highest_irr_def take_timer_vector_def lapic_inv_take lapic_inv_fire lapic_inv_force
      poll_timer_expiry_def relatch_if_idle_def)\<close>)+
  have "lapic_inv (fst (fold lapic_exec ops lq))" if "lapic_inv (fst lq)" for lq
    using that by (induction ops arbitrary: lq) (simp_all add: step)
  from this [of "(lapic_reset, q)"] show ?thesis by (simp add: lapic_inv_def lapic_reset_def)
qed

section \<open>The timer counts down exactly\<close>

lemma unat_u32_to_u64: "unat (ucast (x :: u32) :: u64) = unat x"
  using unat_u32_bound [of x] by (simp add: unsigned_ucast_eq take_bit_nat_eq_self)

lemma divide_value_pos: "0 < unat (divide_value d)"
  by (simp add: divide_value_def Let_def)

text \<open>Timer counts between two time-stamp readings, with the difference taken modulo \<open>2 ^ 64\<close>.\<close>

definition counts_between :: "u32 \<Rightarrow> u64 \<Rightarrow> u64 \<Rightarrow> nat" where
  "counts_between dcr t0 t = unat (t - t0) div 32 div unat (divide_value dcr)"

lemma unat_elapsed_counts:
  assumes "TIMER_RUNNING l" and "APIC_INIT_COUNT l \<noteq> 0"
  shows "unat (elapsed_counts t l) = counts_between (APIC_DIVIDE l) (TIMER_START_TSC l) t"
  using assms by (simp add: elapsed_counts_def counts_between_def TSC_PER_BUS_CYCLE_def unat_div
      unat_u32_to_u64 Let_def)

lemma current_count_nat:
  fixes t :: u64
  assumes "TIMER_RUNNING l" and "APIC_INIT_COUNT l \<noteq> 0"
  defines "n \<equiv> unat (APIC_INIT_COUNT l)"
    and "e \<equiv> counts_between (APIC_DIVIDE l) (TIMER_START_TSC l) t"
  shows "unat (current_count_raw t l) =
    (if APIC_LVT_TIMER l AND LVT_PERIODIC \<noteq> 0 then n - e mod n else n - e)"
proof -
  let ?ini = "ucast (APIC_INIT_COUNT l) :: u64" and ?el = "elapsed_counts t l"
  have n: "0 < n" "n < 2 ^ 32"
    using assms(2) unat_u32_bound [of "APIC_INIT_COUNT l"] by (simp_all add: n_def unat_gt_0)
  have u: "unat ?ini = n" "unat ?el = e"
    using unat_elapsed_counts [OF assms(1,2), of t] by (simp_all add: n_def e_def unat_u32_to_u64)
  have nz: "?ini \<noteq> 0" using u(1) n(1) by (auto simp: word_unat_eq_iff)
  have cut: "unat (ucast x :: u32) = unat x" if "unat x \<le> n" for x :: u64
    using that n by (simp add: unsigned_ucast_eq take_bit_nat_eq_self)
  have per: "unat (?ini - ?el mod ?ini) = n - e mod n"
  proof -
    have "unat (?el mod ?ini) = e mod n" by (simp add: unat_mod u)
    moreover from this have "?el mod ?ini \<le> ?ini" using n(1) u(1) by (simp add: word_le_nat_alt)
    ultimately show ?thesis by (simp add: unat_sub_le u)
  qed
  have one: "unat (?ini - ?el) = n - e" if "\<not> ?ini \<le> ?el"
    using that by (simp add: unat_sub_le u less_imp_le)
  show ?thesis
    using assms(1,2) nz per one u by (auto simp: current_count_raw_def Let_def cut word_le_nat_alt)
qed

text \<open>
  the current-count register never truncates or wraps.  While the timer runs it shows, in
  one-shot mode, the initial count less the counts elapsed, down to zero; in periodic
  mode, a value between one and the initial count that repeats with the period.
\<close>

theorem current_count_exact:
  assumes "TIMER_RUNNING l" and "APIC_INIT_COUNT l \<noteq> 0"
  shows "let n = unat (APIC_INIT_COUNT l); e = counts_between (APIC_DIVIDE l) (TIMER_START_TSC l) t;
             c = unat (current_count_raw t l) in
    c = (if APIC_LVT_TIMER l AND LVT_PERIODIC \<noteq> 0 then n - e mod n else n - e) \<and>
    c \<le> n \<and> (APIC_LVT_TIMER l AND LVT_PERIODIC \<noteq> 0 \<longrightarrow> 1 \<le> c)"
proof -
  have "0 < unat (APIC_INIT_COUNT l)" using assms(2) by (simp add: unat_gt_0)
  then have "counts_between (APIC_DIVIDE l) (TIMER_START_TSC l) t mod unat (APIC_INIT_COUNT l) <
      unat (APIC_INIT_COUNT l)" by (rule mod_less_divisor)
  then show ?thesis using current_count_nat [OF assms, of t] unfolding Let_def by auto
qed

theorem current_count_exact_witness:
  "(let l = lapic_reset\<lparr>TIMER_RUNNING := True, APIC_INIT_COUNT := 100, TIMER_START_TSC := - 512\<rparr> in
    TIMER_RUNNING l \<and> unat (current_count_raw 512 l) = 98)"
proof -
  let ?l = "lapic_reset\<lparr>TIMER_RUNNING := True, APIC_INIT_COUNT := 100, TIMER_START_TSC := - 512\<rparr>"
  have "counts_between (APIC_DIVIDE ?l) (TIMER_START_TSC ?l) 512 = 2" "APIC_LVT_TIMER ?l AND LVT_PERIODIC = 0"
    by code_simp+
  then show ?thesis using current_count_exact [of ?l 512] by (simp add: Let_def)
qed

lemma current_count_raw_one_shot:
  assumes "TIMER_RUNNING l" and "APIC_INIT_COUNT l \<noteq> 0" and "APIC_LVT_TIMER l AND LVT_PERIODIC = 0"
  shows "unat (current_count_raw t l) =
    unat (APIC_INIT_COUNT l) - counts_between (APIC_DIVIDE l) (TIMER_START_TSC l) t"
  using current_count_nat [OF assms(1,2)] assms(3) by simp

text \<open>
  C35: a programmed one-shot timer expires exactly once and exactly on time.  After the guest
  writes the initial count with the timer unmasked, polling before the count has elapsed
  reports nothing and changes nothing; the first poll at or after that moment latches the
  timer's vector and stops the timer, and later polls report nothing.  The one
  condition is that the count has not already run out when the write arms the timer.
\<close>

theorem one_shot_expires_exactly:
  assumes "lapic_inv l" and "timer_should_deliver l" and "APIC_LVT_TIMER l AND LVT_PERIODIC = 0"
    and "val \<noteq> 0" and "counts_between (APIC_DIVIDE l) t0 t1 < unat val"
  shows "let l1 = start_countdown t0 t1 val l; e = counts_between (APIC_DIVIDE l) t0 t;
             (fired, l2) = poll_timer_expiry t ta tb l1 in
    if e < unat val then \<not> fired \<and> l2 = l1
    else fired \<and> (\<forall>v. bit_is_set (APIC_IRR l2) v \<longleftrightarrow> v = lvt_timer_vector l \<or> bit_is_set (APIC_IRR l) v) \<and>
      (\<forall>t' ta' tb'. poll_timer_expiry t' ta' tb' l2 = (False, l2))"
proof -
  define m where "m = l\<lparr>APIC_INIT_COUNT := val, TIMER_START_TSC := t0, TIMER_RUNNING := True\<rparr>"
  have run: "TIMER_RUNNING m" "APIC_INIT_COUNT m \<noteq> 0" "APIC_DIVIDE m = APIC_DIVIDE l"
    "TIMER_START_TSC m = t0" "APIC_INIT_COUNT m = val" "APIC_LVT_TIMER m AND LVT_PERIODIC = 0"
    using assms(3,4) by (simp_all add: m_def)
  have del: "timer_should_deliver m" using assms(2) by (simp add: m_def timer_should_deliver_def)
  have "unat (current_count_raw t1 m) = unat val - counts_between (APIC_DIVIDE l) t0 t1"
    using current_count_raw_one_shot [OF run(1,2,6)] run by simp
  then have "current_count_raw t1 m \<noteq> 0" using assms(5) by auto
  then have l1: "start_countdown t0 t1 val l =
      m\<lparr>HOST_TIMER_FOR_GUEST := True, PENDING_VECTOR := Some (lvt_timer_vector m)\<rparr>"
    using assms(4) run(1) del
    by (simp add: start_countdown_def arm_guest_delivery_if_needed_def Let_def m_def)
  let ?l1 = "m\<lparr>HOST_TIMER_FOR_GUEST := True, PENDING_VECTOR := Some (lvt_timer_vector m)\<rparr>"
  have lt: "elapsed_counts t ?l1 < ucast val \<longleftrightarrow> counts_between (APIC_DIVIDE l) t0 t < unat val"
    using unat_elapsed_counts [of ?l1 t] run by (simp add: word_less_nat_alt unat_u32_to_u64)
  have vec: "lvt_timer_vector m = lvt_timer_vector l" "APIC_IRR m = APIC_IRR l"
    by (simp_all add: m_def lvt_timer_vector_def)
  have regs: "vec_regs (APIC_IRR l)" using assms(1) by (simp add: lapic_inv_def)
  show ?thesis
  proof (cases "counts_between (APIC_DIVIDE l) t0 t < unat val")
    case True
    then show ?thesis using lt by (simp add: l1 poll_timer_expiry_def Let_def run assms(4))
  next
    case False
    then have p: "poll_timer_expiry t ta tb ?l1 = on_host_timer_fire ta tb ?l1"
      using lt by (simp add: poll_timer_expiry_def run assms(4))
    have "fst (on_host_timer_fire ta tb ?l1)"
      "APIC_IRR (snd (on_host_timer_fire ta tb ?l1)) = bit_set (lvt_timer_vector l) (APIC_IRR l)"
      "\<not> HOST_TIMER_FOR_GUEST (snd (on_host_timer_fire ta tb ?l1))"
      using del run(6) vec by (simp_all add: on_host_timer_fire_def Let_def timer_should_deliver_def
          set_irr_def)
    moreover from this have "poll_timer_expiry t' ta' tb' (snd (on_host_timer_fire ta tb ?l1)) =
        (False, snd (on_host_timer_fire ta tb ?l1))" for t' ta' tb'
      unfolding poll_timer_expiry_def by simp
    ultimately show ?thesis
      using False regs by (simp add: l1 p Let_def split_beta bit_is_set_set)
  qed
qed

theorem one_shot_expires_exactly_witness:
  "(let l = lapic_reset\<lparr>APIC_LVT_TIMER := 0xEF\<rparr>; l1 = start_countdown 1000 1010 5 l in
    timer_should_deliver l \<and> \<not> fst (poll_timer_expiry 2000 0 0 l1) \<and>
    fst (poll_timer_expiry 4000 0 0 l1))"
proof -
  let ?l = "lapic_reset\<lparr>APIC_LVT_TIMER := 0xEF\<rparr>"
  have inv: "lapic_inv ?l" by (simp add: lapic_inv_def lapic_reset_def)
  have h: "timer_should_deliver ?l" "APIC_LVT_TIMER ?l AND LVT_PERIODIC = 0" "(5 :: u32) \<noteq> 0"
    "counts_between (APIC_DIVIDE ?l) 1000 1010 < unat (5 :: u32)"
    and e: "counts_between (APIC_DIVIDE ?l) 1000 2000 < unat (5 :: u32)"
    "\<not> counts_between (APIC_DIVIDE ?l) 1000 4000 < unat (5 :: u32)"
    by code_simp+
  have "\<not> fst (poll_timer_expiry 2000 0 0 (start_countdown 1000 1010 5 ?l))"
    using one_shot_expires_exactly [OF inv h, of 2000 0 0] e(1) by (simp add: Let_def split_beta)
  moreover have "fst (poll_timer_expiry 4000 0 0 (start_countdown 1000 1010 5 ?l))"
    using one_shot_expires_exactly [OF inv h, of 4000 0 0] e(2) by (simp add: Let_def split_beta)
  ultimately show ?thesis using h(1) by (simp add: Let_def)
qed

section \<open>What the MSR bitmap intercepts\<close>

text \<open>
  The layout of the VMX MSR bitmap (Intel SDM, MSR-bitmap address): read bits of the low
  MSRs at offset 0, of the high MSRs at 1024, write bits of the low MSRs at 2048, of the high
  MSRs at 3072.
\<close>

definition msr_intercepted :: "phys_mem \<Rightarrow> u64 \<Rightarrow> u32 \<Rightarrow> bool \<Rightarrow> bool" where
  "msr_intercepted m bitmap msr rd =
    (let base = (if rd then 0 else 2048);
         at = (\<lambda>off n. bit (m (bitmap + of_nat (base + off + n div 8))) (n mod 8)) in
     if msr \<le> 0x1FFF then at 0 (unat msr)
     else if 0xC0000000 \<le> msr \<and> msr \<le> 0xC0001FFF then at 1024 (unat (msr - 0xC0000000))
     else True)"

lemma small_offset_inj:
  assumes "j < 4096" and "k < 4096"
  shows "(of_nat j :: u64) = of_nat k \<longleftrightarrow> j = k"
proof
  have u: "unat (of_nat i :: u64) = i" if "i < 4096" for i
    by (rule unat_of_nat_small) (use that in simp)
  assume "(of_nat j :: u64) = of_nat k"
  then have "unat (of_nat j :: u64) = unat (of_nat k :: u64)" by (rule arg_cong)
  then show "j = k" by (simp only: u assms)
qed simp

lemma set_msr_bit_bit:
  assumes "k < 4096" and "unat msr < 0x2000"
  shows "bit (set_msr_bit bitmap msr rd m (bitmap + of_nat k)) b \<longleftrightarrow>
    bit (m (bitmap + of_nat k)) b \<or> k = (if rd then 0 else 1024) + unat msr div 8 \<and> b = unat msr mod 8"
proof -
  let ?r = "if rd then 0 else 1024 :: nat"
  have idx: "(if rd then 0 else 1024) + ucast msr div 8 = (of_nat (?r + unat msr div 8) :: u64)"
    using assms(2) by (intro word_eq_unatI)
      (simp add: unat_add_small unat_of_nat_small unat_div unat_u32_to_u64)
  have "?r + unat msr div 8 < 4096" using assms(2) by auto
  then have "(of_nat k :: u64) = of_nat (?r + unat msr div 8) \<longleftrightarrow> k = ?r + unat msr div 8"
    by (rule small_offset_inj [OF assms(1)])
  moreover have "unat (msr mod 8) = unat msr mod 8" "unat msr mod 8 < 8" by (simp_all add: unat_mod)
  ultimately show ?thesis
    by (simp only: set_msr_bit_def Let_def idx fun_upd_apply add_left_cancel) (auto simp: one_bit)
qed

lemma set_msr_bits_fold:
  assumes "k < 4096" and "\<forall>msr \<in> set msrs. unat msr < 0x2000"
  shows "bit (fold (\<lambda>msr m. set_msr_bit bitmap msr False (set_msr_bit bitmap msr True m)) msrs m
      (bitmap + of_nat k)) b \<longleftrightarrow>
    bit (m (bitmap + of_nat k)) b \<or>
    (\<exists>msr \<in> set msrs. (k = unat msr div 8 \<or> k = 1024 + unat msr div 8) \<and> b = unat msr mod 8)"
  using assms(2) by (induction msrs arbitrary: m) (auto simp: set_msr_bit_bit [OF assms(1)])

definition trapped_index :: "nat \<Rightarrow> bool" where
  "trapped_index n \<longleftrightarrow> n = 0x1B \<or> 0x800 \<le> n \<and> n \<le> 0x83F"

lemma trap_bits:
  assumes "\<forall>k < 4096. m (bitmap + of_nat k) = 0" and "k < 4096" and "b < 8"
  shows "bit (trap_x2apic_msrs bitmap m (bitmap + of_nat k)) b \<longleftrightarrow>
    k < 1024 \<and> trapped_index (8 * k + b) \<or> 1024 \<le> k \<and> trapped_index (8 * (k - 1024) + b)"
proof -
  let ?msrs = "map of_nat [unat X2APIC_MSR_BASE..<Suc (unat X2APIC_MSR_LAST)] :: u32 list"
  have u: "unat (of_nat n :: u32) = n" if "n < 0x2000" for n
    by (rule unat_of_nat_small) (use that in simp)
  have range: "unat X2APIC_MSR_BASE = 0x800" "unat X2APIC_MSR_LAST = 0x83F"
    by (simp_all add: X2APIC_MSR_BASE_def X2APIC_MSR_LAST_def)
  have set: "set ?msrs = of_nat ` {0x800..0x83F}"
    unfolding set_map set_upt range atLeastLessThanSuc_atLeastAtMost by (rule refl)
  have small: "\<forall>msr \<in> set ?msrs. unat msr < 0x2000"
    unfolding set using u by auto
  have ex: "(\<exists>msr \<in> set ?msrs. P (unat msr)) \<longleftrightarrow> (\<exists>n. 0x800 \<le> n \<and> n \<le> 0x83F \<and> P n)" for P
    unfolding set using u by fastforce
  have "bit (trap_x2apic_msrs bitmap m (bitmap + of_nat k)) b \<longleftrightarrow>
      (\<exists>n. trapped_index n \<and> (k = n div 8 \<or> k = 1024 + n div 8) \<and> b = n mod 8)"
    unfolding trap_x2apic_msrs_def Let_def
    by (subst set_msr_bit_bit [OF assms(2)], simp, subst set_msr_bit_bit [OF assms(2)], simp,
        subst set_msr_bits_fold [OF assms(2) small], subst ex)
      (use assms(1,2) in \<open>auto simp: trapped_index_def\<close>)
  also have "\<dots> \<longleftrightarrow>
      k < 1024 \<and> trapped_index (8 * k + b) \<or> 1024 \<le> k \<and> trapped_index (8 * (k - 1024) + b)"
  proof
    assume "\<exists>n. trapped_index n \<and> (k = n div 8 \<or> k = 1024 + n div 8) \<and> b = n mod 8"
    then obtain n where n: "trapped_index n" "k = n div 8 \<or> k = 1024 + n div 8" "b = n mod 8" by blast
    then have "n div 8 < 1024" "8 * (n div 8) + b = n" by (auto simp: trapped_index_def)
    with n show "k < 1024 \<and> trapped_index (8 * k + b) \<or> 1024 \<le> k \<and> trapped_index (8 * (k - 1024) + b)"
      by auto
  next
    assume "k < 1024 \<and> trapped_index (8 * k + b) \<or> 1024 \<le> k \<and> trapped_index (8 * (k - 1024) + b)"
    moreover have "(8 * j + b) div 8 = j" "(8 * j + b) mod 8 = b" for j using assms(3) by auto
    ultimately show "\<exists>n. trapped_index n \<and> (k = n div 8 \<or> k = 1024 + n div 8) \<and> b = n mod 8"
      by (metis le_add_diff_inverse)
  qed
  finally show ?thesis .
qed

lemma trapped_index_msr: "trapped_index (unat msr) \<longleftrightarrow> is_x2apic_msr msr \<or> msr = 0x1B"
  by (auto simp: trapped_index_def is_x2apic_msr_def X2APIC_MSR_BASE_def X2APIC_MSR_LAST_def
      word_le_nat_alt word_unat_eq_iff)

text \<open>
  C36: What \<open>trap_x2apic_msrs\<close> makes the processor intercept, on a zeroed bitmap page, against the
  layout of the bitmap in the processor manual.  The comment of the function says that reads and
  writes of the x2APIC registers are trapped.  Reads are: of the low MSRs, exactly the reads of the
  x2APIC registers and of the APIC base exit.  Writes are not: the bits meant for them land in the
  region for reads of the high MSRs, so no write to any MSR of the two ranges exits, and instead the
  reads of the high MSRs with the same low thirteen bits do.
\<close>

theorem trap_x2apic_msrs_intercepts:
  assumes "\<forall>k < 4096. m (bitmap + of_nat k) = 0"
  shows "let m' = trap_x2apic_msrs bitmap m in
    (\<forall>msr. msr \<le> 0x1FFF \<longrightarrow>
       (msr_intercepted m' bitmap msr True \<longleftrightarrow> is_x2apic_msr msr \<or> msr = 0x1B) \<and>
       \<not> msr_intercepted m' bitmap msr False) \<and>
    (\<forall>msr. 0xC0000000 \<le> msr \<and> msr \<le> 0xC0001FFF \<longrightarrow>
       (msr_intercepted m' bitmap msr True \<longleftrightarrow>
          is_x2apic_msr (msr - 0xC0000000) \<or> msr = 0xC000001B) \<and>
       \<not> msr_intercepted m' bitmap msr False)"
proof -
  have at: "bit (trap_x2apic_msrs bitmap m (bitmap + of_nat (off + n div 8))) (n mod 8) \<longleftrightarrow>
      (off = 0 \<or> off = 1024) \<and> trapped_index n"
    if "n < 0x2000" "off = 0 \<or> off = 1024 \<or> off = 2048 \<or> off = 3072" for off n
  proof -
    have k: "off + n div 8 < 4096" "n mod 8 < 8" "n div 8 < 1024" using that by auto
    have n: "8 * (n div 8) + n mod 8 = n" by simp
    have big: "\<not> trapped_index (8 * (off + n div 8 - 1024) + n mod 8)" if "2048 \<le> off"
    proof -
      have "1024 \<le> off + n div 8 - 1024" using that by linarith
      then show ?thesis unfolding trapped_index_def by linarith
    qed
    show ?thesis
      unfolding trap_bits [OF assms k(1,2)] using that(2) k(3) n big by auto
  qed
  have "unat msr < 0x2000" if "msr \<le> 0x1FFF" for msr :: u32
    using that by (simp add: word_le_nat_alt)
  moreover have "unat (msr - 0xC0000000) < 0x2000" "\<not> msr \<le> 0x1FFF"
    if "0xC0000000 \<le> msr" "msr \<le> 0xC0001FFF" for msr :: u32
    using that by (simp_all add: word_le_nat_alt unat_sub_le)
  moreover have "trapped_index (unat (msr - 0xC0000000)) \<longleftrightarrow>
      is_x2apic_msr (msr - 0xC0000000) \<or> msr = 0xC000001B" for msr :: u32
    unfolding trapped_index_msr by (simp add: diff_eq_eq)
  ultimately show ?thesis
    using at [where off = 0] at [where off = 1024] at [where off = 2048] at [where off = 3072]
    by (simp add: msr_intercepted_def Let_def trapped_index_msr add.assoc)
qed

theorem trap_x2apic_msrs_intercepts_witness:
  "(let m' = trap_x2apic_msrs 0x5000 (\<lambda>_. 0) in
    msr_intercepted m' 0x5000 0x80B True \<and> \<not> msr_intercepted m' 0x5000 0x80B False \<and>
    msr_intercepted m' 0x5000 0xC000080B True)"
proof -
  have r: "(0x80B :: u32) \<le> 0x1FFF" "is_x2apic_msr 0x80B"
    by (simp_all add: is_x2apic_msr_def X2APIC_MSR_BASE_def X2APIC_MSR_LAST_def)
  have h: "(0xC0000000 :: u32) \<le> 0xC000080B" "(0xC000080B :: u32) \<le> 0xC0001FFF"
    "is_x2apic_msr (0xC000080B - 0xC0000000)"
    using r(2) by simp_all
  show ?thesis
    using trap_x2apic_msrs_intercepts [of "\<lambda>_. 0" "0x5000"] r h unfolding Let_def by blast
qed

end
