(* ===== verification/VSwitch.thy ===== *)
theory VSwitch
  imports RayNu_Prelude
begin

text \<open>
  The learning switch of \<open>net/mod.rs\<close> and its frame builder.  The forwarding table is the
  pair of fixed arrays of the source with its fill count; \<open>fdb\<close> reads it as a partial map from
  station addresses to ports.  The history lemmas state what the table holds after any
  sequence of attachments and frames.
\<close>

type_synonym mac = "u8 list"

definition MAX_PORTS :: nat where "MAX_PORTS = 8"
definition FDB_CAP :: nat where "FDB_CAP = 16"
definition ETH_HDR_LEN :: nat where "ETH_HDR_LEN = 14"

record VSwitch =
  port_mac :: "mac option list"
  fdb_mac :: "mac list"
  fdb_port :: "u16 list"
  fdb_len :: nat
  vs_ports :: u16
  partitioned :: bool

definition vswitch_new :: "u16 \<Rightarrow> VSwitch" where
  "vswitch_new n = \<lparr>port_mac = replicate MAX_PORTS None, fdb_mac = replicate FDB_CAP (replicate 6 0),
     fdb_port = replicate FDB_CAP (- 1), fdb_len = 0, vs_ports = n, partitioned = False\<rparr>"

definition set_partitioned :: "VSwitch \<Rightarrow> bool \<Rightarrow> VSwitch" where
  "set_partitioned sw on = sw\<lparr>partitioned := on\<rparr>"

definition learn :: "VSwitch \<Rightarrow> mac \<Rightarrow> u16 \<Rightarrow> VSwitch" where
  "learn sw mac port =
    (case find (\<lambda>i. fdb_mac sw ! i = mac) [0..<fdb_len sw] of
       Some i \<Rightarrow> sw\<lparr>fdb_port := (fdb_port sw)[i := port]\<rparr>
     | None \<Rightarrow>
         if fdb_len sw < FDB_CAP
         then sw\<lparr>fdb_mac := (fdb_mac sw)[fdb_len sw := mac],
                 fdb_port := (fdb_port sw)[fdb_len sw := port], fdb_len := fdb_len sw + 1\<rparr>
         else sw)"

definition attach :: "VSwitch \<Rightarrow> u16 \<Rightarrow> mac \<Rightarrow> (unit + unit) \<times> VSwitch" where
  "attach sw port mac =
    (if MAX_PORTS \<le> unat port \<or> vs_ports sw \<le> port then (Inl (), sw)
     else (Inr (), learn (sw\<lparr>port_mac := (port_mac sw)[unat port := Some mac]\<rparr>) mac port))"

definition lookup_mac :: "VSwitch \<Rightarrow> mac \<Rightarrow> u16 option" where
  "lookup_mac sw mac =
    map_option (\<lambda>i. fdb_port sw ! i)
      (find (\<lambda>i. fdb_mac sw ! i = mac \<and> fdb_port sw ! i \<noteq> - 1) [0..<fdb_len sw])"

definition forward :: "VSwitch \<Rightarrow> u16 \<Rightarrow> u8 list \<Rightarrow> (unit + u16 option) \<times> VSwitch" where
  "forward sw src_port frame =
    (if length frame < ETH_HDR_LEN then (Inl (), sw)
     else if MAX_PORTS \<le> unat src_port \<or> port_mac sw ! unat src_port = None then (Inl (), sw)
     else let dst = get_slice 0 6 frame; src = get_slice 6 6 frame; sw' = learn sw src src_port in
       if partitioned sw' then (Inr None, sw')
       else if dst ! 0 AND 1 \<noteq> 0 then (Inr None, sw')
       else case lookup_mac sw' dst of
         Some p \<Rightarrow> (Inr (if p \<noteq> src_port then Some p else None), sw')
       | None \<Rightarrow> (Inr None, sw'))"

definition build_eth_frame ::
  "u8 list \<Rightarrow> mac \<Rightarrow> mac \<Rightarrow> u16 \<Rightarrow> u8 list \<Rightarrow> (unit + nat) \<times> u8 list" where
  "build_eth_frame out dst src ethertype payload =
    (let need = ETH_HDR_LEN + length payload in
     if length out < need then (Inl (), out)
     else let o1 = put_slice 0 dst out; o2 = put_slice 6 src o1;
              o3 = o2[12 := ucast (drop_bit 8 ethertype)]; o4 = o3[13 := ucast ethertype];
              o5 = put_slice ETH_HDR_LEN payload o4
          in (Inr need, o5))"

section \<open>The forwarding table as a map\<close>

definition vs_inv :: "VSwitch \<Rightarrow> bool" where
  "vs_inv sw \<longleftrightarrow> length (port_mac sw) = MAX_PORTS \<and> length (fdb_mac sw) = FDB_CAP \<and>
     length (fdb_port sw) = FDB_CAP \<and> fdb_len sw \<le> FDB_CAP \<and> distinct (take (fdb_len sw) (fdb_mac sw))"

definition fdb :: "VSwitch \<Rightarrow> mac \<Rightarrow> u16 option" where
  "fdb sw = map_of (zip (take (fdb_len sw) (fdb_mac sw)) (take (fdb_len sw) (fdb_port sw)))"

lemma vswitch_new_inv: "vs_inv (vswitch_new n)" "fdb (vswitch_new n) = Map.empty"
  by (simp_all add: vs_inv_def vswitch_new_def fdb_def)

lemma fdb_Some_iff:
  assumes "vs_inv sw"
  shows "fdb sw mac = Some p \<longleftrightarrow> (\<exists>i<fdb_len sw. fdb_mac sw ! i = mac \<and> fdb_port sw ! i = p)"
  using assms unfolding fdb_def vs_inv_def
  by (subst map_of_eq_Some_iff) (auto simp: set_zip cong: rev_conj_cong)

lemma fdb_at:
  assumes "vs_inv sw" "i < fdb_len sw"
  shows "fdb sw (fdb_mac sw ! i) = Some (fdb_port sw ! i)"
  using assms fdb_Some_iff by blast

lemma fdb_index_unique:
  assumes "vs_inv sw" "i < fdb_len sw" "j < fdb_len sw" "fdb_mac sw ! i = fdb_mac sw ! j"
  shows "i = j"
proof -
  have "take (fdb_len sw) (fdb_mac sw) ! i = take (fdb_len sw) (fdb_mac sw) ! j" using assms by simp
  moreover have "i < length (take (fdb_len sw) (fdb_mac sw))" "j < length (take (fdb_len sw) (fdb_mac sw))"
    using assms by (auto simp: vs_inv_def)
  ultimately show ?thesis using assms(1) unfolding vs_inv_def by (metis nth_eq_iff_index_eq)
qed

lemma find_upt_Some:
  "find P [0..<n] = Some i \<Longrightarrow> i < n \<and> P i"
  by (auto simp: find_Some_iff)

lemma lookup_mac_fdb:
  assumes "vs_inv sw"
  shows "lookup_mac sw mac = (case fdb sw mac of Some p \<Rightarrow> if p = - 1 then None else Some p | None \<Rightarrow> None)"
proof (cases "find (\<lambda>i. fdb_mac sw ! i = mac \<and> fdb_port sw ! i \<noteq> - 1) [0..<fdb_len sw]")
  case None
  then have "\<And>i. i < fdb_len sw \<Longrightarrow> fdb_mac sw ! i = mac \<Longrightarrow> fdb_port sw ! i = - 1"
    by (auto simp: find_None_iff)
  then have "fdb sw mac = Some p \<Longrightarrow> p = - 1" for p using fdb_Some_iff [OF assms, of mac p] by auto
  with None show ?thesis by (auto simp: lookup_mac_def split: option.splits)
next
  case (Some i)
  then have "i < fdb_len sw" "fdb_mac sw ! i = mac" "fdb_port sw ! i \<noteq> - 1"
    using find_upt_Some [OF Some] by auto
  with Some fdb_at [OF assms, of i] show ?thesis by (simp add: lookup_mac_def)
qed

lemma learn_fdb:
  assumes inv: "vs_inv sw"
  shows "vs_inv (learn sw mac port)"
    and "fdb (learn sw mac port) =
      (if mac \<in> dom (fdb sw) \<or> fdb_len sw < FDB_CAP then (fdb sw)(mac \<mapsto> port) else fdb sw)"
    and "port_mac (learn sw mac port) = port_mac sw" "partitioned (learn sw mac port) = partitioned sw"
    and "vs_ports (learn sw mac port) = vs_ports sw"
proof -
  let ?f = "find (\<lambda>i. fdb_mac sw ! i = mac) [0..<fdb_len sw]"
  show "port_mac (learn sw mac port) = port_mac sw" "partitioned (learn sw mac port) = partitioned sw"
    "vs_ports (learn sw mac port) = vs_ports sw"
    by (auto simp: learn_def split: option.splits)
  have "vs_inv (learn sw mac port) \<and> fdb (learn sw mac port) =
      (if mac \<in> dom (fdb sw) \<or> fdb_len sw < FDB_CAP then (fdb sw)(mac \<mapsto> port) else fdb sw)"
  proof (cases ?f)
    case (Some i)
    then have i: "i < fdb_len sw" "fdb_mac sw ! i = mac" using find_upt_Some by auto
    let ?s = "sw\<lparr>fdb_port := (fdb_port sw)[i := port]\<rparr>"
    have inv': "vs_inv ?s" using inv by (simp add: vs_inv_def)
    have il: "i < length (fdb_port sw)" using i inv by (simp add: vs_inv_def)
    have "fdb ?s x = ((fdb sw)(mac \<mapsto> port)) x" for x
    proof -
      have "fdb ?s x = Some p \<longleftrightarrow> ((fdb sw)(mac \<mapsto> port)) x = Some p" for p
        unfolding fdb_Some_iff [OF inv'] using i il fdb_index_unique [OF inv] fdb_Some_iff [OF inv, of x p]
        by (auto simp: nth_list_update)
      then show ?thesis by (metis not_None_eq)
    qed
    moreover have "mac \<in> dom (fdb sw)" using fdb_at [OF inv i(1)] i(2) by auto
    ultimately show ?thesis using Some inv' by (auto simp: learn_def)
  next
    case None
    then have new: "\<And>i. i < fdb_len sw \<Longrightarrow> fdb_mac sw ! i \<noteq> mac" by (auto simp: find_None_iff)
    then have nd: "mac \<notin> dom (fdb sw)" using fdb_Some_iff [OF inv] by blast
    show ?thesis
    proof (cases "fdb_len sw < FDB_CAP")
      case True
      let ?n = "fdb_len sw"
      let ?s = "sw\<lparr>fdb_mac := (fdb_mac sw)[?n := mac], fdb_port := (fdb_port sw)[?n := port], fdb_len := ?n + 1\<rparr>"
      have len: "?n < length (fdb_mac sw)" "?n < length (fdb_port sw)" using True inv by (auto simp: vs_inv_def)
      have "take (Suc ?n) ((fdb_mac sw)[?n := mac]) = take ?n (fdb_mac sw) @ [mac]"
        using len by (simp add: take_Suc_conv_app_nth)
      moreover have "mac \<notin> set (take ?n (fdb_mac sw))"
        using new len by (auto simp: in_set_conv_nth)
      ultimately have inv': "vs_inv ?s" using inv True by (simp add: vs_inv_def)
      have "fdb ?s x = ((fdb sw)(mac \<mapsto> port)) x" for x
      proof -
        have "fdb ?s x = Some p \<longleftrightarrow> ((fdb sw)(mac \<mapsto> port)) x = Some p" for p
          unfolding fdb_Some_iff [OF inv'] using len new fdb_Some_iff [OF inv, of x p]
          by (auto simp: Ex_less_Suc cong: conj_cong)
        then show ?thesis by (metis not_None_eq)
      qed
      then show ?thesis using None True inv' by (auto simp: learn_def)
    next
      case False
      then show ?thesis using None nd inv by (simp add: learn_def)
    qed
  qed
  then show "vs_inv (learn sw mac port)" "fdb (learn sw mac port) =
      (if mac \<in> dom (fdb sw) \<or> fdb_len sw < FDB_CAP then (fdb sw)(mac \<mapsto> port) else fdb sw)" by auto
qed

lemma fdb_len_card: "vs_inv sw \<Longrightarrow> fdb_len sw = card (dom (fdb sw))"
  by (simp add: fdb_def vs_inv_def dom_map_of_zip distinct_card)

section \<open>Histories\<close>

datatype SwitchOp = Attach u16 mac | Frame u16 "u8 list" | Partition bool

fun switch_op :: "VSwitch \<Rightarrow> SwitchOp \<Rightarrow> VSwitch" where
  "switch_op sw (Attach port mac) = snd (attach sw port mac)"
| "switch_op sw (Frame port frame) = snd (forward sw port frame)"
| "switch_op sw (Partition on) = set_partitioned sw on"

text \<open>What an operation teaches the switch: a station address and the port it was seen on.\<close>

fun op_learns :: "VSwitch \<Rightarrow> SwitchOp \<Rightarrow> (mac \<times> u16) list" where
  "op_learns sw (Attach port mac) =
    (if MAX_PORTS \<le> unat port \<or> vs_ports sw \<le> port then [] else [(mac, port)])"
| "op_learns sw (Frame port frame) =
    (if length frame < ETH_HDR_LEN \<or> MAX_PORTS \<le> unat port \<or> port_mac sw ! unat port = None then []
     else [(get_slice 6 6 frame, port)])"
| "op_learns sw (Partition on) = []"

fun learned :: "VSwitch \<Rightarrow> SwitchOp list \<Rightarrow> (mac \<times> u16) list" where
  "learned sw [] = []"
| "learned sw (e # es) = op_learns sw e @ learned (switch_op sw e) es"

text \<open>The keys of a history in the order of their first occurrence, and the part of the history
  that concerns the first \<open>cap\<close> of them.\<close>

definition first_keys :: "('k \<times> 'v) list \<Rightarrow> 'k list" where
  "first_keys kvs = rev (remdups (rev (map fst kvs)))"

definition kept :: "nat \<Rightarrow> ('k \<times> 'v) list \<Rightarrow> ('k \<times> 'v) list" where
  "kept cap kvs = filter (\<lambda>kv. fst kv \<in> set (take cap (first_keys kvs))) kvs"

lemma first_keys_snoc:
  "first_keys (kvs @ [(k, v)]) = (if k \<in> set (first_keys kvs) then first_keys kvs else first_keys kvs @ [k])"
  by (simp add: first_keys_def)

lemma first_keys_facts: "distinct (first_keys kvs)" "set (first_keys kvs) = fst ` set kvs"
  by (simp_all add: first_keys_def)

lemma kept_snoc:
  "kept cap (kvs @ [(k, v)]) =
    (if k \<in> set (take cap (first_keys kvs)) \<or> length (first_keys kvs) < cap then kept cap kvs @ [(k, v)] else kept cap kvs)"
proof (cases "k \<in> set (first_keys kvs)")
  case True
  then show ?thesis by (auto simp: kept_def first_keys_snoc)
next
  case False
  then have "\<And>kv. kv \<in> set kvs \<Longrightarrow> fst kv \<noteq> k" by (auto simp: first_keys_facts)
  then have "filter (\<lambda>kv. fst kv \<in> set (take cap (first_keys kvs @ [k]))) kvs = kept cap kvs"
    unfolding kept_def by (intro filter_cong) (auto dest!: in_set_takeD [of _ _ "[k]"])
  then show ?thesis
    using False by (auto simp: kept_def first_keys_snoc take_append dest: in_set_takeD split: if_splits)
qed

lemma kept_all: "card (fst ` set kvs) \<le> cap \<Longrightarrow> kept cap kvs = kvs"
  using distinct_card [OF first_keys_facts(1), of kvs] by (auto simp: kept_def first_keys_facts filter_id_conv)

locale learning_table =
  fixes inv :: "'s \<Rightarrow> bool" and tab :: "'s \<Rightarrow> 'k \<Rightarrow> 'v option"
    and put :: "'s \<Rightarrow> 'k \<Rightarrow> 'v \<Rightarrow> 's" and cap :: nat
  assumes put_inv: "inv s \<Longrightarrow> inv (put s k v)"
    and put_tab: "inv s \<Longrightarrow>
      tab (put s k v) = (if k \<in> dom (tab s) \<or> card (dom (tab s)) < cap then (tab s)(k \<mapsto> v) else tab s)"
begin

text \<open>The table holds the latest value of each of the first \<open>cap\<close> keys.\<close>

lemma put_many:
  assumes "inv s" "tab s = Map.empty"
  shows "inv (foldl (\<lambda>s (k, v). put s k v) s kvs) \<and>
    tab (foldl (\<lambda>s (k, v). put s k v) s kvs) = map_of (rev (kept cap kvs)) \<and>
    dom (tab (foldl (\<lambda>s (k, v). put s k v) s kvs)) = set (take cap (first_keys kvs))"
proof (induction kvs rule: rev_induct)
  case Nil
  then show ?case using assms by (simp add: kept_def first_keys_def)
next
  case (snoc kv kvs)
  obtain k v where kv: "kv = (k, v)" by (cases kv)
  let ?s = "foldl (\<lambda>s (k, v). put s k v) s kvs" and ?F = "first_keys kvs"
  have inv: "inv ?s" and tab: "tab ?s = map_of (rev (kept cap kvs))" and dom: "dom (tab ?s) = set (take cap ?F)"
    using snoc.IH by blast+
  have "card (dom (tab ?s)) = min (length ?F) cap"
    unfolding dom by (simp add: distinct_card first_keys_facts)
  then have c: "card (dom (tab ?s)) < cap \<longleftrightarrow> length ?F < cap" by auto
  have step: "tab (put ?s k v) =
      (if k \<in> set (take cap ?F) \<or> length ?F < cap then (tab ?s)(k \<mapsto> v) else tab ?s)"
    using put_tab [OF inv, of k v] unfolding c unfolding dom .
  have keys: "set (take cap (first_keys (kvs @ [(k, v)]))) =
      (if k \<in> set (take cap ?F) \<or> length ?F < cap then insert k (set (take cap ?F)) else set (take cap ?F))"
    by (auto simp: first_keys_snoc take_append dest: in_set_takeD)
  have "tab (put ?s k v) = map_of (rev (kept cap (kvs @ [(k, v)])))"
    unfolding step kept_snoc using tab by simp
  moreover have "dom (tab (put ?s k v)) = set (take cap (first_keys (kvs @ [(k, v)])))"
    unfolding step keys using dom by simp
  ultimately show ?case
    unfolding kv foldl_append foldl.simps prod.case using put_inv [OF inv] by blast
qed

end

interpretation lt: learning_table vs_inv fdb learn FDB_CAP
  by unfold_locales (simp_all add: learn_fdb fdb_len_card)

lemma fdb_update [simp]:
  "fdb (sw\<lparr>port_mac := pm\<rparr>) = fdb sw" "fdb (sw\<lparr>partitioned := b\<rparr>) = fdb sw"
  "vs_inv (sw\<lparr>partitioned := b\<rparr>) \<longleftrightarrow> vs_inv sw"
  "vs_inv (sw\<lparr>port_mac := (port_mac sw)[i := v]\<rparr>) \<longleftrightarrow> vs_inv sw"
  by (simp_all add: fdb_def vs_inv_def)

lemma fdb_learn_cong:
  assumes "vs_inv s" "vs_inv t" "fdb s = fdb t"
  shows "fdb (learn s k v) = fdb (learn t k v)"
  using assms fdb_len_card [of s] fdb_len_card [of t] by (simp add: learn_fdb(2))

lemma forward_state:
  "snd (forward sw port frame) =
    (case op_learns sw (Frame port frame) of [] \<Rightarrow> sw | (m, p) # _ \<Rightarrow> learn sw m p)"
  by (auto simp: forward_def Let_def split: option.splits)

lemma switch_op_learns:
  assumes "vs_inv sw"
  shows "vs_inv (switch_op sw e) \<and> fdb (switch_op sw e) = fdb (foldl (\<lambda>s (k, v). learn s k v) sw (op_learns sw e))"
proof (cases e)
  case (Attach port mac)
  have inv: "vs_inv (sw\<lparr>port_mac := (port_mac sw)[unat port := Some mac]\<rparr>)" using assms by simp
  show ?thesis
    using assms inv fdb_learn_cong [OF inv assms, of mac port] learn_fdb(1)
    by (simp add: Attach attach_def)
next
  case (Frame port frame)
  then show ?thesis using assms by (simp add: forward_state learn_fdb(1))
next
  case (Partition on)
  then show ?thesis using assms by (simp add: set_partitioned_def)
qed

lemma fdb_learns_cong:
  "vs_inv s \<Longrightarrow> vs_inv t \<Longrightarrow> fdb s = fdb t \<Longrightarrow>
    fdb (foldl (\<lambda>s (k, v). learn s k v) s kvs) = fdb (foldl (\<lambda>s (k, v). learn s k v) t kvs)"
proof (induction kvs arbitrary: s t)
  case (Cons kv kvs)
  obtain k v where kv: "kv = (k, v)" by (cases kv)
  have "fdb (learn s k v) = fdb (learn t k v)" by (rule fdb_learn_cong [OF Cons.prems])
  from Cons.IH [OF learn_fdb(1) learn_fdb(1) this] Cons.prems show ?case by (simp add: kv)
qed simp

lemma learns_inv: "vs_inv s \<Longrightarrow> vs_inv (foldl (\<lambda>s (k, v). learn s k v) s kvs)"
  by (induction kvs arbitrary: s) (auto simp: learn_fdb(1))

lemma history_learns:
  "vs_inv sw \<Longrightarrow> vs_inv (foldl switch_op sw es) \<and>
    fdb (foldl switch_op sw es) = fdb (foldl (\<lambda>s (k, v). learn s k v) sw (learned sw es))"
proof (induction es arbitrary: sw)
  case (Cons e es)
  note st = switch_op_learns [OF Cons.prems, of e]
  then show ?case
    using Cons.IH [of "switch_op sw e"] learns_inv [OF Cons.prems]
      fdb_learns_cong [of "switch_op sw e" "foldl (\<lambda>s (k, v). learn s k v) sw (op_learns sw e)"]
    by simp
qed simp

lemma history_fdb:
  "vs_inv (foldl switch_op (vswitch_new n) es) \<and>
    fdb (foldl switch_op (vswitch_new n) es) = map_of (rev (kept FDB_CAP (learned (vswitch_new n) es)))"
  using history_learns [OF vswitch_new_inv(1)] lt.put_many [OF vswitch_new_inv(1)]
  by (simp add: vswitch_new_inv)

lemma op_learns_ports: "(m, p) \<in> set (op_learns sw e) \<Longrightarrow> unat p < MAX_PORTS"
  by (cases e) (auto split: if_splits)

lemma learned_ports: "(m, p) \<in> set (learned sw es) \<Longrightarrow> unat p < MAX_PORTS"
  by (induction es arbitrary: sw) (auto dest: op_learns_ports)

section \<open>Properties\<close>

text \<open>
  C32: A unicast frame goes to the port its destination was last seen on, as long as the table has
  room for the destination.  After any history of attachments, frames and partition changes, of
  any number of stations, a well-formed frame from an attached port is delivered exactly to the
  port on which its destination was most recently learned, counting the frame itself, if the
  destination is one of the first sixteen station addresses of the history and that is another
  port.  Group addresses, stations that were never seen or came after the first sixteen, and a
  partitioned switch deliver nothing.
\<close>

theorem forward_to_last_seen:
  fixes es :: "SwitchOp list"
  assumes sw: "sw = foldl switch_op (vswitch_new n) es"
    and L: "L = learned (vswitch_new n) es @ [(get_slice 6 6 frame, port)]"
    and frame: "ETH_HDR_LEN \<le> length frame" "unat port < MAX_PORTS" "port_mac sw ! unat port \<noteq> None"
  shows "fst (forward sw port frame) =
    Inr (if partitioned sw \<or> odd (frame ! 0) then None
         else case map_of (rev (kept 16 L)) (get_slice 0 6 frame) of
           Some p \<Rightarrow> if p = port then None else Some p | None \<Rightarrow> None)"
proof -
  let ?es = "es @ [Frame port frame]"
  have split: "learned s (xs @ ys) = learned s xs @ learned (foldl switch_op s xs) ys" for s xs ys
    by (induction xs arbitrary: s) auto
  have learned: "learned (vswitch_new n) ?es = L"
    using frame by (auto simp: split L sw [symmetric])
  let ?s = "learn sw (get_slice 6 6 frame) port"
  have st: "foldl switch_op (vswitch_new n) ?es = ?s"
    using frame by (auto simp: sw [symmetric] forward_state)
  have inv: "vs_inv ?s" and f: "fdb ?s = map_of (rev (kept 16 L))"
    using history_fdb [of n ?es] unfolding learned st by (simp_all add: FDB_CAP_def)
  have "p \<noteq> - 1" if "fdb ?s m = Some p" for m p
  proof -
    have "(m, p) \<in> set L" using that f map_of_SomeD [of "rev (kept 16 L)" m p] by (simp add: kept_def)
    then have "unat p < MAX_PORTS" using learned_ports [of m p "vswitch_new n" ?es] learned by simp
    then show ?thesis by (auto simp: MAX_PORTS_def unat_minus_one_eq)
  qed
  then have look: "lookup_mac ?s m = fdb ?s m" for m
    by (auto simp: lookup_mac_fdb [OF inv] split: option.splits)
  have "partitioned ?s = partitioned sw"
    using inv by (auto simp: learn_def split: option.splits)
  moreover have "get_slice 0 6 frame ! 0 = frame ! 0"
    using frame(1) by (simp add: get_slice_def ETH_HDR_LEN_def)
  moreover have "(w AND 1 \<noteq> 0) = odd w" for w :: u8 by (simp add: and_one_eq odd_iff_mod_2_eq_one)
  ultimately show ?thesis
    using frame look f unfolding forward_def Let_def by (auto split: option.splits)
qed

theorem forward_to_last_seen_witness:
  "fst (forward (foldl switch_op (vswitch_new 2) [Attach 0 [2, 0, 0, 0, 0, 1], Attach 1 [2, 0, 0, 0, 0, 2]])
     0 [2, 0, 0, 0, 0, 2, 2, 0, 0, 0, 0, 1, 0x88, 0xB5]) = Inr (Some 1)"
proof -
  let ?es = "[Attach 0 [2, 0, 0, 0, 0, 1], Attach 1 [2, 0, 0, 0, 0, 2]]"
  let ?sw = "foldl switch_op (vswitch_new 2) ?es"
  let ?f = "[2, 0, 0, 0, 0, 2, 2, 0, 0, 0, 0, 1, 0x88, 0xB5] :: u8 list"
  let ?L = "learned (vswitch_new 2) ?es @ [(get_slice 6 6 ?f, 0)]"
  have L: "?L = [([2, 0, 0, 0, 0, 1], 0), ([2, 0, 0, 0, 0, 2], 1), ([2, 0, 0, 0, 0, 1], 0)]"
    by (simp add: attach_def vswitch_new_def MAX_PORTS_def FDB_CAP_def learn_def get_slice_def word_le_nat_alt)
  have "kept 16 ?L = ?L" unfolding L by (rule kept_all) (simp add: card_insert_if)
  moreover have "port_mac ?sw ! 0 \<noteq> None" "\<not> partitioned ?sw"
    by (simp_all add: attach_def vswitch_new_def MAX_PORTS_def learn_def FDB_CAP_def word_le_nat_alt)
  ultimately show ?thesis
    using forward_to_last_seen [OF refl refl, of ?f 0 2 ?es] unfolding L
    by (simp add: ETH_HDR_LEN_def MAX_PORTS_def get_slice_def)
qed

text \<open>
  Frames round trip.  Building a frame into a large enough buffer and reading back the
  fields the switch and the receiver use gives the destination, source, type and payload.
\<close>

theorem build_eth_frame_roundtrip:
  assumes "length dst = 6" "length src = 6" "ETH_HDR_LEN + length payload \<le> length out"
  shows "\<exists>out'. build_eth_frame out dst src ethertype payload = (Inr (ETH_HDR_LEN + length payload), out') \<and>
    length out' = length out \<and> get_slice 0 6 out' = dst \<and> get_slice 6 6 out' = src \<and>
    push_bit 8 (ucast (out' ! 12)) OR ucast (out' ! 13) = ethertype \<and>
    get_slice ETH_HDR_LEN (length payload) out' = payload \<and>
    drop (ETH_HDR_LEN + length payload) out' = drop (ETH_HDR_LEN + length payload) out"
proof -
  obtain hdr rest where out: "out = hdr @ rest" "length hdr = 14"
    using assms(3) by (metis ETH_HDR_LEN_def add_leE append_take_drop_id length_take min.absorb2)
  obtain d0 d1 d2 d3 d4 d5 where d: "dst = [d0, d1, d2, d3, d4, d5]"
    using assms(1) by (auto simp: length_Suc_conv eval_nat_numeral)
  obtain s0 s1 s2 s3 s4 s5 where sr: "src = [s0, s1, s2, s3, s4, s5]"
    using assms(2) by (auto simp: length_Suc_conv eval_nat_numeral)
  obtain q0 q1 q2 q3 q4 q5 q6 q7 q8 q9 q10 q11 q12 q13 where
    h: "hdr = [q0, q1, q2, q3, q4, q5, q6, q7, q8, q9, q10, q11, q12, q13]"
    using out(2) by (auto simp: length_Suc_conv eval_nat_numeral)
  have et: "push_bit 8 (ucast (ucast (drop_bit 8 ethertype) :: u8)) OR ucast (ucast ethertype :: u8) = ethertype"
    by (rule bit_word_eqI) (auto simp: bit_simps)
  let ?o = "dst @ src @ [ucast (drop_bit 8 ethertype), ucast ethertype] @ payload @ drop (length payload) rest"
  have "build_eth_frame out dst src ethertype payload = (Inr (ETH_HDR_LEN + length payload), ?o)"
    using assms(3) unfolding build_eth_frame_def out h
    by (auto simp: ETH_HDR_LEN_def put_slice_def d sr Let_def drop_Cons')
  moreover have "length payload \<le> length rest" using assms(3) out by (simp add: ETH_HDR_LEN_def)
  ultimately show ?thesis
    using et out by (intro exI [of _ ?o]) (simp add: ETH_HDR_LEN_def get_slice_def d sr drop_Cons' h)
qed

theorem build_eth_frame_roundtrip_witness:
  "\<exists>out'. build_eth_frame (replicate 64 0) [1, 2, 3, 4, 5, 6] [7, 8, 9, 10, 11, 12] 0x88B5 [0x52] = (Inr 15, out') \<and>
     get_slice 6 6 out' = [7, 8, 9, 10, 11, 12]"
  using build_eth_frame_roundtrip [of "[1, 2, 3, 4, 5, 6]" "[7, 8, 9, 10, 11, 12]" "[0x52]" "replicate 64 0" "0x88B5"]
  by (auto simp: ETH_HDR_LEN_def)

end
