(* ===== verification/Virtio.thy ===== *)
theory Virtio
  imports VSwitch Phys_Mem
begin

text \<open>
  The two virtio-mmio lab devices: the block device of \<open>devices/virtio_blk.rs\<close> with its
  write-and-read-back proof, install marker and reboot detection, and the two-port network
  device of \<open>devices/virtio_net.rs\<close>, which sends a probe frame through the learning
  switch.  Each device is the record of its statics; disk and packet buffers are host
  physical memory.
\<close>

section \<open>Double words in physical memory\<close>

definition load32 :: "phys_mem \<Rightarrow> u64 \<Rightarrow> u32" where
  "load32 m a = from_le_bytes (map (\<lambda>i. m (a + of_nat i)) [0..<4])"

definition store32 :: "phys_mem \<Rightarrow> u64 \<Rightarrow> u32 \<Rightarrow> phys_mem" where
  "store32 m a v = store_bytes m a (le_bytes 4 v)"

definition dword_apart :: "u64 \<Rightarrow> u64 \<Rightarrow> bool" where
  "dword_apart a b \<longleftrightarrow> 4 \<le> unat (b - a) \<and> 4 \<le> unat (a - b)"

lemma load32_store32_same: "load32 (store32 m a v) a = v"
proof -
  have "map (\<lambda>i. store32 m a v (a + of_nat i)) [0..<4] = le_bytes 4 v"
    by (rule nth_equalityI) (simp_all add: store32_def store_bytes_def unat_of_nat_small)
  then show ?thesis by (simp add: load32_def)
qed

lemma load32_cong:
  assumes "\<And>i. i < 4 \<Longrightarrow> m (a + of_nat i) = m' (b + of_nat i)"
  shows "load32 m a = load32 m' b"
proof -
  have "map (\<lambda>i. m (a + of_nat i)) [0..<4] = map (\<lambda>i. m' (b + of_nat i)) [0..<4]"
    using assms by (intro map_cong) auto
  then show ?thesis unfolding load32_def by (rule arg_cong)
qed

lemma load32_store32_apart:
  assumes "dword_apart a b"
  shows "load32 (store32 m a v) b = load32 m b"
proof (rule load32_cong)
  fix i :: nat assume i: "i < 4"
  have "unat (- (a - b)) = (if a - b = 0 then 0 else 2 ^ 64 - unat (a - b))"
    by (subst unat_uminus) simp
  then have le: "4 \<le> unat (b - a)" "unat (b - a) + 4 \<le> 2 ^ 64"
    using assms by (auto simp: dword_apart_def split: if_splits)
  have "unat (b + of_nat i - a) = unat ((b - a) + of_nat i)" by (simp add: algebra_simps)
  also have "\<dots> = unat (b - a) + i"
    using le i by (subst unat_add_small) (simp_all add: unat_of_nat_small)
  finally show "store32 m a v (b + of_nat i) = m (b + of_nat i)"
    using le by (simp add: store32_def store_bytes_def)
qed

interpretation dm: cell_memory load32 store32 dword_apart
  by unfold_locales (simp_all add: load32_store32_same load32_store32_apart)

text \<open>The pointer \<open>(base as *mut u32).add(i)\<close>.\<close>

definition dword_at :: "u64 \<Rightarrow> nat \<Rightarrow> u64" where
  "dword_at base i = base + of_nat (4 * i)"

lemma dword_at_apart:
  assumes "i \<noteq> j" and "i < 2 ^ 32" and "j < 2 ^ 32"
  shows "dword_apart (dword_at base i) (dword_at base j)"
proof -
  have u: "unat (of_nat (4 * k) :: u64) = 4 * k" if "k < 2 ^ 32" for k
    by (rule unat_of_nat_small) (use that in simp)
  have lt: "unat (of_nat (4 * l) - of_nat (4 * k) :: u64) = 4 * (l - k)" if "k < l" "l < 2 ^ 32" for k l
    using that u [of k] u [of l] by (subst unat_sub_le) (simp_all add: word_le_nat_alt)
  have gt: "unat (of_nat (4 * k) - of_nat (4 * l) :: u64) = 2 ^ 64 - 4 * (l - k)"
    if "k < l" "l < 2 ^ 32" for k l
  proof -
    have "of_nat (4 * k) - of_nat (4 * l) = - (of_nat (4 * l) - of_nat (4 * k) :: u64)" by simp
    then show ?thesis
      using lt [OF that] that by (simp only: unat_uminus) (auto simp: word_unat_eq_iff)
  qed
  have "dword_apart (dword_at base k) (dword_at base l)"
    "dword_apart (dword_at base l) (dword_at base k)" if "k < l" "l < 2 ^ 32" for k l
    using that unfolding dword_apart_def dword_at_def add_diff_cancel_left lt [OF that] gt [OF that]
    by auto
  then show ?thesis using assms by (cases i j rule: linorder_cases) auto
qed

section \<open>The block device\<close>

definition VIRTIO_MMIO_MAGIC :: u32 where "VIRTIO_MMIO_MAGIC = 0x74726976"
definition VIRTIO_MMIO_VERSION :: u32 where "VIRTIO_MMIO_VERSION = 2"
definition VIRTIO_ID_BLOCK :: u32 where "VIRTIO_ID_BLOCK = 2"
definition VIRTIO_VENDOR :: u32 where "VIRTIO_VENDOR = 0x5241594E"
definition STATUS_DRIVER_OK :: u32 where "STATUS_DRIVER_OK = 4"
definition OFF_MAGIC :: u64 where "OFF_MAGIC = 0x00"
definition OFF_VERSION :: u64 where "OFF_VERSION = 0x04"
definition OFF_DEVICE_ID :: u64 where "OFF_DEVICE_ID = 0x08"
definition OFF_VENDOR_ID :: u64 where "OFF_VENDOR_ID = 0x0c"
definition OFF_STATUS :: u64 where "OFF_STATUS = 0x70"
definition OFF_CONFIG :: u64 where "OFF_CONFIG = 0x100"
definition DISK_PATTERN :: u32 where "DISK_PATTERN = 0xB10C0B01"
definition INSTALL_DISK_PATTERN :: u32 where "INSTALL_DISK_PATTERN = 0xE5D15C00"
definition SECTOR_BYTES :: nat where "SECTOR_BYTES = 512"

lemmas virtio_offsets = OFF_MAGIC_def OFF_VERSION_def OFF_DEVICE_ID_def OFF_VENDOR_ID_def
  OFF_STATUS_def OFF_CONFIG_def

record VirtioBlk =
  BAR_GPA :: u64
  DISK_BASE :: u64
  DISK_BYTES :: usize
  STATUS :: u32
  CAPACITY_SECTORS :: u64
  BLK_OK :: bool
  BLK_MARKED :: bool
  INSTALL_WRITTEN :: bool
  INSTALL_MARKED :: bool
  REBOOT_DETECT :: bool
  BOOTED_FROM_DISK :: bool
  BOOTED_MARKED :: bool

definition blk_statics :: VirtioBlk where
  "blk_statics = \<lparr>BAR_GPA = 0, DISK_BASE = 0, DISK_BYTES = 0, STATUS = 0, CAPACITY_SECTORS = 0,
     BLK_OK = False, BLK_MARKED = False, INSTALL_WRITTEN = False, INSTALL_MARKED = False,
     REBOOT_DETECT = False, BOOTED_FROM_DISK = False, BOOTED_MARKED = False\<rparr>"

definition take_blk_ok_latch :: "VirtioBlk \<Rightarrow> bool \<times> VirtioBlk" where
  "take_blk_ok_latch d = (if BLK_OK d \<and> \<not> BLK_MARKED d then (True, d\<lparr>BLK_MARKED := True\<rparr>) else (False, d))"

definition take_install_disk_written_latch :: "VirtioBlk \<Rightarrow> bool \<times> VirtioBlk" where
  "take_install_disk_written_latch d =
    (if INSTALL_WRITTEN d \<and> \<not> INSTALL_MARKED d then (True, d\<lparr>INSTALL_MARKED := True\<rparr>) else (False, d))"

definition set_reboot_detect :: "bool \<Rightarrow> VirtioBlk \<Rightarrow> VirtioBlk" where
  "set_reboot_detect on d = d\<lparr>REBOOT_DETECT := on\<rparr>"

definition take_booted_from_disk_latch :: "VirtioBlk \<Rightarrow> bool \<times> VirtioBlk" where
  "take_booted_from_disk_latch d =
    (if BOOTED_FROM_DISK d \<and> \<not> BOOTED_MARKED d then (True, d\<lparr>BOOTED_MARKED := True\<rparr>) else (False, d))"

definition capacity_sectors_for :: "usize \<Rightarrow> u64" where
  "capacity_sectors_for disk_bytes = disk_bytes div of_nat SECTOR_BYTES"

definition init_with_image ::
    "u64 \<Rightarrow> u64 \<Rightarrow> usize \<Rightarrow> u8 list option \<Rightarrow> VirtioBlk \<times> phys_mem \<Rightarrow> VirtioBlk \<times> phys_mem" where
  "init_with_image bar_gpa disk_phys disk_bytes img dm =
    (let (d, m) = dm;
         d = d\<lparr>BAR_GPA := bar_gpa, DISK_BASE := disk_phys, DISK_BYTES := disk_bytes,
               CAPACITY_SECTORS := capacity_sectors_for disk_bytes, STATUS := 0, BLK_OK := False,
               BLK_MARKED := False, INSTALL_WRITTEN := False, INSTALL_MARKED := False,
               BOOTED_FROM_DISK := False, BOOTED_MARKED := False\<rparr>;
         m = write_bytes m disk_phys 0 (unat disk_bytes)
     in case img of
          None \<Rightarrow> (d, m)
        | Some bs \<Rightarrow>
            if bs \<noteq> [] then (d, store_bytes m disk_phys (take (min (length bs) (unat disk_bytes)) bs))
            else (d, m))"

definition blk_init :: "u64 \<Rightarrow> u64 \<Rightarrow> usize \<Rightarrow> VirtioBlk \<times> phys_mem \<Rightarrow> VirtioBlk \<times> phys_mem" where
  "blk_init bar_gpa disk_phys disk_bytes = init_with_image bar_gpa disk_phys disk_bytes None"

definition blk_bar_contains :: "VirtioBlk \<Rightarrow> u64 \<Rightarrow> bool" where
  "blk_bar_contains d gpa \<longleftrightarrow> BAR_GPA d \<noteq> 0 \<and> BAR_GPA d \<le> gpa \<and> gpa < BAR_GPA d + 0x1000"

text \<open>Writing and checking the trail of one sector, as the loops of \<open>run_write_readback\<close> do.\<close>

definition stamp_sector :: "u64 \<Rightarrow> u32 \<Rightarrow> phys_mem \<Rightarrow> phys_mem" where
  "stamp_sector p pat m =
    fold (\<lambda>i m. store32 m (dword_at p i) (pat XOR of_nat i)) [1..<SECTOR_BYTES div 4] (store32 m p pat)"

definition sector_stamped :: "phys_mem \<Rightarrow> u64 \<Rightarrow> u32 \<Rightarrow> bool" where
  "sector_stamped m p pat \<longleftrightarrow> load32 m p = pat \<and>
     list_all (\<lambda>i. load32 m (dword_at p i) = pat XOR of_nat i) [1..<SECTOR_BYTES div 4]"

definition run_write_readback :: "VirtioBlk \<times> phys_mem \<Rightarrow> VirtioBlk \<times> phys_mem" where
  "run_write_readback dm =
    (let (d, m) = dm; p = DISK_BASE d; lba1 = dword_at p (SECTOR_BYTES div 4) in
     if p = 0 \<or> unat (DISK_BYTES d) < SECTOR_BYTES then (d, m)
     else if REBOOT_DETECT d \<and> SECTOR_BYTES * 2 \<le> unat (DISK_BYTES d) then
       (if sector_stamped m p DISK_PATTERN \<and> sector_stamped m lba1 INSTALL_DISK_PATTERN
        then (d\<lparr>BLK_OK := True, BOOTED_FROM_DISK := True\<rparr>, m) else (d, m))
     else let m = stamp_sector p DISK_PATTERN m in
       if sector_stamped m p DISK_PATTERN then
         let d = d\<lparr>BLK_OK := True\<rparr> in
         if SECTOR_BYTES * 2 \<le> unat (DISK_BYTES d) then
           let m = stamp_sector lba1 INSTALL_DISK_PATTERN m in
           if sector_stamped m lba1 INSTALL_DISK_PATTERN then (d\<lparr>INSTALL_WRITTEN := True\<rparr>, m) else (d, m)
         else (d, m)
       else (d, m))"

definition blk_mmio_access ::
    "u64 \<Rightarrow> bool \<Rightarrow> u32 \<Rightarrow> VirtioBlk \<times> phys_mem \<Rightarrow> u32 option option \<times> VirtioBlk \<times> phys_mem" where
  "blk_mmio_access gpa is_write write_val dm =
    (let (d, m) = dm in
     if \<not> blk_bar_contains d gpa then (None, d, m)
     else let off = gpa - BAR_GPA d in
       if is_write then
         (Some None,
          if off = OFF_STATUS then
            let d = d\<lparr>STATUS := write_val\<rparr> in
            if write_val AND STATUS_DRIVER_OK \<noteq> 0 then run_write_readback (d, m) else (d, m)
          else (d, m))
       else
         (Some (Some
           (if off = OFF_MAGIC then VIRTIO_MMIO_MAGIC
            else if off = OFF_VERSION then VIRTIO_MMIO_VERSION
            else if off = OFF_DEVICE_ID then VIRTIO_ID_BLOCK
            else if off = OFF_VENDOR_ID then VIRTIO_VENDOR
            else if off = OFF_STATUS then STATUS d
            else if off = OFF_CONFIG then ucast (CAPACITY_SECTORS d)
            else if off = OFF_CONFIG + 4 then ucast (drop_bit 32 (CAPACITY_SECTORS d))
            else 0)), d, m))"

section \<open>Stamps survive a reboot\<close>

lemma stamp_sector_fold:
  "stamp_sector p pat m =
    fold (\<lambda>i m. store32 m (dword_at p i) (pat XOR of_nat i)) [0..<128] m"
  by (simp add: stamp_sector_def SECTOR_BYTES_def upt_conv_Cons dword_at_def del: upt_Suc)

lemma sector_stamped_iff:
  "sector_stamped m p pat \<longleftrightarrow> (\<forall>i < 128. load32 m (dword_at p i) = pat XOR of_nat i)"
proof -
  have a: "load32 m p = pat \<longleftrightarrow> load32 m (dword_at p 0) = pat XOR of_nat 0"
    by (simp add: dword_at_def)
  have b: "list_all P [1..<SECTOR_BYTES div 4] \<longleftrightarrow> (\<forall>i. 1 \<le> i \<and> i < 128 \<longrightarrow> P i)" for P
    by (auto simp: list_all_iff SECTOR_BYTES_def)
  have c: "(\<forall>i < 128. Q i) \<longleftrightarrow> Q 0 \<and> (\<forall>i. 1 \<le> i \<and> i < 128 \<longrightarrow> Q i)" for Q :: "nat \<Rightarrow> bool"
    by (rule iffI, simp, intro allI impI, rename_tac i, case_tac i) auto
  show ?thesis
    unfolding sector_stamped_def a b c [of "\<lambda>i. load32 m (dword_at p i) = pat XOR of_nat i"] by (rule refl)
qed

lemma stamp_sector_stamped: "sector_stamped (stamp_sector p pat m) p pat"
  unfolding sector_stamped_iff stamp_sector_fold
  by (auto intro!: dm.fold_store_hit [where addr = "dword_at p"] dword_at_apart)

lemma store32_frame: "4 \<le> unat (a - b) \<Longrightarrow> store32 m b v a = m a"
  by (simp add: store32_def store_bytes_def)

lemma stamp_sector_frame:
  assumes "512 \<le> unat (a - p)"
  shows "stamp_sector p pat m a = m a"
proof -
  have "4 \<le> unat (a - dword_at p i)" if "i < 128" for i
  proof -
    have i: "unat (of_nat (4 * i) :: u64) = 4 * i" by (rule unat_of_nat_small) (use that in simp)
    have "a - dword_at p i = (a - p) - of_nat (4 * i)" by (simp add: dword_at_def)
    then have "unat (a - dword_at p i) = unat (a - p) - 4 * i"
      using assms that i by (simp only:) (subst unat_sub_le, simp_all add: word_le_nat_alt del: of_nat_mult)
    then show ?thesis using assms that by linarith
  qed
  then have "fold (\<lambda>i m. store32 m (dword_at p i) (pat XOR of_nat i)) is m a = m a"
    if "set is \<subseteq> {..<128}" for "is"
    using that by (induction "is" arbitrary: m) (simp_all add: store32_frame)
  then show ?thesis unfolding stamp_sector_fold by (simp add: lessThan_atLeast0)
qed

lemma sector_stamped_cong:
  assumes "\<And>k. k < 512 \<Longrightarrow> m (p + of_nat k) = m' (q + of_nat k)"
  shows "sector_stamped m p pat = sector_stamped m' q pat"
proof -
  have "load32 m (dword_at p i) = load32 m' (dword_at q i)" if "i < 128" for i
  proof (rule load32_cong)
    fix j :: nat assume "j < 4"
    with assms [of "4 * i + j"] that show "m (dword_at p i + of_nat j) = m' (dword_at q i + of_nat j)"
      by (simp add: dword_at_def add.assoc)
  qed
  then show ?thesis by (simp add: sector_stamped_iff)
qed

text \<open>Both sectors carry their trails.\<close>

definition disk_stamped :: "phys_mem \<Rightarrow> u64 \<Rightarrow> bool" where
  "disk_stamped m p \<longleftrightarrow> sector_stamped m p DISK_PATTERN \<and>
     sector_stamped m (dword_at p (SECTOR_BYTES div 4)) INSTALL_DISK_PATTERN"

lemma disk_stamped_cong:
  assumes "\<And>k. k < 1024 \<Longrightarrow> m (p + of_nat k) = m' (q + of_nat k)"
  shows "disk_stamped m p = disk_stamped m' q"
proof -
  have "m (dword_at p 128 + of_nat k) = m' (dword_at q 128 + of_nat k)" if "k < 512" for k
    using assms [of "512 + k"] that by (simp add: dword_at_def add.assoc)
  then have "sector_stamped m (dword_at p 128) pat = sector_stamped m' (dword_at q 128) pat" for pat
    by (rule sector_stamped_cong)
  moreover have "sector_stamped m p pat = sector_stamped m' q pat" for pat
    by (rule sector_stamped_cong) (use assms in simp)
  ultimately show ?thesis by (simp add: disk_stamped_def SECTOR_BYTES_def)
qed

lemma stamp_both:
  fixes p :: u64 and m :: phys_mem
  defines "m2 \<equiv> stamp_sector (dword_at p 128) INSTALL_DISK_PATTERN (stamp_sector p DISK_PATTERN m)"
  shows "disk_stamped m2 p" and "1024 \<le> unat (a - p) \<Longrightarrow> m2 a = m a"
proof -
  have "m2 (p + of_nat k) = stamp_sector p DISK_PATTERN m (p + of_nat k)" if "k < 512" for k
  proof -
    have k: "unat (of_nat k :: u64) = k" by (rule unat_of_nat_small) (use that in simp)
    have "unat (512 - of_nat k :: u64) = 512 - k"
      using that k by (subst unat_sub_le) (simp_all add: word_le_nat_alt)
    then have "unat (- (512 - of_nat k) :: u64) = 2 ^ 64 - (512 - k)"
      using that by (subst unat_uminus) (auto simp: word_unat_eq_iff)
    then have "512 \<le> unat (p + of_nat k - dword_at p 128)"
      using that by (simp add: dword_at_def)
    then show ?thesis unfolding m2_def by (rule stamp_sector_frame)
  qed
  then have "sector_stamped m2 p DISK_PATTERN"
    using sector_stamped_cong [of m2 p "stamp_sector p DISK_PATTERN m" p] stamp_sector_stamped by blast
  then show "disk_stamped m2 p"
    by (simp add: disk_stamped_def SECTOR_BYTES_def m2_def stamp_sector_stamped)
  assume a: "1024 \<le> unat (a - p)"
  have e: "a - dword_at p 128 = (a - p) - 512" by (simp add: dword_at_def)
  have "unat ((a - p) - 512) = unat (a - p) - 512"
    using a by (subst unat_sub_le) (simp_all add: word_le_nat_alt)
  then have "512 \<le> unat (a - dword_at p 128)" unfolding e using a by linarith
  then show "m2 a = m a" using a by (simp add: m2_def stamp_sector_frame)
qed

lemma status_access:
  assumes "BAR_GPA d \<noteq> 0" and "unat (BAR_GPA d) + 0x1000 < 2 ^ 64" and "val AND STATUS_DRIVER_OK \<noteq> 0"
  shows "blk_mmio_access (BAR_GPA d + OFF_STATUS) True val (d, m) =
    (Some None, run_write_readback (d\<lparr>STATUS := val\<rparr>, m))"
proof -
  have "unat (BAR_GPA d + 0x70) = unat (BAR_GPA d) + 0x70"
    "unat (BAR_GPA d + 0x1000) = unat (BAR_GPA d) + 0x1000"
    using assms(2) by (simp_all add: unat_add_small)
  then have "blk_bar_contains d (BAR_GPA d + OFF_STATUS)"
    using assms(1) by (simp add: blk_bar_contains_def OFF_STATUS_def word_le_nat_alt word_less_nat_alt)
  then show ?thesis using assms(3) by (simp add: blk_mmio_access_def)
qed

lemma first_boot_stamps:
  assumes "DISK_BASE d \<noteq> 0" and "1024 \<le> unat (DISK_BYTES d)" and "\<not> REBOOT_DETECT d"
  shows "run_write_readback (d, m) = (d\<lparr>BLK_OK := True, INSTALL_WRITTEN := True\<rparr>,
    stamp_sector (dword_at (DISK_BASE d) 128) INSTALL_DISK_PATTERN (stamp_sector (DISK_BASE d) DISK_PATTERN m))"
  using assms by (simp add: run_write_readback_def SECTOR_BYTES_def stamp_sector_stamped Let_def)

lemma reboot_checks:
  assumes "DISK_BASE d \<noteq> 0" and "1024 \<le> unat (DISK_BYTES d)" and "REBOOT_DETECT d"
  shows "run_write_readback (d, m) =
    (if disk_stamped m (DISK_BASE d) then (d\<lparr>BLK_OK := True, BOOTED_FROM_DISK := True\<rparr>, m) else (d, m))"
  using assms by (simp add: run_write_readback_def disk_stamped_def SECTOR_BYTES_def Let_def)

lemma blank_disk_not_stamped:
  assumes "\<And>k. k < 1024 \<Longrightarrow> m (p + of_nat k) = 0"
  shows "\<not> disk_stamped m p"
proof
  assume "disk_stamped m p"
  then have "load32 m (dword_at p 0) = DISK_PATTERN XOR of_nat 0"
    unfolding disk_stamped_def sector_stamped_iff by (blast intro: zero_less_numeral)
  moreover have "load32 m p = load32 (\<lambda>_. 0) p" by (rule load32_cong) (use assms in simp)
  moreover have "load32 (\<lambda>_. 0) p = 0" by (simp add: load32_def upt_rec)
  ultimately show False by (simp add: dword_at_def DISK_PATTERN_def)
qed

text \<open>
  C38: the install stamps survive a reboot, and nothing else passes for them.  On a first boot
  the driver's \<open>DRIVER_OK\<close> write stamps the first two sectors of the disk, reports both
  latches and changes no byte outside the disk.  On a later boot in detect mode, from any
  saved prefix of that disk of at least two sectors, the \<open>DRIVER_OK\<close> write reports that
  the system booted from disk; with no saved image it reports nothing.
\<close>

theorem install_survives_reboot:
  assumes "bar \<noteq> 0" and "unat bar + 0x1000 < 2 ^ 64" and "val AND STATUS_DRIVER_OK \<noteq> 0"
    and "\<not> REBOOT_DETECT d0"
    and "disk \<noteq> 0" and "1024 \<le> unat bytes" and "disk' \<noteq> 0" and "1024 \<le> unat bytes'" and "1024 \<le> n"
  shows "let (d1, m1) = snd (blk_mmio_access (bar + OFF_STATUS) True val (blk_init bar disk bytes (d0, m0)));
             img = map (\<lambda>k. m1 (disk + of_nat k)) [0..<n];
             boot2 = (\<lambda>i. fst (snd (blk_mmio_access (bar + OFF_STATUS) True val
                        (init_with_image bar disk' bytes' i (set_reboot_detect True d1, m')))))
    in BLK_OK d1 \<and> INSTALL_WRITTEN d1 \<and>
       (\<forall>a. unat bytes \<le> unat (a - disk) \<longrightarrow> m1 a = m0 a) \<and>
       BLK_OK (boot2 (Some img)) \<and> BOOTED_FROM_DISK (boot2 (Some img)) \<and>
       \<not> BLK_OK (boot2 None) \<and> \<not> BOOTED_FROM_DISK (boot2 None)"
proof -
  obtain di mi where i: "blk_init bar disk bytes (d0, m0) = (di, mi)" by fastforce
  have d: "BAR_GPA di = bar" "DISK_BASE di = disk" "DISK_BYTES di = bytes" "\<not> REBOOT_DETECT di"
    and mi: "mi = write_bytes m0 disk 0 (unat bytes)"
    using i assms(4) by (auto simp: blk_init_def init_with_image_def Let_def)
  let ?m1 = "stamp_sector (dword_at disk 128) INSTALL_DISK_PATTERN (stamp_sector disk DISK_PATTERN mi)"
  let ?d1 = "di\<lparr>STATUS := val, BLK_OK := True, INSTALL_WRITTEN := True\<rparr>"
  have one: "snd (blk_mmio_access (bar + OFF_STATUS) True val (di, mi)) = (?d1, ?m1)"
    using status_access [of di val mi] first_boot_stamps [of "di\<lparr>STATUS := val\<rparr>" mi] assms(1-6) d
    by simp
  have stamped: "disk_stamped ?m1 disk" and frame: "\<And>a. 1024 \<le> unat (a - disk) \<Longrightarrow> ?m1 a = mi a"
    by (rule stamp_both)+
  define img where "img = map (\<lambda>k. ?m1 (disk + of_nat k)) [0..<n]"
  define boot2 where "boot2 i = fst (snd (blk_mmio_access (bar + OFF_STATUS) True val
      (init_with_image bar disk' bytes' i (set_reboot_detect True ?d1, m'))))" for i
  have boot: "boot2 i = fst (run_write_readback ((fst s)\<lparr>STATUS := val\<rparr>, snd s))"
    if "init_with_image bar disk' bytes' i (set_reboot_detect True ?d1, m') = s" for i s
  proof -
    have "BAR_GPA (fst s) = bar"
      using that by (auto simp: init_with_image_def Let_def split: option.splits if_splits)
    then show ?thesis
      using status_access [of "fst s" val "snd s"] assms(1-3) that by (simp add: boot2_def)
  qed
  have u: "unat (of_nat k :: u64) = k" if "k < 1024" for k
    by (rule unat_of_nat_small) (use that in simp)
  have "disk_stamped (snd (init_with_image bar disk' bytes' (Some img) (set_reboot_detect True ?d1, m'))) disk'"
  proof -
    have "img \<noteq> []" using assms(9) by (simp add: img_def)
    then have "snd (init_with_image bar disk' bytes' (Some img) (set_reboot_detect True ?d1, m'))
        (disk' + of_nat k) = ?m1 (disk + of_nat k)" if "k < 1024" for k
      using that assms(8,9) u [OF that]
      by (simp add: init_with_image_def Let_def store_bytes_def img_def)
    then show ?thesis using disk_stamped_cong [of _ disk' ?m1 disk] stamped by blast
  qed
  moreover have "\<not> disk_stamped (snd (init_with_image bar disk' bytes' None (set_reboot_detect True ?d1, m'))) disk'"
    by (rule blank_disk_not_stamped)
      (use u assms(8) in \<open>simp add: init_with_image_def Let_def write_bytes_def\<close>)
  ultimately have "BLK_OK (boot2 (Some img)) \<and> BOOTED_FROM_DISK (boot2 (Some img)) \<and>
      \<not> BLK_OK (boot2 None) \<and> \<not> BOOTED_FROM_DISK (boot2 None)"
    using assms(7,8)
    by (subst (1 2 3 4) boot [OF refl])
      (simp add: reboot_checks init_with_image_def set_reboot_detect_def Let_def split: if_splits)
  moreover have "?m1 a = m0 a" if "unat bytes \<le> unat (a - disk)" for a
    using frame [of a] that assms(6) by (simp add: mi write_bytes_def)
  ultimately show ?thesis
    using one unfolding i boot2_def img_def by (simp add: Let_def)
qed

theorem install_survives_reboot_witness:
  "(let (d1, m1) = snd (blk_mmio_access (0xD0000000 + OFF_STATUS) True 0xF
          (blk_init 0xD0000000 0x100000 4096 (blk_statics, \<lambda>_. 0)))
    in \<not> REBOOT_DETECT blk_statics \<and> BLK_OK d1 \<and> INSTALL_WRITTEN d1)"
proof -
  have "\<not> REBOOT_DETECT blk_statics" by (simp add: blk_statics_def)
  moreover have "(0xF :: u32) AND STATUS_DRIVER_OK \<noteq> 0" by (simp add: STATUS_DRIVER_OK_def)
  ultimately show ?thesis
    using install_survives_reboot [of "0xD0000000" "0xF" blk_statics "0x100000" 4096 "0x100000" 4096 1024
        "\<lambda>_. 0" "\<lambda>_. 0"]
    by (simp add: Let_def split_beta)
qed

section \<open>The network device\<close>

definition VIRTIO_ID_NET :: u32 where "VIRTIO_ID_NET = 1"
definition PROBE_ETHERTYPE :: u16 where "PROBE_ETHERTYPE = 0x88B5"
definition PROBE_PAYLOAD :: "u8 list" where
  "PROBE_PAYLOAD = [0x52, 0x41, 0x59, 0x4E, 0x55, 0x2D, 0x56, 0x2D, 0x4D, 0x34, 0x2D, 0x4E, 0x45, 0x54]"
definition MAC0 :: mac where "MAC0 = [0x52, 0x54, 0x00, 0x12, 0x34, 0x56]"
definition MAC1 :: mac where "MAC1 = [0x52, 0x54, 0x00, 0x12, 0x34, 0x57]"

record VirtioNet =
  BAR0 :: u64
  BAR1 :: u64
  BUF0 :: u64
  BUF1 :: u64
  STATUS0 :: u32
  STATUS1 :: u32
  READY0 :: bool
  READY1 :: bool
  NET_OK :: bool
  NET_MARKED :: bool
  SWITCH :: VSwitch

definition take_net_ok_latch :: "VirtioNet \<Rightarrow> bool \<times> VirtioNet" where
  "take_net_ok_latch d = (if NET_OK d \<and> \<not> NET_MARKED d then (True, d\<lparr>NET_MARKED := True\<rparr>) else (False, d))"

definition in_bar :: "u64 \<Rightarrow> u64 \<Rightarrow> bool" where
  "in_bar base gpa \<longleftrightarrow> base \<le> gpa \<and> gpa < base + 0x1000"

definition net_bar_contains :: "VirtioNet \<Rightarrow> u64 \<Rightarrow> bool" where
  "net_bar_contains d gpa \<longleftrightarrow> BAR0 d \<noteq> 0 \<and> in_bar (BAR0 d) gpa \<or> BAR1 d \<noteq> 0 \<and> in_bar (BAR1 d) gpa"

definition net_init :: "u64 \<Rightarrow> u64 \<Rightarrow> u64 \<Rightarrow> u64 \<Rightarrow> phys_mem \<Rightarrow> VirtioNet \<times> phys_mem" where
  "net_init bar0 bar1 buf0 buf1 m =
    (\<lparr>BAR0 = bar0, BAR1 = bar1, BUF0 = buf0, BUF1 = buf1, STATUS0 = 0, STATUS1 = 0, READY0 = False,
      READY1 = False, NET_OK = False, NET_MARKED = False,
      SWITCH = snd (attach (snd (attach (vswitch_new 2) 0 MAC0)) 1 MAC1)\<rparr>,
     write_bytes (write_bytes m buf0 0 4096) buf1 0 4096)"

definition rx_verified :: "phys_mem \<Rightarrow> u64 \<Rightarrow> bool" where
  "rx_verified m rx \<longleftrightarrow>
     list_all (\<lambda>i. m (rx + of_nat i) = MAC1 ! i \<and> m (rx + of_nat (6 + i)) = MAC0 ! i) [0..<6] \<and>
     m (rx + 12) = ucast (drop_bit 8 PROBE_ETHERTYPE) \<and> m (rx + 13) = ucast PROBE_ETHERTYPE \<and>
     list_all (\<lambda>i. m (rx + of_nat (ETH_HDR_LEN + i)) = PROBE_PAYLOAD ! i) [0..<length PROBE_PAYLOAD]"

definition run_port_exchange :: "VirtioNet \<times> phys_mem \<Rightarrow> VirtioNet \<times> phys_mem" where
  "run_port_exchange dm =
    (let (d, m) = dm in
     if BUF0 d = 0 \<or> BUF1 d = 0 \<or> NET_OK d then (d, m)
     else case build_eth_frame (replicate 64 0) MAC1 MAC0 PROBE_ETHERTYPE PROBE_PAYLOAD of
       (Inl e, frame) \<Rightarrow> (d, m)
     | (Inr n, frame) \<Rightarrow>
         (case forward (SWITCH d) 0 (take n frame) of
            (r, sw) \<Rightarrow>
              let d = d\<lparr>SWITCH := sw\<rparr> in
              if r \<noteq> Inr (Some 1) then (d, m)
              else let m = store_bytes (write_bytes m (BUF1 d) 0 4096) (BUF1 d) (take n frame)
                   in (if rx_verified m (BUF1 d) then d\<lparr>NET_OK := True\<rparr> else d, m)))"

definition net_mmio_access ::
    "u64 \<Rightarrow> bool \<Rightarrow> u32 \<Rightarrow> VirtioNet \<times> phys_mem \<Rightarrow> u32 option option \<times> VirtioNet \<times> phys_mem" where
  "net_mmio_access gpa is_write write_val dm =
    (let (d, m) = dm in
     if \<not> net_bar_contains d gpa then (None, d, m)
     else let port0 = in_bar (BAR0 d) gpa; base = (if port0 then BAR0 d else BAR1 d); off = gpa - base in
       if is_write then
         (Some None,
          if off = OFF_STATUS then
            let ok = write_val AND STATUS_DRIVER_OK \<noteq> 0;
                d = (if port0 then d\<lparr>STATUS0 := write_val, READY0 := READY0 d \<or> ok\<rparr>
                     else d\<lparr>STATUS1 := write_val, READY1 := READY1 d \<or> ok\<rparr>)
            in if READY0 d \<and> READY1 d then run_port_exchange (d, m) else (d, m)
          else (d, m))
       else
         (Some (Some
           (if off = OFF_MAGIC then VIRTIO_MMIO_MAGIC
            else if off = OFF_VERSION then VIRTIO_MMIO_VERSION
            else if off = OFF_DEVICE_ID then VIRTIO_ID_NET
            else if off = OFF_VENDOR_ID then VIRTIO_VENDOR
            else if off = OFF_STATUS then (if port0 then STATUS0 d else STATUS1 d)
            else 0)), d, m))"

text \<open>The probe frame on the wire: destination, source, type and payload.\<close>

definition probe_frame :: "u8 list" where
  "probe_frame = MAC1 @ MAC0 @ [0x88, 0xB5] @ PROBE_PAYLOAD"

lemma probe_frame_built:
  "fst (build_eth_frame (replicate 64 0) MAC1 MAC0 PROBE_ETHERTYPE PROBE_PAYLOAD) = Inr 28"
  "take 28 (snd (build_eth_frame (replicate 64 0) MAC1 MAC0 PROBE_ETHERTYPE PROBE_PAYLOAD)) = probe_frame"
  by code_simp+

lemma probe_frame_switched:
  "fst (forward (snd (attach (snd (attach (vswitch_new 2) 0 MAC0)) 1 MAC1)) 0 probe_frame) = Inr (Some 1)"
  by code_simp

lemma rx_verified_probe:
  assumes "\<And>k. k < 28 \<Longrightarrow> m (rx + of_nat k) = probe_frame ! k"
  shows "rx_verified m rx"
proof -
  have len: "length MAC0 = 6" "length MAC1 = 6" by (simp_all add: MAC0_def MAC1_def)
  have a: "m (rx + of_nat i) = MAC1 ! i" "m (rx + of_nat (6 + i)) = MAC0 ! i" if "i < 6" for i
    using assms [of i] assms [of "6 + i"] that by (simp_all add: probe_frame_def nth_append len)
  have b: "m (rx + 12) = 0x88" "m (rx + 13) = 0xB5"
    using assms [of 12] assms [of 13] by (simp_all add: probe_frame_def nth_append len)
  have c: "m (rx + of_nat (14 + i)) = PROBE_PAYLOAD ! i" if "i < 14" for i
    using assms [of "14 + i"] that by (simp add: probe_frame_def nth_append len)
  have n: "length PROBE_PAYLOAD = 14" by (simp add: PROBE_PAYLOAD_def)
  show ?thesis
    unfolding rx_verified_def n ETH_HDR_LEN_def list_all_iff
    using a b c by (simp add: PROBE_ETHERTYPE_def)
qed

lemma exchange_from_init:
  assumes "BUF0 d \<noteq> 0" and "BUF1 d \<noteq> 0" and "\<not> NET_OK d"
    and "SWITCH d = snd (attach (snd (attach (vswitch_new 2) 0 MAC0)) 1 MAC1)"
  shows "NET_OK (fst (run_port_exchange (d, m)))"
    and "k < 28 \<Longrightarrow> snd (run_port_exchange (d, m)) (BUF1 d + of_nat k) = probe_frame ! k"
    and "4096 \<le> unat (a - BUF1 d) \<Longrightarrow> snd (run_port_exchange (d, m)) a = m a"
proof -
  obtain f where f: "build_eth_frame (replicate 64 0) MAC1 MAC0 PROBE_ETHERTYPE PROBE_PAYLOAD = (Inr 28, f)"
    "take 28 f = probe_frame"
    using probe_frame_built by (cases "build_eth_frame (replicate 64 0) MAC1 MAC0 PROBE_ETHERTYPE PROBE_PAYLOAD") auto
  obtain sw where sw: "forward (SWITCH d) 0 probe_frame = (Inr (Some 1), sw)"
    using probe_frame_switched assms(4) by (cases "forward (SWITCH d) 0 probe_frame") auto
  let ?m = "store_bytes (write_bytes m (BUF1 d) 0 4096) (BUF1 d) probe_frame"
  have len: "length probe_frame = 28" by (simp add: probe_frame_def MAC0_def MAC1_def PROBE_PAYLOAD_def)
  have u: "unat (of_nat k :: u64) = k" if "k < 28" for k
    by (rule unat_of_nat_small) (use that in simp)
  have rx: "?m (BUF1 d + of_nat k) = probe_frame ! k" if "k < 28" for k
    using that u [OF that] by (simp add: store_bytes_def len)
  then have "rx_verified ?m (BUF1 d)" by (rule rx_verified_probe)
  then have r: "run_port_exchange (d, m) = (d\<lparr>SWITCH := sw, NET_OK := True\<rparr>, ?m)"
    using assms(1-3) f sw by (simp add: run_port_exchange_def Let_def)
  show "NET_OK (fst (run_port_exchange (d, m)))" by (simp add: r)
  show "k < 28 \<Longrightarrow> snd (run_port_exchange (d, m)) (BUF1 d + of_nat k) = probe_frame ! k"
    using rx by (simp add: r)
  show "4096 \<le> unat (a - BUF1 d) \<Longrightarrow> snd (run_port_exchange (d, m)) a = m a"
    by (simp add: r store_bytes_def write_bytes_def len)
qed

text \<open>
  the two drivers bring the link up in either order.  After initialisation, the
  \<open>DRIVER_OK\<close> write of one driver alone reports nothing and touches no memory; when the
  other driver's write follows, the probe frame has gone through the learning switch into
  the receive buffer of port 1, the device reports success, and no byte outside that
  buffer has changed.
\<close>

theorem net_link_up_either_order:
  assumes "b0 \<noteq> 0" and "b1 \<noteq> 0" and "unat b0 + 0x1000 \<le> unat b1" and "unat b1 + 0x1000 < 2 ^ 64"
    and "buf0 \<noteq> 0" and "buf1 \<noteq> 0" and "v0 AND STATUS_DRIVER_OK \<noteq> 0" and "v1 AND STATUS_DRIVER_OK \<noteq> 0"
  shows "let s = net_init b0 b1 buf0 buf1 m;
             port0 = (\<lambda>s. snd (net_mmio_access (b0 + OFF_STATUS) True v0 s));
             port1 = (\<lambda>s. snd (net_mmio_access (b1 + OFF_STATUS) True v1 s)) in
    snd (port0 s) = snd s \<and> \<not> NET_OK (fst (port0 s)) \<and> snd (port1 s) = snd s \<and> \<not> NET_OK (fst (port1 s)) \<and>
    (\<forall>s' \<in> {port1 (port0 s), port0 (port1 s)}.
       NET_OK (fst s') \<and> (\<forall>k < 28. snd s' (buf1 + of_nat k) = probe_frame ! k) \<and>
       (\<forall>a. 4096 \<le> unat (a - buf1) \<longrightarrow> snd s' a = snd s a))"
proof -
  obtain d m' where s: "net_init b0 b1 buf0 buf1 m = (d, m')" by fastforce
  have d: "BAR0 d = b0" "BAR1 d = b1" "BUF0 d = buf0" "BUF1 d = buf1" "\<not> READY0 d" "\<not> READY1 d" "\<not> NET_OK d"
    "SWITCH d = snd (attach (snd (attach (vswitch_new 2) 0 MAC0)) 1 MAC1)"
    using s by (auto simp: net_init_def)
  have u: "unat (b0 + 0x70) = unat b0 + 0x70" "unat (b0 + 0x1000) = unat b0 + 0x1000"
    "unat (b1 + 0x70) = unat b1 + 0x70" "unat (b1 + 0x1000) = unat b1 + 0x1000"
    using assms(3,4) by (simp_all add: unat_add_small)
  have in0: "in_bar b0 (b0 + 0x70)" and in1: "in_bar b1 (b1 + 0x70)" and out: "\<not> in_bar b0 (b1 + 0x70)"
    using u assms(3) by (simp_all add: in_bar_def word_le_nat_alt word_less_nat_alt)
  have p0: "snd (net_mmio_access (b0 + OFF_STATUS) True v0 (e, n)) =
      (let e = e\<lparr>STATUS0 := v0, READY0 := True\<rparr> in if READY1 e then run_port_exchange (e, n) else (e, n))"
    if "BAR0 e = b0" "BAR1 e = b1" for e n
    using that in0 assms(1,7) by (simp add: net_mmio_access_def net_bar_contains_def OFF_STATUS_def Let_def)
  have p1: "snd (net_mmio_access (b1 + OFF_STATUS) True v1 (e, n)) =
      (let e = e\<lparr>STATUS1 := v1, READY1 := True\<rparr> in if READY0 e then run_port_exchange (e, n) else (e, n))"
    if "BAR0 e = b0" "BAR1 e = b1" for e n
    using that in1 out assms(2,8) by (simp add: net_mmio_access_def net_bar_contains_def OFF_STATUS_def Let_def)
  let ?e = "d\<lparr>STATUS0 := v0, READY0 := True, STATUS1 := v1, READY1 := True\<rparr>"
  let ?f = "d\<lparr>STATUS1 := v1, READY1 := True, STATUS0 := v0, READY0 := True\<rparr>"
  note x = exchange_from_init [of ?e, simplified, unfolded d, OF assms(5,6) d(7) refl]
    and y = exchange_from_init [of ?f, simplified, unfolded d, OF assms(5,6) d(7) refl]
  show ?thesis
    unfolding s using d x y by (simp add: p0 p1 Let_def)
qed

theorem net_link_up_either_order_witness:
  "NET_OK (fst (snd (net_mmio_access (0xD0002000 + OFF_STATUS) True 0xF
     (snd (net_mmio_access (0xD0001000 + OFF_STATUS) True 0xF
       (net_init 0xD0001000 0xD0002000 0x300000 0x301000 (\<lambda>_. 0)))))))"
  using net_link_up_either_order [of "0xD0001000" "0xD0002000" "0x300000" "0x301000" "0xF" "0xF" "\<lambda>_. 0"]
  by (simp add: Let_def STATUS_DRIVER_OK_def)

end
