(* ===== verification/Guest_Pt.thy ===== *)
theory Guest_Pt
  imports Ept_Hw Bit_Scan
begin

text \<open>
  The hypervisor's reading and repairing of guest page tables, \<open>vmx/guest_pt.rs\<close>:
  the software walk \<open>va_to_gpa\<close>, the copy loop that fetches guest instructions through it,
  and the repair of a missing identity leaf after a page fault.  The walk of the Linux path
  reads guest physical addresses as host addresses; the repair works through the alias window
  that maps a guest physical address \<open>g\<close> to \<open>ram_hpa + g\<close>, which
  \<open>guest_view\<close> expresses.
\<close>

section \<open>The software walk\<close>

definition ADDR_MASK :: u64 where "ADDR_MASK = 0x000ffffffffff000"
definition PRESENT :: u64 where "PRESENT = 1"
definition RW :: u64 where "RW = 2"
definition USER :: u64 where "USER = 4"
definition ACCESSED :: u64 where "ACCESSED = 0x20"
definition DIRTY :: u64 where "DIRTY = 0x40"
definition LARGE :: u64 where "LARGE = 0x80"
definition LEAF_FLAGS :: u64 where "LEAF_FLAGS = PRESENT OR RW OR USER OR ACCESSED OR DIRTY"
definition LARGE_2M_FLAGS :: u64 where "LARGE_2M_FLAGS = LEAF_FLAGS OR LARGE"

definition read_entry :: "phys_mem \<Rightarrow> u64 \<Rightarrow> u64 \<Rightarrow> u64 option" where
  "read_entry m table_gpa index =
    (if 511 < index then None else Some (load64 m (table_gpa + 8 * index)))"

definition level_index :: "nat \<Rightarrow> u64 \<Rightarrow> u64" where
  "level_index s gva = drop_bit s gva AND 0x1ff"

definition va_to_gpa :: "phys_mem \<Rightarrow> u64 \<Rightarrow> u64 \<Rightarrow> u64 option" where
  "va_to_gpa m cr3 gva =
    (case read_entry m (cr3 AND ADDR_MASK) (level_index 39 gva) of None \<Rightarrow> None | Some e4 \<Rightarrow>
     if e4 AND PRESENT = 0 then None else
     (case read_entry m (e4 AND ADDR_MASK) (level_index 30 gva) of None \<Rightarrow> None | Some e3 \<Rightarrow>
      if e3 AND PRESENT = 0 then None else
      if e3 AND LARGE \<noteq> 0 then Some ((e3 AND 0x000fffffc0000000) OR (gva AND 0x3fffffff)) else
      (case read_entry m (e3 AND ADDR_MASK) (level_index 21 gva) of None \<Rightarrow> None | Some e2 \<Rightarrow>
       if e2 AND PRESENT = 0 then None else
       if e2 AND LARGE \<noteq> 0 then Some ((e2 AND 0x000fffffffe00000) OR (gva AND 0x1fffff)) else
       (case read_entry m (e2 AND ADDR_MASK) (level_index 12 gva) of None \<Rightarrow> None | Some e1 \<Rightarrow>
        if e1 AND PRESENT = 0 then None else
        Some ((e1 AND ADDR_MASK) OR (gva AND 0xfff))))))"

lemma level_index_le: "\<not> 511 < level_index s gva"
proof -
  have "(0x1ff :: u64) = mask 9" by (simp add: mask_eq_exp_minus_1)
  then have "unat (level_index s gva) < 512"
    unfolding level_index_def by (simp only: unat_and_mask_low) simp
  then show ?thesis by (simp add: word_less_nat_alt)
qed

lemma read_entry_index [simp]:
  "read_entry m t (level_index s gva) = Some (load64 m (t + 8 * level_index s gva))"
  by (simp add: read_entry_def level_index_le)

lemma present_large_bits:
  fixes e :: u64
  shows "e AND PRESENT = 0 \<longleftrightarrow> \<not> bit e 0" "e AND LARGE = 0 \<longleftrightarrow> \<not> bit e 7"
  using and_one_at_eq_0 [of e 0] and_one_at_eq_0 [of e 7]
  by (simp_all add: PRESENT_def LARGE_def one_at_def)

text \<open>The walk without its never-failing index checks.\<close>

lemma va_to_gpa_eq:
  "va_to_gpa m cr3 gva =
    (let e4 = load64 m ((cr3 AND ADDR_MASK) + 8 * level_index 39 gva);
         e3 = load64 m ((e4 AND ADDR_MASK) + 8 * level_index 30 gva);
         e2 = load64 m ((e3 AND ADDR_MASK) + 8 * level_index 21 gva);
         e1 = load64 m ((e2 AND ADDR_MASK) + 8 * level_index 12 gva) in
     if \<not> bit e4 0 \<or> \<not> bit e3 0 then None
     else if bit e3 7 then Some ((e3 AND 0x000fffffc0000000) OR (gva AND mask 30))
     else if \<not> bit e2 0 then None
     else if bit e2 7 then Some ((e2 AND 0x000fffffffe00000) OR (gva AND mask 21))
     else if \<not> bit e1 0 then None
     else Some ((e1 AND ADDR_MASK) OR (gva AND mask 12)))"
proof -
  have m: "(0x3fffffff :: u64) = mask 30" "(0x1fffff :: u64) = mask 21" "(0xfff :: u64) = mask 12"
    by (simp_all add: mask_eq_exp_minus_1)
  show ?thesis
    unfolding va_to_gpa_def read_entry_index option.case present_large_bits m Let_def by simp
qed

section \<open>Translation is page-wise\<close>

lemma pow_page: "12 \<le> s \<Longrightarrow> (2 :: nat) ^ s = 4096 * 2 ^ (s - 12)"
  using power_add [of "2 :: nat" 12 "s - 12"] by simp

lemma same_region_index:
  assumes "unat a div 2 ^ p = unat b div 2 ^ p" and "p \<le> s"
  shows "level_index s a = level_index s b"
proof -
  have p: "(2 :: nat) ^ s = 2 ^ p * 2 ^ (s - p)"
    using assms(2) by (simp add: power_add [symmetric])
  have "unat x div 2 ^ s = unat x div 2 ^ p div 2 ^ (s - p)" for x :: u64
    by (simp add: p div_mult2_eq)
  then have "unat (drop_bit s a) = unat (drop_bit s b)"
    using assms(1) unfolding unat_drop_bit_eq by (simp add: drop_bit_eq_div)
  then have "drop_bit s a = drop_bit s b" by (rule word_eq_unatI)
  then show ?thesis by (simp add: level_index_def)
qed

lemmas same_page_index = same_region_index [where p = 12, simplified]

lemma in_page_step:
  fixes a :: u64 and j :: nat
  assumes "unat a mod 4096 + j < 4096"
  shows "unat (a + of_nat j) = unat a + j" and "unat (a + of_nat j) div 4096 = unat a div 4096"
proof -
  have j: "unat (of_nat j :: u64) = j" by (rule unat_of_nat_small) (use assms in simp)
  have "unat a + j < 2 ^ 64"
  proof -
    have a: "unat a = 4096 * (unat a div 4096) + unat a mod 4096" by simp
    have "unat a div 4096 < 2 ^ 52" using unat_u64_bound [of a] by (simp add: div_less_iff_less_mult)
    then have "4096 * (unat a div 4096) + 4096 \<le> 2 ^ 64" by simp
    then show ?thesis using assms a by linarith
  qed
  then show u: "unat (a + of_nat j) = unat a + j" by (simp add: unat_add_small j)
  have "(4096 * q + r + j) div 4096 = q" if "r + j < 4096" for q r :: nat
    using that by (intro div_nat_eqI) simp_all
  from this [OF assms, of "unat a div 4096"] show "unat (a + of_nat j) div 4096 = unat a div 4096"
    by (simp add: u)
qed

lemma leaf_step:
  fixes a base :: u64
  assumes "base AND mask s = 0" and "12 \<le> s" and "s \<le> 63" and "unat a mod 4096 + j < 4096"
  shows "base OR ((a + of_nat j) AND mask s) = (base OR (a AND mask s)) + of_nat j"
    and "unat (base OR (a AND mask s)) mod 4096 = unat a mod 4096"
proof -
  have orp: "base OR (x AND mask s) = base + (x AND mask s)" for x
  proof -
    have "base AND (x AND mask s) = 0" using assms(1) by (metis and.left_commute and_zero_eq)
    then show ?thesis using word_plus_and_or [of base "x AND mask s"] by simp
  qed
  note p = pow_page [OF assms(2)]
  have lo: "unat a mod 2 ^ s mod 4096 = unat a mod 4096" unfolding p by (simp add: mod_mult2_eq)
  have lt: "unat a mod 2 ^ s + j < 2 ^ s"
  proof -
    obtain q where q: "unat a mod 2 ^ s = 4096 * q + unat a mod 4096"
      using lo by (metis mult_div_mod_eq)
    have "unat a mod 2 ^ s < 2 ^ s" by simp
    then have "4096 * q < 4096 * 2 ^ (s - 12)" using q p by linarith
    then have "q + 1 \<le> 2 ^ (s - 12)" by simp
    then have "4096 * q + 4096 \<le> 2 ^ s" unfolding p by (metis add_mult_distrib2 mult.right_neutral mult_le_mono2)
    then show ?thesis using q assms(4) by linarith
  qed
  have j: "unat (of_nat j :: u64) = j" by (rule unat_of_nat_small) (use assms(4) in simp)
  have "(a + of_nat j) AND mask s = (a AND mask s) + of_nat j"
  proof (rule word_eq_unatI)
    have "unat ((a AND mask s) + of_nat j) = unat a mod 2 ^ s + j"
    proof -
      have "(2 :: nat) ^ s \<le> 2 ^ 64" using assms(3) by (intro power_increasing) auto
      then show ?thesis
        using lt by (subst unat_add_small) (simp_all add: unat_and_mask_low j)
    qed
    moreover have "(unat a + j) mod 2 ^ s = unat a mod 2 ^ s + j"
      using lt by (metis mod_add_left_eq mod_less)
    ultimately show "unat ((a + of_nat j) AND mask s) = unat ((a AND mask s) + of_nat j)"
      by (simp add: unat_and_mask_low in_page_step(1) [OF assms(4)])
  qed
  then show "base OR ((a + of_nat j) AND mask s) = (base OR (a AND mask s)) + of_nat j"
    unfolding orp by (simp only: add.assoc)
  have "(base OR (a AND mask s)) AND mask 12 = a AND mask 12"
  proof (rule bit_word_eqI)
    fix n assume "n < LENGTH(64)"
    have "\<not> bit (base AND mask s) n" by (simp add: assms(1))
    then have "\<not> bit base n" if "n < s"
      using that \<open>n < LENGTH(64)\<close> by (simp add: bit_and_iff bit_mask_iff possible_bit_word)
    then show "bit ((base OR (a AND mask s)) AND mask 12) n = bit (a AND mask 12) n"
      using assms(2) by (auto simp: bit_and_iff bit_or_iff bit_mask_iff)
  qed
  then have "unat ((base OR (a AND mask s)) AND mask 12) = unat (a AND mask 12)" by simp
  then show "unat (base OR (a AND mask s)) mod 4096 = unat a mod 4096"
    by (simp add: unat_and_mask_low)
qed

lemma leaf_masks:
  fixes e :: u64
  shows "(e AND 0x000fffffc0000000) AND mask 30 = 0" "(e AND 0x000fffffffe00000) AND mask 21 = 0"
    "(e AND ADDR_MASK) AND mask 12 = 0"
proof -
  have "(0x000fffffc0000000 :: u64) AND mask 30 = 0" "(0x000fffffffe00000 :: u64) AND mask 21 = 0"
    "ADDR_MASK AND mask 12 = 0"
    by (simp_all add: ADDR_MASK_def mask_eq_exp_minus_1)
  then show "(e AND 0x000fffffc0000000) AND mask 30 = 0" "(e AND 0x000fffffffe00000) AND mask 21 = 0"
    "(e AND ADDR_MASK) AND mask 12 = 0"
    by (simp_all only: and.assoc and_zero_eq)
qed

lemma va_to_gpa_page:
  assumes "va_to_gpa m cr3 a = Some g" and "unat a mod 4096 + j < 4096"
  shows "va_to_gpa m cr3 (a + of_nat j) = Some (g + of_nat j)" and "unat g mod 4096 = unat a mod 4096"
proof -
  have ix: "level_index s (a + of_nat j) = level_index s a" if "12 \<le> s" for s
    using same_page_index in_page_step(2) [OF assms(2)] that by blast
  note step = leaf_step(1) [OF leaf_masks(1) _ _ assms(2)] leaf_step(1) [OF leaf_masks(2) _ _ assms(2)]
    leaf_step(1) [OF leaf_masks(3) _ _ assms(2)]
  note low = leaf_step(2) [OF leaf_masks(1) _ _ assms(2)] leaf_step(2) [OF leaf_masks(2) _ _ assms(2)]
    leaf_step(2) [OF leaf_masks(3) _ _ assms(2)]
  show "va_to_gpa m cr3 (a + of_nat j) = Some (g + of_nat j)"
    using assms(1) unfolding va_to_gpa_eq Let_def by (simp add: ix step split: if_splits)
  show "unat g mod 4096 = unat a mod 4096"
    using assms(1) low unfolding va_to_gpa_eq Let_def by (auto split: if_splits)
qed

section \<open>Copying guest memory\<close>

definition page_left :: "u64 \<Rightarrow> nat" where
  "page_left gpa = unat (0x1000 - (gpa AND 0xfff))"

lemma page_left_nat: "page_left gpa = 4096 - unat gpa mod 4096"
proof -
  have m: "(0xfff :: u64) = mask 12" by (simp add: mask_eq_exp_minus_1)
  have u: "unat (gpa AND 0xfff) = unat gpa mod 4096" unfolding m by (simp add: unat_and_mask_low)
  have "unat (0x1000 - (gpa AND 0xfff)) = 4096 - unat (gpa AND 0xfff)"
    by (subst unat_sub_le) (simp_all add: word_le_nat_alt u)
  then show ?thesis by (simp add: page_left_def u)
qed

lemma page_left_pos: "0 < page_left gpa"
  by (simp add: page_left_nat)

function copy_loop :: "phys_mem \<Rightarrow> u64 \<Rightarrow> u64 \<Rightarrow> nat \<Rightarrow> nat \<Rightarrow> u8 list \<Rightarrow> unit + u8 list" where
  "copy_loop m cr3 gva len i out =
    (if i < len then
       (case va_to_gpa m cr3 (gva + of_nat i) of
          None \<Rightarrow> Inl ()
        | Some gpa \<Rightarrow>
            let n = min (len - i) (page_left gpa)
            in copy_loop m cr3 gva len (i + n) (out @ map (\<lambda>j. m (gpa + of_nat j)) [0..<n]))
     else Inr out)"
  by pat_completeness auto
termination
  by (relation "measure (\<lambda>(m, cr3, gva, len, i, out). len - i)") (use page_left_pos in \<open>auto simp: min_def diff_less_mono2\<close>)

declare copy_loop.simps [simp del]

definition copy_from_guest_va :: "phys_mem \<Rightarrow> u64 \<Rightarrow> u64 \<Rightarrow> nat \<Rightarrow> unit + u8 list" where
  "copy_from_guest_va m cr3 gva len = copy_loop m cr3 gva len 0 []"

text \<open>The bytes of guest linear memory from \<open>gva\<close>, one translation per byte.\<close>

definition guest_bytes :: "phys_mem \<Rightarrow> u64 \<Rightarrow> u64 \<Rightarrow> nat \<Rightarrow> nat \<Rightarrow> u8 option list" where
  "guest_bytes m cr3 gva i n = map (\<lambda>k. map_option m (va_to_gpa m cr3 (gva + of_nat k))) [i..<n]"

lemma guest_bytes_page:
  assumes "va_to_gpa m cr3 (gva + of_nat i) = Some gpa" and "n \<le> page_left gpa"
  shows "guest_bytes m cr3 gva i (i + n) = map (\<lambda>j. Some (m (gpa + of_nat j))) [0..<n]"
proof (rule nth_equalityI)
  fix j assume "j < length (guest_bytes m cr3 gva i (i + n))"
  then have j: "j < n" by (simp add: guest_bytes_def)
  have "unat gpa mod 4096 = unat (gva + of_nat i) mod 4096"
    using va_to_gpa_page(2) [OF assms(1), of 0] by simp
  then have "unat (gva + of_nat i) mod 4096 + j < 4096"
    using j assms(2) by (simp add: page_left_nat)
  from va_to_gpa_page(1) [OF assms(1) this]
  have "va_to_gpa m cr3 (gva + of_nat (i + j)) = Some (gpa + of_nat j)" by (simp add: add.assoc)
  then show "guest_bytes m cr3 gva i (i + n) ! j = map (\<lambda>j. Some (m (gpa + of_nat j))) [0..<n] ! j"
    using j by (simp add: guest_bytes_def)
qed (simp add: guest_bytes_def)

lemma copy_loop_bytes:
  assumes "i \<le> len"
  shows "copy_loop m cr3 gva len i out =
    (if None \<in> set (guest_bytes m cr3 gva i len) then Inl ()
     else Inr (out @ map the (guest_bytes m cr3 gva i len)))"
  using assms
proof (induction m cr3 gva len i out rule: copy_loop.induct)
  case (1 m cr3 gva len i out)
  show ?case
  proof (cases "i < len")
    case False
    then show ?thesis using 1(2) by (subst copy_loop.simps) (simp add: guest_bytes_def)
  next
    case True
    show ?thesis
    proof (cases "va_to_gpa m cr3 (gva + of_nat i)")
      case None
      have "None \<in> set (guest_bytes m cr3 gva i len)"
        using True None by (force simp: guest_bytes_def)
      then show ?thesis using True None by (subst copy_loop.simps) simp
    next
      case (Some gpa)
      define n where "n = min (len - i) (page_left gpa)"
      have n: "i + n \<le> len" "n \<le> page_left gpa" using True by (auto simp: n_def)
      have split: "guest_bytes m cr3 gva i len =
          map (\<lambda>j. Some (m (gpa + of_nat j))) [0..<n] @ guest_bytes m cr3 gva (i + n) len"
      proof -
        have "[i..<len] = [i..<i + n] @ [i + n..<len]"
          using upt_add_eq_append [of i "i + n" "len - (i + n)"] n(1) by simp
        then have "guest_bytes m cr3 gva i len =
            guest_bytes m cr3 gva i (i + n) @ guest_bytes m cr3 gva (i + n) len"
          unfolding guest_bytes_def by (simp only: map_append)
        then show ?thesis unfolding guest_bytes_page [OF Some n(2)] .
      qed
      have "copy_loop m cr3 gva len i out =
          copy_loop m cr3 gva len (i + n) (out @ map (\<lambda>j. m (gpa + of_nat j)) [0..<n])"
        using True Some by (subst copy_loop.simps) (simp add: n_def Let_def)
      also have "\<dots> = (if None \<in> set (guest_bytes m cr3 gva (i + n) len) then Inl ()
          else Inr ((out @ map (\<lambda>j. m (gpa + of_nat j)) [0..<n]) @ map the (guest_bytes m cr3 gva (i + n) len)))"
        by (rule 1(1) [OF True Some n_def n(1)])
      finally show ?thesis unfolding split by auto
    qed
  qed
qed

text \<open>
  C39: fetching guest memory is byte-exact for any page tables, and always returns.  The loop
  translates once per page it enters; its result is the bytes that one translation per
  address would give, and an error exactly when one of the addresses does not translate.
\<close>

theorem copy_from_guest_va_exact:
  "copy_from_guest_va m cr3 gva len =
    (if \<exists>i < len. va_to_gpa m cr3 (gva + of_nat i) = None then Inl ()
     else Inr (map (\<lambda>i. m (the (va_to_gpa m cr3 (gva + of_nat i)))) [0..<len]))"
proof -
  have "None \<in> set (guest_bytes m cr3 gva 0 len) \<longleftrightarrow> (\<exists>i < len. va_to_gpa m cr3 (gva + of_nat i) = None)"
    by (force simp: guest_bytes_def)
  moreover have "map the (guest_bytes m cr3 gva 0 len) =
      map (\<lambda>i. m (the (va_to_gpa m cr3 (gva + of_nat i)))) [0..<len]"
    if "\<not> (\<exists>i < len. va_to_gpa m cr3 (gva + of_nat i) = None)"
    using that by (auto simp: guest_bytes_def)
  ultimately show ?thesis
    unfolding copy_from_guest_va_def copy_loop_bytes [OF le0] by auto
qed

section \<open>Agreement with the processor's walk\<close>

lemma entry_addr_index: "entry_addr t (pt_index s a) = t + 8 * level_index s a"
  by (simp add: entry_addr_def pt_index_def level_index_def)

lemma narrow_entry:
  assumes "unat (e :: u64) < 2 ^ 52"
  shows "e AND ADDR_MASK = table_of e" "e AND 0x000fffffc0000000 = e AND NOT (mask 30)"
    "e AND 0x000fffffffe00000 = e AND NOT (mask 21)" "e AND ADDR_MASK = e AND NOT (mask 12)"
proof -
  have e: "e AND mask 52 = e" using assms by (intro word_eq_unatI) (simp add: unat_and_mask_low)
  have m: "ADDR_MASK = mask 52 AND NOT (mask 12)" "(0x000fffffc0000000 :: u64) = mask 52 AND NOT (mask 30)"
    "(0x000fffffffe00000 :: u64) = mask 52 AND NOT (mask 21)" "(0xfff :: u64) = mask 12"
    by (simp_all add: ADDR_MASK_def mask_eq_exp_minus_1)
  show "e AND ADDR_MASK = table_of e" "e AND 0x000fffffc0000000 = e AND NOT (mask 30)"
    "e AND 0x000fffffffe00000 = e AND NOT (mask 21)" "e AND ADDR_MASK = e AND NOT (mask 12)"
    unfolding m table_of_def by (simp_all only: and.assoc [symmetric] e)
qed

text \<open>The entries on the walk of \<open>a\<close> use no bit above the 52-bit physical address.\<close>

definition narrow_walk :: "phys_mem \<Rightarrow> u64 \<Rightarrow> u64 \<Rightarrow> bool" where
  "narrow_walk m root a \<longleftrightarrow>
    (let e0 = load64 m (entry_addr root (pt_index 39 a));
         e1 = load64 m (entry_addr (table_of e0) (pt_index 30 a));
         e2 = load64 m (entry_addr (table_of e1) (pt_index 21 a));
         e3 = load64 m (entry_addr (table_of e2) (pt_index 12 a)) in
     unat e0 < 2 ^ 52 \<and>
     (guest_pt_present e0 \<longrightarrow> unat e1 < 2 ^ 52 \<and>
       (guest_pt_present e1 \<and> \<not> large_entry e1 \<longrightarrow> unat e2 < 2 ^ 52 \<and>
         (guest_pt_present e2 \<and> \<not> large_entry e2 \<longrightarrow> unat e3 < 2 ^ 52))))"

lemma va_to_gpa_walk:
  assumes "cr3 AND ADDR_MASK = root" and "narrow_walk m root a"
  shows "va_to_gpa m cr3 a = radix_walk guest_pt_present m root a"
proof -
  have t: "leaf_target 12 e a = table_of e OR (a AND mask 12)" for e
    by (simp only: leaf_target_def table_of_def low_mask_words)
  show ?thesis
    using assms unfolding va_to_gpa_eq radix_walk_def narrow_walk_def Let_def entry_addr_index
      guest_pt_present_def large_entry_bit t
    by (simp add: narrow_entry(1-3) leaf_target_def)
qed

section \<open>Repairing a missing identity leaf\<close>

datatype IdentityMapKind = Large2M | Page4K | Cr3Sec | Rebuild4G | Mmio2M | Split4K

datatype IdentityMapError = OutOfRam | TableOutOfRam | NeedAlloc | AlreadyPresent

definition TWO_MIB :: u64 where "TWO_MIB = 2 * 1024 * 1024"

definition read_entry_ram :: "phys_mem \<Rightarrow> u64 \<Rightarrow> u64 \<Rightarrow> u64 \<Rightarrow> u64 \<Rightarrow> u64 option" where
  "read_entry_ram m ram_hpa ram_len table_gpa index =
    (if 511 < index then None else
     (case checked_add (table_gpa AND ADDR_MASK) (index * 8) of
        None \<Rightarrow> None
      | Some off \<Rightarrow>
          if ram_len < saturating_add off 8 then None
          else Some (load64 m (ram_hpa + off))))"

definition write_entry_ram ::
    "phys_mem \<Rightarrow> u64 \<Rightarrow> u64 \<Rightarrow> u64 \<Rightarrow> u64 \<Rightarrow> u64 \<Rightarrow> bool \<times> phys_mem" where
  "write_entry_ram m ram_hpa ram_len table_gpa index val =
    (if 511 < index then (False, m) else
     (case checked_add (table_gpa AND ADDR_MASK) (index * 8) of
        None \<Rightarrow> (False, m)
      | Some off \<Rightarrow>
          if ram_len < saturating_add off 8 then (False, m)
          else (True, store64 m (ram_hpa + off) val)))"

definition identity_map_not_present ::
    "phys_mem \<Rightarrow> u64 \<Rightarrow> u64 \<Rightarrow> u64 \<Rightarrow> u64 \<Rightarrow> (IdentityMapError + IdentityMapKind) \<times> phys_mem" where
  "identity_map_not_present m cr3 gva ram_hpa ram_len =
    (if ram_hpa = 0 \<or> ram_len \<le> gva then (Inl OutOfRam, m) else
     let pml4 = cr3 AND ADDR_MASK in
     if ram_len \<le> pml4 then (Inl TableOutOfRam, m) else
     (case read_entry_ram m ram_hpa ram_len pml4 (level_index 39 gva) of
        None \<Rightarrow> (Inl TableOutOfRam, m)
      | Some e4 \<Rightarrow>
     if e4 AND PRESENT = 0 then (Inl NeedAlloc, m) else
     let pdpt = e4 AND ADDR_MASK in
     (case read_entry_ram m ram_hpa ram_len pdpt (level_index 30 gva) of
        None \<Rightarrow> (Inl TableOutOfRam, m)
      | Some e3 \<Rightarrow>
     if e3 AND PRESENT = 0 then (Inl NeedAlloc, m) else
     if e3 AND LARGE \<noteq> 0 then (Inl AlreadyPresent, m) else
     let pd = e3 AND ADDR_MASK; idx2 = level_index 21 gva in
     (case read_entry_ram m ram_hpa ram_len pd idx2 of
        None \<Rightarrow> (Inl TableOutOfRam, m)
      | Some e2 \<Rightarrow>
     if e2 AND PRESENT = 0 then
       (let base = gva AND NOT (TWO_MIB - 1) in
        if ram_len < saturating_add base TWO_MIB then (Inl NeedAlloc, m) else
        (case write_entry_ram m ram_hpa ram_len pd idx2 (base OR LARGE_2M_FLAGS) of
           (False, m1) \<Rightarrow> (Inl TableOutOfRam, m1)
         | (True, m1) \<Rightarrow> (Inr Large2M, m1)))
     else if e2 AND LARGE \<noteq> 0 then (Inl AlreadyPresent, m) else
     let pt = e2 AND ADDR_MASK; idx1 = level_index 12 gva in
     (case read_entry_ram m ram_hpa ram_len pt idx1 of
        None \<Rightarrow> (Inl TableOutOfRam, m)
      | Some e1 \<Rightarrow>
     if e1 AND PRESENT \<noteq> 0 then (Inl AlreadyPresent, m) else
     let base = gva AND NOT 0xfff in
     (case write_entry_ram m ram_hpa ram_len pt idx1 (base OR LEAF_FLAGS) of
        (False, m1) \<Rightarrow> (Inl TableOutOfRam, m1)
      | (True, m1) \<Rightarrow> (Inr Page4K, m1)))))))"

text \<open>Guest physical memory behind the alias window.\<close>

definition guest_view :: "u64 \<Rightarrow> phys_mem \<Rightarrow> phys_mem" where
  "guest_view ram_hpa m = (\<lambda>g. m (ram_hpa + g))"

lemma load64_guest_view: "load64 (guest_view r m) a = load64 m (r + a)"
  by (simp add: load64_def guest_view_def add.assoc)

lemma guest_view_store64: "guest_view r (store64 m (r + a) v) = store64 (guest_view r m) a v"
  by (simp add: guest_view_def store64_def store_bytes_def fun_eq_iff)

lemma addr_mask_bound: "unat (e AND ADDR_MASK) < 2 ^ 52" "page_aligned (e AND ADDR_MASK)"
proof -
  have m: "ADDR_MASK = NOT (mask 12) AND mask 52" by (simp add: ADDR_MASK_def mask_eq_exp_minus_1)
  show "unat (e AND ADDR_MASK) < 2 ^ 52"
    unfolding m and.assoc [symmetric] unat_and_mask_low by simp
  show "page_aligned (e AND ADDR_MASK)"
    using leaf_masks(3) [of e] by (simp add: page_aligned_def low_mask_words)
qed

lemma addr_mask_idem [simp]: "(e AND ADDR_MASK) AND ADDR_MASK = e AND ADDR_MASK"
  by (simp add: and.assoc)

text \<open>The entry at an index of the walk lies in the guest's memory.\<close>

definition slot_in_ram :: "u64 \<Rightarrow> u64 \<Rightarrow> nat \<Rightarrow> bool" where
  "slot_in_ram ram_len t i \<longleftrightarrow> unat (t AND ADDR_MASK) + 8 * i + 8 \<le> unat ram_len"

lemma entry_ram_index:
  defines "a \<equiv> \<lambda>t s g. entry_addr (t AND ADDR_MASK) (pt_index s g)"
  shows "read_entry_ram m r len t (level_index s g) =
      (if slot_in_ram len t (pt_index s g) then Some (load64 (guest_view r m) (a t s g)) else None)"
    and "write_entry_ram m r len t (level_index s g) v =
      (if slot_in_ram len t (pt_index s g) then (True, store64 m (r + a t s g) v) else (False, m))"
proof -
  have ix: "8 * pt_index s g < 4096" using pt_index_less [of s g] by linarith
  have i: "level_index s g * 8 = of_nat (8 * pt_index s g)"
    by (simp add: level_index_def pt_index_def)
  have u: "unat (of_nat (8 * pt_index s g) :: u64) = 8 * pt_index s g"
    by (intro unat_of_nat_small less_trans [OF ix]) simp
  have small: "unat (t AND ADDR_MASK) + 8 * pt_index s g + 8 < 18446744073709551616"
  proof -
    have "unat (t AND ADDR_MASK) < 4503599627370496" using addr_mask_bound(1) [of t] by simp
    with ix show ?thesis by linarith
  qed
  have off: "checked_add (t AND ADDR_MASK) (level_index s g * 8) = Some (a t s g)"
    using small
    unfolding i a_def entry_addr_def checked_add_Some_iff u
    by (subst unat_add_small) (simp_all add: u del: of_nat_mult)
  have ua: "unat (a t s g) = unat (t AND ADDR_MASK) + 8 * pt_index s g"
    unfolding a_def by (rule unat_entry_addr) (simp_all add: addr_mask_bound)
  have sat: "len < saturating_add (a t s g) 8 \<longleftrightarrow> \<not> slot_in_ram len t (pt_index s g)"
    using small
    by (simp add: word_less_nat_alt unat_saturating_add ua slot_in_ram_def not_le min_def)
  show "read_entry_ram m r len t (level_index s g) =
      (if slot_in_ram len t (pt_index s g) then Some (load64 (guest_view r m) (a t s g)) else None)"
    "write_entry_ram m r len t (level_index s g) v =
      (if slot_in_ram len t (pt_index s g) then (True, store64 m (r + a t s g) v) else (False, m))"
    unfolding read_entry_ram_def write_entry_ram_def off option.case sat
    by (simp_all add: level_index_le load64_guest_view)
qed

text \<open>The entries the walk of \<open>a\<close> reads below the root, in order.\<close>

definition walk_entries :: "phys_mem \<Rightarrow> u64 \<Rightarrow> u64 \<Rightarrow> u64 \<times> u64 \<times> u64 \<times> u64" where
  "walk_entries m cr3 a =
    (let e4 = load64 m (entry_addr (cr3 AND ADDR_MASK) (pt_index 39 a));
         e3 = load64 m (entry_addr (e4 AND ADDR_MASK) (pt_index 30 a));
         e2 = load64 m (entry_addr (e3 AND ADDR_MASK) (pt_index 21 a));
         e1 = load64 m (entry_addr (e2 AND ADDR_MASK) (pt_index 12 a))
     in (e4, e3, e2, e1))"

lemma va_to_gpa_entries:
  assumes "walk_entries m cr3 a = (e4, e3, e2, e1)"
  shows "va_to_gpa m cr3 a =
    (if \<not> bit e4 0 \<or> \<not> bit e3 0 then None
     else if bit e3 7 then Some ((e3 AND 0x000fffffc0000000) OR (a AND mask 30))
     else if \<not> bit e2 0 then None
     else if bit e2 7 then Some ((e2 AND 0x000fffffffe00000) OR (a AND mask 21))
     else if \<not> bit e1 0 then None
     else Some ((e1 AND ADDR_MASK) OR (a AND mask 12)))"
  using assms unfolding va_to_gpa_eq walk_entries_def Let_def entry_addr_index by (auto simp: Let_def)

lemma identity_map_err:
  assumes "identity_map_not_present m cr3 gva r len = (Inl e, m')"
  shows "m' = m"
  using assms unfolding identity_map_not_present_def Let_def entry_ram_index
  by (simp split: if_splits)

lemma identity_map_ok:
  assumes "identity_map_not_present m cr3 gva r len = (Inr k, m')"
    and "walk_entries (guest_view r m) cr3 gva = (e4, e3, e2, e1)"
  shows "gva < len \<and> bit e4 0 \<and> bit e3 0 \<and> \<not> bit e3 7 \<and>
    (\<not> bit e2 0 \<and> k = Large2M \<and> slot_in_ram len e3 (pt_index 21 gva) \<and>
       m' = store64 m (r + entry_addr (e3 AND ADDR_MASK) (pt_index 21 gva))
         ((gva AND NOT (TWO_MIB - 1)) OR LARGE_2M_FLAGS) \<or>
     bit e2 0 \<and> \<not> bit e2 7 \<and> \<not> bit e1 0 \<and> k = Page4K \<and> slot_in_ram len e2 (pt_index 12 gva) \<and>
       m' = store64 m (r + entry_addr (e2 AND ADDR_MASK) (pt_index 12 gva))
         ((gva AND NOT 0xfff) OR LEAF_FLAGS))"
  using assms unfolding identity_map_not_present_def walk_entries_def Let_def entry_ram_index
    present_large_bits addr_mask_idem
  by (simp add: slot_in_ram_def split: if_splits)

lemma identity_leaf:
  fixes g :: u64
  assumes "unat g < 2 ^ 52"
  shows "bit ((g AND NOT (mask 21)) OR LARGE_2M_FLAGS) 0" "bit ((g AND NOT (mask 21)) OR LARGE_2M_FLAGS) 7"
    "((g AND NOT (mask 21)) OR LARGE_2M_FLAGS) AND 0x000fffffffe00000 = g AND NOT (mask 21)"
    "bit ((g AND NOT (mask 12)) OR LEAF_FLAGS) 0"
    "((g AND NOT (mask 12)) OR LEAF_FLAGS) AND ADDR_MASK = g AND NOT (mask 12)"
proof -
  have f: "LARGE_2M_FLAGS = 0xe7" "LEAF_FLAGS = 0x67"
    by (simp_all add: LARGE_2M_FLAGS_def LEAF_FLAGS_def PRESENT_def RW_def USER_def ACCESSED_def
        DIRTY_def LARGE_def)
  have b: "bit (0xe7 :: u64) 0" "bit (0xe7 :: u64) 7" "bit (0x67 :: u64) 0" by simp_all
  show "bit ((g AND NOT (mask 21)) OR LARGE_2M_FLAGS) 0" "bit ((g AND NOT (mask 21)) OR LARGE_2M_FLAGS) 7"
    "bit ((g AND NOT (mask 12)) OR LEAF_FLAGS) 0"
    unfolding f bit_or_iff using b by blast+
  have z: "LARGE_2M_FLAGS AND 0x000fffffffe00000 = 0" "LEAF_FLAGS AND ADDR_MASK = 0"
    by (simp_all add: f ADDR_MASK_def)
  have u: "unat (g AND NOT (mask s)) < 2 ^ 52" for s
    using assms unfolding unat_and_not_mask by (meson div_times_less_eq_dividend le_less_trans)
  show "((g AND NOT (mask 21)) OR LARGE_2M_FLAGS) AND 0x000fffffffe00000 = g AND NOT (mask 21)"
    unfolding bit.conj_disj_distrib2 z narrow_entry(3) [OF u] by (simp add: and.assoc)
  show "((g AND NOT (mask 12)) OR LEAF_FLAGS) AND ADDR_MASK = g AND NOT (mask 12)"
    unfolding bit.conj_disj_distrib2 z narrow_entry(4) [OF u] by (simp add: and.assoc)
qed

text \<open>An entry that differs from the overwritten one is not the overwritten one.\<close>

lemma store_entry_other:
  assumes "page_aligned f" "page_aligned h" "load64 w (entry_addr h j) \<noteq> load64 w (entry_addr f i)"
    and "i < 512" "j < 512"
  shows "load64 (store64 w (entry_addr f i) v) (entry_addr h j) = load64 w (entry_addr h j)"
  using load64_store_entry [OF assms(1,2,4,5), of w v] assms(3) by (auto split: if_splits)

lemma pt_index_region:
  assumes "unat a div 2 ^ p = unat b div 2 ^ p" and "p \<le> s"
  shows "pt_index s a = pt_index s b"
  using same_region_index [OF assms] by (simp add: pt_index_def level_index_def)

lemma walk_after_large:
  assumes "walk_entries w cr3 g = (e4, e3, e2, e1)" and "bit e4 0" "bit e3 0" "\<not> bit e2 0"
    and "unat a div 2 ^ 21 = unat g div 2 ^ 21"
  obtains e where "walk_entries (store64 w (entry_addr (e3 AND ADDR_MASK) (pt_index 21 g)) v) cr3 a = (e4, e3, v, e)"
proof -
  have ix: "pt_index 39 a = pt_index 39 g" "pt_index 30 a = pt_index 30 g" "pt_index 21 a = pt_index 21 g"
    by (rule pt_index_region [OF assms(5)], simp)+
  have ne: "e4 \<noteq> e2" "e3 \<noteq> e2" using assms(2-4) by auto
  note ld = store_entry_other [OF addr_mask_bound(2) addr_mask_bound(2) _ pt_index_less pt_index_less]
  have "\<exists>e. walk_entries (store64 w (entry_addr (e3 AND ADDR_MASK) (pt_index 21 g)) v) cr3 a = (e4, e3, v, e)"
    using assms(1) ne unfolding walk_entries_def Let_def ix
    by (auto simp: ld pm.load_store_same)
  then show ?thesis using that by blast
qed

lemma walk_after_small:
  assumes "walk_entries w cr3 g = (e4, e3, e2, e1)" and "bit e4 0" "bit e3 0" "bit e2 0" "\<not> bit e1 0"
    and "unat a div 2 ^ 12 = unat g div 2 ^ 12"
  shows "walk_entries (store64 w (entry_addr (e2 AND ADDR_MASK) (pt_index 12 g)) v) cr3 a = (e4, e3, e2, v)"
proof -
  have ix: "pt_index 39 a = pt_index 39 g" "pt_index 30 a = pt_index 30 g"
    "pt_index 21 a = pt_index 21 g" "pt_index 12 a = pt_index 12 g"
    by (rule pt_index_region [OF assms(6)], simp)+
  have ne: "e4 \<noteq> e1" "e3 \<noteq> e1" "e2 \<noteq> e1" using assms(2-5) by auto
  note ld = store_entry_other [OF addr_mask_bound(2) addr_mask_bound(2) _ pt_index_less pt_index_less]
  show ?thesis
    using assms(1) ne unfolding walk_entries_def Let_def ix
    by (auto simp: ld pm.load_store_same)
qed

lemma store_in_slab:
  assumes "slot_in_ram len t i" and "i < 512" and "len \<le> x - r"
  shows "store64 m (r + entry_addr (t AND ADDR_MASK) i) v x = m x"
proof -
  let ?o = "entry_addr (t AND ADDR_MASK) i"
  have o: "unat ?o + 8 \<le> unat (x - r)"
    using assms by (simp add: unat_entry_addr addr_mask_bound slot_in_ram_def word_le_nat_alt)
  have "unat ((x - r) - ?o) = unat (x - r) - unat ?o"
    using o by (intro unat_sub_le) (simp add: word_le_nat_alt)
  then have "8 \<le> unat (x - (r + ?o))" using o by (simp add: diff_diff_add)
  then show ?thesis by (simp add: store64_def store_bytes_def)
qed

definition leaf_bytes :: "IdentityMapKind \<Rightarrow> nat" where
  "leaf_bytes k = (if k = Large2M then 2 ^ 21 else 2 ^ 12)"

lemma large_offset_mask: "TWO_MIB - 1 = mask 21" by (simp add: TWO_MIB_def mask_eq_exp_minus_1)

lemma same_frame_split:
  fixes a g :: u64
  assumes "unat a div 2 ^ s = unat g div 2 ^ s"
  shows "(g AND NOT (mask s)) OR (a AND mask s) = a"
proof -
  have "g AND NOT (mask s) = a AND NOT (mask s)"
    using assms by (intro word_eq_unatI) (simp add: unat_and_not_mask)
  then show ?thesis by (simp only: split_low)
qed

lemma large_leaf_identity:
  assumes "walk_entries w cr3 g = (e4, e3, e2, e1)" and "bit e4 0" "bit e3 0" "\<not> bit e3 7" "\<not> bit e2 0"
    and "unat g < 2 ^ 52" and "unat a div 2 ^ 21 = unat g div 2 ^ 21"
  shows "va_to_gpa (store64 w (entry_addr (e3 AND ADDR_MASK) (pt_index 21 g))
    ((g AND NOT (mask 21)) OR LARGE_2M_FLAGS)) cr3 a = Some a"
proof -
  obtain e where "walk_entries (store64 w (entry_addr (e3 AND ADDR_MASK) (pt_index 21 g))
      ((g AND NOT (mask 21)) OR LARGE_2M_FLAGS)) cr3 a = (e4, e3, (g AND NOT (mask 21)) OR LARGE_2M_FLAGS, e)"
    by (rule walk_after_large [OF assms(1-3,5,7)])
  then show ?thesis
    using assms(2-4) identity_leaf [OF assms(6)] same_frame_split [OF assms(7)]
    by (simp add: va_to_gpa_entries)
qed

lemma small_leaf_identity:
  assumes "walk_entries w cr3 g = (e4, e3, e2, e1)" and "bit e4 0" "bit e3 0" "\<not> bit e3 7"
    "bit e2 0" "\<not> bit e2 7" "\<not> bit e1 0"
    and "unat g < 2 ^ 52" and "unat a div 2 ^ 12 = unat g div 2 ^ 12"
  shows "va_to_gpa (store64 w (entry_addr (e2 AND ADDR_MASK) (pt_index 12 g))
    ((g AND NOT (mask 12)) OR LEAF_FLAGS)) cr3 a = Some a"
  using walk_after_small [OF assms(1-3,5,7,9)] assms(2-6) identity_leaf [OF assms(8)] same_frame_split [OF assms(9)]
  by (simp add: va_to_gpa_entries)

text \<open>
  C40: the page-fault repair does what it is for and nothing else.  It never writes outside the
  guest's slab, and a refused repair writes nothing.  When it reports a filled leaf, the
  faulting address did not translate before, and afterwards every address of the page it
  names, 2 MiB or 4 KiB, translates to itself through the guest's own tables.  No assumption
  is made on how the guest laid the tables out, aliased tables included; only that the slab
  lies below the 52-bit limit of a physical address.
\<close>

theorem identity_map_not_present_correct:
  assumes "identity_map_not_present m cr3 gva ram_hpa ram_len = (res, m')" and "unat ram_len \<le> 2 ^ 52"
  shows "(\<forall>x. ram_len \<le> x - ram_hpa \<longrightarrow> m' x = m x) \<and>
    (case res of
       Inl e \<Rightarrow> m' = m
     | Inr k \<Rightarrow>
         va_to_gpa (guest_view ram_hpa m) cr3 gva = None \<and>
         (\<forall>a. unat a div leaf_bytes k = unat gva div leaf_bytes k \<longrightarrow>
            va_to_gpa (guest_view ram_hpa m') cr3 a = Some a))"
proof (cases res)
  case (Inl e)
  then show ?thesis using identity_map_err [OF assms(1) [unfolded Inl]] by simp
next
  case (Inr k)
  obtain e4 e3 e2 e1 where w: "walk_entries (guest_view ram_hpa m) cr3 gva = (e4, e3, e2, e1)"
    by (cases "walk_entries (guest_view ram_hpa m) cr3 gva") auto
  note ok = identity_map_ok [OF assms(1) [unfolded Inr] w, unfolded large_offset_mask low_mask_words]
  have g: "unat gva < 2 ^ 52" using ok assms(2) by (simp add: word_less_nat_alt)
  have none: "va_to_gpa (guest_view ram_hpa m) cr3 gva = None"
    using ok unfolding va_to_gpa_entries [OF w] by auto
  show ?thesis
  proof (cases "bit e2 0")
    case False
    then have slot: "slot_in_ram ram_len e3 (pt_index 21 gva)" using ok by simp
    show ?thesis
      using False ok none store_in_slab [OF slot pt_index_less] large_leaf_identity [OF w _ _ _ _ g]
      by (simp add: Inr leaf_bytes_def guest_view_store64)
  next
    case True
    then have slot: "slot_in_ram ram_len e2 (pt_index 12 gva)" using ok by simp
    show ?thesis
      using True ok none store_in_slab [OF slot pt_index_less] small_leaf_identity [OF w _ _ _ _ _ _ g]
      by (simp add: Inr leaf_bytes_def guest_view_store64)
  qed
qed

text \<open>A guest whose PML4 and PDPT are linked and whose directory is empty, faulting at \<open>0x80B000\<close>.\<close>

definition hole_tables :: phys_mem where
  "hole_tables = store64 (store64 (\<lambda>_. 0) 0x40000000 0x1067) 0x40001000 0x2067"

theorem identity_map_not_present_correct_witness:
  "\<exists>m'. identity_map_not_present hole_tables 0 0x80B000 0x40000000 0x2000000 = (Inr Large2M, m') \<and>
    va_to_gpa (guest_view 0x40000000 m') 0 0x812345 = Some 0x812345"
proof -
  let ?w = "guest_view 0x40000000 hole_tables"
  have view: "?w = store64 (store64 (\<lambda>_. 0) 0 0x1067) 0x1000 0x2067"
    using guest_view_store64 [of "0x40000000" _ 0] guest_view_store64 [of "0x40000000" _ "0x1000"]
    by (simp add: hole_tables_def) (simp add: guest_view_def)
  have ld: "load64 ?w 0 = 0x1067" "load64 ?w 0x1000 = 0x2067" "load64 ?w 0x2020 = 0"
    unfolding view
    by (simp_all add: pm.load_store_same pm.load_store_apart qword_apart_def load64_zero_range)
  have ix: "pt_index 39 0x80B000 = 0" "pt_index 30 0x80B000 = 0" "pt_index 21 0x80B000 = 4"
    by (simp_all add: pt_index_nat)
  have "fst (identity_map_not_present hole_tables 0 0x80B000 0x40000000 0x2000000) = Inr Large2M"
    unfolding identity_map_not_present_def Let_def entry_ram_index ix
    by (simp add: ld ADDR_MASK_def PRESENT_def LARGE_def TWO_MIB_def entry_addr_def slot_in_ram_def
        saturating_add_def)
  then obtain m' where m': "identity_map_not_present hole_tables 0 0x80B000 0x40000000 0x2000000 = (Inr Large2M, m')"
    by (metis prod.collapse)
  show ?thesis
    using identity_map_not_present_correct [OF m'] m' by (auto simp: leaf_bytes_def)
qed

end
