(* ===== verification/Efi_Status.thy ===== *)
theory Efi_Status
  imports RayNu_Prelude
begin

text \<open>
  The UEFI status codes shared by the firmware services of \<open>raynu_f\<close>.
\<close>

definition EFI_SUCCESS :: u64 where "EFI_SUCCESS = 0"
definition EFI_INVALID_PARAMETER :: u64 where "EFI_INVALID_PARAMETER = 0x8000000000000002"
definition EFI_UNSUPPORTED :: u64 where "EFI_UNSUPPORTED = 0x8000000000000003"
definition EFI_BUFFER_TOO_SMALL :: u64 where "EFI_BUFFER_TOO_SMALL = 0x8000000000000005"
definition EFI_NOT_READY :: u64 where "EFI_NOT_READY = 0x8000000000000006"
definition EFI_OUT_OF_RESOURCES :: u64 where "EFI_OUT_OF_RESOURCES = 0x8000000000000009"
definition EFI_NOT_FOUND :: u64 where "EFI_NOT_FOUND = 0x800000000000000E"
definition EFI_TIMEOUT :: u64 where "EFI_TIMEOUT = 0x8000000000000012"

lemmas efi_status =
  EFI_SUCCESS_def EFI_INVALID_PARAMETER_def EFI_UNSUPPORTED_def EFI_BUFFER_TOO_SMALL_def EFI_NOT_READY_def
  EFI_OUT_OF_RESOURCES_def EFI_NOT_FOUND_def EFI_TIMEOUT_def

lemma status_distinct:
  "EFI_NOT_FOUND \<noteq> EFI_SUCCESS" "EFI_OUT_OF_RESOURCES \<noteq> EFI_SUCCESS" "EFI_INVALID_PARAMETER \<noteq> EFI_SUCCESS"
  "EFI_UNSUPPORTED \<noteq> EFI_SUCCESS" "EFI_BUFFER_TOO_SMALL \<noteq> EFI_SUCCESS" "EFI_NOT_READY \<noteq> EFI_SUCCESS"
  "EFI_TIMEOUT \<noteq> EFI_SUCCESS"
  by (simp_all add: efi_status)

end
