(* ===== verification/Page_Pool.thy ===== *)
theory Page_Pool
  imports Bit_Scan Insertion_Sort Efi_Status
begin

text \<open>
  The page allocator behind the firmware memory services, \<open>raynu_f/memory.rs\<close>: three page
  regions with a bitmap and a type byte per page, a tail of report RAM kept as at most eight
  spans, \<open>AllocatePages\<close>, \<open>FreePages\<close>, the memory map and \<open>ExitBootServices\<close>.
  Page indices are the \<open>usize\<close> of the source, kept as naturals; the additions that a caller's
  page count can make wrap are written as \<open>usize_add\<close>.
\<close>

section \<open>Constants and state\<close>

definition usize_add :: "nat \<Rightarrow> nat \<Rightarrow> nat" where
  "usize_add a b = (a + b) mod 2 ^ 64"

definition BELOW1M_BASE :: u64 where "BELOW1M_BASE = 0x1000"
definition BELOW1M_END :: u64 where "BELOW1M_END = 0x9F000"
definition BELOW1M_PAGES :: nat where "BELOW1M_PAGES = unat ((BELOW1M_END - BELOW1M_BASE) div 4096)"
definition BELOW1M_BITMAP_WORDS :: nat where "BELOW1M_BITMAP_WORDS = (BELOW1M_PAGES + 63) div 64"
definition POOL_BASE :: u64 where "POOL_BASE = 0xB00000"
definition POOL_END :: u64 where "POOL_END = 0x1F00000"
definition POOL_PAGES :: nat where "POOL_PAGES = unat ((POOL_END - POOL_BASE) div 4096)"
definition BITMAP_WORDS :: nat where "BITMAP_WORDS = POOL_PAGES div 64"
definition HIGH_MAX_PAGES :: nat where "HIGH_MAX_PAGES = 65536"
definition TAIL_SPANS :: nat where "TAIL_SPANS = 8"
definition HIGH_BITMAP_WORDS :: nat where "HIGH_BITMAP_WORDS = HIGH_MAX_PAGES div 64"

definition EFI_RESERVED_MEMORY_TYPE :: u32 where "EFI_RESERVED_MEMORY_TYPE = 0"
definition EFI_LOADER_CODE :: u32 where "EFI_LOADER_CODE = 1"
definition EFI_LOADER_DATA :: u32 where "EFI_LOADER_DATA = 2"
definition EFI_BOOT_SERVICES_DATA :: u32 where "EFI_BOOT_SERVICES_DATA = 4"
definition EFI_RUNTIME_SERVICES_CODE :: u32 where "EFI_RUNTIME_SERVICES_CODE = 5"
definition EFI_RUNTIME_SERVICES_DATA :: u32 where "EFI_RUNTIME_SERVICES_DATA = 6"
definition EFI_CONVENTIONAL_MEMORY :: u32 where "EFI_CONVENTIONAL_MEMORY = 7"
definition EFI_ACPI_RECLAIM_MEMORY :: u32 where "EFI_ACPI_RECLAIM_MEMORY = 9"
definition EFI_MAX_MEMORY_TYPE :: u32 where "EFI_MAX_MEMORY_TYPE = 15"

definition ALLOCATE_ANY_PAGES :: u32 where "ALLOCATE_ANY_PAGES = 0"
definition ALLOCATE_MAX_ADDRESS :: u32 where "ALLOCATE_MAX_ADDRESS = 1"
definition ALLOCATE_ADDRESS :: u32 where "ALLOCATE_ADDRESS = 2"

definition EFI_MEMORY_WB :: u64 where "EFI_MEMORY_WB = 0x8"
definition EFI_MEMORY_RUNTIME :: u64 where "EFI_MEMORY_RUNTIME = 0x8000000000000000"
definition MAX_DESCRIPTORS :: nat where "MAX_DESCRIPTORS = 256"
definition POOL_HEADER_BYTES :: u64 where "POOL_HEADER_BYTES = 16"
definition POOL_MAGIC :: u64 where "POOL_MAGIC = 0x52464C4F4F500001"


definition attributes_for :: "u32 \<Rightarrow> u64" where
  "attributes_for t =
    (if t = EFI_RUNTIME_SERVICES_CODE \<or> t = EFI_RUNTIME_SERVICES_DATA
     then EFI_MEMORY_WB OR EFI_MEMORY_RUNTIME else EFI_MEMORY_WB)"

record MemRun =
  run_typ :: u32
  run_start :: u64
  run_pages :: u64

datatype Region = Below1m | Low | High

record TailSpan =
  sp_start :: u32
  sp_pages :: u32
  sp_typ :: u8
  sp_used :: bool

definition NO_SPAN :: TailSpan where
  "NO_SPAN = \<lparr>sp_start = 0, sp_pages = 0, sp_typ = 0, sp_used = False\<rparr>"

record PagePool =
  below1m_used :: "u64 list"
  below1m_typ :: "u8 list"
  pool_used :: "u64 list"
  pool_typ :: "u8 list"
  high_base :: u64
  high_pages :: nat
  high_used :: "u64 list"
  high_typ :: "u8 list"
  tail_pages :: u64
  tail_spans :: "TailSpan list"
  map_key :: u64
  exited :: bool
  allocs :: u32

definition pool_new :: PagePool where
  "pool_new =
    \<lparr>below1m_used = replicate BELOW1M_BITMAP_WORDS 0, below1m_typ = replicate BELOW1M_PAGES 0,
     pool_used = replicate BITMAP_WORDS 0, pool_typ = replicate POOL_PAGES 0,
     high_base = 0, high_pages = 0,
     high_used = replicate HIGH_BITMAP_WORDS 0, high_typ = replicate HIGH_MAX_PAGES 0,
     tail_pages = 0, tail_spans = replicate TAIL_SPANS NO_SPAN,
     map_key = 0, exited = False, allocs = 0\<rparr>"

definition clear_high :: "PagePool \<Rightarrow> PagePool" where
  "clear_high p =
    p\<lparr>high_base := 0, high_pages := 0, tail_pages := 0, tail_spans := replicate TAIL_SPANS NO_SPAN\<rparr>"

definition set_high_region :: "u64 \<Rightarrow> u64 \<Rightarrow> PagePool \<Rightarrow> u64 \<times> PagePool" where
  "set_high_region base pages p =
    (if base AND 0xfff \<noteq> 0 \<or> base < POOL_END \<or> pages = 0 then (0, clear_high p)
     else case checked_add base (saturating_mul pages 4096) of
       None \<Rightarrow> (0, clear_high p)
     | Some fin \<Rightarrow>
         if 0x10000000000000 < fin then (0, clear_high p)
         else let bitmap = min pages (of_nat HIGH_MAX_PAGES) in
           (pages, p\<lparr>high_base := base, high_pages := unat bitmap, tail_pages := pages - bitmap,
                     tail_spans := replicate TAIL_SPANS NO_SPAN\<rparr>))"

definition tail_base :: "PagePool \<Rightarrow> u64" where
  "tail_base p = high_base p + of_nat (high_pages p) * 4096"

definition pages_in :: "PagePool \<Rightarrow> Region \<Rightarrow> nat" where
  "pages_in p r = (case r of Below1m \<Rightarrow> BELOW1M_PAGES | Low \<Rightarrow> POOL_PAGES | High \<Rightarrow> high_pages p)"

definition base_of :: "PagePool \<Rightarrow> Region \<Rightarrow> u64" where
  "base_of p r = (case r of Below1m \<Rightarrow> BELOW1M_BASE | Low \<Rightarrow> POOL_BASE | High \<Rightarrow> high_base p)"

text \<open>The bitmap and the type bytes of a region, as the \<open>match r\<close> of the accessors selects them.\<close>

definition used_words :: "PagePool \<Rightarrow> Region \<Rightarrow> u64 list" where
  "used_words p r = (case r of Below1m \<Rightarrow> below1m_used p | Low \<Rightarrow> pool_used p | High \<Rightarrow> high_used p)"

definition put_words :: "Region \<Rightarrow> u64 list \<Rightarrow> PagePool \<Rightarrow> PagePool" where
  "put_words r ws p =
    (case r of Below1m \<Rightarrow> p\<lparr>below1m_used := ws\<rparr> | Low \<Rightarrow> p\<lparr>pool_used := ws\<rparr> | High \<Rightarrow> p\<lparr>high_used := ws\<rparr>)"

definition type_bytes :: "PagePool \<Rightarrow> Region \<Rightarrow> u8 list" where
  "type_bytes p r = (case r of Below1m \<Rightarrow> below1m_typ p | Low \<Rightarrow> pool_typ p | High \<Rightarrow> high_typ p)"

definition put_types :: "Region \<Rightarrow> u8 list \<Rightarrow> PagePool \<Rightarrow> PagePool" where
  "put_types r ts p =
    (case r of Below1m \<Rightarrow> p\<lparr>below1m_typ := ts\<rparr> | Low \<Rightarrow> p\<lparr>pool_typ := ts\<rparr> | High \<Rightarrow> p\<lparr>high_typ := ts\<rparr>)"

definition is_used :: "PagePool \<Rightarrow> Region \<Rightarrow> nat \<Rightarrow> bool" where
  "is_used p r i \<longleftrightarrow> drop_bit (i mod 64) (used_words p r ! (i div 64)) AND 1 = 1"

definition set_used :: "Region \<Rightarrow> nat \<Rightarrow> bool \<Rightarrow> PagePool \<Rightarrow> PagePool" where
  "set_used r i on p =
    (let ws = used_words p r; w = ws ! (i div 64) in
     put_words r (ws[i div 64 := if on then w OR one_at (i mod 64) else w AND NOT (one_at (i mod 64))]) p)"

definition typ_of :: "PagePool \<Rightarrow> Region \<Rightarrow> nat \<Rightarrow> u32" where
  "typ_of p r i = ucast (type_bytes p r ! i)"

definition set_typ :: "Region \<Rightarrow> nat \<Rightarrow> u32 \<Rightarrow> PagePool \<Rightarrow> PagePool" where
  "set_typ r i t p = put_types r ((type_bytes p r)[i := ucast t]) p"

definition page_of :: "PagePool \<Rightarrow> u64 \<Rightarrow> (Region \<times> nat) option" where
  "page_of p addr =
    (if addr AND 0xfff \<noteq> 0 then None
     else if BELOW1M_BASE \<le> addr \<and> addr < BELOW1M_END
     then Some (Below1m, unat ((addr - BELOW1M_BASE) div 4096))
     else if POOL_BASE \<le> addr \<and> addr < POOL_END
     then Some (Low, unat ((addr - POOL_BASE) div 4096))
     else if high_pages p \<noteq> 0 \<and> high_base p \<le> addr \<and> addr < high_base p + of_nat (high_pages p) * 4096
     then Some (High, unat ((addr - high_base p) div 4096))
     else None)"

section \<open>Allocation\<close>

text \<open>The loop of \<open>find_run\<close>: \<open>run\<close> counts the free pages just before the index.\<close>

fun find_run_scan :: "(nat \<Rightarrow> bool) \<Rightarrow> nat \<Rightarrow> nat list \<Rightarrow> nat \<Rightarrow> nat option" where
  "find_run_scan used pages [] run = None"
| "find_run_scan used pages (i # is) run =
    (if used i then find_run_scan used pages is 0
     else if run + 1 = pages then Some (i + 1 - pages)
     else find_run_scan used pages is (run + 1))"

definition find_run :: "PagePool \<Rightarrow> Region \<Rightarrow> nat \<Rightarrow> nat \<Rightarrow> nat option" where
  "find_run p r pages max_end_page =
    find_run_scan (is_used p r) pages [0..<min max_end_page (pages_in p r)] 0"

definition end_page_for_max :: "PagePool \<Rightarrow> Region \<Rightarrow> u64 \<Rightarrow> nat option" where
  "end_page_for_max p r max_addr =
    (let base = base_of p r in
     if max_addr < base then None
     else Some (unat ((saturating_add max_addr 1 - base) div 4096)))"

definition mark :: "Region \<Rightarrow> nat \<Rightarrow> nat \<Rightarrow> u32 \<Rightarrow> PagePool \<Rightarrow> PagePool" where
  "mark r first pages t p =
    fold (\<lambda>i p. set_typ r i t (set_used r i True p)) [first..<usize_add first pages] p"

definition tail_index :: "PagePool \<Rightarrow> u64 \<Rightarrow> u64 \<Rightarrow> u64 option" where
  "tail_index p addr pages =
    (if tail_pages p = 0 \<or> pages = 0 \<or> addr AND 0xfff \<noteq> 0 then None
     else let base = tail_base p in
     if addr < base then None
     else let start = (addr - base) div 4096 in
     if tail_pages p < saturating_add start pages then None else Some start)"

definition span_end :: "TailSpan \<Rightarrow> u64" where
  "span_end s = ucast (sp_start s) + ucast (sp_pages s)"

definition tail_busy :: "PagePool \<Rightarrow> u64 \<Rightarrow> u64 \<Rightarrow> bool" where
  "tail_busy p start pages =
    list_ex (\<lambda>s. sp_used s \<and> start < span_end s \<and> ucast (sp_start s) < start + pages) (tail_spans p)"

definition tail_insert :: "u64 \<Rightarrow> u64 \<Rightarrow> u32 \<Rightarrow> PagePool \<Rightarrow> bool \<times> PagePool" where
  "tail_insert start pages t p =
    (if 0xFFFFFFFF < start \<or> 0xFFFFFFFF < pages \<or> pages = 0 then (False, p)
     else case find_index (\<lambda>s. \<not> sp_used s) (tail_spans p) of
       Some i \<Rightarrow>
         (True, p\<lparr>tail_spans := (tail_spans p)
            [i := \<lparr>sp_start = ucast start, sp_pages = ucast pages, sp_typ = ucast t, sp_used = True\<rparr>]\<rparr>)
     | None \<Rightarrow> (False, p))"

definition count_alloc :: "PagePool \<Rightarrow> PagePool" where
  "count_alloc p = p\<lparr>allocs := saturating_add (allocs p) 1\<rparr>"

definition allocate_tail_at :: "u64 \<Rightarrow> u64 \<Rightarrow> u32 \<Rightarrow> PagePool \<Rightarrow> (u64 \<times> u64) \<times> PagePool" where
  "allocate_tail_at addr pages t p =
    (case tail_index p addr pages of
       None \<Rightarrow> ((EFI_NOT_FOUND, addr), p)
     | Some start \<Rightarrow>
         if tail_busy p start pages then ((EFI_NOT_FOUND, addr), p)
         else case tail_insert start pages t p of
           (False, p1) \<Rightarrow> ((EFI_NOT_FOUND, addr), p1)
         | (True, p1) \<Rightarrow> ((EFI_SUCCESS, addr), count_alloc p1))"

definition allocate_across_tail :: "nat \<Rightarrow> nat \<Rightarrow> u32 \<Rightarrow> u64 \<Rightarrow> PagePool \<Rightarrow> (u64 \<times> u64) \<times> PagePool" where
  "allocate_across_tail page pages t addr p =
    (if high_pages p \<le> page then ((EFI_NOT_FOUND, addr), p)
     else let in_bitmap = high_pages p - page in
     if pages \<le> in_bitmap then ((EFI_NOT_FOUND, addr), p)
     else let in_tail = pages - in_bitmap in
     if unat (tail_pages p) < in_tail then ((EFI_NOT_FOUND, addr), p)
     else if list_ex (is_used p High) [page..<high_pages p] \<or> tail_busy p 0 (of_nat in_tail)
     then ((EFI_NOT_FOUND, addr), p)
     else case tail_insert 0 (of_nat in_tail) t p of
       (False, p1) \<Rightarrow> ((EFI_OUT_OF_RESOURCES, addr), p1)
     | (True, p1) \<Rightarrow> ((EFI_SUCCESS, addr), count_alloc (mark High page in_bitmap t p1)))"

text \<open>The indices of the spans in use, ordered by their start.\<close>

definition tail_order :: "PagePool \<Rightarrow> nat list" where
  "tail_order p =
    (let used = filter (\<lambda>i. sp_used (tail_spans p ! i)) [0..<length (tail_spans p)];
         order = used @ replicate (TAIL_SPANS - length used) 0
     in take (length used) (sort_prefix (\<lambda>i. sp_start (tail_spans p ! i)) (length used) order))"

definition try_gap :: "u64 \<Rightarrow> u64 \<Rightarrow> u32 \<Rightarrow> u64 \<Rightarrow> PagePool \<Rightarrow> u64 option \<times> PagePool" where
  "try_gap pages max_addr t cursor p =
    (let addr = tail_base p + cursor * 4096; last = addr + pages * 4096 - 1 in
     if max_addr < last then (None, p)
     else case tail_insert cursor pages t p of
       (True, p1) \<Rightarrow> (Some addr, p1)
     | (False, p1) \<Rightarrow> (None, p1))"

fun tail_scan :: "u64 \<Rightarrow> u64 \<Rightarrow> u32 \<Rightarrow> nat list \<Rightarrow> u64 \<Rightarrow> PagePool \<Rightarrow> u64 option \<times> PagePool" where
  "tail_scan pages max_addr t [] cursor p =
    (if pages \<le> tail_pages p - cursor then try_gap pages max_addr t cursor p else (None, p))"
| "tail_scan pages max_addr t (k # ks) cursor p =
    (let start = ucast (sp_start (tail_spans p ! k)) in
     case (if cursor < start \<and> pages \<le> start - cursor then try_gap pages max_addr t cursor p else (None, p)) of
       (Some addr, p1) \<Rightarrow> (Some addr, p1)
     | (None, p1) \<Rightarrow> tail_scan pages max_addr t ks (span_end (tail_spans p1 ! k)) p1)"

definition tail_fit_below :: "u64 \<Rightarrow> u64 \<Rightarrow> u32 \<Rightarrow> PagePool \<Rightarrow> u64 option \<times> PagePool" where
  "tail_fit_below pages max_addr t p =
    (if tail_pages p = 0 \<or> pages = 0 \<or> tail_pages p < pages then (None, p)
     else tail_scan pages max_addr t (tail_order p) 0 p)"

definition tail_first_fit :: "u64 \<Rightarrow> u32 \<Rightarrow> PagePool \<Rightarrow> u64 option \<times> PagePool" where
  "tail_first_fit pages t p = tail_fit_below pages (- 1) t p"

text \<open>The first of the heap regions that \<open>f\<close> finds a run in.\<close>

definition heap_find :: "(Region \<Rightarrow> nat option) \<Rightarrow> (Region \<times> nat) option" where
  "heap_find f =
    (case f Low of Some i \<Rightarrow> Some (Low, i)
     | None \<Rightarrow> (case f High of Some i \<Rightarrow> Some (High, i) | None \<Rightarrow> None))"

definition max_run :: "PagePool \<Rightarrow> nat" where
  "max_run p =
    (let tail_us = unat (tail_pages p) in
     max (max (max (max POOL_PAGES (high_pages p)) BELOW1M_PAGES) tail_us)
       (min (high_pages p + tail_us) (2 ^ 64 - 1)))"

text \<open>The common end of the search: mark the run that was found, or turn to the tail.\<close>

definition finish_alloc ::
    "u32 \<Rightarrow> u32 \<Rightarrow> u64 \<Rightarrow> u64 \<Rightarrow> (Region \<times> nat) option \<Rightarrow> PagePool \<Rightarrow> (u64 \<times> u64) \<times> PagePool" where
  "finish_alloc alloc_type mem_type pages memory found p =
    (case found of
       Some (r, first) \<Rightarrow>
         (let p1 = count_alloc (mark r first (unat pages) mem_type p) in
          ((EFI_SUCCESS, base_of p1 r + of_nat first * 4096), p1))
     | None \<Rightarrow>
         (case (if alloc_type = ALLOCATE_ANY_PAGES then tail_first_fit pages mem_type p
                else if alloc_type = ALLOCATE_MAX_ADDRESS then tail_fit_below pages memory mem_type p
                else (None, p)) of
            (Some addr, p1) \<Rightarrow> ((EFI_SUCCESS, addr), count_alloc p1)
          | (None, p1) \<Rightarrow>
              ((if alloc_type = ALLOCATE_MAX_ADDRESS then EFI_NOT_FOUND else EFI_OUT_OF_RESOURCES, memory), p1)))"

definition allocate_pages ::
    "u32 \<Rightarrow> u32 \<Rightarrow> u64 \<Rightarrow> u64 \<Rightarrow> PagePool \<Rightarrow> (u64 \<times> u64) \<times> PagePool" where
  "allocate_pages alloc_type mem_type pages memory p =
    (let n = unat pages in
     if pages = 0 \<or> max_run p < n then ((EFI_INVALID_PARAMETER, memory), p)
     else if EFI_MAX_MEMORY_TYPE \<le> mem_type \<or> mem_type = EFI_CONVENTIONAL_MEMORY \<or>
       mem_type = EFI_RESERVED_MEMORY_TYPE
     then ((EFI_INVALID_PARAMETER, memory), p)
     else if alloc_type = ALLOCATE_ANY_PAGES then
       finish_alloc alloc_type mem_type pages memory (heap_find (\<lambda>r. find_run p r n (pages_in p r))) p
     else if alloc_type = ALLOCATE_MAX_ADDRESS then
       finish_alloc alloc_type mem_type pages memory
         (if memory < 0x100000 then
            (case end_page_for_max p Below1m memory of
               None \<Rightarrow> None
             | Some fin \<Rightarrow> map_option (Pair Below1m) (find_run p Below1m n fin))
          else heap_find (\<lambda>r. case end_page_for_max p r memory of None \<Rightarrow> None | Some fin \<Rightarrow> find_run p r n fin)) p
     else if alloc_type = ALLOCATE_ADDRESS then
       (case page_of p memory of
          Some (r, i) \<Rightarrow>
            if usize_add i n \<le> pages_in p r then
              (if list_ex (is_used p r) [i..<usize_add i n] then ((EFI_NOT_FOUND, memory), p)
               else finish_alloc alloc_type mem_type pages memory (Some (r, i)) p)
            else if r = High then allocate_across_tail i n mem_type memory p
            else ((EFI_NOT_FOUND, memory), p)
        | None \<Rightarrow>
            if tail_index p memory pages \<noteq> None then allocate_tail_at memory pages mem_type p
            else ((EFI_NOT_FOUND, memory), p))
     else ((EFI_INVALID_PARAMETER, memory), p))"

section \<open>Release\<close>

text \<open>The span after the pages from \<open>start\<close> to \<open>fin\<close> are given back, for a span that
  contains them; \<open>None\<close> when they lie strictly inside it.\<close>

definition shrink_span :: "u64 \<Rightarrow> u64 \<Rightarrow> TailSpan \<Rightarrow> TailSpan option" where
  "shrink_span start fin s =
    (let ss = ucast (sp_start s); se = span_end s in
     if start = ss \<and> fin = se then Some (s\<lparr>sp_used := False\<rparr>)
     else if start = ss then Some (s\<lparr>sp_start := ucast fin, sp_pages := ucast (se - fin)\<rparr>)
     else if fin = se then Some (s\<lparr>sp_pages := ucast (start - ss)\<rparr>)
     else None)"

definition free_tail_at :: "u64 \<Rightarrow> u64 \<Rightarrow> PagePool \<Rightarrow> u64 \<times> PagePool" where
  "free_tail_at memory pages p =
    (case tail_index p memory pages of
       None \<Rightarrow> (EFI_NOT_FOUND, p)
     | Some start \<Rightarrow>
         let fin = start + pages in
         (case find_index (\<lambda>s. sp_used s \<and> \<not> (start < ucast (sp_start s) \<or> span_end s < fin)) (tail_spans p) of
            None \<Rightarrow> (EFI_NOT_FOUND, p)
          | Some i \<Rightarrow>
              (case shrink_span start fin (tail_spans p ! i) of
                 Some s \<Rightarrow> (EFI_SUCCESS, p\<lparr>tail_spans := (tail_spans p)[i := s]\<rparr>)
               | None \<Rightarrow> (EFI_NOT_FOUND, p))))"

definition unmark :: "Region \<Rightarrow> nat \<Rightarrow> nat \<Rightarrow> PagePool \<Rightarrow> PagePool" where
  "unmark r first fin p = fold (\<lambda>i p. set_typ r i 0 (set_used r i False p)) [first..<fin] p"

definition free_across_tail :: "nat \<Rightarrow> nat \<Rightarrow> PagePool \<Rightarrow> u64 \<times> PagePool" where
  "free_across_tail page pages p =
    (if high_pages p \<le> page \<or> pages \<le> high_pages p - page then (EFI_NOT_FOUND, p)
     else let in_bitmap = high_pages p - page; in_tail = pages - in_bitmap in
     if list_ex (\<lambda>i. \<not> is_used p High i) [page..<high_pages p] then (EFI_NOT_FOUND, p)
     else case free_tail_at (tail_base p) (of_nat in_tail) p of
       (status, p1) \<Rightarrow>
         if status \<noteq> EFI_SUCCESS then (EFI_NOT_FOUND, p1)
         else (EFI_SUCCESS, unmark High page (high_pages p1) p1))"

definition free_pages_at :: "u64 \<Rightarrow> u64 \<Rightarrow> PagePool \<Rightarrow> u64 \<times> PagePool" where
  "free_pages_at memory pages p =
    (case page_of p memory of
       None \<Rightarrow> free_tail_at memory pages p
     | Some (r, i) \<Rightarrow>
         let n = unat pages in
         if r = High \<and> 0 < n \<and> high_pages p < usize_add i n then free_across_tail i n p
         else if n = 0 \<or> pages_in p r < usize_add i n \<or>
           list_ex (\<lambda>i. \<not> is_used p r i) [i..<usize_add i n] then (EFI_NOT_FOUND, p)
         else (EFI_SUCCESS, unmark r i (usize_add i n) p))"

section \<open>The memory map\<close>

definition F2_IDENTITY_PML4 :: u64 where "F2_IDENTITY_PML4 = 0x400000"
definition F2_TABLES_BASE :: u64 where "F2_TABLES_BASE = 0x800000"
definition F2_APP_LOAD_BASE :: u64 where "F2_APP_LOAD_BASE = 0x900000"
definition F2_STACK_TOP :: u64 where "F2_STACK_TOP = 0xA10000"
definition IMAGE_ACPI_OFF :: u64 where "IMAGE_ACPI_OFF = 0x4000"
definition TABLES_IMAGE_BYTES :: u64 where "TABLES_IMAGE_BYTES = 0x5000"
definition TESTAPP_SIZE_OF_IMAGE :: u64 where "TESTAPP_SIZE_OF_IMAGE = 0x3000"

text \<open>What the map says of one page of a region.\<close>

definition shown_type :: "PagePool \<Rightarrow> Region \<Rightarrow> nat \<Rightarrow> u32" where
  "shown_type p r i = (if is_used p r i then typ_of p r i else EFI_CONVENTIONAL_MEMORY)"

text \<open>The inner loop of \<open>region_runs\<close>: the first index from \<open>j\<close> that differs from page \<open>i\<close>.\<close>

function run_end :: "PagePool \<Rightarrow> Region \<Rightarrow> nat \<Rightarrow> nat \<Rightarrow> nat \<Rightarrow> nat" where
  "run_end p r limit i j =
    (if j < limit then
       (if is_used p r j \<noteq> is_used p r i \<or> shown_type p r j \<noteq> shown_type p r i then j
        else run_end p r limit i (j + 1))
     else j)"
  by pat_completeness auto
termination by (relation "measure (\<lambda>(p, r, limit, i, j). limit - j)") auto

declare run_end.simps [simp del]

lemma run_end_ge: "j \<le> run_end p r limit i j"
proof (induction p r limit i j rule: run_end.induct)
  case (1 p r limit i j)
  then show ?case by (subst run_end.simps) auto
qed

lemma run_end_gt: "i < run_end p r limit i (Suc i)"
  using run_end_ge [of "Suc i" p r limit i] by simp

type_synonym map_event = "u32 \<times> u64 \<times> u64"

function region_runs_from :: "PagePool \<Rightarrow> Region \<Rightarrow> nat \<Rightarrow> map_event list" where
  "region_runs_from p r i =
    (if i < pages_in p r then
       (let j = run_end p r (pages_in p r) i (i + 1) in
        (shown_type p r i, base_of p r + of_nat i * 4096, base_of p r + of_nat j * 4096) #
          region_runs_from p r j)
     else [])"
  by pat_completeness auto
termination
  by (relation "measure (\<lambda>(p, r, i). pages_in p r - i)")
    (auto intro!: diff_less_mono2 run_end_gt)

declare region_runs_from.simps [simp del]

definition region_runs :: "PagePool \<Rightarrow> Region \<Rightarrow> map_event list" where
  "region_runs p r = region_runs_from p r 0"

fun emit_spans :: "PagePool \<Rightarrow> nat list \<Rightarrow> u64 \<Rightarrow> map_event list" where
  "emit_spans p [] cursor =
    (if cursor < tail_pages p
     then [(EFI_CONVENTIONAL_MEMORY, tail_base p + cursor * 4096, tail_base p + tail_pages p * 4096)] else [])"
| "emit_spans p (k # ks) cursor =
    (let s = tail_spans p ! k; start = ucast (sp_start s) in
     (if cursor < start
      then [(EFI_CONVENTIONAL_MEMORY, tail_base p + cursor * 4096, tail_base p + start * 4096)] else []) @
     [(ucast (sp_typ s), tail_base p + start * 4096, tail_base p + span_end s * 4096)] @
     emit_spans p ks (span_end s))"

definition emit_tail :: "PagePool \<Rightarrow> map_event list" where
  "emit_tail p = emit_spans p (tail_order p) 0"

definition map_push :: "map_event \<Rightarrow> MemRun list \<Rightarrow> MemRun list" where
  "map_push ev out =
    (case ev of (t, start, fin) \<Rightarrow>
     if fin \<le> start \<or> MAX_DESCRIPTORS \<le> length out then out
     else let pages = (fin - start) div 4096 in
     if out \<noteq> [] \<and> run_typ (last out) = t \<and> run_start (last out) + run_pages (last out) * 4096 = start
     then butlast out @ [(last out)\<lparr>run_pages := run_pages (last out) + pages\<rparr>]
     else out @ [\<lparr>run_typ = t, run_start = start, run_pages = pages\<rparr>])"

definition map_events :: "PagePool \<Rightarrow> u64 \<Rightarrow> map_event list" where
  "map_events p slab_bytes =
    [(EFI_RESERVED_MEMORY_TYPE, 0, BELOW1M_BASE)] @
    region_runs p Below1m @
    [(EFI_RESERVED_MEMORY_TYPE, BELOW1M_END, 0x100000),
     (EFI_BOOT_SERVICES_DATA, 0x100000, F2_IDENTITY_PML4),
     (EFI_RESERVED_MEMORY_TYPE, F2_IDENTITY_PML4, F2_TABLES_BASE),
     (EFI_RUNTIME_SERVICES_CODE, F2_TABLES_BASE, F2_TABLES_BASE + IMAGE_ACPI_OFF),
     (EFI_ACPI_RECLAIM_MEMORY, F2_TABLES_BASE + IMAGE_ACPI_OFF, F2_TABLES_BASE + TABLES_IMAGE_BYTES),
     (EFI_BOOT_SERVICES_DATA, F2_TABLES_BASE + TABLES_IMAGE_BYTES, F2_APP_LOAD_BASE),
     (EFI_LOADER_CODE, F2_APP_LOAD_BASE, F2_APP_LOAD_BASE + TESTAPP_SIZE_OF_IMAGE),
     (EFI_BOOT_SERVICES_DATA, F2_APP_LOAD_BASE + TESTAPP_SIZE_OF_IMAGE, F2_STACK_TOP - 0x10000),
     (EFI_RESERVED_MEMORY_TYPE, F2_STACK_TOP - 0x10000, F2_STACK_TOP + 0x1000),
     (EFI_BOOT_SERVICES_DATA, F2_STACK_TOP + 0x1000, POOL_BASE)] @
    region_runs p Low @
    [(EFI_RESERVED_MEMORY_TYPE, POOL_END, slab_bytes)] @
    (if high_pages p \<noteq> 0 then region_runs p High else []) @
    (if tail_pages p \<noteq> 0 then emit_tail p else [])"

definition memory_map :: "PagePool \<Rightarrow> u64 \<Rightarrow> MemRun list" where
  "memory_map p slab_bytes = fold map_push (map_events p slab_bytes) []"

definition next_map_key :: "PagePool \<Rightarrow> u64 \<times> PagePool" where
  "next_map_key p = (let k = map_key p + 1 in (k, p\<lparr>map_key := k\<rparr>))"

definition exit_boot_services :: "u64 \<Rightarrow> PagePool \<Rightarrow> u64 \<times> PagePool" where
  "exit_boot_services key p =
    (if key = 0 \<or> key \<noteq> map_key p then (EFI_INVALID_PARAMETER, p) else (EFI_SUCCESS, p\<lparr>exited := True\<rparr>))"

definition pool_pages_for :: "u64 \<Rightarrow> u64" where
  "pool_pages_for bytes = (saturating_add bytes POOL_HEADER_BYTES + 4095) div 4096"

definition encode_descriptor :: "MemRun \<Rightarrow> u8 list" where
  "encode_descriptor run =
    le_bytes 4 (run_typ run) @ le_bytes 4 (0 :: u32) @ le_bytes 8 (run_start run) @
    le_bytes 8 (0 :: u64) @ le_bytes 8 (run_pages run) @ le_bytes 8 (attributes_for (run_typ run))"

end
