(* ===== verification/Page_Pool_Alloc.thy ===== *)
theory Page_Pool_Alloc
  imports Page_Pool Phys_Mem
begin

text \<open>
  Correctness of the firmware page allocator.  The abstract state is the type that each page
  address has, \<open>page_type\<close>; an allocation retypes exactly its range, which was conventional
  before, a release makes exactly its range conventional again, and every refused call leaves
  the pool as it was.
\<close>

section \<open>First free run\<close>

lemma find_run_scan_Some:
  assumes "find_run_scan used pages [i..<n] run = Some f" and "run \<le> i" and "run < pages"
    and "\<forall>j. i - run \<le> j \<and> j < i \<longrightarrow> \<not> used j"
  shows "f + pages \<le> n \<and> (\<forall>j. f \<le> j \<and> j < f + pages \<longrightarrow> \<not> used j)"
  using assms
proof (induction "n - i" arbitrary: i run)
  case (Suc d)
  then have i: "i < n" "[i..<n] = i # [Suc i..<n]" by (simp_all add: upt_conv_Cons)
  have d: "d = n - Suc i" using Suc.hyps(2) by simp
  show ?case
  proof (cases "used i")
    case True
    then show ?thesis using Suc.hyps(1) [OF d, of 0] Suc.prems i by simp
  next
    case False
    show ?thesis
    proof (cases "run + 1 = pages")
      case True
      then have f: "f + pages = i + 1" using Suc.prems(1,2) False i by simp
      then have "i - run \<le> j \<and> j < i \<or> j = i" if "f \<le> j" "j < f + pages" for j
        using that True by linarith
      then show ?thesis using f False Suc.prems(4) i(1) by auto
    next
      case neq: False
      have "\<forall>j. Suc i - (run + 1) \<le> j \<and> j < Suc i \<longrightarrow> \<not> used j"
        using Suc.prems(4) False by (auto simp: less_Suc_eq)
      then show ?thesis
        using Suc.hyps(1) [OF d, of "run + 1"] Suc.prems False neq i by simp
    qed
  qed
qed simp

lemma find_run_scan_None:
  assumes "find_run_scan used pages [i..<n] run = None" and "run \<le> i" and "run < pages"
    and "i = run \<or> used (i - run - 1)"
    and "\<forall>f. f + pages \<le> i \<longrightarrow> (\<exists>j. f \<le> j \<and> j < f + pages \<and> used j)"
  shows "\<forall>f. f + pages \<le> n \<longrightarrow> (\<exists>j. f \<le> j \<and> j < f + pages \<and> used j)"
  using assms
proof (induction "n - i" arbitrary: i run)
  case 0
  have "n \<le> i" using 0(1) by simp
  with 0(6) show ?case by (meson le_trans)
next
  case (Suc d)
  then have i: "i < n" "[i..<n] = i # [Suc i..<n]" by (simp_all add: upt_conv_Cons)
  have d: "d = n - Suc i" using Suc.hyps(2) by simp
  have no: "\<exists>j. f \<le> j \<and> j < f + pages \<and> used j"
    if "f + pages \<le> Suc i" and h: "f + pages = Suc i \<Longrightarrow> \<exists>j. f \<le> j \<and> j < Suc i \<and> used j" for f
    using that Suc.prems(5) by (metis le_SucE)
  show ?case
  proof (cases "used i")
    case True
    have "\<forall>f. f + pages \<le> Suc i \<longrightarrow> (\<exists>j. f \<le> j \<and> j < f + pages \<and> used j)"
    proof (intro allI impI no)
      fix f assume "f + pages = Suc i"
      then show "\<exists>j. f \<le> j \<and> j < Suc i \<and> used j" using True Suc.prems(3) by (intro exI [of _ i]) auto
    qed
    then show ?thesis using Suc.hyps(1) [OF d, of 0] Suc.prems True i by simp
  next
    case False
    then have neq: "run + 1 \<noteq> pages" using Suc.prems(1) i by auto
    have "\<forall>f. f + pages \<le> Suc i \<longrightarrow> (\<exists>j. f \<le> j \<and> j < f + pages \<and> used j)"
    proof (intro allI impI no)
      fix f assume "f + pages = Suc i"
      then show "\<exists>j. f \<le> j \<and> j < Suc i \<and> used j"
        using Suc.prems(2-4) neq by (intro exI [of _ "i - run - 1"]) auto
    qed
    then show ?thesis using Suc.hyps(1) [OF d, of "run + 1"] Suc.prems False neq i by auto
  qed
qed

lemma find_run_Some:
  assumes "find_run p r n m = Some f" and "0 < n"
  shows "f + n \<le> min m (pages_in p r)" and "\<And>j. f \<le> j \<Longrightarrow> j < f + n \<Longrightarrow> \<not> is_used p r j"
  using find_run_scan_Some [OF assms(1) [unfolded find_run_def]] assms(2) by auto

lemma find_run_None:
  assumes "find_run p r n m = None" and "0 < n" and "f + n \<le> min m (pages_in p r)"
  shows "\<exists>j. f \<le> j \<and> j < f + n \<and> is_used p r j"
  using find_run_scan_None [OF assms(1) [unfolded find_run_def]] assms(2,3) by auto

section \<open>Bitmap and type bytes\<close>

definition word_count :: "Region \<Rightarrow> nat" where
  "word_count r = (case r of Below1m \<Rightarrow> BELOW1M_BITMAP_WORDS | Low \<Rightarrow> BITMAP_WORDS | High \<Rightarrow> HIGH_BITMAP_WORDS)"

definition byte_count :: "Region \<Rightarrow> nat" where
  "byte_count r = (case r of Below1m \<Rightarrow> BELOW1M_PAGES | Low \<Rightarrow> POOL_PAGES | High \<Rightarrow> HIGH_MAX_PAGES)"

definition arrays_ok :: "PagePool \<Rightarrow> bool" where
  "arrays_ok p \<longleftrightarrow>
    (\<forall>r. length (used_words p r) = word_count r \<and> length (type_bytes p r) = byte_count r)"

lemma page_counts:
  "BELOW1M_PAGES = 158" "POOL_PAGES = 5120" "BELOW1M_BITMAP_WORDS = 3" "BITMAP_WORDS = 80"
  "HIGH_BITMAP_WORDS = 1024" "HIGH_MAX_PAGES = 65536"
  by (simp_all add: BELOW1M_PAGES_def POOL_PAGES_def BELOW1M_BITMAP_WORDS_def BITMAP_WORDS_def
      HIGH_BITMAP_WORDS_def HIGH_MAX_PAGES_def BELOW1M_END_def BELOW1M_BASE_def POOL_END_def POOL_BASE_def)

lemma byte_in_words: "i < byte_count r \<Longrightarrow> i div 64 < word_count r"
  by (cases r) (simp_all add: byte_count_def word_count_def page_counts)

lemma is_used_bit: "is_used p r i \<longleftrightarrow> bit (used_words p r ! (i div 64)) (i mod 64)"
  by (simp add: is_used_def and_one_eq odd_iff_mod_2_eq_one [symmetric] bit_iff_odd_drop_bit)

lemma put_words_sel [simp]:
  "used_words (put_words r ws p) r' = (if r' = r then ws else used_words p r')"
  "type_bytes (put_words r ws p) r' = type_bytes p r'"
  "used_words (put_types r ts p) r' = used_words p r'"
  "type_bytes (put_types r ts p) r' = (if r' = r then ts else type_bytes p r')"
  by (cases r; cases r'; simp add: put_words_def put_types_def used_words_def type_bytes_def)+

lemma put_frame [simp]:
  "high_base (put_words r ws p) = high_base p" "high_pages (put_words r ws p) = high_pages p"
  "tail_pages (put_words r ws p) = tail_pages p" "tail_spans (put_words r ws p) = tail_spans p"
  "high_base (put_types r ts p) = high_base p" "high_pages (put_types r ts p) = high_pages p"
  "tail_pages (put_types r ts p) = tail_pages p" "tail_spans (put_types r ts p) = tail_spans p"
  by (cases r; simp add: put_words_def put_types_def)+

lemma is_used_set_used:
  assumes "arrays_ok p" and "i < byte_count r"
  shows "is_used (set_used r i on p) r' j = (if r' = r \<and> j = i then on else is_used p r' j)"
proof (cases "r' = r \<and> j div 64 = i div 64")
  case True
  have "i div 64 < length (used_words p r)"
    using assms byte_in_words by (simp add: arrays_ok_def)
  moreover have "j = i \<longleftrightarrow> j mod 64 = i mod 64" using True by (metis div_mult_mod_eq)
  ultimately show ?thesis
    using True by (auto simp: is_used_bit set_used_def Let_def one_bit)
next
  case False
  then show ?thesis by (auto simp: is_used_bit set_used_def Let_def nth_list_update)
qed

lemma typ_of_set_typ:
  assumes "arrays_ok p" and "i < byte_count r" and "t < 256"
  shows "typ_of (set_typ r i t p) r' j = (if r' = r \<and> j = i then t else typ_of p r' j)"
proof -
  have t: "ucast (ucast t :: u8) = t"
    using assms(3) by (intro word_eq_unatI) (simp add: unsigned_ucast_eq take_bit_eq_mod word_less_nat_alt unat_mod_distrib)
  show ?thesis
    using assms by (auto simp: typ_of_def set_typ_def arrays_ok_def nth_list_update t)
qed

lemma set_used_frame [simp]:
  "type_bytes (set_used r i on p) = type_bytes p" "high_base (set_used r i on p) = high_base p"
  "high_pages (set_used r i on p) = high_pages p" "tail_pages (set_used r i on p) = tail_pages p"
  "tail_spans (set_used r i on p) = tail_spans p"
  by (simp_all add: set_used_def Let_def fun_eq_iff)

lemma set_typ_frame [simp]:
  "used_words (set_typ r i t p) = used_words p" "high_base (set_typ r i t p) = high_base p"
  "high_pages (set_typ r i t p) = high_pages p" "tail_pages (set_typ r i t p) = tail_pages p"
  "tail_spans (set_typ r i t p) = tail_spans p"
  by (simp_all add: set_typ_def fun_eq_iff)

lemma arrays_ok_set [simp]:
  "arrays_ok p \<Longrightarrow> arrays_ok (set_used r i on p)" "arrays_ok p \<Longrightarrow> arrays_ok (set_typ r i t p)"
  by (simp_all add: arrays_ok_def set_used_def set_typ_def Let_def)

text \<open>Marking and releasing a run are the same loop with different values.\<close>

definition retype :: "Region \<Rightarrow> u32 \<Rightarrow> bool \<Rightarrow> nat list \<Rightarrow> PagePool \<Rightarrow> PagePool" where
  "retype r t on is p = fold (\<lambda>i p. set_typ r i t (set_used r i on p)) is p"

lemma mark_retype: "mark r f n t p = retype r t True [f..<usize_add f n] p"
  by (simp add: mark_def retype_def)

lemma unmark_retype: "unmark r f n p = retype r 0 False [f..<n] p"
  by (simp add: unmark_def retype_def)

lemma retype_frame [simp]:
  "high_base (retype r t on is p) = high_base p" "high_pages (retype r t on is p) = high_pages p"
  "tail_pages (retype r t on is p) = tail_pages p" "tail_spans (retype r t on is p) = tail_spans p"
  by (induction "is" arbitrary: p) (simp_all add: retype_def)

lemma retype_effect:
  assumes "arrays_ok p" and "\<forall>i \<in> set is. i < byte_count r" and "t < 256"
  shows "arrays_ok (retype r t on is p)"
    and "is_used (retype r t on is p) r' j = (if r' = r \<and> j \<in> set is then on else is_used p r' j)"
    and "typ_of (retype r t on is p) r' j = (if r' = r \<and> j \<in> set is then t else typ_of p r' j)"
proof -
  have "arrays_ok (retype r t on is p) \<and>
    is_used (retype r t on is p) r' j = (if r' = r \<and> j \<in> set is then on else is_used p r' j) \<and>
    typ_of (retype r t on is p) r' j = (if r' = r \<and> j \<in> set is then t else typ_of p r' j)"
    using assms(1,2)
  proof (induction "is" arbitrary: p)
    case (Cons i "is")
    let ?q = "set_typ r i t (set_used r i on p)"
    have q: "arrays_ok ?q" using Cons.prems(1) by simp
    have i: "i < byte_count r" using Cons.prems(2) by simp
    have u: "is_used ?q r' j = (if r' = r \<and> j = i then on else is_used p r' j)"
      using is_used_set_used [OF Cons.prems(1) i] by (simp add: is_used_def)
    have t: "typ_of ?q r' j = (if r' = r \<and> j = i then t else typ_of p r' j)"
      using typ_of_set_typ [OF _ i assms(3), of "set_used r i on p"] Cons.prems(1) by (simp add: typ_of_def)
    have "retype r t on (i # is) p = retype r t on is ?q" by (simp add: retype_def)
    then show ?case using Cons.IH [OF q] Cons.prems(2) u t by auto
  qed (simp add: retype_def)
  then show "arrays_ok (retype r t on is p)"
    "is_used (retype r t on is p) r' j = (if r' = r \<and> j \<in> set is then on else is_used p r' j)"
    "typ_of (retype r t on is p) r' j = (if r' = r \<and> j \<in> set is then t else typ_of p r' j)"
    by blast+
qed

section \<open>Invariant\<close>

definition alloc_type_ok :: "u32 \<Rightarrow> bool" where
  "alloc_type_ok t \<longleftrightarrow> t < EFI_MAX_MEMORY_TYPE \<and> t \<noteq> EFI_CONVENTIONAL_MEMORY \<and> t \<noteq> EFI_RESERVED_MEMORY_TYPE"

definition geometry_ok :: "PagePool \<Rightarrow> bool" where
  "geometry_ok p \<longleftrightarrow>
    high_pages p \<le> HIGH_MAX_PAGES \<and>
    (high_pages p = 0 \<longrightarrow> tail_pages p = 0) \<and>
    (high_pages p \<noteq> 0 \<longrightarrow> page_aligned (high_base p) \<and> POOL_END \<le> high_base p) \<and>
    unat (high_base p) + 4096 * (high_pages p + unat (tail_pages p)) \<le> 2 ^ 52"

definition spans_apart :: "TailSpan \<Rightarrow> TailSpan \<Rightarrow> bool" where
  "spans_apart s s' \<longleftrightarrow>
    sp_used s \<and> sp_used s' \<longrightarrow>
      unat (sp_start s) + unat (sp_pages s) \<le> unat (sp_start s') \<or>
      unat (sp_start s') + unat (sp_pages s') \<le> unat (sp_start s)"

definition span_ok :: "u64 \<Rightarrow> TailSpan \<Rightarrow> bool" where
  "span_ok tail s \<longleftrightarrow>
    (sp_used s \<longrightarrow> sp_pages s \<noteq> 0 \<and> unat (sp_start s) + unat (sp_pages s) \<le> unat tail \<and>
      alloc_type_ok (ucast (sp_typ s)))"

definition spans_ok :: "PagePool \<Rightarrow> bool" where
  "spans_ok p \<longleftrightarrow>
    length (tail_spans p) = TAIL_SPANS \<and>
    (\<forall>s \<in> set (tail_spans p). span_ok (tail_pages p) s) \<and>
    (\<forall>i < length (tail_spans p). \<forall>j < length (tail_spans p).
       i \<noteq> j \<longrightarrow> spans_apart (tail_spans p ! i) (tail_spans p ! j))"

definition types_ok :: "PagePool \<Rightarrow> bool" where
  "types_ok p \<longleftrightarrow> (\<forall>r i. i < byte_count r \<and> is_used p r i \<longrightarrow> alloc_type_ok (typ_of p r i))"

definition pool_inv :: "PagePool \<Rightarrow> bool" where
  "pool_inv p \<longleftrightarrow> arrays_ok p \<and> geometry_ok p \<and> spans_ok p \<and> types_ok p"

lemma alloc_type_small: "alloc_type_ok t \<Longrightarrow> t < 256"
  unfolding alloc_type_ok_def EFI_MAX_MEMORY_TYPE_def word_less_nat_alt by simp

lemma pages_in_bytes: "geometry_ok p \<Longrightarrow> pages_in p r \<le> byte_count r"
  by (cases r) (simp_all add: pages_in_def byte_count_def geometry_ok_def)

text \<open>The type the memory map shows for a page address, \<open>None\<close> outside the managed memory.\<close>

definition tail_type :: "PagePool \<Rightarrow> u64 \<Rightarrow> u32" where
  "tail_type p k =
    (case find (\<lambda>s. sp_used s \<and> ucast (sp_start s) \<le> k \<and> k < span_end s) (tail_spans p) of
       Some s \<Rightarrow> ucast (sp_typ s) | None \<Rightarrow> EFI_CONVENTIONAL_MEMORY)"

definition page_type :: "PagePool \<Rightarrow> u64 \<Rightarrow> u32 option" where
  "page_type p a =
    (case page_of p a of
       Some (r, i) \<Rightarrow> Some (shown_type p r i)
     | None \<Rightarrow> map_option (tail_type p) (tail_index p a 1))"

text \<open>The page addresses of \<open>pages\<close> pages from \<open>a\<close>.\<close>

definition in_range :: "u64 \<Rightarrow> u64 \<Rightarrow> u64 \<Rightarrow> bool" where
  "in_range a pages x \<longleftrightarrow> page_aligned x \<and> unat a \<le> unat x \<and> unat x < unat a + 4096 * unat pages"

section \<open>Addresses and page indices\<close>

lemma page_bases:
  "unat BELOW1M_BASE = 4096 * 1" "unat BELOW1M_END = 4096 * 159" "unat POOL_BASE = 4096 * 2816"
  "unat POOL_END = 4096 * 7936"
  by (simp_all add: BELOW1M_BASE_def BELOW1M_END_def POOL_BASE_def POOL_END_def)

lemma unat_page_index:
  fixes a b :: u64
  assumes "b \<le> a"
  shows "unat ((a - b) div 4096) = (unat a - unat b) div 4096"
  using assms by (simp add: unat_div_distrib unat_sub_le)

lemma window_index:
  fixes a b :: u64
  assumes "page_aligned a" and "page_aligned b" and "b \<le> a"
  shows "unat a = unat b + 4096 * unat ((a - b) div 4096)"
proof -
  obtain k l where k: "unat a = 4096 * k" "unat b = 4096 * l"
    using assms(1,2) by (auto simp: page_aligned_nat elim!: dvdE)
  have "l \<le> k" using assms(3) k by (simp add: word_le_nat_alt)
  then show ?thesis using k by (simp add: unat_page_index [OF assms(3)] diff_mult_distrib2 [symmetric])
qed

lemma page_aligned_offset:
  "page_aligned b \<Longrightarrow> unat a = unat b + 4096 * i \<Longrightarrow> page_aligned a"
  by (simp add: page_aligned_nat)

lemma page_aligned_bases [simp]: "page_aligned BELOW1M_BASE" "page_aligned POOL_BASE"
  by (simp_all add: page_aligned_nat page_bases)

lemma unat_tail_base:
  assumes "geometry_ok p"
  shows "unat (tail_base p) = unat (high_base p) + 4096 * high_pages p"
proof -
  have le: "unat (high_base p) + 4096 * high_pages p \<le> 2 ^ 52" and hp: "high_pages p \<le> 65536"
    using assms by (simp_all add: geometry_ok_def page_counts)
  have n: "unat (of_nat (high_pages p) :: u64) = high_pages p"
    using hp by (intro unat_of_nat_small) simp
  have m: "unat (of_nat (high_pages p) * 4096 :: u64) = 4096 * high_pages p"
    using hp by (subst unat_mult_small) (simp_all add: n)
  show ?thesis unfolding tail_base_def using le by (subst unat_add_small) (simp_all add: m)
qed

lemma page_of_iff:
  assumes "geometry_ok p"
  shows "page_of p a = Some (r, i) \<longleftrightarrow> i < pages_in p r \<and> unat a = unat (base_of p r) + 4096 * i"
proof -
  have hi: "high_pages p \<noteq> 0 \<Longrightarrow> page_aligned (high_base p) \<and> 4096 * 7936 \<le> unat (high_base p)"
    using assms by (simp add: geometry_ok_def word_le_nat_alt page_bases)
  have fin: "unat (high_base p + of_nat (high_pages p) * 4096) = unat (high_base p) + 4096 * high_pages p"
    using unat_tail_base [OF assms] by (simp add: tail_base_def)
  note w = window_index [of a BELOW1M_BASE] window_index [of a POOL_BASE] window_index [of a "high_base p"]
  show ?thesis
  proof
    assume "page_of p a = Some (r, i)"
    then show "i < pages_in p r \<and> unat a = unat (base_of p r) + 4096 * i"
      using w hi unfolding page_of_def word_less_nat_alt [of a] fin page_bases page_aligned_def [symmetric]
      by (auto simp: pages_in_def base_of_def page_counts page_bases split: if_splits)
  next
    assume a: "i < pages_in p r \<and> unat a = unat (base_of p r) + 4096 * i"
    show "page_of p a = Some (r, i)"
    proof (cases r)
      case Below1m
      then have "page_aligned a" "BELOW1M_BASE \<le> a" "a < BELOW1M_END"
        using a by (auto simp: base_of_def pages_in_def page_counts page_bases word_le_nat_alt word_less_nat_alt
            page_aligned_nat)
      then show ?thesis
        using a Below1m by (simp add: page_of_def page_aligned_def unat_page_index base_of_def)
    next
      case Low
      then have "page_aligned a" "POOL_BASE \<le> a" "a < POOL_END" "\<not> a < BELOW1M_END"
        using a by (auto simp: base_of_def pages_in_def page_counts page_bases word_le_nat_alt word_less_nat_alt
            page_aligned_nat)
      then show ?thesis
        using a Low by (simp add: page_of_def page_aligned_def unat_page_index base_of_def)
    next
      case High
      then have h: "page_aligned (high_base p)" "4096 * 7936 \<le> unat (high_base p)" "high_pages p \<noteq> 0"
        using a hi by (auto simp: pages_in_def)
      then have "page_aligned a" "\<not> a < POOL_END" "\<not> a < BELOW1M_END" "high_base p \<le> a"
        "a < high_base p + of_nat (high_pages p) * 4096"
        using a High by (auto simp: base_of_def pages_in_def page_bases word_le_nat_alt word_less_nat_alt
            page_aligned_nat fin)
      then show ?thesis
        using a High h by (simp add: page_of_def page_aligned_def unat_page_index base_of_def)
    qed
  qed
qed

lemma tail_index_iff:
  assumes "geometry_ok p"
  shows "tail_index p a n = Some k \<longleftrightarrow>
    n \<noteq> 0 \<and> unat a = unat (tail_base p) + 4096 * unat k \<and> unat k + unat n \<le> unat (tail_pages p)"
proof -
  have al: "page_aligned (tail_base p)" if "tail_pages p \<noteq> 0"
    using that assms unat_tail_base [OF assms] by (auto simp: geometry_ok_def page_aligned_nat)
  have tp: "4096 * unat (tail_pages p) \<le> 2 ^ 52" using assms by (simp add: geometry_ok_def)
  then have sat: "tail_pages p < saturating_add x n \<longleftrightarrow> \<not> unat x + unat n \<le> unat (tail_pages p)" for x
    by (auto simp: word_less_nat_alt unat_saturating_add)
  show ?thesis
  proof
    assume "tail_index p a n = Some k"
    then show "n \<noteq> 0 \<and> unat a = unat (tail_base p) + 4096 * unat k \<and> unat k + unat n \<le> unat (tail_pages p)"
      using window_index [of a "tail_base p"] al unfolding tail_index_def Let_def sat page_aligned_def [symmetric]
      by (auto split: if_splits)
  next
    assume k: "n \<noteq> 0 \<and> unat a = unat (tail_base p) + 4096 * unat k \<and> unat k + unat n \<le> unat (tail_pages p)"
    then have tp: "tail_pages p \<noteq> 0" by (auto simp: word_unat_eq_iff)
    have "page_aligned a" using k al [OF tp] by (simp add: page_aligned_nat)
    moreover have le: "tail_base p \<le> a" using k by (simp add: word_le_nat_alt)
    moreover have "(a - tail_base p) div 4096 = k"
      using k by (intro word_eq_unatI) (simp add: unat_page_index [OF le])
    ultimately show "tail_index p a n = Some k"
      using k tp unfolding tail_index_def Let_def sat by (auto simp: page_aligned_def)
  qed
qed

lemma region_end:
  assumes "geometry_ok p"
  shows "unat (base_of p r) + 4096 * pages_in p r \<le> 2 ^ 52"
  using assms by (cases r) (simp_all add: base_of_def pages_in_def page_counts page_bases geometry_ok_def)

lemma region_aligned:
  "geometry_ok p \<Longrightarrow> i < pages_in p r \<Longrightarrow> page_aligned (base_of p r)"
  by (cases r) (auto simp: base_of_def pages_in_def geometry_ok_def)

lemma unat_region_addr:
  assumes "geometry_ok p" and "i \<le> pages_in p r"
  shows "unat (base_of p r + of_nat i * 4096) = unat (base_of p r) + 4096 * i"
proof -
  have b: "unat (base_of p r) + 4096 * i \<le> 2 ^ 52"
    using region_end [OF assms(1), of r] assms(2) by (meson add_left_mono mult_le_mono2 le_trans)
  have i: "unat (of_nat i :: u64) = i" using b by (intro unat_of_nat_small) simp
  have m: "unat (of_nat i * 4096 :: u64) = 4096 * i" using b by (subst unat_mult_small) (simp_all add: i)
  show ?thesis using b by (subst unat_add_small) (simp_all add: m)
qed

lemma tail_not_region:
  assumes "geometry_ok p" and "tail_index p a n = Some k"
  shows "page_of p a = None"
proof (rule ccontr)
  assume "page_of p a \<noteq> None"
  then obtain r i where r: "i < pages_in p r" "unat a = unat (base_of p r) + 4096 * i"
    using page_of_iff [OF assms(1)] by auto
  have a: "unat a = unat (high_base p) + 4096 * high_pages p + 4096 * unat k" and tp: "tail_pages p \<noteq> 0"
    using assms(2) unat_tail_base [OF assms(1)] by (auto simp: tail_index_iff [OF assms(1)] word_unat_eq_iff [of n])
  then have "4096 * 7936 \<le> unat (high_base p)"
    using assms(1) by (auto simp: geometry_ok_def word_le_nat_alt page_bases)
  with r a show False
    by (cases r) (simp_all add: base_of_def pages_in_def page_counts page_bases)
qed

lemma in_range_region:
  assumes "geometry_ok p" and "unat a = unat (base_of p r) + 4096 * f" and "f + unat n \<le> pages_in p r"
  shows "in_range a n x \<longleftrightarrow> (\<exists>i. page_of p x = Some (r, i) \<and> f \<le> i \<and> i < f + unat n)"
proof
  assume x: "in_range a n x"
  then have "0 < unat n" by (auto simp: in_range_def)
  then have "0 < pages_in p r" using assms(3) by simp
  then have "page_aligned (base_of p r)" by (rule region_aligned [OF assms(1)])
  then obtain b where b: "unat (base_of p r) = 4096 * b" by (auto simp: page_aligned_nat)
  obtain k where k: "unat x = 4096 * k" using x by (auto simp: in_range_def page_aligned_nat)
  have "4096 * (b + f) \<le> 4096 * k" "4096 * k < 4096 * (b + f + unat n)"
    using x b k assms(2) by (simp_all add: in_range_def algebra_simps)
  then have "b + f \<le> k" "k < b + f + unat n" by simp_all
  then show "\<exists>i. page_of p x = Some (r, i) \<and> f \<le> i \<and> i < f + unat n"
    using assms(3) b k by (intro exI [of _ "k - b"]) (auto simp: page_of_iff [OF assms(1)])
next
  assume "\<exists>i. page_of p x = Some (r, i) \<and> f \<le> i \<and> i < f + unat n"
  then obtain i where i: "page_of p x = Some (r, i)" "f \<le> i" "i < f + unat n" by blast
  then have x: "i < pages_in p r" "unat x = unat (base_of p r) + 4096 * i"
    by (simp_all add: page_of_iff [OF assms(1)])
  have "page_aligned x" using page_aligned_offset [OF region_aligned [OF assms(1) x(1)] x(2)] .
  then show "in_range a n x" using x(2) i(2,3) assms(2) by (simp add: in_range_def)
qed

lemma in_range_tail:
  assumes "geometry_ok p" and "tail_index p a n = Some k"
  shows "in_range a n x \<longleftrightarrow> (\<exists>j. tail_index p x 1 = Some j \<and> unat k \<le> unat j \<and> unat j < unat k + unat n)"
proof -
  have a: "unat a = unat (tail_base p) + 4096 * unat k" "unat k + unat n \<le> unat (tail_pages p)" "n \<noteq> 0"
    using assms(2) by (simp_all add: tail_index_iff [OF assms(1)])
  then have "tail_pages p \<noteq> 0" by (auto simp: word_unat_eq_iff)
  then have "page_aligned (tail_base p)"
    using assms(1) unat_tail_base [OF assms(1)] by (auto simp: geometry_ok_def page_aligned_nat)
  then obtain b where b: "unat (tail_base p) = 4096 * b" by (auto simp: page_aligned_nat)
  show ?thesis
  proof
    assume x: "in_range a n x"
    obtain c where c: "unat x = 4096 * c" using x by (auto simp: in_range_def page_aligned_nat)
    have "4096 * (b + unat k) \<le> 4096 * c" "4096 * c < 4096 * (b + unat k + unat n)"
      using x a(1) b c by (simp_all add: in_range_def algebra_simps)
    then have l: "b + unat k \<le> c" "c < b + unat k + unat n" by simp_all
    have j: "unat (of_nat (c - b) :: u64) = c - b"
      using l a(2) unat_u64_bound [of "tail_pages p"] by (intro unat_of_nat_small) simp
    show "\<exists>j. tail_index p x 1 = Some j \<and> unat k \<le> unat j \<and> unat j < unat k + unat n"
      using l j a(2) b c by (intro exI [of _ "of_nat (c - b)"]) (auto simp: tail_index_iff [OF assms(1)])
  next
    assume "\<exists>j. tail_index p x 1 = Some j \<and> unat k \<le> unat j \<and> unat j < unat k + unat n"
    then show "in_range a n x"
      using a b by (auto simp: tail_index_iff [OF assms(1)] in_range_def page_aligned_nat)
  qed
qed

lemma page_of_cong:
  "high_base q = high_base p \<Longrightarrow> high_pages q = high_pages p \<Longrightarrow> page_of q a = page_of p a"
  by (simp add: page_of_def)

lemma tail_index_cong:
  "high_base q = high_base p \<Longrightarrow> high_pages q = high_pages p \<Longrightarrow> tail_pages q = tail_pages p \<Longrightarrow>
    tail_index q a n = tail_index p a n"
  by (simp add: tail_index_def tail_base_def Let_def)

lemma page_type_retype:
  assumes "arrays_ok p" "geometry_ok p" and "unat a = unat (base_of p r) + 4096 * f"
    and "f + unat n \<le> pages_in p r" and "t < 256"
  shows "page_type (retype r t on [f..<f + unat n] p) x =
    (if in_range a n x then Some (if on then t else EFI_CONVENTIONAL_MEMORY) else page_type p x)"
proof -
  let ?q = "retype r t on [f..<f + unat n] p"
  have "\<forall>i \<in> set [f..<f + unat n]. i < byte_count r"
    using assms(4) pages_in_bytes [OF assms(2), of r] by auto
  note eff = retype_effect(2,3) [OF assms(1) this assms(5)]
  have sh: "shown_type ?q r' i =
      (if r' = r \<and> f \<le> i \<and> i < f + unat n then (if on then t else EFI_CONVENTIONAL_MEMORY) else shown_type p r' i)" for r' i
    by (simp add: shown_type_def eff)
  have c1: "page_of ?q x = page_of p x" by (rule page_of_cong) simp_all
  have c2: "tail_index ?q x 1 = tail_index p x 1" by (rule tail_index_cong) simp_all
  have c3: "tail_type ?q = tail_type p" by (simp add: tail_type_def fun_eq_iff)
  show ?thesis
    unfolding page_type_def c1 c2 c3 in_range_region [OF assms(2-4)]
    by (cases "page_of p x") (simp_all only: option.case sh split_paired_all prod.case, auto)
qed

section \<open>The tail spans\<close>

lemma unat_span_end: "unat (span_end s) = unat (sp_start s) + unat (sp_pages s)"
  using unat_u32_bound [of "sp_start s"] unat_u32_bound [of "sp_pages s"]
  unfolding span_end_def by (subst unat_add_small) (simp_all add: unat_u32_u64)

text \<open>A span in use that contains page \<open>k\<close> of the tail.\<close>

definition covers :: "TailSpan \<Rightarrow> nat \<Rightarrow> bool" where
  "covers s k \<longleftrightarrow> sp_used s \<and> unat (sp_start s) \<le> k \<and> k < unat (sp_start s) + unat (sp_pages s)"

lemma tail_type_find:
  "tail_type p k = (case find (\<lambda>s. covers s (unat k)) (tail_spans p) of
     Some s \<Rightarrow> ucast (sp_typ s) | None \<Rightarrow> EFI_CONVENTIONAL_MEMORY)"
  by (simp add: tail_type_def covers_def word_le_nat_alt word_less_nat_alt unat_u32_u64 unat_span_end)

lemma covers_unique:
  assumes "spans_ok p" "s \<in> set (tail_spans p)" "s' \<in> set (tail_spans p)" "covers s k" "covers s' k"
  shows "s = s'"
proof -
  obtain i j where ij: "i < length (tail_spans p)" "tail_spans p ! i = s"
      "j < length (tail_spans p)" "tail_spans p ! j = s'"
    using assms(2,3) by (auto simp: in_set_conv_nth)
  have "i = j"
  proof (rule ccontr)
    assume "i \<noteq> j"
    then have "spans_apart s s'" using assms(1) ij by (auto simp: spans_ok_def)
    then show False using assms(4,5) by (auto simp: spans_apart_def covers_def)
  qed
  then show ?thesis using ij by simp
qed

lemma tail_type_covers:
  assumes "spans_ok p" "s \<in> set (tail_spans p)" "covers s (unat k)"
  shows "tail_type p k = ucast (sp_typ s)"
proof (cases "find (\<lambda>s. covers s (unat k)) (tail_spans p)")
  case None
  then show ?thesis using assms(2,3) by (simp add: find_None_iff)
next
  case (Some s')
  then have "s' \<in> set (tail_spans p)" "covers s' (unat k)" by (auto simp: find_Some_iff)
  then show ?thesis using covers_unique [OF assms(1)] assms(2,3) Some by (simp add: tail_type_find) blast
qed

lemma tail_type_free:
  "\<not> (\<exists>s \<in> set (tail_spans p). covers s (unat k)) \<Longrightarrow> tail_type p k = EFI_CONVENTIONAL_MEMORY"
  by (simp add: tail_type_find find_None_iff split: option.split)
    (auto simp: find_Some_iff)

lemma tail_type_conventional:
  assumes "spans_ok p"
  shows "tail_type p k = EFI_CONVENTIONAL_MEMORY \<longleftrightarrow> \<not> (\<exists>s \<in> set (tail_spans p). covers s (unat k))"
proof -
  have "alloc_type_ok (ucast (sp_typ s))" if "s \<in> set (tail_spans p)" "covers s (unat k)" for s
    using that assms by (auto simp: spans_ok_def span_ok_def covers_def)
  then show ?thesis
    using tail_type_covers [OF assms] tail_type_free by (auto simp: alloc_type_ok_def)
qed

lemma tail_busy_iff:
  assumes "unat start + unat n < 2 ^ 64"
  shows "tail_busy p start n \<longleftrightarrow>
    (\<exists>s \<in> set (tail_spans p). sp_used s \<and> unat start < unat (sp_start s) + unat (sp_pages s) \<and>
       unat (sp_start s) < unat start + unat n)"
proof -
  have "unat (start + n) = unat start + unat n" using assms by (simp add: unat_add_small)
  then show ?thesis
    by (simp add: tail_busy_def list_ex_iff word_less_nat_alt unat_span_end unat_u32_u64)
qed

lemma tail_busy_covers:
  assumes "spans_ok p" "unat start + unat n < 2 ^ 64" "n \<noteq> 0"
  shows "tail_busy p start n \<longleftrightarrow>
    (\<exists>s \<in> set (tail_spans p). \<exists>k. unat start \<le> k \<and> k < unat start + unat n \<and> covers s k)"
proof -
  have n: "0 < unat n" using assms(3) by (simp add: word_unat_eq_iff)
  have "0 < unat (sp_pages s)" if "s \<in> set (tail_spans p)" "sp_used s" for s
    using that assms(1) by (auto simp: spans_ok_def span_ok_def word_unat_eq_iff)
  then have "sp_used s \<and> unat start < unat (sp_start s) + unat (sp_pages s) \<and> unat (sp_start s) < unat start + unat n \<longleftrightarrow>
      (\<exists>k. unat start \<le> k \<and> k < unat start + unat n \<and> covers s k)" if "s \<in> set (tail_spans p)" for s
    using that n by (auto simp: covers_def intro!: exI [of _ "max (unat start) (unat (sp_start s))"])
  then show ?thesis unfolding tail_busy_iff [OF assms(2)] by blast
qed

text \<open>Replacing the span of one slot.\<close>

lemma spans_apart_sym: "spans_apart s s' \<Longrightarrow> spans_apart s' s"
  by (auto simp: spans_apart_def)

lemma covers_index:
  assumes "spans_ok p" "i < length (tail_spans p)" "j < length (tail_spans p)" "i \<noteq> j"
    and "covers (tail_spans p ! i) k"
  shows "\<not> covers (tail_spans p ! j) k"
proof -
  have "spans_apart (tail_spans p ! i) (tail_spans p ! j)" using assms by (simp add: spans_ok_def)
  then show ?thesis using assms(5) by (auto simp: spans_apart_def covers_def)
qed

lemma spans_ok_update:
  assumes "spans_ok p" "i < length (tail_spans p)" "span_ok (tail_pages p) s"
    and "\<And>j. j < length (tail_spans p) \<Longrightarrow> j \<noteq> i \<Longrightarrow> spans_apart s (tail_spans p ! j)"
  shows "spans_ok (p\<lparr>tail_spans := (tail_spans p)[i := s]\<rparr>)"
proof -
  have "\<forall>s' \<in> set ((tail_spans p)[i := s]). span_ok (tail_pages p) s'"
    using assms(1,3) set_update_subset_insert [of "tail_spans p" i s] by (auto simp: spans_ok_def)
  then show ?thesis
    using assms spans_apart_sym [OF assms(4)] by (auto simp: spans_ok_def nth_list_update)
qed

lemma tail_type_update:
  assumes "spans_ok p" "i < length (tail_spans p)" and q: "q = p\<lparr>tail_spans := (tail_spans p)[i := s]\<rparr>"
    and "spans_ok q"
  shows "tail_type q k =
    (if covers s (unat k) then ucast (sp_typ s)
     else if covers (tail_spans p ! i) (unat k) then EFI_CONVENTIONAL_MEMORY
     else tail_type p k)"
proof -
  let ?ts = "tail_spans p"
  have ts: "tail_spans q = ?ts[i := s]" by (simp add: q)
  consider (new) "covers s (unat k)" | (old) "\<not> covers s (unat k)" "covers (?ts ! i) (unat k)"
    | (other) j where "\<not> covers s (unat k)" "\<not> covers (?ts ! i) (unat k)" "j < length ?ts" "j \<noteq> i" "covers (?ts ! j) (unat k)"
    | (free) "\<not> covers s (unat k)" "\<forall>j < length ?ts. \<not> covers (?ts ! j) (unat k)"
    by blast
  then show ?thesis
  proof cases
    case new
    have "s \<in> set (tail_spans q)" using assms(2) by (simp add: ts set_update_memI)
    then show ?thesis using new tail_type_covers [OF assms(4)] by simp
  next
    case old
    have "\<not> covers (?ts[i := s] ! j) (unat k)" if "j < length ?ts" for j
      using old covers_index [OF assms(1,2) that] assms(2) by (cases "j = i") auto
    then have "\<not> (\<exists>s' \<in> set (tail_spans q). covers s' (unat k))" by (auto simp: ts in_set_conv_nth)
    then show ?thesis using old tail_type_free by auto
  next
    case other
    have "?ts ! j \<in> set (tail_spans q)" using other(3,4) by (metis length_list_update nth_list_update_neq nth_mem ts)
    then have "tail_type q k = ucast (sp_typ (?ts ! j))" using other(5) by (rule tail_type_covers [OF assms(4)])
    moreover have "tail_type p k = ucast (sp_typ (?ts ! j))"
      using other(3,5) by (intro tail_type_covers [OF assms(1)]) simp_all
    ultimately show ?thesis using other by simp
  next
    case free
    have "\<not> covers (?ts[i := s] ! j) (unat k)" if "j < length ?ts" for j
      using free that assms(2) by (cases "j = i") auto
    then have "\<not> (\<exists>s' \<in> set (tail_spans q). covers s' (unat k))" "\<not> (\<exists>s' \<in> set ?ts. covers s' (unat k))"
      using free by (auto simp: ts in_set_conv_nth)
    then show ?thesis using free assms(2) by (simp add: tail_type_free)
  qed
qed

lemma tail_insert_False: "tail_insert start n t p = (False, q) \<Longrightarrow> q = p"
  by (auto simp: tail_insert_def split: if_splits option.splits)

lemma tail_insert_True:
  assumes "tail_insert start n t p = (True, q)" and "spans_ok p" "\<not> tail_busy p start n"
    and "unat start + unat n \<le> unat (tail_pages p)" "alloc_type_ok t"
  shows "spans_ok q"
    and "tail_type q k = (if unat start \<le> unat k \<and> unat k < unat start + unat n then t else tail_type p k)"
    and "\<exists>i s. q = p\<lparr>tail_spans := (tail_spans p)[i := s]\<rparr>"
    and "\<exists>s \<in> set (tail_spans q). sp_used s \<and> unat (sp_start s) = unat start \<and> unat (sp_pages s) = unat n"
proof -
  let ?s = "\<lparr>sp_start = ucast start, sp_pages = ucast n, sp_typ = ucast t, sp_used = True\<rparr> :: TailSpan"
  from assms(1) obtain i where i: "find_index (\<lambda>s. \<not> sp_used s) (tail_spans p) = Some i"
    and q: "q = p\<lparr>tail_spans := (tail_spans p)[i := ?s]\<rparr>"
    and small: "unat start < 2 ^ 32" "unat n < 2 ^ 32" "n \<noteq> 0"
    by (auto simp: tail_insert_def word_less_nat_alt not_less split: if_splits option.splits)
  have il: "i < length (tail_spans p)" "\<not> sp_used (tail_spans p ! i)"
    using find_index_SomeD [OF i] by simp_all
  have u: "unat (ucast start :: u32) = unat start" "unat (ucast n :: u32) = unat n"
    using small by (simp_all add: unsigned_ucast_eq take_bit_eq_mod unat_mod_distrib)
  have t: "ucast (ucast t :: u8) = t"
    using alloc_type_small [OF assms(5)]
    by (intro word_eq_unatI) (simp add: unsigned_ucast_eq take_bit_eq_mod word_less_nat_alt unat_mod_distrib)
  have ne: "ucast n \<noteq> (0 :: u32)" using u(2) small(3) by (metis unsigned_0 word_unat_eq_iff)
  have sok: "span_ok (tail_pages p) ?s" using assms(4,5) u t ne by (simp add: span_ok_def)
  have free: "\<not> (sp_used s \<and> unat start < unat (sp_start s) + unat (sp_pages s) \<and> unat (sp_start s) < unat start + unat n)"
    if "s \<in> set (tail_spans p)" for s
  proof -
    have "unat start + unat n < 2 ^ 64" using small by simp
    then show ?thesis using assms(3) that by (auto simp: tail_busy_iff)
  qed
  have ap: "spans_apart ?s (tail_spans p ! j)" if "j < length (tail_spans p)" for j
    using free [OF nth_mem [OF that]] by (auto simp: spans_apart_def u)
  show ok: "spans_ok q" unfolding q by (rule spans_ok_update [OF assms(2) il(1) sok ap])
  have cov: "covers ?s (unat k) \<longleftrightarrow> unat start \<le> unat k \<and> unat k < unat start + unat n"
    by (simp add: covers_def u)
  have old: "\<not> covers (tail_spans p ! i) (unat k)" using il(2) by (simp add: covers_def)
  show "tail_type q k = (if unat start \<le> unat k \<and> unat k < unat start + unat n then t else tail_type p k)"
    unfolding tail_type_update [OF assms(2) il(1) q ok] cov using old t by simp
  show "\<exists>i s. q = p\<lparr>tail_spans := (tail_spans p)[i := s]\<rparr>" using q by blast
  have "?s \<in> set (tail_spans q)" using il(1) by (simp add: q set_update_memI)
  then show "\<exists>s \<in> set (tail_spans q). sp_used s \<and> unat (sp_start s) = unat start \<and> unat (sp_pages s) = unat n"
    using u by (intro bexI [of _ ?s]) simp_all
qed

section \<open>What an allocation does\<close>

text \<open>A span in use with exactly these pages of the tail, and that the part of a range beyond the
  bitmap of its region has one.\<close>

definition span_recorded :: "PagePool \<Rightarrow> nat \<Rightarrow> nat \<Rightarrow> bool" where
  "span_recorded p k n \<longleftrightarrow>
    (\<exists>s \<in> set (tail_spans p). sp_used s \<and> unat (sp_start s) = k \<and> unat (sp_pages s) = n)"

definition recorded :: "PagePool \<Rightarrow> u64 \<Rightarrow> u64 \<Rightarrow> bool" where
  "recorded p a n \<longleftrightarrow>
    (case page_of p a of
       Some (r, i) \<Rightarrow>
         pages_in p r < i + unat n \<longrightarrow> r = High \<and> span_recorded p 0 (i + unat n - high_pages p)
     | None \<Rightarrow> (\<exists>k. tail_index p a n = Some k \<and> span_recorded p (unat k) (unat n)))"

text \<open>The \<open>n\<close> pages from \<open>a\<close> were conventional, have type \<open>t\<close> in the new pool \<open>q\<close>, and
  nothing else changed.\<close>

definition allocated :: "PagePool \<Rightarrow> u64 \<Rightarrow> u64 \<Rightarrow> u32 \<Rightarrow> PagePool \<Rightarrow> bool" where
  "allocated p a n t q \<longleftrightarrow>
    n \<noteq> 0 \<and> page_aligned a \<and> pool_inv q \<and> recorded q a n \<and>
    (\<forall>x. in_range a n x \<longrightarrow> page_type p x = Some EFI_CONVENTIONAL_MEMORY) \<and>
    (\<forall>x. page_type q x = (if in_range a n x then Some t else page_type p x))"

lemma count_alloc_frame [simp]:
  "used_words (count_alloc p) = used_words p" "type_bytes (count_alloc p) = type_bytes p"
  "high_base (count_alloc p) = high_base p" "high_pages (count_alloc p) = high_pages p"
  "tail_pages (count_alloc p) = tail_pages p" "tail_spans (count_alloc p) = tail_spans p"
  by (simp_all add: count_alloc_def used_words_def type_bytes_def fun_eq_iff split: Region.split)

lemma same_pool:
  assumes "used_words q = used_words p" "type_bytes q = type_bytes p" "high_base q = high_base p"
    "high_pages q = high_pages p" "tail_pages q = tail_pages p" "tail_spans q = tail_spans p"
  shows "pool_inv q \<longleftrightarrow> pool_inv p" and "page_type q = page_type p"
proof -
  have u: "is_used q = is_used p" "typ_of q = typ_of p" using assms by (simp_all add: is_used_def typ_of_def fun_eq_iff)
  show "pool_inv q \<longleftrightarrow> pool_inv p"
    using assms u by (simp add: pool_inv_def arrays_ok_def geometry_ok_def spans_ok_def types_ok_def)
  have c: "page_of q x = page_of p x" "tail_index q x 1 = tail_index p x 1" for x
    using assms page_of_cong [of q p] tail_index_cong [of q p] by simp_all
  have v: "shown_type q = shown_type p" "tail_type q = tail_type p"
    using assms(6) u by (simp_all add: shown_type_def tail_type_def fun_eq_iff)
  show "page_type q = page_type p" by (rule ext) (simp only: page_type_def c v)
qed

lemma count_alloc_same [simp]: "pool_inv (count_alloc p) \<longleftrightarrow> pool_inv p" "page_type (count_alloc p) = page_type p"
  by (rule same_pool; simp)+

lemma recorded_count: "recorded (count_alloc q) a n \<longleftrightarrow> recorded q a n"
proof -
  have c: "page_of (count_alloc q) a = page_of q a" "tail_index (count_alloc q) a n = tail_index q a n"
    by (rule page_of_cong tail_index_cong; simp)+
  have v: "pages_in (count_alloc q) = pages_in q" "span_recorded (count_alloc q) = span_recorded q"
    by (simp_all add: pages_in_def span_recorded_def fun_eq_iff split: Region.split)
  show ?thesis by (simp only: recorded_def c v count_alloc_frame)
qed

lemma allocated_count [simp]: "allocated p a n t (count_alloc q) \<longleftrightarrow> allocated p a n t q"
  by (simp add: allocated_def recorded_count)

lemma pool_inv_retype:
  assumes "pool_inv p" and "\<forall>i \<in> set is. i < byte_count r" and "t < 256" and "on \<Longrightarrow> alloc_type_ok t"
  shows "pool_inv (retype r t on is p)"
proof -
  note eff = retype_effect [OF _ assms(2,3)]
  have a: "arrays_ok p" using assms(1) by (simp add: pool_inv_def)
  have "types_ok (retype r t on is p)"
    using assms(1,4) unfolding types_ok_def eff(2,3) [OF a] by (auto simp: pool_inv_def types_ok_def split: if_splits)
  then show ?thesis
    using assms(1) eff(1) [OF a] by (simp add: pool_inv_def geometry_ok_def spans_ok_def)
qed

lemma usize_add_small: "a + b < 2 ^ 64 \<Longrightarrow> usize_add a b = a + b"
  by (simp add: usize_add_def)

lemma pages_in_small:
  assumes "geometry_ok p"
  shows "pages_in p r < 2 ^ 17"
proof -
  have "byte_count r < 2 ^ 17" by (cases r) (simp_all add: byte_count_def page_counts)
  then show ?thesis using pages_in_bytes [OF assms, of r] by linarith
qed

lemma mark_allocated:
  assumes "pool_inv p" "f + unat n \<le> pages_in p r" "n \<noteq> 0" "alloc_type_ok t"
    and "\<And>j. f \<le> j \<Longrightarrow> j < f + unat n \<Longrightarrow> \<not> is_used p r j"
    and a: "unat a = unat (base_of p r) + 4096 * f"
  shows "allocated p a n t (mark r f (unat n) t p)"
proof -
  have g: "geometry_ok p" "arrays_ok p" using assms(1) by (simp_all add: pool_inv_def)
  have "f + unat n < 2 ^ 17" using assms(2) pages_in_small [OF g(1), of r] by linarith
  then have m: "mark r f (unat n) t p = retype r t True [f..<f + unat n] p"
    by (simp add: mark_retype usize_add_small)
  have "\<forall>i \<in> set [f..<f + unat n]. i < byte_count r"
    using assms(2) pages_in_bytes [OF g(1), of r] by auto
  then have inv: "pool_inv (mark r f (unat n) t p)"
    unfolding m using assms(1,4) alloc_type_small by (intro pool_inv_retype) auto
  have "0 < pages_in p r" using assms(2,3) by (auto simp: word_unat_eq_iff [of n])
  then have al: "page_aligned a" using region_aligned [OF g(1)] a page_aligned_offset by blast
  have "page_type p x = Some EFI_CONVENTIONAL_MEMORY" if "in_range a n x" for x
    using that assms(5) unfolding in_range_region [OF g(1) a assms(2)] by (auto simp: page_type_def shown_type_def)
  moreover have "page_type (mark r f (unat n) t p) x = (if in_range a n x then Some t else page_type p x)" for x
    unfolding m by (simp add: page_type_retype [OF g(2,1) a assms(2) alloc_type_small [OF assms(4)]])
  moreover have "recorded (mark r f (unat n) t p) a n"
  proof -
    have "page_of (mark r f (unat n) t p) a = page_of p a" unfolding m by (rule page_of_cong) simp_all
    moreover have "page_of p a = Some (r, f)" using assms(2,3) a by (simp add: page_of_iff [OF g(1)] word_unat_eq_iff [of n])
    moreover have "pages_in (mark r f (unat n) t p) r = pages_in p r" unfolding m by (simp add: pages_in_def split: Region.split)
    ultimately show ?thesis using assms(2) by (simp add: recorded_def)
  qed
  ultimately show ?thesis using inv al assms(3) by (simp add: allocated_def)
qed

text \<open>A change of the spans that changes the type of the pages from \<open>a\<close> only.\<close>

lemma page_type_spans:
  assumes "pool_inv p" "tail_index p a n = Some k" and q: "q = p\<lparr>tail_spans := ts\<rparr>" and "spans_ok q"
    and "\<And>j. tail_type q j = (if unat k \<le> unat j \<and> unat j < unat k + unat n then t else tail_type p j)"
  shows "pool_inv q" and "page_type q x = (if in_range a n x then Some t else page_type p x)"
proof -
  have g: "geometry_ok p" using assms(1) by (simp add: pool_inv_def)
  have sel: "used_words q = used_words p" "type_bytes q = type_bytes p"
    by (simp_all add: q used_words_def type_bytes_def fun_eq_iff split: Region.split)
  then have u: "is_used q = is_used p" "typ_of q = typ_of p" by (simp_all add: is_used_def typ_of_def fun_eq_iff)
  show "pool_inv q"
    using assms(1,4) sel u by (simp add: pool_inv_def arrays_ok_def geometry_ok_def types_ok_def q)
  have c: "page_of q x = page_of p x" "tail_index q x 1 = tail_index p x 1"
    using page_of_cong [of q p] tail_index_cong [of q p] by (simp_all add: q)
  have rng: "in_range a n x \<longleftrightarrow> (\<exists>j. tail_index p x 1 = Some j \<and> unat k \<le> unat j \<and> unat j < unat k + unat n)"
    by (rule in_range_tail [OF g assms(2)])
  show "page_type q x = (if in_range a n x then Some t else page_type p x)"
  proof (cases "page_of p x")
    case None
    then show ?thesis unfolding page_type_def c rng by (cases "tail_index p x 1") (simp_all add: assms(5))
  next
    case (Some ri)
    then have "\<not> in_range a n x" unfolding rng using tail_not_region [OF g, of x 1] by fastforce
    then show ?thesis unfolding page_type_def c using Some u by (simp add: shown_type_def split: prod.split)
  qed
qed

lemma tail_allocated:
  assumes "pool_inv p" "tail_index p a n = Some k" "\<not> tail_busy p k n" "alloc_type_ok t"
    and ins: "tail_insert k n t p = (True, q)"
  shows "allocated p a n t q"
proof -
  have g: "geometry_ok p" "spans_ok p" using assms(1) by (simp_all add: pool_inv_def)
  have k: "n \<noteq> 0" "unat a = unat (tail_base p) + 4096 * unat k" "unat k + unat n \<le> unat (tail_pages p)"
    using assms(2) by (simp_all add: tail_index_iff [OF g(1)])
  note eff = tail_insert_True [OF ins g(2) assms(3) k(3) assms(4)]
  obtain i s where q: "q = p\<lparr>tail_spans := (tail_spans p)[i := s]\<rparr>" using eff(3) by blast
  note new = page_type_spans [OF assms(1,2) q eff(1,2)]
  have rng: "in_range a n x \<longleftrightarrow> (\<exists>j. tail_index p x 1 = Some j \<and> unat k \<le> unat j \<and> unat j < unat k + unat n)" for x
    by (rule in_range_tail [OF g(1) assms(2)])
  have none: "page_of p x = None" if "tail_index p x 1 = Some j" for x j
    by (rule tail_not_region [OF g(1) that])
  have conv: "page_type p x = Some EFI_CONVENTIONAL_MEMORY" if r: "in_range a n x" for x
  proof -
    obtain j where j: "tail_index p x 1 = Some j" "unat k \<le> unat j" "unat j < unat k + unat n"
      using r unfolding rng by blast
    have "unat k + unat n < 2 ^ 64" using k(3) unat_u64_bound [of "tail_pages p"] by simp
    then have "\<not> (\<exists>s \<in> set (tail_spans p). covers s (unat j))"
      using assms(3) j(2,3) unfolding tail_busy_covers [OF g(2) \<open>unat k + unat n < 2 ^ 64\<close> k(1)] by blast
    then show ?thesis using j(1) none [OF j(1)] by (simp add: page_type_def tail_type_free)
  qed
  moreover have "page_aligned a"
    using assms(2) by (auto simp: tail_index_def page_aligned_def split: if_splits)
  moreover have "recorded q a n"
  proof -
    have "tail_index q a n = tail_index p a n" "page_of q a = page_of p a"
      using tail_index_cong [of q p a n] page_of_cong [of q p a] by (simp_all add: q)
    then have "tail_index q a n = tail_index p a n" "page_of q a = None"
      using tail_not_region [OF g(1) assms(2)] by simp_all
    then show ?thesis using eff(4) assms(2) by (simp add: recorded_def span_recorded_def)
  qed
  ultimately show ?thesis using new k(1) by (simp add: allocated_def)
qed

lemma allocated_join:
  assumes "allocated p b nb t p1" "allocated p1 a na t q"
    and "unat b = unat a + 4096 * unat na" "unat na + unat nb < 2 ^ 64" "recorded q a (na + nb)"
  shows "allocated p a (na + nb) t q"
proof -
  have n: "unat (na + nb) = unat na + unat nb" using assms(4) by (simp add: unat_add_small)
  have r: "in_range a (na + nb) x \<longleftrightarrow> in_range a na x \<or> in_range b nb x" for x
    using assms(3) by (auto simp: in_range_def n)
  have ne: "na + nb \<noteq> 0" using n assms(1) by (metis add_is_0 allocated_def unat_0 word_unat_eq_iff)
  have excl: "\<not> (in_range a na x \<and> in_range b nb x)" for x using assms(3) by (auto simp: in_range_def)
  show ?thesis
    using assms(1,2,5) ne excl unfolding allocated_def r by (auto split: if_splits)
qed

section \<open>Searching the tail\<close>

abbreviation span_at :: "PagePool \<Rightarrow> nat \<Rightarrow> TailSpan" where
  "span_at p i \<equiv> tail_spans p ! i"

lemma tail_order_facts:
  shows "set (tail_order p) = {i. i < length (tail_spans p) \<and> sp_used (span_at p i)}"
    and "distinct (tail_order p)" and "sorted (map (\<lambda>i. sp_start (span_at p i)) (tail_order p))"
proof -
  let ?u = "filter (\<lambda>i. sp_used (span_at p i)) [0..<length (tail_spans p)]"
  let ?o = "?u @ replicate (TAIL_SPANS - length ?u) 0"
  note srt = take_sort_prefix [of "length ?u" ?o "\<lambda>i. sp_start (span_at p i)"]
  have m: "mset (tail_order p) = mset ?u" using srt(1) by (simp add: tail_order_def Let_def)
  have "set (tail_order p) = set ?u" using m by (rule mset_eq_setD)
  then show "set (tail_order p) = {i. i < length (tail_spans p) \<and> sp_used (span_at p i)}" by auto
  have "distinct ?u" by simp
  then show "distinct (tail_order p)" using m by (metis mset_eq_imp_distinct_iff)
  show "sorted (map (\<lambda>i. sp_start (span_at p i)) (tail_order p))"
    using srt(2) by (simp add: tail_order_def Let_def)
qed

text \<open>The scan has passed the spans outside \<open>ks\<close> and stands at page \<open>c\<close>.\<close>

definition scan_pos :: "PagePool \<Rightarrow> nat list \<Rightarrow> u64 \<Rightarrow> bool" where
  "scan_pos p ks c \<longleftrightarrow>
    sorted (map (\<lambda>i. sp_start (span_at p i)) ks) \<and> distinct ks \<and> unat c \<le> unat (tail_pages p) \<and>
    (\<forall>k \<in> set ks. k < length (tail_spans p) \<and> sp_used (span_at p k) \<and> unat c \<le> unat (sp_start (span_at p k))) \<and>
    (\<forall>i < length (tail_spans p). sp_used (span_at p i) \<and> i \<notin> set ks \<longrightarrow> unat (span_end (span_at p i)) \<le> unat c)"

lemma scan_pos_init: "scan_pos p (tail_order p) 0"
  using tail_order_facts [of p] by (auto simp: scan_pos_def)

lemma scan_pos_step:
  assumes "spans_ok p" "scan_pos p (k # ks) c"
  shows "scan_pos p ks (span_end (span_at p k))"
proof -
  have k: "k < length (tail_spans p)" "sp_used (span_at p k)" "k \<notin> set ks" using assms(2) by (auto simp: scan_pos_def)
  have kok: "span_ok (tail_pages p) (span_at p k)" using assms(1) k(1) by (simp add: spans_ok_def)
  have "unat (span_end (span_at p k)) \<le> unat (sp_start (span_at p j))" if j: "j \<in> set ks" for j
  proof -
    have jl: "j < length (tail_spans p)" "sp_used (span_at p j)" "sp_start (span_at p k) \<le> sp_start (span_at p j)"
      using assms(2) j by (auto simp: scan_pos_def)
    have "k \<noteq> j" using j k(3) by auto
    then have "spans_apart (span_at p k) (span_at p j)" using assms(1) k(1) jl(1) by (simp add: spans_ok_def)
    moreover have "sp_pages (span_at p j) \<noteq> 0" using assms(1) jl by (simp add: spans_ok_def span_ok_def)
    ultimately show ?thesis
      using k(2) jl by (auto simp: spans_apart_def unat_span_end word_le_nat_alt word_unat_eq_iff [of "sp_pages _"])
  qed
  moreover have "unat (span_end (span_at p i)) \<le> unat (span_end (span_at p k))"
    if "i < length (tail_spans p)" "sp_used (span_at p i)" "i \<notin> set ks" for i
  proof (cases "i = k")
    case False
    then have "unat (span_end (span_at p i)) \<le> unat c" using assms(2) that by (auto simp: scan_pos_def)
    also have "\<dots> \<le> unat (sp_start (span_at p k))" using assms(2) by (simp add: scan_pos_def)
    finally show ?thesis by (simp add: unat_span_end)
  qed simp
  ultimately show ?thesis
    using assms(2) kok k(2) by (auto simp: scan_pos_def span_ok_def unat_span_end)
qed

lemma scan_gap_free:
  assumes "scan_pos p ks c" and "\<forall>k \<in> set ks. unat c + unat n \<le> unat (sp_start (span_at p k))"
    and "unat c + unat n \<le> unat (tail_pages p)"
  shows "\<not> tail_busy p c n"
proof -
  have lt: "unat c + unat n < 2 ^ 64" using assms(3) unat_u64_bound [of "tail_pages p"] by simp
  have "\<not> (unat c < unat (sp_start s) + unat (sp_pages s) \<and> unat (sp_start s) < unat c + unat n)"
    if s: "s \<in> set (tail_spans p)" "sp_used s" for s
  proof -
    obtain i where i: "i < length (tail_spans p)" "s = span_at p i" using s(1) by (auto simp: in_set_conv_nth)
    show ?thesis
    proof (cases "i \<in> set ks")
      case True
      then show ?thesis using assms(2) i(2) by auto
    next
      case False
      then have "unat (span_end s) \<le> unat c" using assms(1) i s(2) by (auto simp: scan_pos_def)
      then show ?thesis by (simp add: unat_span_end)
    qed
  qed
  then show ?thesis unfolding tail_busy_iff [OF lt] by blast
qed

lemma tail_index_at:
  assumes "geometry_ok p" "unat c + unat n \<le> unat (tail_pages p)" "n \<noteq> 0"
  shows "tail_index p (tail_base p + c * 4096) n = Some c"
    and "unat (tail_base p + c * 4096 + n * 4096 - 1) = unat (tail_base p) + 4096 * unat c + 4096 * unat n - 1"
proof -
  have le: "unat (tail_base p) + 4096 * unat (tail_pages p) \<le> 2 ^ 52"
    using assms(1) unat_tail_base [OF assms(1)] by (simp add: geometry_ok_def add_mult_distrib2)
  then have sm: "unat (tail_base p) + 4096 * unat c + 4096 * unat n \<le> 2 ^ 52" using assms(2) by linarith
  have n: "0 < unat n" using assms(3) by (simp add: word_unat_eq_iff)
  have m: "unat (c * 4096) = 4096 * unat c" "unat (n * 4096) = 4096 * unat n"
    using sm by (subst unat_mult_small; simp)+
  have a: "unat (tail_base p + c * 4096) = unat (tail_base p) + 4096 * unat c"
    using sm by (subst unat_add_small) (simp_all add: m)
  have b: "unat (tail_base p + c * 4096 + n * 4096) = unat (tail_base p) + 4096 * unat c + 4096 * unat n"
    using sm by (subst unat_add_small) (simp_all add: a m)
  show "tail_index p (tail_base p + c * 4096) n = Some c"
    using a assms(2,3) by (simp add: tail_index_iff [OF assms(1)])
  have "(1 :: u64) \<le> tail_base p + c * 4096 + n * 4096" using n by (simp add: word_le_nat_alt b)
  then show "unat (tail_base p + c * 4096 + n * 4096 - 1) = unat (tail_base p) + 4096 * unat c + 4096 * unat n - 1"
    by (subst unat_sub_le) (simp_all add: b)
qed

lemma try_gap_None: "try_gap n m t c p = (None, q) \<Longrightarrow> q = p"
  by (auto simp: try_gap_def Let_def dest: tail_insert_False split: if_splits prod.splits bool.splits)

lemma try_gap_Some:
  assumes "try_gap n m t c p = (Some a, q)" "pool_inv p" "\<not> tail_busy p c n" "alloc_type_ok t"
    and "unat c + unat n \<le> unat (tail_pages p)" "n \<noteq> 0"
  shows "allocated p a n t q" and "unat a + 4096 * unat n - 1 \<le> unat m" and "tail_base p \<le> a"
proof -
  have g: "geometry_ok p" using assms(2) by (simp add: pool_inv_def)
  note ix = tail_index_at [OF g assms(5,6)]
  from assms(1) have a: "a = tail_base p + c * 4096" and ins: "tail_insert c n t p = (True, q)"
    and le: "a + n * 4096 - 1 \<le> m"
    by (auto simp: try_gap_def Let_def split: if_splits prod.splits bool.splits)
  have ua: "unat a = unat (tail_base p) + 4096 * unat c" using ix(1) by (simp add: a tail_index_iff [OF g])
  show "allocated p a n t q" using tail_allocated [OF assms(2) _ assms(3,4) ins] ix(1) by (simp add: a)
  show "unat a + 4096 * unat n - 1 \<le> unat m" using le ix(2) ua by (simp add: a word_le_nat_alt)
  show "tail_base p \<le> a" using ua by (simp add: word_le_nat_alt)
qed

lemma tail_scan_Some:
  assumes "tail_scan n m t ks c p = (Some a, q)" "pool_inv p" "scan_pos p ks c" "alloc_type_ok t" "n \<noteq> 0"
  shows "allocated p a n t q \<and> unat a + 4096 * unat n - 1 \<le> unat m \<and> tail_base p \<le> a"
  using assms
proof (induction ks arbitrary: c)
  case Nil
  have c: "unat c \<le> unat (tail_pages p)" using Nil.prems(3) by (simp add: scan_pos_def)
  have "n \<le> tail_pages p - c" and try_g: "try_gap n m t c p = (Some a, q)"
    using Nil.prems(1) by (auto split: if_splits)
  then have fit: "unat c + unat n \<le> unat (tail_pages p)"
    using c by (simp add: word_le_nat_alt unat_sub_le)
  have "\<not> tail_busy p c n" by (rule scan_gap_free [OF Nil.prems(3) _ fit]) simp
  then show ?case using try_gap_Some [OF try_g Nil.prems(2) _ Nil.prems(4) fit Nil.prems(5)] by simp
next
  case (Cons k ks)
  have sp: "spans_ok p" using Cons.prems(2) by (simp add: pool_inv_def)
  let ?s = "ucast (sp_start (span_at p k)) :: u64"
  have k: "unat (span_end (span_at p k)) \<le> unat (tail_pages p)"
    using scan_pos_step [OF sp Cons.prems(3)] by (simp add: scan_pos_def)
  show ?case
  proof (cases "c < ?s \<and> n \<le> ?s - c \<and> fst (try_gap n m t c p) \<noteq> None")
    case True
    then have try_g: "try_gap n m t c p = (Some a, q)"
      using Cons.prems(1) by (auto simp: Let_def split: prod.splits option.splits)
    have "unat (?s - c) = unat ?s - unat c" using True by (intro unat_sub_le) (simp add: order_less_imp_le)
    then have gap: "unat c + unat n \<le> unat (sp_start (span_at p k))"
      using True by (auto simp: word_le_nat_alt word_less_nat_alt unat_u32_u64)
    have srt: "\<forall>j \<in> set (k # ks). unat c + unat n \<le> unat (sp_start (span_at p j))"
      using gap Cons.prems(3) by (auto simp: scan_pos_def word_le_nat_alt)
    have fit: "unat c + unat n \<le> unat (tail_pages p)" using gap k by (simp add: unat_span_end)
    have "\<not> tail_busy p c n" by (rule scan_gap_free [OF Cons.prems(3) srt fit])
    then show ?thesis using try_gap_Some [OF try_g Cons.prems(2) _ Cons.prems(4) fit Cons.prems(5)] by simp
  next
    case False
    have "tail_scan n m t ks (span_end (span_at p k)) p = (Some a, q)"
      using Cons.prems(1) False try_gap_None [of n m t c p]
      by (auto simp: Let_def split: prod.splits option.splits if_splits)
    then show ?thesis using Cons.IH Cons.prems(2,4,5) scan_pos_step [OF sp Cons.prems(3)] by blast
  qed
qed

lemma tail_scan_None: "tail_scan n m t ks c p = (None, q) \<Longrightarrow> q = p"
proof (induction ks arbitrary: c p)
  case Nil
  then show ?case by (auto dest: try_gap_None split: if_splits)
next
  case (Cons k ks)
  show ?case
  proof (cases "fst (try_gap n m t c p)")
    case None
    then have "try_gap n m t c p = (None, p)" using try_gap_None by (metis prod.collapse)
    then show ?thesis using Cons by (auto simp: Let_def split: if_splits)
  next
    case (Some a)
    then have "\<exists>p1. try_gap n m t c p = (Some a, p1)" by (metis prod.collapse)
    then show ?thesis using Cons by (auto simp: Let_def split: if_splits)
  qed
qed

lemma tail_fit_below_result:
  assumes "tail_fit_below n m t p = (res, q)" "pool_inv p" "alloc_type_ok t"
  shows "case res of
      None \<Rightarrow> q = p
    | Some a \<Rightarrow> allocated p a n t q \<and> unat a + 4096 * unat n - 1 \<le> unat m \<and> tail_base p \<le> a"
proof (cases res)
  case None
  then show ?thesis using assms(1) tail_scan_None by (auto simp: tail_fit_below_def split: if_splits)
next
  case (Some a)
  then have "n \<noteq> 0" "tail_scan n m t (tail_order p) 0 p = (Some a, q)"
    using assms(1) by (auto simp: tail_fit_below_def split: if_splits)
  then show ?thesis using Some tail_scan_Some [OF _ assms(2) scan_pos_init assms(3)] by simp
qed

section \<open>AllocatePages\<close>

lemma end_page_bound:
  assumes "end_page_for_max p r m = Some e" "f + n \<le> e" "0 < n"
  shows "unat (base_of p r) + 4096 * (f + n) - 1 \<le> unat m"
proof -
  have b: "base_of p r \<le> m" and e: "e = unat ((saturating_add m 1 - base_of p r) div 4096)"
    using assms(1) by (auto simp: end_page_for_max_def Let_def split: if_splits)
  have s: "unat (saturating_add m 1) \<le> unat m + 1" by (simp add: unat_saturating_add)
  have "base_of p r \<le> saturating_add m 1"
    using b unat_u64_bound [of "base_of p r"] by (simp add: word_le_nat_alt unat_saturating_add min_def)
  then have "e = (unat (saturating_add m 1) - unat (base_of p r)) div 4096" unfolding e by (rule unat_page_index)
  then have "4096 * e \<le> unat (saturating_add m 1) - unat (base_of p r)" by simp
  then have "4096 * (f + n) \<le> unat (saturating_add m 1) - unat (base_of p r)"
    using assms(2) by (meson le_trans mult_le_mono2)
  then show ?thesis using s b assms(3) by (auto simp: word_le_nat_alt)
qed

lemma found_allocated:
  assumes "pool_inv p" "f + unat n \<le> pages_in p r" "n \<noteq> 0" "alloc_type_ok t"
    and "\<And>j. f \<le> j \<Longrightarrow> j < f + unat n \<Longrightarrow> \<not> is_used p r j"
    and "finish_alloc at t n mem (Some (r, f)) p = ((status, a), q)"
  shows "status = EFI_SUCCESS \<and> allocated p a n t q \<and> unat a = unat (base_of p r) + 4096 * f"
proof -
  have g: "geometry_ok p" using assms(1) by (simp add: pool_inv_def)
  have "base_of (count_alloc (mark r f (unat n) t p)) r = base_of p r"
    by (simp add: base_of_def mark_retype split: Region.split)
  then have res: "status = EFI_SUCCESS" "a = base_of p r + of_nat f * 4096" "q = count_alloc (mark r f (unat n) t p)"
    using assms(6) by (auto simp: finish_alloc_def Let_def)
  have "unat a = unat (base_of p r) + 4096 * f"
    unfolding res(2) using assms(2) by (intro unat_region_addr [OF g]) simp
  then show ?thesis using res mark_allocated [OF assms(1-5)] by simp
qed

text \<open>What the caller asked for, beyond the pages themselves.\<close>

definition placed :: "u32 \<Rightarrow> u64 \<Rightarrow> u64 \<Rightarrow> u64 \<Rightarrow> bool" where
  "placed at mem a n \<longleftrightarrow>
    (at = ALLOCATE_ADDRESS \<longrightarrow> a = mem) \<and>
    (at = ALLOCATE_MAX_ADDRESS \<longrightarrow> unat a + 4096 * unat n - 1 \<le> unat mem) \<and>
    (at = ALLOCATE_ANY_PAGES \<or> at = ALLOCATE_MAX_ADDRESS \<and> 0x100000 \<le> mem \<longrightarrow> POOL_BASE \<le> a)"

lemma alloc_kinds:
  "ALLOCATE_MAX_ADDRESS \<noteq> ALLOCATE_ANY_PAGES" "ALLOCATE_ADDRESS \<noteq> ALLOCATE_ANY_PAGES"
  "ALLOCATE_ADDRESS \<noteq> ALLOCATE_MAX_ADDRESS"
  by (simp_all add: ALLOCATE_MAX_ADDRESS_def ALLOCATE_ANY_PAGES_def ALLOCATE_ADDRESS_def)

definition alloc_outcome ::
    "u32 \<Rightarrow> u32 \<Rightarrow> u64 \<Rightarrow> u64 \<Rightarrow> PagePool \<Rightarrow> (u64 \<times> u64) \<times> PagePool \<Rightarrow> bool" where
  "alloc_outcome at t n mem p res \<longleftrightarrow>
    (case res of ((status, a), q) \<Rightarrow>
       if status = EFI_SUCCESS then allocated p a n t q \<and> placed at mem a n else q = p \<and> a = mem)"

lemma alloc_outcome_refused [simp]:
  "alloc_outcome at t n mem p ((EFI_NOT_FOUND, mem), p)"
  "alloc_outcome at t n mem p ((EFI_OUT_OF_RESOURCES, mem), p)"
  "alloc_outcome at t n mem p ((EFI_INVALID_PARAMETER, mem), p)"
  by (simp_all add: alloc_outcome_def status_distinct)

lemma tail_above_pool:
  assumes "geometry_ok p" "tail_pages p \<noteq> 0"
  shows "POOL_BASE \<le> tail_base p"
  using assms unat_tail_base [OF assms(1)]
  by (auto simp: geometry_ok_def word_le_nat_alt page_bases)

lemma finish_none:
  assumes "pool_inv p" "alloc_type_ok t" "at \<noteq> ALLOCATE_ADDRESS"
  shows "alloc_outcome at t n mem p (finish_alloc at t n mem None p)"
proof -
  define m where "m = (if at = ALLOCATE_ANY_PAGES then - 1 else mem)"
  obtain res q where r: "tail_fit_below n m t p = (res, q)" by (cases "tail_fit_below n m t p")
  note out = tail_fit_below_result [OF r assms(1,2)]
  have tp: "tail_pages p \<noteq> 0" if "res = Some a" for a
    using r that by (auto simp: tail_fit_below_def split: if_splits)
  have "geometry_ok p" using assms(1) by (simp add: pool_inv_def)
  then have pb: "POOL_BASE \<le> a" if "res = Some a" for a
    using that out tail_above_pool [OF _ tp [OF that]] by auto
  show ?thesis
  proof (cases "at = ALLOCATE_ANY_PAGES \<or> at = ALLOCATE_MAX_ADDRESS")
    case True
    have "finish_alloc at t n mem None p =
        (case res of Some a \<Rightarrow> ((EFI_SUCCESS, a), count_alloc q)
         | None \<Rightarrow> ((if at = ALLOCATE_MAX_ADDRESS then EFI_NOT_FOUND else EFI_OUT_OF_RESOURCES, mem), q))"
      using True r alloc_kinds by (auto simp: finish_alloc_def tail_first_fit_def m_def split: option.split)
    then show ?thesis
      using True out pb alloc_kinds assms(3)
      by (cases res) (auto simp: alloc_outcome_def status_distinct placed_def m_def)
  next
    case False
    then show ?thesis by (simp add: finish_alloc_def)
  qed
qed

lemma finish_found:
  assumes "pool_inv p" "n \<noteq> 0" "alloc_type_ok t" "f + unat n \<le> pages_in p r"
    and "\<And>j. f \<le> j \<Longrightarrow> j < f + unat n \<Longrightarrow> \<not> is_used p r j"
    and "\<And>a. unat a = unat (base_of p r) + 4096 * f \<Longrightarrow> placed at mem a n"
  shows "alloc_outcome at t n mem p (finish_alloc at t n mem (Some (r, f)) p)"
proof -
  obtain status a q where "finish_alloc at t n mem (Some (r, f)) p = ((status, a), q)" by (metis surj_pair)
  then show ?thesis
    using found_allocated [OF assms(1,4,2,3,5)] assms(6) by (auto simp: alloc_outcome_def)
qed

lemma heap_base:
  assumes "geometry_ok p" "i < pages_in p r" "r \<noteq> Below1m"
  shows "POOL_BASE \<le> base_of p r"
  using assms by (cases r) (auto simp: base_of_def pages_in_def geometry_ok_def word_le_nat_alt page_bases)

lemma alloc_any:
  assumes "pool_inv p" "n \<noteq> 0" "alloc_type_ok t"
  shows "alloc_outcome ALLOCATE_ANY_PAGES t n mem p
    (finish_alloc ALLOCATE_ANY_PAGES t n mem (heap_find (\<lambda>r. find_run p r (unat n) (pages_in p r))) p)"
proof (cases "heap_find (\<lambda>r. find_run p r (unat n) (pages_in p r))")
  case None
  then show ?thesis using finish_none [OF assms(1,3)] alloc_kinds by simp
next
  case (Some rf)
  obtain r f where rf: "rf = (r, f)" by (cases rf)
  have r: "find_run p r (unat n) (pages_in p r) = Some f" "r \<noteq> Below1m"
    using Some rf by (auto simp: heap_find_def split: option.splits)
  have n: "0 < unat n" using assms(2) by (simp add: word_unat_eq_iff)
  note run = find_run_Some [OF r(1) n]
  have "geometry_ok p" "f < pages_in p r" using assms(1) run(1) n by (simp_all add: pool_inv_def)
  then have "POOL_BASE \<le> base_of p r" using heap_base r(2) by blast
  then have "placed ALLOCATE_ANY_PAGES mem a n" if "unat a = unat (base_of p r) + 4096 * f" for a
    using that alloc_kinds by (auto simp: placed_def word_le_nat_alt)
  then show ?thesis unfolding Some rf using run assms by (intro finish_found) auto
qed

lemma alloc_max:
  assumes "pool_inv p" "n \<noteq> 0" "alloc_type_ok t"
  shows "alloc_outcome ALLOCATE_MAX_ADDRESS t n mem p
    (finish_alloc ALLOCATE_MAX_ADDRESS t n mem
      (if mem < 0x100000 then
         (case end_page_for_max p Below1m mem of
            None \<Rightarrow> None
          | Some fin \<Rightarrow> map_option (Pair Below1m) (find_run p Below1m (unat n) fin))
       else heap_find (\<lambda>r. case end_page_for_max p r mem of None \<Rightarrow> None | Some fin \<Rightarrow> find_run p r (unat n) fin)) p)"
    (is "alloc_outcome _ _ _ _ _ (finish_alloc _ _ _ _ ?found _)")
proof (cases ?found)
  case None
  show ?thesis unfolding None using finish_none [OF assms(1,3)] alloc_kinds by simp
next
  case (Some rf)
  obtain r f where rf: "rf = (r, f)" by (cases rf)
  obtain e where r: "end_page_for_max p r mem = Some e" "find_run p r (unat n) e = Some f"
      "0x100000 \<le> mem \<longrightarrow> r \<noteq> Below1m"
    using Some rf by (auto simp: heap_find_def split: option.splits if_splits)
  have n: "0 < unat n" using assms(2) by (simp add: word_unat_eq_iff)
  note run = find_run_Some [OF r(2) n]
  have le: "f + unat n \<le> e" "f + unat n \<le> pages_in p r" using run(1) by simp_all
  have "geometry_ok p" "f < pages_in p r" using assms(1) le n by (simp_all add: pool_inv_def)
  then have pb: "0x100000 \<le> mem \<longrightarrow> POOL_BASE \<le> base_of p r" using heap_base r(3) by blast
  have mx: "unat (base_of p r) + 4096 * (f + unat n) - 1 \<le> unat mem" by (rule end_page_bound [OF r(1) le(1) n])
  have "placed ALLOCATE_MAX_ADDRESS mem a n" if a: "unat a = unat (base_of p r) + 4096 * f" for a
  proof -
    have "unat a + 4096 * unat n - 1 \<le> unat mem" using mx by (simp add: a add_mult_distrib2 add.assoc)
    moreover have "0x100000 \<le> mem \<longrightarrow> POOL_BASE \<le> a" using pb a by (auto simp: word_le_nat_alt)
    ultimately show ?thesis using alloc_kinds by (simp add: placed_def)
  qed
  then show ?thesis unfolding Some rf using run(2) le(2) assms by (intro finish_found) auto
qed

lemma alloc_across:
  assumes "pool_inv p" "n \<noteq> 0" "alloc_type_ok t" "page_of p mem = Some (High, i)"
  shows "alloc_outcome ALLOCATE_ADDRESS t n mem p (allocate_across_tail i (unat n) t mem p)"
proof -
  define nb :: u64 where "nb = of_nat (high_pages p - i)"
  define nt :: u64 where "nt = of_nat (unat n - (high_pages p - i))"
  have g: "geometry_ok p" using assms(1) by (simp add: pool_inv_def)
  have i: "i < high_pages p" "unat mem = unat (high_base p) + 4096 * i"
    using assms(4) by (simp_all add: page_of_iff [OF g] pages_in_def base_of_def)
  have step: "allocate_across_tail i (unat n) t mem p =
    (if unat n \<le> high_pages p - i \<or> unat (tail_pages p) < unat n - (high_pages p - i) \<or>
        list_ex (is_used p High) [i..<high_pages p] \<or> tail_busy p 0 nt
     then ((EFI_NOT_FOUND, mem), p)
     else case tail_insert 0 nt t p of
       (False, p1) \<Rightarrow> ((EFI_OUT_OF_RESOURCES, mem), p1)
     | (True, p1) \<Rightarrow> ((EFI_SUCCESS, mem), count_alloc (mark High i (high_pages p - i) t p1)))"
    using i(1) by (simp only: allocate_across_tail_def Let_def nt_def not_le [symmetric]) auto
  show ?thesis
  proof (cases "unat n \<le> high_pages p - i \<or> unat (tail_pages p) < unat n - (high_pages p - i) \<or>
      list_ex (is_used p High) [i..<high_pages p] \<or> tail_busy p 0 nt")
    case True
    then show ?thesis unfolding step by auto
  next
    case False
    obtain ok q where ins: "tail_insert 0 nt t p = (ok, q)" by (cases "tail_insert 0 nt t p")
    have unt: "unat nt = unat n - (high_pages p - i)"
      unfolding nt_def using unat_u64_bound [of n] by (intro unat_of_nat_small) simp
    have unb: "unat nb = high_pages p - i"
      unfolding nb_def using pages_in_small [OF g, of High] by (intro unat_of_nat_small) (simp add: pages_in_def)
    show ?thesis
    proof (cases ok)
      case True
      have nt: "nt \<noteq> 0" using unt False by (metis diff_is_0_eq unat_0)
      have ix: "tail_index p (tail_base p) nt = Some 0"
        using nt unt False by (simp add: tail_index_iff [OF g])
      have t1: "allocated p (tail_base p) nt t q"
        using tail_allocated [OF assms(1) ix _ assms(3)] False ins True by simp
      have "\<exists>j s. q = p\<lparr>tail_spans := (tail_spans p)[j := s]\<rparr>"
        using tail_insert_True(3) [of 0 nt t p q] ins True assms(1,3) False unt by (simp add: pool_inv_def)
      then have q: "pages_in q High = high_pages p" "base_of q High = high_base p" "is_used q High = is_used p High"
        by (auto simp: pages_in_def base_of_def is_used_def used_words_def fun_eq_iff)
      have free: "\<not> is_used q High j" if "i \<le> j" "j < i + unat nb" for j
        using that False i(1) by (auto simp: q unb list_ex_iff)
      have "nb \<noteq> 0" using unb i(1) by (metis diff_is_0_eq not_le unat_0)
      then have t2: "allocated q mem nb t (mark High i (high_pages p - i) t q)"
        using mark_allocated [of q i nb High t mem] t1 assms(3) free i
        by (simp add: unb q allocated_def)
      have "unat (tail_base p) = unat mem + 4096 * unat nb"
        using i by (simp add: unat_tail_base [OF g] unb diff_mult_distrib2)
      moreover have sum: "unat nb + unat nt = unat n" using unb unt False by simp
      then have n: "nb + nt = n"
        using unat_u64_bound [of n] by (intro word_eq_unatI) (subst unat_add_small, simp_all)
      moreover have "recorded (mark High i (high_pages p - i) t q) mem (nb + nt)"
      proof -
        have hp: "high_pages q = high_pages p" "high_base q = high_base p" using q by (simp_all add: pages_in_def base_of_def)
        have "page_of (mark High i (high_pages p - i) t q) mem = page_of p mem"
          by (rule page_of_cong) (simp_all add: mark_retype hp)
        moreover have "span_recorded q 0 (unat nt)"
          using tail_insert_True(4) [of 0 nt t p q] ins True assms(1,3) False unt
          by (simp add: pool_inv_def span_recorded_def)
        ultimately show ?thesis
          using assms(4) unt i(1) unfolding n by (simp add: recorded_def mark_retype span_recorded_def hp add.commute)
      qed
      ultimately have "allocated p mem (nb + nt) t (mark High i (high_pages p - i) t q)"
        using unat_u64_bound [of n] sum by (intro allocated_join [OF t1 t2]) simp_all
      then show ?thesis
        using n False i(1) ins True alloc_kinds
        unfolding step by (auto simp: alloc_outcome_def placed_def)
    next
      case nok: False
      then show ?thesis using False i(1) ins tail_insert_False [of 0 nt t p q]
        unfolding step by auto
    qed
  qed
qed

lemma max_run_small: "geometry_ok p \<Longrightarrow> max_run p < 2 ^ 42"
  by (auto simp: max_run_def Let_def geometry_ok_def page_counts min_def)

lemma alloc_index_small:
  assumes "geometry_ok p" "i < pages_in p r" "n \<le> max_run p"
  shows "usize_add i n = i + n"
proof -
  have "i < 2 ^ 17" using assms(2) pages_in_small [OF assms(1), of r] by linarith
  then show ?thesis using assms(3) max_run_small [OF assms(1)] by (intro usize_add_small) simp
qed

lemma alloc_address:
  assumes "pool_inv p" "n \<noteq> 0" "alloc_type_ok t" "unat n \<le> max_run p"
  shows "alloc_outcome ALLOCATE_ADDRESS t n mem p
    (case page_of p mem of
       Some (r, i) \<Rightarrow>
         if usize_add i (unat n) \<le> pages_in p r then
           (if list_ex (is_used p r) [i..<usize_add i (unat n)] then ((EFI_NOT_FOUND, mem), p)
            else finish_alloc ALLOCATE_ADDRESS t n mem (Some (r, i)) p)
         else if r = High then allocate_across_tail i (unat n) t mem p
         else ((EFI_NOT_FOUND, mem), p)
     | None \<Rightarrow>
         if tail_index p mem n \<noteq> None then allocate_tail_at mem n t p else ((EFI_NOT_FOUND, mem), p))"
proof (cases "page_of p mem")
  case None
  show ?thesis
  proof (cases "tail_index p mem n")
    case (Some k)
    obtain ok q where ins: "tail_insert k n t p = (ok, q)" by (cases "tail_insert k n t p")
    show ?thesis
    proof (cases "tail_busy p k n \<or> \<not> ok")
      case True
      then show ?thesis
        using None Some ins tail_insert_False [of k n t p q] by (auto simp: allocate_tail_at_def)
    next
      case False
      then show ?thesis
        using None Some ins tail_allocated [OF assms(1) Some _ assms(3), of q] alloc_kinds
        by (simp add: allocate_tail_at_def alloc_outcome_def placed_def)
    qed
  qed (use None in simp)
next
  case (Some ri)
  obtain r i where ri: "ri = (r, i)" by (cases ri)
  have g: "geometry_ok p" using assms(1) by (simp add: pool_inv_def)
  have i: "i < pages_in p r" "unat mem = unat (base_of p r) + 4096 * i"
    using Some ri by (simp_all add: page_of_iff [OF g])
  have ua: "usize_add i (unat n) = i + unat n" by (rule alloc_index_small [OF g i(1) assms(4)])
  have pl: "placed ALLOCATE_ADDRESS mem a n" if "unat a = unat (base_of p r) + 4096 * i" for a
  proof -
    have "a = mem" using that i(2) by (intro word_eq_unatI) simp
    then show ?thesis using alloc_kinds by (simp add: placed_def)
  qed
  show ?thesis
  proof (cases "i + unat n \<le> pages_in p r \<and> \<not> list_ex (is_used p r) [i..<i + unat n]")
    case True
    then have "alloc_outcome ALLOCATE_ADDRESS t n mem p (finish_alloc ALLOCATE_ADDRESS t n mem (Some (r, i)) p)"
      using pl assms(1-3) by (intro finish_found) (auto simp: list_ex_iff)
    then show ?thesis using True Some ri ua by simp
  next
    case False
    then show ?thesis using alloc_across [OF assms(1-3)] Some ri ua by auto
  qed
qed

lemma shown_conventional:
  assumes "pool_inv p" "i < pages_in p r"
  shows "shown_type p r i = EFI_CONVENTIONAL_MEMORY \<longleftrightarrow> \<not> is_used p r i"
proof -
  have "i < byte_count r"
    using assms pages_in_bytes [of p r] by (simp add: pool_inv_def)
  then show ?thesis
    using assms(1) by (auto simp: shown_type_def pool_inv_def types_ok_def alloc_type_ok_def)
qed

lemma page_type_tail_index:
  assumes "geometry_ok p" "tail_index p x 1 = Some k"
  shows "page_type p x = Some (tail_type p k)"
  using tail_not_region [OF assms] assms(2) by (simp add: page_type_def)

lemma region_page:
  assumes "geometry_ok p" "unat a = unat (base_of p r) + 4096 * f" "f + unat n \<le> pages_in p r"
    and "\<forall>x. in_range a n x \<longrightarrow> Q (page_type p x)" "f \<le> j" "j < f + unat n"
  shows "Q (Some (shown_type p r j))"
proof -
  have jl: "j < pages_in p r" using assms(3,6) by simp
  have "unat (base_of p r + of_nat j * 4096) = unat (base_of p r) + 4096 * j"
    using jl by (intro unat_region_addr [OF assms(1)]) simp
  then have at: "page_of p (base_of p r + of_nat j * 4096) = Some (r, j)"
    using jl by (simp add: page_of_iff [OF assms(1)])
  then have "in_range a n (base_of p r + of_nat j * 4096)"
    unfolding in_range_region [OF assms(1-3)] using assms(5,6) by blast
  then show ?thesis using assms(4) at by (auto simp: page_type_def)
qed

lemma tail_page:
  assumes "geometry_ok p" "tail_index p a n = Some k"
    and "\<forall>x. in_range a n x \<longrightarrow> Q (page_type p x)" "unat k \<le> unat w" "unat w < unat k + unat n"
  shows "Q (Some (tail_type p w))"
proof -
  have "unat k + unat n \<le> unat (tail_pages p)" using assms(2) by (simp add: tail_index_iff [OF assms(1)])
  then have fit: "unat w + unat (1 :: u64) \<le> unat (tail_pages p)" using assms(5) by simp
  have ix: "tail_index p (tail_base p + w * 4096) 1 = Some w" by (rule tail_index_at(1) [OF assms(1) fit]) simp
  then have "in_range a n (tail_base p + w * 4096)"
    unfolding in_range_tail [OF assms(1,2)] using assms(4,5) by auto
  then show ?thesis using assms(3) page_type_tail_index [OF assms(1) ix] by auto
qed

lemma allocate_outcome:
  assumes "pool_inv p"
  shows "alloc_outcome at t n mem p (allocate_pages at t n mem p)"
proof (cases "n = 0 \<or> max_run p < unat n \<or> \<not> alloc_type_ok t")
  case True
  then show ?thesis by (auto simp: allocate_pages_def Let_def alloc_type_ok_def)
next
  case False
  then have n: "n \<noteq> 0" "unat n \<le> max_run p" "alloc_type_ok t" by auto
  have guards: "\<not> (n = 0 \<or> max_run p < unat n)" "\<not> (EFI_MAX_MEMORY_TYPE \<le> t \<or>
      t = EFI_CONVENTIONAL_MEMORY \<or> t = EFI_RESERVED_MEMORY_TYPE)"
    using n by (auto simp: alloc_type_ok_def)
  note steps = allocate_pages_def Let_def guards alloc_kinds if_False if_True simp_thms
  consider "at = ALLOCATE_ANY_PAGES" | "at = ALLOCATE_MAX_ADDRESS" | "at = ALLOCATE_ADDRESS"
    | "at \<noteq> ALLOCATE_ANY_PAGES" "at \<noteq> ALLOCATE_MAX_ADDRESS" "at \<noteq> ALLOCATE_ADDRESS" by blast
  then show ?thesis
  proof cases
    case 1
    show ?thesis unfolding 1 by (simp only: steps alloc_any [OF assms n(1,3)])
  next
    case 2
    show ?thesis unfolding 2 by (simp only: steps alloc_max [OF assms n(1,3)])
  next
    case 3
    show ?thesis unfolding 3 by (simp only: steps alloc_address [OF assms n(1,3,2)])
  next
    case 4
    then show ?thesis by (simp only: steps alloc_outcome_refused)
  qed
qed

lemma allocate_guards:
  assumes "allocate_pages at t n mem p = ((EFI_SUCCESS, a), q)"
  shows "n \<noteq> 0" "unat n \<le> max_run p" "alloc_type_ok t"
  using assms by (auto simp: allocate_pages_def Let_def alloc_type_ok_def status_distinct split: if_splits)

text \<open>
  C7: \<open>AllocatePages\<close> is sound on every branch.  A successful call hands out page-aligned
  memory that was free, retypes exactly those pages, keeps the invariant, and honours the
  request: the exact address, the inclusive upper bound, and, for requests that do not ask for
  it, never the trampoline window below 1 MiB.  A refused call changes neither the pool nor the
  caller's pointer.
\<close>

theorem allocate_pages_correct:
  assumes "pool_inv p" and "allocate_pages at t n mem p = ((status, a), q)"
  shows "if status = EFI_SUCCESS
    then allocated p a n t q \<and>
      (at = ALLOCATE_ADDRESS \<longrightarrow> a = mem) \<and>
      (at = ALLOCATE_MAX_ADDRESS \<longrightarrow> unat a + 4096 * unat n - 1 \<le> unat mem) \<and>
      (at = ALLOCATE_ANY_PAGES \<or> at = ALLOCATE_MAX_ADDRESS \<and> 0x100000 \<le> mem \<longrightarrow> POOL_BASE \<le> a)
    else q = p \<and> a = mem"
  using allocate_outcome [OF assms(1), of at t n mem]
  unfolding assms(2) alloc_outcome_def placed_def prod.case .

lemma pool_new_free:
  assumes "i < byte_count r"
  shows "\<not> is_used pool_new r i"
proof -
  have "used_words pool_new r ! (i div 64) = 0"
    using byte_in_words [OF assms] by (cases r) (simp_all add: used_words_def pool_new_def word_count_def)
  then show ?thesis by (simp add: is_used_bit)
qed

lemma pool_new_inv: "pool_inv pool_new"
proof -
  have "types_ok pool_new" using pool_new_free by (auto simp: types_ok_def)
  moreover have "arrays_ok pool_new"
    unfolding arrays_ok_def
  proof
    fix r show "length (used_words pool_new r) = word_count r \<and> length (type_bytes pool_new r) = byte_count r"
      by (cases r) (simp_all add: used_words_def type_bytes_def word_count_def byte_count_def pool_new_def)
  qed
  moreover have "geometry_ok pool_new" by (simp add: geometry_ok_def pool_new_def)
  moreover have "spans_ok pool_new"
    by (auto simp: spans_ok_def pool_new_def span_ok_def spans_apart_def NO_SPAN_def)
  ultimately show ?thesis by (simp add: pool_inv_def)
qed

lemma pool_new_allocate:
  obtains q where "allocate_pages ALLOCATE_ADDRESS EFI_LOADER_DATA 1 0xB00000 pool_new = ((EFI_SUCCESS, 0xB00000), q)"
proof -
  have w: "used_words pool_new Low ! 0 = 0" by (simp add: used_words_def pool_new_def page_counts)
  have "page_of pool_new 0xB00000 = Some (Low, 0)"
    by (simp add: page_of_def BELOW1M_BASE_def BELOW1M_END_def POOL_BASE_def POOL_END_def)
  then show thesis
    using w by (intro that) (simp add: allocate_pages_def Let_def finish_alloc_def alloc_kinds max_run_def page_counts
        pages_in_def EFI_MAX_MEMORY_TYPE_def EFI_LOADER_DATA_def EFI_CONVENTIONAL_MEMORY_def
        EFI_RESERVED_MEMORY_TYPE_def usize_add_def is_used_def base_of_def POOL_BASE_def)
qed

theorem allocate_pages_correct_witness:
  "\<exists>q. allocate_pages ALLOCATE_ADDRESS EFI_LOADER_DATA 1 0xB00000 pool_new = ((EFI_SUCCESS, 0xB00000), q) \<and>
    page_type q 0xB00000 = Some EFI_LOADER_DATA \<and> page_type pool_new 0xB00000 = Some EFI_CONVENTIONAL_MEMORY"
proof -
  obtain q where q: "allocate_pages ALLOCATE_ADDRESS EFI_LOADER_DATA 1 0xB00000 pool_new = ((EFI_SUCCESS, 0xB00000), q)"
    by (rule pool_new_allocate)
  have "in_range 0xB00000 1 0xB00000" by (simp add: in_range_def page_aligned_def)
  then show ?thesis using allocate_pages_correct [OF pool_new_inv q] q by (auto simp: allocated_def)
qed

end
