(* ===== verification/Page_Pool_Map.thy ===== *)
theory Page_Pool_Map
  imports Page_Pool_Alloc
begin

text \<open>
  The memory map of the firmware services.  \<open>AllocateAddress\<close> succeeds on every free range, and
  the map shows each page with its type.  Together they give the rule stated at the head of
  \<open>raynu_f/memory.rs\<close>: what the map advertises as conventional can be allocated at its
  address, as long as a tail span is left.
\<close>

section \<open>Every free range can be allocated at its address\<close>

text \<open>One more span can be recorded, for a range that reaches into the tail.\<close>

definition span_left :: "PagePool \<Rightarrow> bool" where
  "span_left p \<longleftrightarrow> (\<exists>s \<in> set (tail_spans p). \<not> sp_used s)"

lemma tail_insert_succeeds:
  assumes "span_left p" "unat k < 2 ^ 32" "unat n < 2 ^ 32" "n \<noteq> 0"
  shows "fst (tail_insert k n t p)"
proof -
  have "find_index (\<lambda>s. \<not> sp_used s) (tail_spans p) \<noteq> None"
    using assms(1) by (auto simp: find_index_None_iff span_left_def)
  then show ?thesis
    using assms(2-4) by (auto simp: tail_insert_def word_less_nat_alt split: option.splits)
qed

lemma tail_free_range:
  assumes "pool_inv p" "tail_index p a n = Some k"
    and "\<forall>x. in_range a n x \<longrightarrow> page_type p x = Some EFI_CONVENTIONAL_MEMORY"
  shows "\<not> tail_busy p k n"
proof
  assume "tail_busy p k n"
  have g: "geometry_ok p" "spans_ok p" using assms(1) by (simp_all add: pool_inv_def)
  have k: "n \<noteq> 0" "unat k + unat n \<le> unat (tail_pages p)" using assms(2) by (simp_all add: tail_index_iff [OF g(1)])
  have lt: "unat k + unat n < 2 ^ 64" using k(2) unat_u64_bound [of "tail_pages p"] by simp
  obtain s j where s: "s \<in> set (tail_spans p)" "unat k \<le> j" "j < unat k + unat n" "covers s j"
    using \<open>tail_busy p k n\<close> unfolding tail_busy_covers [OF g(2) lt k(1)] by blast
  define w :: u64 where "w = of_nat j"
  have w: "unat w = j" unfolding w_def using s(3) lt by (intro unat_of_nat_small) simp
  have "tail_type p w = EFI_CONVENTIONAL_MEMORY" using tail_page [OF g(1) assms(2,3), of w] s(2,3) w by simp
  then show False using s(1,4) w by (auto simp: tail_type_conventional [OF g(2)])
qed

lemma region_free_range:
  assumes "pool_inv p" "unat a = unat (base_of p r) + 4096 * f" "f + unat n \<le> pages_in p r"
    and "\<forall>x. in_range a n x \<longrightarrow> page_type p x = Some EFI_CONVENTIONAL_MEMORY"
  shows "\<not> list_ex (is_used p r) [f..<f + unat n]"
proof -
  have g: "geometry_ok p" using assms(1) by (simp add: pool_inv_def)
  have "\<not> is_used p r j" if j: "f \<le> j" "j < f + unat n" for j
  proof -
    have jl: "j < pages_in p r" using j(2) assms(3) by simp
    have "shown_type p r j = EFI_CONVENTIONAL_MEMORY" using region_page [OF g assms(2-4) j] by simp
    then show ?thesis using shown_conventional [OF assms(1) jl] by simp
  qed
  then show ?thesis by (auto simp: list_ex_iff)
qed

text \<open>The range lies in one region, in the tail, or runs from the high region into the tail.\<close>

definition one_area :: "PagePool \<Rightarrow> u64 \<Rightarrow> u64 \<Rightarrow> bool" where
  "one_area p a n \<longleftrightarrow>
    (case page_of p a of
       Some (r, i) \<Rightarrow> i + unat n \<le> pages_in p r \<or> r = High \<and> i + unat n \<le> high_pages p + unat (tail_pages p)
     | None \<Rightarrow> tail_index p a n \<noteq> None)"

definition needs_span :: "PagePool \<Rightarrow> u64 \<Rightarrow> u64 \<Rightarrow> bool" where
  "needs_span p a n \<longleftrightarrow> (case page_of p a of Some (r, i) \<Rightarrow> pages_in p r < i + unat n | None \<Rightarrow> True)"

lemma across_succeeds:
  assumes "pool_inv p" "page_of p a = Some (High, i)" "high_pages p < i + unat n"
    and "i + unat n \<le> high_pages p + unat (tail_pages p)" "unat (tail_pages p) < 2 ^ 32" "span_left p"
    and "\<forall>x. in_range a n x \<longrightarrow> page_type p x = Some EFI_CONVENTIONAL_MEMORY"
  shows "fst (fst (allocate_across_tail i (unat n) t a p)) = EFI_SUCCESS"
proof -
  have g: "geometry_ok p" using assms(1) by (simp add: pool_inv_def)
  have i: "i < high_pages p" "unat a = unat (high_base p) + 4096 * i"
    using assms(2) by (simp_all add: page_of_iff [OF g] pages_in_def base_of_def)
  define nb :: u64 where "nb = of_nat (high_pages p - i)"
  define nt :: u64 where "nt = of_nat (unat n - (high_pages p - i))"
  have unt: "unat nt = unat n - (high_pages p - i)"
    unfolding nt_def using unat_u64_bound [of n] by (intro unat_of_nat_small) simp
  have unb: "unat nb = high_pages p - i"
    unfolding nb_def using pages_in_small [OF g, of High] by (intro unat_of_nat_small) (simp add: pages_in_def)
  have nt: "nt \<noteq> 0" using unt assms(3) i(1) by (auto simp: word_unat_eq_iff [of nt])
  have sub: "in_range a nb x \<Longrightarrow> in_range a n x" "in_range (tail_base p) nt x \<Longrightarrow> in_range a n x" for x
    using i assms(3) by (auto simp: in_range_def unb unt unat_tail_base [OF g])
  have ix: "tail_index p (tail_base p) nt = Some 0"
    using nt unt assms(4) i(1) by (simp add: tail_index_iff [OF g])
  have "\<not> tail_busy p 0 nt" using tail_free_range [OF assms(1) ix] sub(2) assms(7) by blast
  moreover have "\<not> list_ex (is_used p High) [i..<high_pages p]"
    using region_free_range [OF assms(1), of a High i nb] i sub(1) assms(7)
    by (simp add: unb base_of_def pages_in_def)
  moreover have "fst (tail_insert 0 nt t p)"
    using assms(4-6) unt nt i(1) by (intro tail_insert_succeeds) auto
  moreover have "\<not> unat n \<le> high_pages p - i" "\<not> unat (tail_pages p) < unat n - (high_pages p - i)"
    using assms(3,4) i(1) by simp_all
  ultimately show ?thesis
    using i(1) by (simp only: allocate_across_tail_def Let_def nt_def [symmetric])
      (auto split: prod.split bool.split)
qed

lemma managed_cases:
  assumes "geometry_ok p" "page_type p x \<noteq> None"
  obtains (region) r i where "i < pages_in p r" "unat x = unat (base_of p r) + 4096 * i"
    | (tail) k :: u64 where "unat x = unat (tail_base p) + 4096 * unat k" "unat k < unat (tail_pages p)"
proof (cases "page_of p x")
  case None
  then obtain k where k: "tail_index p x 1 = Some k" using assms(2) by (auto simp: page_type_def)
  then show ?thesis using tail [of k] by (simp add: tail_index_iff [OF assms(1)])
next
  case (Some ri)
  then obtain r i where "page_of p x = Some (r, i)" by (cases ri) simp
  then show ?thesis using region [of i r] by (simp add: page_of_iff [OF assms(1)])
qed

lemma in_range_page:
  assumes "page_aligned a" "j < unat n" "unat a + 4096 * unat n \<le> 2 ^ 64"
  obtains x where "unat x = unat a + 4096 * j" "in_range a n x"
proof -
  have "unat a + 4096 * j < 2 ^ 64" using assms(2,3) by linarith
  then have u: "unat (of_nat (unat a + 4096 * j) :: u64) = unat a + 4096 * j" by (intro unat_of_nat_small) simp
  have "in_range a n (of_nat (unat a + 4096 * j))"
    using assms(1,2) u by (auto simp: in_range_def page_aligned_nat)
  then show ?thesis using u that by blast
qed

text \<open>The slab ends before the report RAM: a free range does not run from one into the other.\<close>

definition high_apart :: "PagePool \<Rightarrow> bool" where
  "high_apart p \<longleftrightarrow> (high_pages p \<noteq> 0 \<longrightarrow> POOL_END < high_base p)"

lemma region_end_unmanaged:
  assumes "geometry_ok p" "high_apart p"
    and "unat x = unat (base_of p r) + 4096 * pages_in p r" "r \<noteq> High" 
  shows "page_type p x = None"
proof (rule ccontr)
  assume "page_type p x \<noteq> None"
  then show False
  proof (cases rule: managed_cases [OF assms(1), consumes 1, case_names region tail])
    case (region r' i)
    have "high_pages p \<noteq> 0 \<Longrightarrow> 4096 * 7936 < unat (high_base p)"
      using assms(2) by (simp add: high_apart_def word_less_nat_alt page_bases)
    then show False
      using region assms(3,4) by (cases r; cases r') (auto simp: base_of_def pages_in_def page_counts page_bases)
  next
    case (tail k)
    then have "tail_pages p \<noteq> 0" by auto
    then have "high_pages p \<noteq> 0" "4096 * 7936 < unat (high_base p)"
      using assms(1,2) by (auto simp: geometry_ok_def high_apart_def word_less_nat_alt page_bases)
    then show False
      using tail assms(3,4) unat_tail_base [OF assms(1)]
      by (cases r) (auto simp: base_of_def pages_in_def page_counts page_bases)
  qed
qed

lemma memory_end_unmanaged:
  assumes "geometry_ok p" "high_pages p \<noteq> 0"
    and "unat x = unat (high_base p) + 4096 * (high_pages p + unat (tail_pages p))"
  shows "page_type p x = None"
proof (rule ccontr)
  assume "page_type p x \<noteq> None"
  then show False
  proof (cases rule: managed_cases [OF assms(1), consumes 1, case_names region tail])
    case (region r i)
    have "4096 * 7936 \<le> unat (high_base p)" using assms(1,2) by (simp add: geometry_ok_def word_le_nat_alt page_bases)
    then show False
      using region assms(3) by (cases r) (auto simp: base_of_def pages_in_def page_counts page_bases)
  next
    case (tail k)
    then show False using assms(3) unat_tail_base [OF assms(1)] by simp
  qed
qed

lemma managed_one_area:
  assumes "geometry_ok p" "high_apart p" "n \<noteq> 0" "page_aligned a" "unat a + 4096 * unat n \<le> 2 ^ 64"
    and "\<forall>x. in_range a n x \<longrightarrow> page_type p x \<noteq> None"
  shows "one_area p a n"
proof (rule ccontr)
  assume no: "\<not> one_area p a n"
  have n: "0 < unat n" using assms(3) by (simp add: word_unat_eq_iff)
  have managed: "page_type p x \<noteq> None" if x: "unat x = unat a + 4096 * j" "j < unat n" for x j
  proof -
    obtain y where "unat y = unat a + 4096 * j" "in_range a n y" by (rule in_range_page [OF assms(4) x(2) assms(5)])
    then show ?thesis using assms(6) x(1) word_eq_unatI [of x y] by auto
  qed
  have out: "\<exists>x :: u64. unat x = unat a + 4096 * j" if j: "j < unat n" for j
    using in_range_page [OF assms(4) j assms(5)] by metis
  have "page_type p a \<noteq> None" using managed [of a 0] n by simp
  then show False
  proof (cases rule: managed_cases [OF assms(1), consumes 1, case_names region tail])
    case (region r i)
    then have at: "page_of p a = Some (r, i)" by (simp add: page_of_iff [OF assms(1)])
    then have short: "pages_in p r < i + unat n" using no by (auto simp: one_area_def)
    show False
    proof (cases "r = High")
      case False
      have j: "pages_in p r - i < unat n" using short region(1) by simp
      obtain x :: u64 where x: "unat x = unat a + 4096 * (pages_in p r - i)" using out [OF j] by blast
      then have "unat x = unat (base_of p r) + 4096 * pages_in p r" using region by (simp add: diff_mult_distrib2)
      then show False using region_end_unmanaged [OF assms(1,2) _ False] managed [OF x j] by simp
    next
      case True
      let ?e = "high_pages p + unat (tail_pages p)"
      have e: "?e < i + unat n" "i < high_pages p" using no at True region(1) by (auto simp: one_area_def pages_in_def)
      have j: "?e - i < unat n" using e by simp
      obtain x :: u64 where x: "unat x = unat a + 4096 * (?e - i)" using out [OF j] by blast
      then have "unat x = unat (high_base p) + 4096 * ?e"
        using region(2) True e(2) by (simp add: base_of_def diff_mult_distrib2)
      then show False using memory_end_unmanaged [OF assms(1)] managed [OF x j] e(2) by simp
    qed
  next
    case (tail k)
    have ix: "tail_index p a 1 = Some k" using tail by (simp add: tail_index_iff [OF assms(1)])
    have "page_of p a = None" by (rule tail_not_region [OF assms(1) ix])
    then have short: "unat (tail_pages p) < unat k + unat n"
      using no tail assms(3) by (auto simp: one_area_def tail_index_iff [OF assms(1)])
    then have j: "unat (tail_pages p) - unat k < unat n" using tail(2) by simp
    obtain x :: u64 where x: "unat x = unat a + 4096 * (unat (tail_pages p) - unat k)" using out [OF j] by blast
    then have "unat x = unat (high_base p) + 4096 * (high_pages p + unat (tail_pages p))"
      using tail unat_tail_base [OF assms(1)] by (simp add: diff_mult_distrib2)
    moreover have "high_pages p \<noteq> 0" using assms(1) tail(2) by (auto simp: geometry_ok_def)
    ultimately show False using memory_end_unmanaged [OF assms(1)] managed [OF x j] by simp
  qed
qed

lemma allocate_address_succeeds:
  assumes "pool_inv p" "n \<noteq> 0" "alloc_type_ok t" "one_area p a n" "unat (tail_pages p) < 2 ^ 32"
    and "needs_span p a n \<longrightarrow> span_left p"
    and "\<forall>x. in_range a n x \<longrightarrow> page_type p x = Some EFI_CONVENTIONAL_MEMORY"
  shows "fst (fst (allocate_pages ALLOCATE_ADDRESS t n a p)) = EFI_SUCCESS"
proof -
  have g: "geometry_ok p" using assms(1) by (simp add: pool_inv_def)
  have run: "unat n \<le> max_run p"
    using assms(4) unat_u64_bound [of n]
    by (auto simp: one_area_def max_run_def Let_def pages_in_def tail_index_iff [OF g] le_max_iff_disj
        split: option.splits Region.splits)
  note steps = allocate_pages_def Let_def alloc_kinds if_False if_True simp_thms
  have guards: "\<not> (n = 0 \<or> max_run p < unat n)" "\<not> (EFI_MAX_MEMORY_TYPE \<le> t \<or>
      t = EFI_CONVENTIONAL_MEMORY \<or> t = EFI_RESERVED_MEMORY_TYPE)"
    using assms(2,3) run by (auto simp: alloc_type_ok_def)
  show ?thesis
  proof (cases "page_of p a")
    case None
    then obtain k where k: "tail_index p a n = Some k" using assms(4) by (auto simp: one_area_def)
    have "unat k < 2 ^ 32" "unat n < 2 ^ 32" using k assms(2,5) by (auto simp: tail_index_iff [OF g])
    then have "fst (tail_insert k n t p)"
      using assms(2,6) None by (intro tail_insert_succeeds) (auto simp: needs_span_def)
    moreover have "\<not> tail_busy p k n" by (rule tail_free_range [OF assms(1) k assms(7)])
    ultimately show ?thesis
      by (simp only: steps guards None k option.case) (auto simp: allocate_tail_at_def k split: prod.split bool.split)
  next
    case (Some ri)
    obtain r i where ri: "ri = (r, i)" by (cases ri)
    have i: "i < pages_in p r" "unat a = unat (base_of p r) + 4096 * i"
      using Some ri by (simp_all add: page_of_iff [OF g])
    have ua: "usize_add i (unat n) = i + unat n" by (rule alloc_index_small [OF g i(1) run])
    show ?thesis
    proof (cases "i + unat n \<le> pages_in p r")
      case True
      then have "\<not> list_ex (is_used p r) [i..<i + unat n]" by (rule region_free_range [OF assms(1) i(2) _ assms(7)])
      then show ?thesis
        using True by (simp only: steps guards Some ri option.case prod.case ua) (simp add: finish_alloc_def Let_def)
    next
      case False
      then have "r = High" "i + unat n \<le> high_pages p + unat (tail_pages p)" "high_pages p < i + unat n"
        using assms(4) Some ri by (auto simp: one_area_def pages_in_def)
      moreover have "span_left p" using assms(6) Some ri False by (simp add: needs_span_def)
      ultimately show ?thesis
        using False across_succeeds [OF assms(1) _ _ _ assms(5) _ assms(7), of i t] Some ri
        by (simp only: steps guards Some ri option.case prod.case ua)
    qed
  qed
qed


section \<open>The memory map\<close>

text \<open>What a list of map events, and a finished map, say of a page address.\<close>

definition ev_at :: "map_event \<Rightarrow> u64 \<Rightarrow> bool" where
  "ev_at ev x \<longleftrightarrow> page_aligned x \<and> fst (snd ev) \<le> x \<and> x < snd (snd ev)"

definition run_at :: "MemRun \<Rightarrow> u64 \<Rightarrow> bool" where
  "run_at m x \<longleftrightarrow> in_range (run_start m) (run_pages m) x"

definition events_show :: "map_event list \<Rightarrow> u32 \<Rightarrow> u64 \<Rightarrow> bool" where
  "events_show evs t x \<longleftrightarrow> (\<exists>ev \<in> set evs. fst ev = t \<and> ev_at ev x)"

definition map_shows :: "MemRun list \<Rightarrow> u32 \<Rightarrow> u64 \<Rightarrow> bool" where
  "map_shows out t x \<longleftrightarrow> (\<exists>m \<in> set out. run_typ m = t \<and> run_at m x)"

lemma events_show_simps [simp]:
  "\<not> events_show [] t x"
  "events_show (ev # evs) t x \<longleftrightarrow> fst ev = t \<and> ev_at ev x \<or> events_show evs t x"
  "events_show (evs @ evs') t x \<longleftrightarrow> events_show evs t x \<or> events_show evs' t x"
  by (auto simp: events_show_def)

lemma map_shows_simps [simp]:
  "\<not> map_shows [] t x"
  "map_shows (out @ out') t x \<longleftrightarrow> map_shows out t x \<or> map_shows out' t x"
  "map_shows [m] t x \<longleftrightarrow> run_typ m = t \<and> run_at m x"
  by (auto simp: map_shows_def)

definition run_fin :: "MemRun \<Rightarrow> nat" where
  "run_fin m = unat (run_start m) + 4096 * unat (run_pages m)"

text \<open>The events are page-aligned and ordered, from \<open>lo\<close> to \<open>hi\<close>.\<close>

fun ev_chain :: "nat \<Rightarrow> map_event list \<Rightarrow> nat \<Rightarrow> bool" where
  "ev_chain lo [] hi \<longleftrightarrow> lo \<le> hi"
| "ev_chain lo ((t, s, f) # evs) hi \<longleftrightarrow>
    lo \<le> unat s \<and> s \<le> f \<and> page_aligned s \<and> page_aligned f \<and> ev_chain (unat f) evs hi"

lemma ev_chain_weaken: "ev_chain lo evs hi \<Longrightarrow> lo' \<le> lo \<Longrightarrow> ev_chain lo' evs hi"
  by (cases evs) auto

lemma ev_chain_append: "ev_chain lo xs mid \<Longrightarrow> ev_chain mid ys hi \<Longrightarrow> ev_chain lo (xs @ ys) hi"
  by (induction lo xs mid rule: ev_chain.induct) (auto intro: ev_chain_weaken)

text \<open>The map built so far, from events that end at \<open>hi\<close> or before.\<close>

definition map_so_far :: "map_event list \<Rightarrow> nat \<Rightarrow> MemRun list \<Rightarrow> bool" where
  "map_so_far evs hi out \<longleftrightarrow>
    sorted_wrt (\<lambda>m m'. run_fin m \<le> unat (run_start m')) out \<and>
    (\<forall>m \<in> set out. page_aligned (run_start m) \<and> run_pages m \<noteq> 0 \<and> run_fin m \<le> hi) \<and>
    (\<forall>t x. map_shows out t x \<longrightarrow> events_show evs t x) \<and>
    (length out < MAX_DESCRIPTORS \<longrightarrow> (\<forall>t x. events_show evs t x \<longrightarrow> map_shows out t x))"

lemma event_run:
  assumes "s < f" "page_aligned s" "page_aligned f"
  shows "unat s + 4096 * unat ((f - s) div 4096) = unat f"
    and "ev_at (t, s, f) x \<longleftrightarrow> in_range s ((f - s) div 4096) x" and "(f - s) div 4096 \<noteq> 0"
proof -
  have sub: "unat (f - s) = unat f - unat s" using assms(1) by (intro unat_sub_le) simp
  have "4096 dvd unat f - unat s" using assms(2,3) by (simp add: page_aligned_nat mod_eq_0_iff_dvd dvd_diff_nat)
  then show fin: "unat s + 4096 * unat ((f - s) div 4096) = unat f"
    using assms(1) by (simp add: unat_div sub word_less_nat_alt)
  show "ev_at (t, s, f) x \<longleftrightarrow> in_range s ((f - s) div 4096) x"
    unfolding in_range_def fin by (simp add: ev_at_def word_le_nat_alt word_less_nat_alt)
  show "(f - s) div 4096 \<noteq> 0" using fin assms(1) by (auto simp: word_less_nat_alt)
qed


lemma map_so_farI:
  assumes "map_so_far evs hi (out @ old)" "hi \<le> unat s" "unat s \<le> run_fin m" "run_fin m \<le> hi'"
    and "\<forall>m' \<in> set out. run_fin m' \<le> unat (run_start m)" "page_aligned (run_start m)" "run_pages m \<noteq> 0"
    and "\<And>t x. map_shows [m] t x \<longleftrightarrow> map_shows old t x \<or> events_show new t x" "length old \<le> 1"
  shows "map_so_far (evs @ new) hi' (out @ [m])"
proof -
  have srt: "sorted_wrt (\<lambda>m m'. run_fin m \<le> unat (run_start m')) out"
    and runs: "\<forall>m \<in> set out. page_aligned (run_start m) \<and> run_pages m \<noteq> 0 \<and> run_fin m \<le> hi"
    and sound: "map_shows (out @ old) t x \<Longrightarrow> events_show evs t x"
    and complete: "length (out @ old) < MAX_DESCRIPTORS \<Longrightarrow> events_show evs t x \<Longrightarrow> map_shows (out @ old) t x" for t x
    using assms(1) by (auto simp: map_so_far_def sorted_wrt_append)
  have "\<forall>m' \<in> set (out @ [m]). page_aligned (run_start m') \<and> run_pages m' \<noteq> 0 \<and> run_fin m' \<le> hi'"
    using runs assms(2-4,6,7) by fastforce
  moreover have "sorted_wrt (\<lambda>m m'. run_fin m \<le> unat (run_start m')) (out @ [m])"
    using srt assms(5) by (simp add: sorted_wrt_append)
  moreover have "map_shows (out @ [m]) t x \<Longrightarrow> events_show (evs @ new) t x" for t x
    using sound [of t x] assms(8) by auto
  moreover have "events_show (evs @ new) t x \<Longrightarrow> map_shows (out @ [m]) t x" if "length (out @ [m]) < MAX_DESCRIPTORS" for t x
    using complete [of t x] assms(8,9) that by auto
  ultimately show ?thesis by (simp only: map_so_far_def) blast
qed

lemma map_push_append:
  assumes "map_so_far evs hi out" "hi \<le> unat s" "s < f" "page_aligned s" "page_aligned f"
  shows "map_so_far (evs @ [(t, s, f)]) (unat f)
    (out @ [\<lparr>run_typ = t, run_start = s, run_pages = (f - s) div 4096\<rparr>])"
proof (rule map_so_farI [where old = "[]" and s = s])
  note e = event_run [OF assms(3-5)]
  show "map_so_far evs hi (out @ [])" "hi \<le> unat s" using assms by simp_all
  let ?m = "\<lparr>run_typ = t, run_start = s, run_pages = (f - s) div 4096\<rparr>"
  show "unat s \<le> run_fin ?m" "run_fin ?m \<le> unat f" "run_pages ?m \<noteq> 0" "page_aligned (run_start ?m)"
    using e assms by (simp_all add: run_fin_def)
  show "\<forall>m' \<in> set out. run_fin m' \<le> unat (run_start ?m)"
    using assms(1,2) by (auto simp: map_so_far_def)
  show "map_shows [?m] u x \<longleftrightarrow> map_shows [] u x \<or> events_show [(t, s, f)] u x" for u x
    by (simp add: run_at_def e(2))
qed simp

lemma map_push_merge:
  assumes "map_so_far evs hi (out @ [m])" "hi \<le> unat s" "s < f" "page_aligned s" "page_aligned f"
    and "run_typ m = t" "run_start m + run_pages m * 4096 = s"
  shows "map_so_far (evs @ [(t, s, f)]) (unat f)
    (out @ [m\<lparr>run_pages := run_pages m + (f - s) div 4096\<rparr>])"
proof -
  note e = event_run [OF assms(3-5)]
  let ?n = "(f - s) div 4096" let ?m = "m\<lparr>run_pages := run_pages m + ?n\<rparr>"
  have lt: "unat s < unat f" using assms(3) by (simp add: word_less_nat_alt)
  have "run_fin m \<le> unat s" using assms(1,2) by (simp add: map_so_far_def)
  then have fin: "run_fin m < 2 ^ 64" using unat_u64_bound [of s] by simp
  then have "unat (run_pages m * 4096) = 4096 * unat (run_pages m)"
    by (subst unat_mult_small) (simp_all add: run_fin_def)
  then have s: "unat s = run_fin m"
    using fin unfolding assms(7) [symmetric] by (subst unat_add_small) (simp_all add: run_fin_def)
  have n: "unat (run_pages m + ?n) = unat (run_pages m) + unat ?n"
    using e(1) s unat_u64_bound [of f] by (intro unat_add_small) (simp add: run_fin_def)
  have fin': "run_fin ?m = unat f" using e(1) s n by (simp add: run_fin_def)
  have at: "run_at ?m x \<longleftrightarrow> run_at m x \<or> ev_at (t, s, f) x" for x
    unfolding run_at_def e(2) in_range_def using e(1) s lt n by (auto simp: run_fin_def)
  have "unat (run_pages ?m) \<noteq> 0" using n e(3) by (simp add: word_unat_eq_iff)
  then have "run_pages ?m \<noteq> 0" by auto
  moreover have "page_aligned (run_start m)" "\<forall>m' \<in> set out. run_fin m' \<le> unat (run_start m)"
    using assms(1) by (auto simp: map_so_far_def sorted_wrt_append)
  moreover have "map_shows [?m] u x \<longleftrightarrow> map_shows [m] u x \<or> events_show [(t, s, f)] u x" for u x
    using at assms(6) by auto
  ultimately show ?thesis
    using fin' lt by (intro map_so_farI [OF assms(1,2)]) simp_all
qed

lemma map_push_step:
  assumes "map_so_far evs hi out" "hi \<le> unat s" "s \<le> f" "page_aligned s" "page_aligned f"
  shows "map_so_far (evs @ [(t, s, f)]) (unat f) (map_push (t, s, f) out)"
proof (cases "f \<le> s \<or> MAX_DESCRIPTORS \<le> length out")
  case True
  have "hi \<le> unat f" using assms(2,3) by (simp add: word_le_nat_alt)
  moreover have "\<not> ev_at (t, s, f) x" if "f \<le> s" for x using that by (auto simp: ev_at_def)
  ultimately show ?thesis using assms(1) True by (auto simp: map_so_far_def map_push_def)
next
  case False
  then have sf: "s < f" by (simp add: not_le)
  show ?thesis
  proof (cases "out \<noteq> [] \<and> run_typ (last out) = t \<and> run_start (last out) + run_pages (last out) * 4096 = s")
    case True
    then have o: "out = butlast out @ [last out]" by simp
    show ?thesis
      using map_push_merge [OF _ assms(2) sf assms(4,5), of evs "butlast out" "last out"] assms(1) True False
      by (simp add: map_push_def Let_def flip: o)
  next
    case no: False
    then show ?thesis
      using map_push_append [OF assms(1,2) sf assms(4,5), of t] False by (auto simp: map_push_def Let_def)
  qed
qed

lemma map_fold:
  "map_so_far old lo out \<Longrightarrow> ev_chain lo evs hi \<Longrightarrow> map_so_far (old @ evs) hi (fold map_push evs out)"
proof (induction lo evs hi arbitrary: old out rule: ev_chain.induct)
  case (1 lo hi)
  then show ?case by (auto simp: map_so_far_def)
next
  case (2 lo t s f evs hi)
  then have "map_so_far (old @ [(t, s, f)]) (unat f) (map_push (t, s, f) out)" by (intro map_push_step) auto
  then show ?case using 2 by fastforce
qed


text \<open>One region.\<close>

definition same_shown :: "PagePool \<Rightarrow> Region \<Rightarrow> nat \<Rightarrow> nat \<Rightarrow> bool" where
  "same_shown p r i j \<longleftrightarrow> (\<forall>k. i \<le> k \<and> k < j \<longrightarrow> shown_type p r k = shown_type p r i)"

lemma same_shown_step: "same_shown p r i j \<Longrightarrow> shown_type p r j = shown_type p r i \<Longrightarrow> same_shown p r i (j + 1)"
  unfolding same_shown_def by (metis Suc_eq_plus1 less_Suc_eq)

lemma run_end_facts:
  "j \<le> limit \<Longrightarrow> same_shown p r i j \<Longrightarrow>
    run_end p r limit i j \<le> limit \<and> same_shown p r i (run_end p r limit i j)"
proof (induction p r limit i j rule: run_end.induct)
  case (1 p r limit i j)
  show ?case
  proof (cases "j < limit \<and> is_used p r j = is_used p r i \<and> shown_type p r j = shown_type p r i")
    case True
    then have "run_end p r limit i j = run_end p r limit i (j + 1)" by (subst run_end.simps) simp
    then show ?thesis using 1(1) True same_shown_step [OF 1(3)] by simp
  next
    case False
    then have "run_end p r limit i j = j" by (subst run_end.simps) auto
    then show ?thesis using 1(2,3) by simp
  qed
qed

lemma region_event:
  assumes "geometry_ok p" "i < j" "j \<le> pages_in p r"
  shows "ev_at (t, base_of p r + of_nat i * 4096, base_of p r + of_nat j * 4096) x \<longleftrightarrow>
    (\<exists>k. page_of p x = Some (r, k) \<and> i \<le> k \<and> k < j)"
proof -
  define n :: u64 where "n = of_nat (j - i)"
  have n: "unat n = j - i"
    unfolding n_def using pages_in_small [OF assms(1), of r] assms(3) by (intro unat_of_nat_small) simp
  let ?a = "base_of p r + of_nat i * 4096"
  have a: "unat ?a = unat (base_of p r) + 4096 * i" using assms(2,3) by (intro unat_region_addr [OF assms(1)]) simp
  have f: "unat (base_of p r + of_nat j * 4096) = unat (base_of p r) + 4096 * j"
    by (rule unat_region_addr [OF assms(1,3)])
  have "ev_at (t, ?a, base_of p r + of_nat j * 4096) x \<longleftrightarrow> in_range ?a n x"
    using assms(2) by (auto simp: ev_at_def in_range_def word_le_nat_alt word_less_nat_alt a f n)
  also have "\<dots> \<longleftrightarrow> (\<exists>k. page_of p x = Some (r, k) \<and> i \<le> k \<and> k < i + unat n)"
    using assms(2,3) n by (intro in_range_region [OF assms(1) a]) simp
  finally show ?thesis using n assms(2) by simp
qed

lemma region_runs_step:
  assumes "i < pages_in p r"
  obtains j where "i < j" "j \<le> pages_in p r" "same_shown p r i j"
    and "region_runs_from p r i =
      (shown_type p r i, base_of p r + of_nat i * 4096, base_of p r + of_nat j * 4096) # region_runs_from p r j"
proof
  let ?j = "run_end p r (pages_in p r) i (i + 1)"
  have "same_shown p r i (i + 1)" by (auto simp: same_shown_def less_Suc_eq)
  then show "i < ?j" "?j \<le> pages_in p r" "same_shown p r i ?j"
    using run_end_gt [of i p r "pages_in p r"] run_end_facts [of "i + 1" "pages_in p r" p r i] assms by auto
  show "region_runs_from p r i =
      (shown_type p r i, base_of p r + of_nat i * 4096, base_of p r + of_nat ?j * 4096) # region_runs_from p r ?j"
    using assms by (subst region_runs_from.simps) (simp add: Let_def)
qed

lemma region_runs_done: "pages_in p r \<le> i \<Longrightarrow> region_runs_from p r i = []"
  by (subst region_runs_from.simps) simp

lemma region_runs_show:
  assumes "geometry_ok p"
  shows "events_show (region_runs_from p r i) t x \<longleftrightarrow>
    (\<exists>k. page_of p x = Some (r, k) \<and> i \<le> k \<and> shown_type p r k = t)"
proof (induction "pages_in p r - i" arbitrary: i rule: less_induct)
  case less
  show ?case
  proof (cases "i < pages_in p r")
    case False
    then show ?thesis by (auto simp: region_runs_done page_of_iff [OF assms])
  next
    case True
    then obtain j where j: "i < j" "j \<le> pages_in p r" "same_shown p r i j"
        and step: "region_runs_from p r i =
          (shown_type p r i, base_of p r + of_nat i * 4096, base_of p r + of_nat j * 4096) # region_runs_from p r j"
      by (rule region_runs_step)
    have IH: "events_show (region_runs_from p r j) t x \<longleftrightarrow>
        (\<exists>k. page_of p x = Some (r, k) \<and> j \<le> k \<and> shown_type p r k = t)"
      using True j(1) by (intro less) simp
    have same: "shown_type p r k = t \<longleftrightarrow> shown_type p r i = t" if "i \<le> k" "k < j" for k
      using j(3) that unfolding same_shown_def by metis
    have split: "i \<le> k \<longleftrightarrow> i \<le> k \<and> k < j \<or> j \<le> k" for k using j(1) by auto
    show ?thesis
      unfolding step events_show_simps region_event [OF assms j(1,2)] IH fst_conv
      using same split by blast
  qed
qed

lemma region_runs_chain:
  assumes "geometry_ok p" "i \<le> pages_in p r"
  shows "ev_chain (unat (base_of p r) + 4096 * i) (region_runs_from p r i) (unat (base_of p r) + 4096 * pages_in p r)"
  using assms(2)
proof (induction "pages_in p r - i" arbitrary: i rule: less_induct)
  case less
  show ?case
  proof (cases "i < pages_in p r")
    case False
    then show ?thesis using less(2) by (simp add: region_runs_done)
  next
    case True
    then obtain j where j: "i < j" "j \<le> pages_in p r"
        and step: "region_runs_from p r i =
          (shown_type p r i, base_of p r + of_nat i * 4096, base_of p r + of_nat j * 4096) # region_runs_from p r j"
      by (rule region_runs_step)
    note a = unat_region_addr [OF assms(1) less(2)] unat_region_addr [OF assms(1) j(2)]
    have al: "page_aligned (base_of p r)" by (rule region_aligned [OF assms(1) True])
    show ?thesis
      unfolding step ev_chain.simps a using j less(1) [of j] True
      by (auto simp: word_le_nat_alt a intro: page_aligned_offset [OF al a(1)] page_aligned_offset [OF al a(2)])
  qed
qed


text \<open>The tail.\<close>

lemma unat_tail_addr:
  assumes "geometry_ok p" "unat c \<le> unat (tail_pages p)"
  shows "unat (tail_base p + c * 4096) = unat (tail_base p) + 4096 * unat c"
proof -
  have "unat (tail_base p) + 4096 * unat (tail_pages p) \<le> 2 ^ 52"
    using assms(1) unat_tail_base [OF assms(1)] by (simp add: geometry_ok_def add_mult_distrib2)
  then have sm: "unat (tail_base p) + 4096 * unat c \<le> 2 ^ 52" using assms(2) by linarith
  have m: "unat (c * 4096) = 4096 * unat c" using sm by (subst unat_mult_small) simp_all
  show ?thesis using sm by (subst unat_add_small) (simp_all add: m)
qed

lemma tail_event:
  assumes "geometry_ok p" "unat c \<le> unat d" "unat d \<le> unat (tail_pages p)"
  shows "ev_at (t, tail_base p + c * 4096, tail_base p + d * 4096) x \<longleftrightarrow>
    (\<exists>k. tail_index p x 1 = Some k \<and> unat c \<le> unat k \<and> unat k < unat d)"
proof (cases "c = d")
  case True
  then show ?thesis by (auto simp: ev_at_def)
next
  case False
  have n: "unat (d - c) = unat d - unat c" using assms(2) by (intro unat_sub_le) (simp add: word_le_nat_alt)
  have nz: "d - c \<noteq> 0" using False by simp
  have fit: "unat c + unat (d - c) \<le> unat (tail_pages p)" using n assms(2,3) by simp
  have ix: "tail_index p (tail_base p + c * 4096) (d - c) = Some c" by (rule tail_index_at(1) [OF assms(1) fit nz])
  have cl: "unat c \<le> unat (tail_pages p)" using assms(2,3) by simp
  have "ev_at (t, tail_base p + c * 4096, tail_base p + d * 4096) x \<longleftrightarrow> in_range (tail_base p + c * 4096) (d - c) x"
    using assms(2) by (auto simp: ev_at_def in_range_def word_le_nat_alt word_less_nat_alt n
        unat_tail_addr [OF assms(1) cl] unat_tail_addr [OF assms(1,3)])
  then show ?thesis unfolding in_range_tail [OF assms(1) ix] using n assms(2) by simp
qed

lemma gap_type:
  assumes "scan_pos p ks c" "\<forall>k \<in> set ks. unat w < unat (sp_start (span_at p k))" "unat c \<le> unat w"
  shows "tail_type p w = EFI_CONVENTIONAL_MEMORY"
proof (rule tail_type_free, rule)
  assume "\<exists>s \<in> set (tail_spans p). covers s (unat w)"
  then obtain i where i: "i < length (tail_spans p)" "covers (span_at p i) (unat w)" by (auto simp: in_set_conv_nth)
  show False
  proof (cases "i \<in> set ks")
    case True
    then show False using assms(2) i(2) by (auto simp: covers_def)
  next
    case False
    then have "unat (span_end (span_at p i)) \<le> unat c" using assms(1) i by (auto simp: scan_pos_def covers_def)
    then show False using i(2) assms(3) by (auto simp: covers_def unat_span_end)
  qed
qed

lemma tail_index_bound:
  "geometry_ok p \<Longrightarrow> tail_index p x 1 = Some k \<Longrightarrow> unat k < unat (tail_pages p)"
  by (simp add: tail_index_iff)

lemma emit_spans_show:
  assumes "pool_inv p"
  shows "scan_pos p ks c \<Longrightarrow> events_show (emit_spans p ks c) t x \<longleftrightarrow>
    (\<exists>k. tail_index p x 1 = Some k \<and> unat c \<le> unat k \<and> tail_type p k = t)"
proof (induction ks arbitrary: c)
  case Nil
  have g: "geometry_ok p" using assms by (simp add: pool_inv_def)
  have c: "unat c \<le> unat (tail_pages p)" using Nil by (simp add: scan_pos_def)
  have "tail_type p k = EFI_CONVENTIONAL_MEMORY" if "unat c \<le> unat k" for k using gap_type [OF Nil _ that] by simp
  then show ?case
    using tail_event [OF g c order.refl, of _ x] tail_index_bound [OF g, of x]
    by (auto simp: word_less_nat_alt)
next
  case (Cons k ks)
  have g: "geometry_ok p" "spans_ok p" using assms by (simp_all add: pool_inv_def)
  let ?s = "span_at p k"
  have k: "k < length (tail_spans p)" "sp_used ?s" "unat c \<le> unat (sp_start ?s)"
    using Cons.prems by (simp_all add: scan_pos_def)
  have u: "unat (ucast (sp_start ?s) :: u64) = unat (sp_start ?s)" by (rule unat_u32_u64)
  have le: "unat (ucast (sp_start ?s) :: u64) \<le> unat (span_end ?s)" "unat (span_end ?s) \<le> unat (tail_pages p)"
    using g(2) k by (auto simp: spans_ok_def span_ok_def unat_span_end u)
  have IH: "events_show (emit_spans p ks (span_end ?s)) t x \<longleftrightarrow>
      (\<exists>k. tail_index p x 1 = Some k \<and> unat (span_end ?s) \<le> unat k \<and> tail_type p k = t)"
    by (rule Cons.IH [OF scan_pos_step [OF g(2) Cons.prems]])
  have gap: "tail_type p w = EFI_CONVENTIONAL_MEMORY" if "unat c \<le> unat w" "unat w < unat (sp_start ?s)" for w
    using that Cons.prems
    by (intro gap_type [OF Cons.prems]) (auto simp: scan_pos_def word_le_nat_alt)
  have used: "tail_type p w = ucast (sp_typ ?s)" if "unat (sp_start ?s) \<le> unat w" "unat w < unat (span_end ?s)" for w
    using that k by (intro tail_type_covers [OF g(2) nth_mem]) (simp_all add: covers_def unat_span_end)
  have cs: "unat c \<le> unat (ucast (sp_start ?s) :: u64)" "unat (ucast (sp_start ?s) :: u64) \<le> unat (tail_pages p)"
    using k(3) le by (simp_all add: u)
  note ev = tail_event [OF g(1) cs, of _ x] tail_event [OF g(1) le, of _ x]
  have split: "unat c \<le> unat w \<longleftrightarrow> unat c \<le> unat w \<and> unat w < unat (sp_start ?s) \<or>
      unat (sp_start ?s) \<le> unat w \<and> unat w < unat (span_end ?s) \<or> unat (span_end ?s) \<le> unat w" for w :: u64
    using k(3) le(1) u by auto
  have first: "events_show (if c < ucast (sp_start ?s) then [(EFI_CONVENTIONAL_MEMORY, tail_base p + c * 4096,
        tail_base p + ucast (sp_start ?s) * 4096)] else []) t x \<longleftrightarrow>
      (\<exists>k. tail_index p x 1 = Some k \<and> unat c \<le> unat k \<and> unat k < unat (sp_start ?s) \<and> tail_type p k = t)"
    using gap by (auto simp: ev(1) u word_less_nat_alt)
  have second: "events_show [(ucast (sp_typ ?s), tail_base p + ucast (sp_start ?s) * 4096,
        tail_base p + span_end ?s * 4096)] t x \<longleftrightarrow>
      (\<exists>k. tail_index p x 1 = Some k \<and> unat (sp_start ?s) \<le> unat k \<and> unat k < unat (span_end ?s) \<and> tail_type p k = t)"
    using used by (auto simp: ev(2) u)
  show ?case
    unfolding emit_spans.simps Let_def events_show_simps(3) first second IH using split by blast
qed

lemma emit_spans_chain:
  assumes "pool_inv p" "tail_pages p \<noteq> 0"
  shows "scan_pos p ks c \<Longrightarrow> ev_chain (unat (tail_base p) + 4096 * unat c) (emit_spans p ks c)
    (unat (tail_base p) + 4096 * unat (tail_pages p))"
proof (induction ks arbitrary: c)
  case Nil
  have g: "geometry_ok p" using assms by (simp add: pool_inv_def)
  have al: "page_aligned (tail_base p)"
    using g assms(2) unat_tail_base [OF g] by (auto simp: geometry_ok_def page_aligned_nat)
  have c: "unat c \<le> unat (tail_pages p)" using Nil by (simp add: scan_pos_def)
  note a = unat_tail_addr [OF g c] unat_tail_addr [OF g order.refl]
  show ?case using c page_aligned_offset [OF al a(1)] page_aligned_offset [OF al a(2)]
    by (auto simp: a word_le_nat_alt)
next
  case (Cons k ks)
  have g: "geometry_ok p" "spans_ok p" using assms by (simp_all add: pool_inv_def)
  have al: "page_aligned (tail_base p)"
    using g assms(2) unat_tail_base [OF g(1)] by (auto simp: geometry_ok_def page_aligned_nat)
  let ?s = "span_at p k"
  have k: "k < length (tail_spans p)" "sp_used ?s" "unat c \<le> unat (sp_start ?s)"
    using Cons.prems by (simp_all add: scan_pos_def)
  have u: "unat (ucast (sp_start ?s) :: u64) = unat (sp_start ?s)" by (rule unat_u32_u64)
  have le: "unat (sp_start ?s) \<le> unat (span_end ?s)" "unat (span_end ?s) \<le> unat (tail_pages p)"
    using g(2) k by (auto simp: spans_ok_def span_ok_def unat_span_end)
  have c: "unat c \<le> unat (tail_pages p)" "unat (ucast (sp_start ?s) :: u64) \<le> unat (tail_pages p)"
    using k(3) le u by simp_all
  note a = unat_tail_addr [OF g(1) c(1)] unat_tail_addr [OF g(1) c(2)] unat_tail_addr [OF g(1) le(2)]
  note pa = page_aligned_offset [OF al a(1)] page_aligned_offset [OF al a(2)] page_aligned_offset [OF al a(3)]
  show ?case
    using Cons.IH [OF scan_pos_step [OF g(2) Cons.prems]] pa le k(3)
    by (auto simp: a u word_le_nat_alt Let_def)
qed


text \<open>The whole map.  The slab covers the pool window and ends at or before the report RAM.\<close>

definition slab_ok :: "PagePool \<Rightarrow> u64 \<Rightarrow> bool" where
  "slab_ok p slab \<longleftrightarrow> page_aligned slab \<and> POOL_END < slab \<and> (high_pages p \<noteq> 0 \<longrightarrow> slab \<le> high_base p)"

lemma slab_high_apart: "slab_ok p slab \<Longrightarrow> high_apart p"
  by (auto simp: slab_ok_def high_apart_def)

text \<open>The events that do not depend on the pool.\<close>

definition fixed_low :: "map_event list" where
  "fixed_low = [(EFI_RESERVED_MEMORY_TYPE, 0, BELOW1M_BASE)]"

definition fixed_mid :: "map_event list" where
  "fixed_mid =
    [(EFI_RESERVED_MEMORY_TYPE, BELOW1M_END, 0x100000),
     (EFI_BOOT_SERVICES_DATA, 0x100000, F2_IDENTITY_PML4),
     (EFI_RESERVED_MEMORY_TYPE, F2_IDENTITY_PML4, F2_TABLES_BASE),
     (EFI_RUNTIME_SERVICES_CODE, F2_TABLES_BASE, F2_TABLES_BASE + IMAGE_ACPI_OFF),
     (EFI_ACPI_RECLAIM_MEMORY, F2_TABLES_BASE + IMAGE_ACPI_OFF, F2_TABLES_BASE + TABLES_IMAGE_BYTES),
     (EFI_BOOT_SERVICES_DATA, F2_TABLES_BASE + TABLES_IMAGE_BYTES, F2_APP_LOAD_BASE),
     (EFI_LOADER_CODE, F2_APP_LOAD_BASE, F2_APP_LOAD_BASE + TESTAPP_SIZE_OF_IMAGE),
     (EFI_BOOT_SERVICES_DATA, F2_APP_LOAD_BASE + TESTAPP_SIZE_OF_IMAGE, F2_STACK_TOP - 0x10000),
     (EFI_RESERVED_MEMORY_TYPE, F2_STACK_TOP - 0x10000, F2_STACK_TOP + 0x1000),
     (EFI_BOOT_SERVICES_DATA, F2_STACK_TOP + 0x1000, POOL_BASE)]"

definition fixed_slab :: "u64 \<Rightarrow> map_event list" where
  "fixed_slab slab = [(EFI_RESERVED_MEMORY_TYPE, POOL_END, slab)]"

lemma map_events_parts:
  "map_events p slab =
    fixed_low @ region_runs p Below1m @ fixed_mid @ region_runs p Low @ fixed_slab slab @
    (if high_pages p \<noteq> 0 then region_runs p High else []) @ (if tail_pages p \<noteq> 0 then emit_tail p else [])"
  by (simp add: map_events_def fixed_low_def fixed_mid_def fixed_slab_def)

lemmas map_consts =
  BELOW1M_BASE_def BELOW1M_END_def POOL_BASE_def POOL_END_def F2_IDENTITY_PML4_def F2_TABLES_BASE_def
  F2_APP_LOAD_BASE_def F2_STACK_TOP_def IMAGE_ACPI_OFF_def TABLES_IMAGE_BYTES_def TESTAPP_SIZE_OF_IMAGE_def

lemmas map_types =
  EFI_RESERVED_MEMORY_TYPE_def EFI_LOADER_CODE_def EFI_BOOT_SERVICES_DATA_def EFI_RUNTIME_SERVICES_CODE_def
  EFI_ACPI_RECLAIM_MEMORY_def EFI_CONVENTIONAL_MEMORY_def

lemma fixed_chain:
  "ev_chain 0 fixed_low 0x1000" "ev_chain 0x9F000 fixed_mid 0xB00000"
  "page_aligned slab \<Longrightarrow> POOL_END < slab \<Longrightarrow> ev_chain 0x1F00000 (fixed_slab slab) (unat slab)"
  by (simp_all add: fixed_low_def fixed_mid_def fixed_slab_def map_consts page_aligned_nat order_less_imp_le)

lemma fixed_show:
  "events_show fixed_low t x \<Longrightarrow> t \<noteq> EFI_CONVENTIONAL_MEMORY \<and> unat x < 0x1000"
  "events_show fixed_mid t x \<Longrightarrow> t \<noteq> EFI_CONVENTIONAL_MEMORY \<and> 0x9F000 \<le> unat x \<and> unat x < 0xB00000"
  "events_show (fixed_slab slab) t x \<Longrightarrow> t \<noteq> EFI_CONVENTIONAL_MEMORY \<and> 0x1F00000 \<le> unat x \<and> unat x < unat slab"
  by (auto simp: fixed_low_def fixed_mid_def fixed_slab_def map_consts map_types ev_at_def word_le_nat_alt word_less_nat_alt)

lemma managed_window:
  assumes "geometry_ok p" "slab_ok p slab" "page_type p x \<noteq> None"
  shows "0x1000 \<le> unat x \<and> unat x < 0x9F000 \<or> 0xB00000 \<le> unat x \<and> unat x < 0x1F00000 \<or> unat slab \<le> unat x"
  using assms(3)
proof (cases rule: managed_cases [OF assms(1), consumes 1, case_names region tail])
  case (region r i)
  then show ?thesis using assms(2)
    by (cases r) (auto simp: base_of_def pages_in_def page_counts page_bases slab_ok_def word_le_nat_alt)
next
  case (tail k)
  then have "high_pages p \<noteq> 0" using assms(1) by (auto simp: geometry_ok_def)
  then show ?thesis
    using tail assms(2) unat_tail_base [OF assms(1)] by (auto simp: slab_ok_def word_le_nat_alt)
qed

lemma region_runs_type:
  assumes "geometry_ok p"
  shows "events_show (region_runs p r) t x \<longleftrightarrow> (\<exists>k. page_of p x = Some (r, k) \<and> shown_type p r k = t)"
  using region_runs_show [OF assms, of r 0] by (simp add: region_runs_def)

lemma emit_tail_type:
  assumes "pool_inv p"
  shows "events_show (emit_tail p) t x \<longleftrightarrow> (\<exists>k. tail_index p x 1 = Some k \<and> tail_type p k = t)"
  using emit_spans_show [OF assms scan_pos_init] by (simp add: emit_tail_def)

lemma map_events_managed:
  assumes "pool_inv p"
  shows "events_show (region_runs p Below1m) t x \<or> events_show (region_runs p Low) t x \<or>
      events_show (if high_pages p \<noteq> 0 then region_runs p High else []) t x \<or>
      events_show (if tail_pages p \<noteq> 0 then emit_tail p else []) t x \<longleftrightarrow> page_type p x = Some t"
proof -
  have g: "geometry_ok p" using assms by (simp add: pool_inv_def)
  have hi: "events_show (if high_pages p \<noteq> 0 then region_runs p High else []) t x \<longleftrightarrow>
      (\<exists>k. page_of p x = Some (High, k) \<and> shown_type p High k = t)"
    by (auto simp: region_runs_type [OF g] page_of_iff [OF g] pages_in_def)
  have tl: "events_show (if tail_pages p \<noteq> 0 then emit_tail p else []) t x \<longleftrightarrow>
      (\<exists>k. tail_index p x 1 = Some k \<and> tail_type p k = t)"
    by (auto simp: emit_tail_type [OF assms] tail_index_iff [OF g])
  show ?thesis
  proof (cases "page_of p x")
    case None
    then show ?thesis unfolding hi tl region_runs_type [OF g] by (auto simp: page_type_def)
  next
    case (Some ri)
    obtain r k where "ri = (r, k)" by (cases ri)
    moreover have "tail_index p x 1 = None" using Some tail_not_region [OF g, of x 1] by (cases "tail_index p x 1") auto
    ultimately show ?thesis
      unfolding hi tl region_runs_type [OF g] using Some by (cases r) (auto simp: page_type_def)
  qed
qed

lemma map_events_show:
  assumes "pool_inv p" "slab_ok p slab" "events_show (map_events p slab) t x"
  shows "page_type p x = Some t \<or> page_type p x = None \<and> t \<noteq> EFI_CONVENTIONAL_MEMORY"
proof (cases "events_show fixed_low t x \<or> events_show fixed_mid t x \<or> events_show (fixed_slab slab) t x")
  case True
  have g: "geometry_ok p" using assms(1) by (simp add: pool_inv_def)
  have "unat slab > 0x1F00000" using assms(2) by (simp add: slab_ok_def word_less_nat_alt page_bases)
  then have "page_type p x = None" using True fixed_show(1,2) [of t x] fixed_show(3) [of slab t x] managed_window [OF g assms(2), of x] by fastforce
  then show ?thesis using True fixed_show(1,2) [of t x] fixed_show(3) [of slab t x] by blast
next
  case False
  then show ?thesis using assms(3) map_events_managed [OF assms(1), of t x] by (auto simp: map_events_parts)
qed

lemma map_events_chain:
  assumes "pool_inv p" "slab_ok p slab"
  shows "\<exists>hi < 2 ^ 64. ev_chain 0 (map_events p slab) hi"
proof -
  have g: "geometry_ok p" using assms(1) by (simp add: pool_inv_def)
  have r: "ev_chain (unat (base_of p r)) (region_runs p r) (unat (base_of p r) + 4096 * pages_in p r)" for r
    using region_runs_chain [OF g, of 0 r] by (simp add: region_runs_def)
  have low: "ev_chain 0x1000 (region_runs p Below1m) 0x9F000" "ev_chain 0xB00000 (region_runs p Low) 0x1F00000"
    using r [of Below1m] r [of Low] by (simp_all add: base_of_def pages_in_def page_counts page_bases)
  have tail: "ev_chain (unat (tail_base p)) (if tail_pages p \<noteq> 0 then emit_tail p else [])
      (unat (tail_base p) + 4096 * unat (tail_pages p))"
    using emit_spans_chain [OF assms(1) _ scan_pos_init] by (auto simp: emit_tail_def)
  have hi: "\<exists>hi < 2 ^ 64. ev_chain (unat slab) ((if high_pages p \<noteq> 0 then region_runs p High else []) @
      (if tail_pages p \<noteq> 0 then emit_tail p else [])) hi"
  proof (cases "high_pages p = 0")
    case True
    then show ?thesis using g unat_u64_bound [of slab] by (auto simp: geometry_ok_def)
  next
    case False
    have "ev_chain (unat slab) (region_runs p High) (unat (tail_base p))"
      using r [of High] assms(2) False unat_tail_base [OF g]
      by (auto simp: base_of_def pages_in_def slab_ok_def word_le_nat_alt intro: ev_chain_weaken)
    moreover have "(if high_pages p \<noteq> 0 then region_runs p High else []) = region_runs p High" using False by simp
    moreover have "unat (tail_base p) + 4096 * unat (tail_pages p) < 2 ^ 64"
      using g unat_tail_base [OF g] by (simp add: geometry_ok_def add_mult_distrib2)
    ultimately show ?thesis using ev_chain_append [OF _ tail] by (simp only:) blast
  qed
  then obtain hi where hi: "hi < 2 ^ 64" "ev_chain (unat slab) ((if high_pages p \<noteq> 0 then region_runs p High else []) @
      (if tail_pages p \<noteq> 0 then emit_tail p else [])) hi" by blast
  have "ev_chain 0x1F00000 (fixed_slab slab) (unat slab)" using assms(2) by (intro fixed_chain(3)) (simp_all add: slab_ok_def)
  then have "ev_chain 0 (map_events p slab) hi"
    unfolding map_events_parts by (blast intro: ev_chain_append fixed_chain(1,2) low hi(2))
  then show ?thesis using hi(1) by blast
qed


lemma memory_map_so_far:
  assumes "pool_inv p" "slab_ok p slab"
  obtains hi where "hi < 2 ^ 64" "map_so_far (map_events p slab) hi (memory_map p slab)"
proof -
  have "map_so_far [] 0 []" by (simp add: map_so_far_def)
  then show thesis
    using map_fold [of "[]" 0 "[]"] map_events_chain [OF assms] that by (auto simp: memory_map_def)
qed

lemma map_run_type:
  assumes "pool_inv p" "slab_ok p slab" "m \<in> set (memory_map p slab)" "run_at m x"
  shows "page_type p x = Some (run_typ m) \<or> page_type p x = None \<and> run_typ m \<noteq> EFI_CONVENTIONAL_MEMORY"
proof -
  obtain hi where "map_so_far (map_events p slab) hi (memory_map p slab)" by (rule memory_map_so_far [OF assms(1,2)])
  then show ?thesis
    using assms(3,4) by (intro map_events_show [OF assms(1,2)]) (auto simp: map_so_far_def map_shows_def)
qed

text \<open>
  C9: The memory map the firmware reports is ordered and free of overlap, as UEFI demands, and
  true to the allocator.  A page that the allocator manages is listed with its type or not at
  all, memory listed as conventional is managed and free, and a map that did not reach the
  descriptor limit lists every managed page.
\<close>

theorem memory_map_correct:
  assumes "pool_inv p" and "slab_ok p slab"
  shows "sorted_wrt (\<lambda>m m'. run_fin m \<le> unat (run_start m')) (memory_map p slab) \<and>
    (\<forall>m \<in> set (memory_map p slab). \<forall>x. run_at m x \<longrightarrow>
      page_type p x = Some (run_typ m) \<or> page_type p x = None \<and> run_typ m \<noteq> EFI_CONVENTIONAL_MEMORY) \<and>
    (length (memory_map p slab) < MAX_DESCRIPTORS \<longrightarrow>
      (\<forall>x t. page_type p x = Some t \<longrightarrow> (\<exists>m \<in> set (memory_map p slab). run_typ m = t \<and> run_at m x)))"
proof (intro conjI ballI allI impI)
  obtain hi where so: "map_so_far (map_events p slab) hi (memory_map p slab)" by (rule memory_map_so_far [OF assms])
  then show "sorted_wrt (\<lambda>m m'. run_fin m \<le> unat (run_start m')) (memory_map p slab)"
    by (simp add: map_so_far_def)
  show "page_type p x = Some (run_typ m) \<or> page_type p x = None \<and> run_typ m \<noteq> EFI_CONVENTIONAL_MEMORY"
    if "m \<in> set (memory_map p slab)" "run_at m x" for m x by (rule map_run_type [OF assms that])
  show "\<exists>m \<in> set (memory_map p slab). run_typ m = t \<and> run_at m x"
    if "length (memory_map p slab) < MAX_DESCRIPTORS" "page_type p x = Some t" for x t
  proof -
    have "events_show (map_events p slab) t x"
      using map_events_managed [OF assms(1), of t x] that(2) by (auto simp: map_events_parts)
    then show ?thesis using so that(1) by (auto simp: map_so_far_def map_shows_def)
  qed
qed

text \<open>
  With all eight spans in use, no range that reaches into the tail can be allocated at its address
  any more, although the map goes on listing the free part of the tail as conventional.
\<close>

lemma tail_exhausted:
  assumes "pool_inv p" "\<not> span_left p" "needs_span p a n"
  shows "fst (fst (allocate_pages ALLOCATE_ADDRESS t n a p)) \<noteq> EFI_SUCCESS"
proof (cases "n = 0 \<or> max_run p < unat n")
  case False
  have g: "geometry_ok p" using assms(1) by (simp add: pool_inv_def)
  have "find_index (\<lambda>s. \<not> sp_used s) (tail_spans p) = None"
    using assms(2) by (auto simp: find_index_None_iff span_left_def)
  then have ins: "tail_insert k m t p = (False, p)" for k m by (simp add: tail_insert_def)
  show ?thesis
  proof (cases "page_of p a")
    case None
    then show ?thesis
      using status_distinct by (auto simp: allocate_pages_def Let_def alloc_kinds allocate_tail_at_def ins split: option.split)
  next
    case (Some ri)
    obtain r i where ri: "ri = (r, i)" by (cases ri)
    have "i < pages_in p r" using Some ri by (simp add: page_of_iff [OF g])
    then have ua: "usize_add i (unat n) = i + unat n" using False by (intro alloc_index_small [OF g]) auto
    have "\<not> i + unat n \<le> pages_in p r" using assms(3) Some ri by (simp add: needs_span_def)
    then show ?thesis
      using status_distinct
      by (auto simp: allocate_pages_def Let_def alloc_kinds Some ri ua allocate_across_tail_def ins)
  qed
qed (use status_distinct in \<open>auto simp: allocate_pages_def Let_def\<close>)

text \<open>
  C8: How far the honesty rule of the memory map holds.  Take any range inside memory that the map
  lists as conventional.  If the range lies in the bitmap regions, or one of the eight spans of the
  tail is unused, \<open>AllocateAddress\<close> succeeds at its address, hands out exactly that range, and
  retypes it.  If the range reaches into the tail and all spans are in use, \<open>AllocateAddress\<close> is
  refused and changes nothing: there the rule that the module states is broken.
\<close>

theorem memory_map_honest:
  assumes "pool_inv p" and "slab_ok p slab" and "unat (tail_pages p) < 2 ^ 32"
    and "m \<in> set (memory_map p slab)" and "run_typ m = EFI_CONVENTIONAL_MEMORY"
    and "n \<noteq> 0" and "page_aligned a" and "unat (run_start m) \<le> unat a" and "unat a + 4096 * unat n \<le> run_fin m"
    and "alloc_type_ok t"
  shows "if needs_span p a n \<and> \<not> span_left p
    then \<exists>status. status \<noteq> EFI_SUCCESS \<and> allocate_pages ALLOCATE_ADDRESS t n a p = ((status, a), p)
    else \<exists>q. allocate_pages ALLOCATE_ADDRESS t n a p = ((EFI_SUCCESS, a), q) \<and> allocated p a n t q"
proof (cases "needs_span p a n \<and> \<not> span_left p")
  case True
  then show ?thesis
    using tail_exhausted [OF assms(1), of a n t] allocate_outcome [OF assms(1), of ALLOCATE_ADDRESS t n a]
    by (cases "allocate_pages ALLOCATE_ADDRESS t n a p") (auto simp: alloc_outcome_def)
next
  case False
  have g: "geometry_ok p" using assms(1) by (simp add: pool_inv_def)
  have free: "page_type p x = Some EFI_CONVENTIONAL_MEMORY" if x: "in_range a n x" for x
  proof -
    have "run_at m x" using x assms(8,9) by (auto simp: run_at_def in_range_def run_fin_def)
    then show ?thesis using map_run_type [OF assms(1,2,4)] assms(5) by auto
  qed
  obtain hi where "hi < 2 ^ 64" "map_so_far (map_events p slab) hi (memory_map p slab)"
    by (rule memory_map_so_far [OF assms(1,2)])
  then have "run_fin m < 2 ^ 64" using assms(4) by (auto simp: map_so_far_def)
  then have area: "one_area p a n"
    using free assms(9) by (intro managed_one_area [OF g slab_high_apart [OF assms(2)] assms(6,7)]) auto
  have "fst (fst (allocate_pages ALLOCATE_ADDRESS t n a p)) = EFI_SUCCESS"
    using free False by (intro allocate_address_succeeds [OF assms(1,6,10) area assms(3)]) blast+
  then show ?thesis
    using False allocate_outcome [OF assms(1), of ALLOCATE_ADDRESS t n a]
    by (cases "allocate_pages ALLOCATE_ADDRESS t n a p") (auto simp: alloc_outcome_def placed_def)
qed

lemma run_end_free:
  "(\<And>k. k < limit \<Longrightarrow> \<not> is_used p r k) \<Longrightarrow> i < limit \<Longrightarrow> j \<le> limit \<Longrightarrow> run_end p r limit i j = limit"
proof (induction p r limit i j rule: run_end.induct)
  case (1 p r limit i j)
  then show ?case by (subst run_end.simps) (auto simp: shown_type_def)
qed

lemma region_runs_free:
  assumes "\<And>k. k < pages_in p r \<Longrightarrow> \<not> is_used p r k" "0 < pages_in p r"
  shows "region_runs p r = [(EFI_CONVENTIONAL_MEMORY, base_of p r, base_of p r + of_nat (pages_in p r) * 4096)]"
  using run_end_free [OF assms(1), of "pages_in p r" 0 "Suc 0"] assms
  by (simp add: region_runs_def region_runs_from.simps [of p r 0] region_runs_done shown_type_def)

lemma pool_new_map:
  "memory_map pool_new 0x2000000 = 
    map (\<lambda>(t, s, n). \<lparr>run_typ = t, run_start = s, run_pages = n\<rparr>)
      [(0, 0, 1), (7, 0x1000, 158), (0, 0x9F000, 97), (4, 0x100000, 768), (0, 0x400000, 1024),
       (5, 0x800000, 4), (9, 0x804000, 1), (4, 0x805000, 251), (1, 0x900000, 3), (4, 0x903000, 253),
       (0, 0xA00000, 17), (4, 0xA11000, 239), (7, 0xB00000, 5120), (0, 0x1F00000, 256)]"
proof -
  have u: "\<not> is_used pool_new r k" if "k < pages_in pool_new r" for r k
  proof -
    have "geometry_ok pool_new" using pool_new_inv by (simp add: pool_inv_def)
    then have "k < byte_count r" using that pages_in_bytes [of pool_new r] by simp
    then show ?thesis using pool_new_free by simp
  qed
  have r: "region_runs pool_new Below1m = [(7, 0x1000, 0x9F000)]" "region_runs pool_new Low = [(7, 0xB00000, 0x1F00000)]"
    using region_runs_free [of pool_new Below1m, OF u] region_runs_free [of pool_new Low, OF u]
    by (simp_all add: pages_in_def base_of_def page_counts BELOW1M_BASE_def POOL_BASE_def EFI_CONVENTIONAL_MEMORY_def)
  have "high_pages pool_new = 0" "tail_pages pool_new = 0" by (simp_all add: pool_new_def)
  then have ev: "map_events pool_new 0x2000000 = fixed_low @ [(7, 0x1000, 0x9F000)] @ fixed_mid @
      [(7, 0xB00000, 0x1F00000)] @ fixed_slab 0x2000000"
    unfolding map_events_parts r by simp
  show ?thesis
    unfolding memory_map_def ev
    by (simp add: fixed_low_def fixed_mid_def fixed_slab_def map_consts map_types map_push_def MAX_DESCRIPTORS_def Let_def)
qed


lemma pool_new_slab: "slab_ok pool_new 0x2000000"
  by (simp add: slab_ok_def pool_new_def POOL_END_def page_aligned_def)

theorem memory_map_correct_witness:
  "sorted_wrt (\<lambda>m m'. run_fin m \<le> unat (run_start m')) (memory_map pool_new 0x2000000) \<and>
    length (memory_map pool_new 0x2000000) = 14 \<and>
    page_type pool_new 0xB01000 = Some EFI_CONVENTIONAL_MEMORY"
proof -
  have len: "length (memory_map pool_new 0x2000000) = 14" by (simp add: pool_new_map)
  have "\<lparr>run_typ = 7, run_start = 0xB00000, run_pages = 5120\<rparr> \<in> set (memory_map pool_new 0x2000000)"
    by (simp add: pool_new_map)
  moreover have "run_at \<lparr>run_typ = 7, run_start = 0xB00000, run_pages = 5120\<rparr> 0xB01000"
    by (simp add: run_at_def in_range_def page_aligned_def)
  ultimately show ?thesis
    using memory_map_correct [OF pool_new_inv pool_new_slab] len
    by (fastforce simp: EFI_CONVENTIONAL_MEMORY_def)
qed

theorem memory_map_honest_witness:
  "\<exists>q. allocate_pages ALLOCATE_ADDRESS EFI_LOADER_DATA 5120 0xB00000 pool_new = ((EFI_SUCCESS, 0xB00000), q)"
proof -
  let ?m = "\<lparr>run_typ = 7, run_start = 0xB00000, run_pages = 5120\<rparr>"
  have "?m \<in> set (memory_map pool_new 0x2000000)" by (simp add: pool_new_map)
  moreover have "unat (tail_pages pool_new) < 2 ^ 32" by (simp add: pool_new_def)
  moreover have "alloc_type_ok EFI_LOADER_DATA"
    by (simp add: alloc_type_ok_def EFI_LOADER_DATA_def EFI_MAX_MEMORY_TYPE_def map_types)
  moreover have "span_left pool_new" by (simp add: span_left_def pool_new_def NO_SPAN_def TAIL_SPANS_def)
  ultimately show ?thesis
    using memory_map_honest [OF pool_new_inv pool_new_slab, of ?m 5120 "0xB00000" EFI_LOADER_DATA]
    by (auto simp: EFI_CONVENTIONAL_MEMORY_def page_aligned_def run_fin_def)
qed

section \<open>Configuration and the limits of the tail\<close>

lemma clear_high_inv: "pool_inv p \<Longrightarrow> pool_inv (clear_high p)"
  by (auto simp: pool_inv_def clear_high_def arrays_ok_def used_words_def type_bytes_def types_ok_def is_used_def
      typ_of_def geometry_ok_def spans_ok_def span_ok_def spans_apart_def NO_SPAN_def split: Region.splits)

text \<open>The launcher's description of the report RAM keeps the invariant, whatever it passes.\<close>

lemma set_high_region_inv:
  assumes "pool_inv p"
  shows "pool_inv (snd (set_high_region base n p))"
proof (cases "base AND 0xfff = 0 \<and> POOL_END \<le> base \<and> n \<noteq> 0 \<and> unat base + 4096 * unat n \<le> 2 ^ 52")
  case True
  let ?b = "min n (of_nat HIGH_MAX_PAGES) :: u64"
  have b: "unat ?b \<le> HIGH_MAX_PAGES" "unat ?b + unat (n - ?b) = unat n" "unat ?b = 0 \<longrightarrow> n - ?b = 0"
    using True by (auto simp: min_def word_le_nat_alt page_counts unat_sub_le word_unat_eq_iff)
  let ?q = "p\<lparr>high_base := base, high_pages := unat ?b, tail_pages := n - ?b, tail_spans := replicate TAIL_SPANS NO_SPAN\<rparr>"
  have "geometry_ok ?q" using True b by (auto simp: geometry_ok_def page_aligned_def)
  then have "pool_inv ?q"
    using assms by (auto simp: pool_inv_def arrays_ok_def used_words_def type_bytes_def types_ok_def is_used_def
        typ_of_def spans_ok_def span_ok_def spans_apart_def NO_SPAN_def split: Region.splits)
  moreover have "snd (set_high_region base n p) \<in> {?q, clear_high p}"
    by (auto simp: set_high_region_def Let_def split: option.splits)
  ultimately show ?thesis using clear_high_inv [OF assms] by auto
next
  case False
  have "snd (set_high_region base n p) = clear_high p"
  proof (cases "base AND 0xfff = 0 \<and> POOL_END \<le> base \<and> n \<noteq> 0")
    case True
    have big: "2 ^ 52 < unat base + 4096 * unat n" using False True by auto
    have "unat fin > 2 ^ 52" if f: "checked_add base (saturating_mul n 4096) = Some fin" for fin
    proof -
      have "unat fin = unat base + unat (saturating_mul n 4096)" using f by (auto simp: checked_add_Some_iff)
      moreover have "unat (saturating_mul n 4096) = (if 4096 * unat n < 2 ^ 64 then 4096 * unat n else 2 ^ 64 - 1)"
        by (simp add: saturating_mul_def unat_mult_small mult.commute unsigned_minus_1_eq_mask mask_eq_exp_minus_1)
      ultimately show ?thesis using big by (auto split: if_splits)
    qed
    then show ?thesis using True by (auto simp: set_high_region_def word_less_nat_alt Let_def split: option.splits)
  qed (auto simp: set_high_region_def)
  then show ?thesis using clear_high_inv [OF assms] by simp
qed

text \<open>\<open>ExitBootServices\<close> accepts exactly the key of the last memory map.\<close>

lemma exit_boot_services_key:
  assumes "next_map_key p = (k, q)" "k \<noteq> 0"
  shows "fst (exit_boot_services key q) = EFI_SUCCESS \<longleftrightarrow> key = k"
    and "exited (snd (exit_boot_services key q)) \<longleftrightarrow> exited q \<or> key = k"
  using assms status_distinct by (auto simp: next_map_key_def exit_boot_services_def Let_def)

end
