(* ===== verification/Page_Pool_Free.thy ===== *)
theory Page_Pool_Free
  imports Page_Pool_Alloc
begin

text \<open>
  \<open>FreePages\<close>: what a release does to the pool, and that it undoes an allocation.  The page
  count of a release comes from the caller unchecked; for counts that make the page index wrap
  the source reports success and frees nothing, which the last section states.
\<close>

section \<open>What a release does\<close>

definition freed :: "PagePool \<Rightarrow> u64 \<Rightarrow> u64 \<Rightarrow> PagePool \<Rightarrow> bool" where
  "freed p a n q \<longleftrightarrow>
    n \<noteq> 0 \<and> pool_inv q \<and>
    (\<forall>x. in_range a n x \<longrightarrow> page_type p x \<noteq> None \<and> page_type p x \<noteq> Some EFI_CONVENTIONAL_MEMORY) \<and>
    (\<forall>x. page_type q x = (if in_range a n x then Some EFI_CONVENTIONAL_MEMORY else page_type p x))"

lemma unmark_freed:
  assumes "pool_inv p" "f + unat n \<le> pages_in p r" "n \<noteq> 0"
    and "\<And>j. f \<le> j \<Longrightarrow> j < f + unat n \<Longrightarrow> is_used p r j"
    and a: "unat a = unat (base_of p r) + 4096 * f"
  shows "freed p a n (unmark r f (f + unat n) p)"
proof -
  have g: "geometry_ok p" "arrays_ok p" "types_ok p" using assms(1) by (simp_all add: pool_inv_def)
  have b: "\<forall>i \<in> set [f..<f + unat n]. i < byte_count r"
    using assms(2) pages_in_bytes [OF g(1), of r] by auto
  have inv: "pool_inv (unmark r f (f + unat n) p)"
    unfolding unmark_retype using b by (intro pool_inv_retype [OF assms(1)]) simp_all
  have "page_type p x \<noteq> None \<and> page_type p x \<noteq> Some EFI_CONVENTIONAL_MEMORY" if "in_range a n x" for x
  proof -
    from that obtain i where i: "page_of p x = Some (r, i)" "f \<le> i" "i < f + unat n"
      unfolding in_range_region [OF g(1) a assms(2)] by blast
    then have "alloc_type_ok (typ_of p r i)" using assms(4) b g(3) by (auto simp: types_ok_def)
    then show ?thesis using i assms(4) by (auto simp: page_type_def shown_type_def alloc_type_ok_def)
  qed
  moreover have "page_type (unmark r f (f + unat n) p) x =
      (if in_range a n x then Some EFI_CONVENTIONAL_MEMORY else page_type p x)" for x
    unfolding unmark_retype by (simp add: page_type_retype [OF g(2,1) a assms(2)])
  ultimately show ?thesis using inv assms(3) by (simp add: freed_def)
qed

lemma freed_join:
  assumes "freed p b nb p1" "freed p1 a na q"
    and "unat b = unat a + 4096 * unat na" "unat na + unat nb < 2 ^ 64"
  shows "freed p a (na + nb) q"
proof -
  have n: "unat (na + nb) = unat na + unat nb" using assms(4) by (simp add: unat_add_small)
  have r: "in_range a (na + nb) x \<longleftrightarrow> in_range a na x \<or> in_range b nb x" for x
    using assms(3) by (auto simp: in_range_def n)
  have ne: "na + nb \<noteq> 0" using n assms(1) by (metis add_is_0 freed_def unat_0 word_unat_eq_iff)
  have excl: "\<not> (in_range a na x \<and> in_range b nb x)" for x using assms(3) by (auto simp: in_range_def)
  show ?thesis
    using assms(1,2) ne excl unfolding freed_def r by (auto split: if_splits)
qed

section \<open>Shrinking a tail span\<close>

lemma shrink_span_Some:
  assumes "shrink_span k fin s = Some s'" and "sp_used s" "span_ok tail s" "unat tail < 2 ^ 32"
    and "unat (sp_start s) \<le> unat k" "unat fin \<le> unat (sp_start s) + unat (sp_pages s)" "unat k < unat fin"
  shows "span_ok tail s'" and "sp_typ s' = sp_typ s"
    and "covers s' j \<longleftrightarrow> covers s j \<and> \<not> (unat k \<le> j \<and> j < unat fin)"
proof -
  have u: "unat (ucast (sp_start s) :: u64) = unat (sp_start s)" "unat (span_end s) = unat (sp_start s) + unat (sp_pages s)"
    by (simp_all add: unat_u32_u64 unat_span_end)
  have tl: "unat (span_end s) \<le> unat tail" using assms(2,3) u(2) by (simp add: span_ok_def)
  have c: "unat (ucast (x :: u64) :: u32) = unat x" if "unat x < 2 ^ 32" for x
    using that by (simp add: unsigned_ucast_eq take_bit_eq_mod unat_mod_distrib)
  consider (all) "unat k = unat (sp_start s)" "unat fin = unat (span_end s)" "s' = s\<lparr>sp_used := False\<rparr>"
    | (front) "unat k = unat (sp_start s)" "unat fin \<noteq> unat (span_end s)"
        "s' = s\<lparr>sp_start := ucast fin, sp_pages := ucast (span_end s - fin)\<rparr>"
    | (rear) "unat k \<noteq> unat (sp_start s)" "unat fin = unat (span_end s)"
        "s' = s\<lparr>sp_pages := ucast (k - ucast (sp_start s))\<rparr>"
    using assms(1) by (auto simp: shrink_span_def Let_def word_unat_eq_iff u split: if_splits)
  then have "span_ok tail s' \<and> sp_typ s' = sp_typ s \<and>
      (covers s' j \<longleftrightarrow> covers s j \<and> \<not> (unat k \<le> j \<and> j < unat fin))"
  proof cases
    case all
    then show ?thesis using u by (auto simp: span_ok_def covers_def)
  next
    case front
    have lt: "unat fin < unat (span_end s)" using front(2) assms(6) u(2) by simp
    have "unat (span_end s - fin) = unat (span_end s) - unat fin"
      using lt by (intro unat_sub_le) (simp add: word_le_nat_alt)
    then have f: "unat (sp_start s') = unat fin" "unat (sp_pages s') = unat (span_end s) - unat fin"
      "sp_used s'" "sp_typ s' = sp_typ s"
      using front(3) assms(2,4) tl lt by (simp_all add: c)
    show ?thesis
      using f lt assms(2,3,7) front(1) u(2) by (auto simp: span_ok_def covers_def word_unat_eq_iff [of "sp_pages s'"])
  next
    case rear
    have gt: "unat (sp_start s) < unat k" using rear(1) assms(5) by simp
    have "unat (k - ucast (sp_start s)) = unat k - unat (sp_start s)"
      using gt u(1) by (subst unat_sub_le) (simp_all add: word_le_nat_alt)
    then have f: "unat (sp_start s') = unat (sp_start s)" "unat (sp_pages s') = unat k - unat (sp_start s)"
      "sp_used s'" "sp_typ s' = sp_typ s"
      using rear assms(2,4,7) tl by (simp_all add: c)
    show ?thesis
      using f gt assms(2,3,7) rear(2) u(2) by (auto simp: span_ok_def covers_def word_unat_eq_iff [of "sp_pages s'"])
  qed
  then show "span_ok tail s'" "sp_typ s' = sp_typ s"
    "covers s' j \<longleftrightarrow> covers s j \<and> \<not> (unat k \<le> j \<and> j < unat fin)" by blast+
qed

text \<open>A span of which every page is covered by another span only.\<close>

lemma apart_by_cover:
  assumes "\<And>j. covers s j \<Longrightarrow> \<not> covers s' j" "span_ok tail s" "span_ok tail s'"
  shows "spans_apart s s'"
proof (rule ccontr)
  assume "\<not> spans_apart s s'"
  then have o: "sp_used s" "sp_used s'" "unat (sp_start s') < unat (sp_start s) + unat (sp_pages s)"
      "unat (sp_start s) < unat (sp_start s') + unat (sp_pages s')"
    by (auto simp: spans_apart_def)
  then have "0 < unat (sp_pages s)" "0 < unat (sp_pages s')"
    using assms(2,3) by (auto simp: span_ok_def word_unat_eq_iff [of "sp_pages _"])
  then show False
    using o assms(1) [of "max (unat (sp_start s)) (unat (sp_start s'))"] by (auto simp: covers_def)
qed

lemma free_tail_Some:
  assumes "pool_inv p" "unat (tail_pages p) < 2 ^ 32" "free_tail_at a n p = (EFI_SUCCESS, q)"
  shows "freed p a n q" and "\<exists>i s. q = p\<lparr>tail_spans := (tail_spans p)[i := s]\<rparr>"
proof -
  have g: "geometry_ok p" "spans_ok p" using assms(1) by (simp_all add: pool_inv_def)
  obtain k i s where k: "tail_index p a n = Some k"
      and i: "find_index (\<lambda>s. sp_used s \<and> \<not> (k < ucast (sp_start s) \<or> span_end s < k + n)) (tail_spans p) = Some i"
      and s: "shrink_span k (k + n) (tail_spans p ! i) = Some s"
      and q: "q = p\<lparr>tail_spans := (tail_spans p)[i := s]\<rparr>"
    using assms(3) status_distinct by (auto simp: free_tail_at_def Let_def split: option.splits)
  let ?o = "tail_spans p ! i"
  have il: "i < length (tail_spans p)" and o: "sp_used ?o" "\<not> k < ucast (sp_start ?o)" "\<not> span_end ?o < k + n"
    using find_index_SomeD [OF i] by simp_all
  have kn: "n \<noteq> 0" "unat k + unat n \<le> unat (tail_pages p)" using k by (simp_all add: tail_index_iff [OF g(1)])
  have fin: "unat (k + n) = unat k + unat n"
    using kn(2) unat_u64_bound [of "tail_pages p"] by (subst unat_add_small) simp_all
  have n: "0 < unat n" using kn(1) by (simp add: word_unat_eq_iff)
  have "unat (sp_start ?o) \<le> unat k" "unat (k + n) \<le> unat (sp_start ?o) + unat (sp_pages ?o)" "unat k < unat (k + n)"
    using o(2,3) n by (simp_all add: word_less_nat_alt unat_u32_u64 unat_span_end fin)
  moreover have ook: "span_ok (tail_pages p) ?o" using g(2) il by (simp add: spans_ok_def)
  ultimately have sh: "span_ok (tail_pages p) s" "sp_typ s = sp_typ ?o"
    "\<And>j. covers s j \<longleftrightarrow> covers ?o j \<and> \<not> (unat k \<le> j \<and> j < unat k + unat n)"
    and inside: "\<And>j. unat k \<le> j \<Longrightarrow> j < unat k + unat n \<Longrightarrow> covers ?o j"
    using shrink_span_Some [OF s o(1) _ assms(2)] o(1) by (auto simp: fin covers_def)
  have ok: "spans_ok q" unfolding q
  proof (rule spans_ok_update [OF g(2) il sh(1)])
    fix j assume j: "j < length (tail_spans p)" "j \<noteq> i"
    show "spans_apart s (tail_spans p ! j)"
      using j g(2) sh(1,3) covers_index [OF g(2) il j(1)]
      by (intro apart_by_cover [of _ _ "tail_pages p"]) (auto simp: spans_ok_def)
  qed
  have tt: "tail_type q j = (if unat k \<le> unat j \<and> unat j < unat k + unat n then EFI_CONVENTIONAL_MEMORY else tail_type p j)" for j
  proof -
    have "tail_type p j = ucast (sp_typ ?o)" if "covers ?o (unat j)"
      using that il by (intro tail_type_covers [OF g(2)]) simp_all
    then show ?thesis
      unfolding tail_type_update [OF g(2) il q ok] sh(2,3) using inside by auto
  qed
  have used: "tail_type p j \<noteq> EFI_CONVENTIONAL_MEMORY" if "unat k \<le> unat j" "unat j < unat k + unat n" for j
    using inside [OF that] nth_mem [OF il] unfolding tail_type_conventional [OF g(2)] by blast
  note new = page_type_spans [OF assms(1) k q ok tt]
  have rng: "in_range a n x \<longleftrightarrow> (\<exists>j. tail_index p x 1 = Some j \<and> unat k \<le> unat j \<and> unat j < unat k + unat n)" for x
    by (rule in_range_tail [OF g(1) k])
  have none: "page_of p x = None" if "tail_index p x 1 = Some j" for x j
    by (rule tail_not_region [OF g(1) that])
  have "page_type p x \<noteq> None \<and> page_type p x \<noteq> Some EFI_CONVENTIONAL_MEMORY" if r: "in_range a n x" for x
    using r used none unfolding rng page_type_def by fastforce
  then show "freed p a n q" using new kn(1) by (simp add: freed_def)
  show "\<exists>i s. q = p\<lparr>tail_spans := (tail_spans p)[i := s]\<rparr>" using q by blast
qed

lemma free_tail_refused: "free_tail_at a n p = (status, q) \<Longrightarrow> status \<noteq> EFI_SUCCESS \<Longrightarrow> q = p"
  by (auto simp: free_tail_at_def Let_def split: option.splits)

lemma free_tail_recorded:
  assumes "pool_inv p" "tail_index p a n = Some k" "span_recorded p (unat k) (unat n)"
  shows "fst (free_tail_at a n p) = EFI_SUCCESS"
proof -
  have g: "geometry_ok p" "spans_ok p" using assms(1) by (simp_all add: pool_inv_def)
  have kn: "n \<noteq> 0" "unat k + unat n \<le> unat (tail_pages p)" using assms(2) by (simp_all add: tail_index_iff [OF g(1)])
  have fin: "unat (k + n) = unat k + unat n"
    using kn(2) unat_u64_bound [of "tail_pages p"] by (subst unat_add_small) simp_all
  obtain s where s: "s \<in> set (tail_spans p)" "sp_used s" "unat (sp_start s) = unat k" "unat (sp_pages s) = unat n"
    using assms(3) by (auto simp: span_recorded_def)
  let ?P = "\<lambda>s. sp_used s \<and> \<not> (k < ucast (sp_start s) \<or> span_end s < k + n)"
  have "?P s" using s by (simp add: word_less_nat_alt unat_u32_u64 unat_span_end fin)
  then obtain i where i: "find_index ?P (tail_spans p) = Some i"
    using s(1) by (cases "find_index ?P (tail_spans p)") (auto simp: find_index_None_iff)
  have il: "i < length (tail_spans p)" "?P (tail_spans p ! i)" using find_index_SomeD [OF i] by simp_all
  have n: "0 < unat n" using kn(1) by (simp add: word_unat_eq_iff)
  have "covers (tail_spans p ! i) (unat k)" "covers s (unat k)"
    using il(2) s n by (auto simp: covers_def word_less_nat_alt unat_u32_u64 unat_span_end fin)
  then have "tail_spans p ! i = s" using covers_unique [OF g(2) nth_mem [OF il(1)] s(1)] by simp
  moreover have "k = ucast (sp_start s)" "k + n = span_end s"
    using s by (simp_all add: word_unat_eq_iff unat_u32_u64 unat_span_end fin)
  ultimately show ?thesis using i assms(2) by (simp add: free_tail_at_def Let_def shrink_span_def)
qed

section \<open>FreePages\<close>

text \<open>The count of a release that does not make the page index wrap.\<close>

definition count_ok :: "u64 \<Rightarrow> bool" where
  "count_ok n \<longleftrightarrow> unat n < 2 ^ 63"

lemma free_index_small:
  assumes "geometry_ok p" "i < pages_in p r" "count_ok n"
  shows "usize_add i (unat n) = i + unat n"
proof -
  have "i < 2 ^ 17" using assms(2) pages_in_small [OF assms(1), of r] by linarith
  then show ?thesis using assms(3) by (intro usize_add_small) (simp add: count_ok_def)
qed

lemma free_across_result:
  assumes "pool_inv p" "unat (tail_pages p) < 2 ^ 32" "page_of p a = Some (High, i)"
    and "free_across_tail i (unat n) p = (status, q)"
  shows "if status = EFI_SUCCESS then freed p a n q else q = p"
proof -
  have g: "geometry_ok p" using assms(1) by (simp add: pool_inv_def)
  have i: "i < high_pages p" "unat a = unat (high_base p) + 4096 * i"
    using assms(3) by (simp_all add: page_of_iff [OF g] pages_in_def base_of_def)
  define nb :: u64 where "nb = of_nat (high_pages p - i)"
  define nt :: u64 where "nt = of_nat (unat n - (high_pages p - i))"
  have unt: "unat nt = unat n - (high_pages p - i)"
    unfolding nt_def using unat_u64_bound [of n] by (intro unat_of_nat_small) simp
  have unb: "unat nb = high_pages p - i"
    unfolding nb_def using pages_in_small [OF g, of High] by (intro unat_of_nat_small) (simp add: pages_in_def)
  obtain st p1 where ft: "free_tail_at (tail_base p) nt p = (st, p1)" by (cases "free_tail_at (tail_base p) nt p")
  have step: "free_across_tail i (unat n) p =
    (if unat n \<le> high_pages p - i \<or> list_ex (\<lambda>i. \<not> is_used p High i) [i..<high_pages p] then (EFI_NOT_FOUND, p)
     else if st \<noteq> EFI_SUCCESS then (EFI_NOT_FOUND, p1) else (EFI_SUCCESS, unmark High i (high_pages p1) p1))"
    using i(1) by (simp only: free_across_tail_def Let_def nt_def [symmetric] ft prod.case not_le [symmetric]) auto
  show ?thesis
  proof (cases "status = EFI_SUCCESS")
    case False
    then show ?thesis using assms(4) free_tail_refused [OF ft] unfolding step by (auto split: if_splits)
  next
    case True
    then have ok: "\<not> unat n \<le> high_pages p - i" "\<not> list_ex (\<lambda>i. \<not> is_used p High i) [i..<high_pages p]"
        "st = EFI_SUCCESS" "q = unmark High i (high_pages p1) p1"
      using assms(4) status_distinct unfolding step by (auto split: if_splits)
    have t1: "freed p (tail_base p) nt p1" and "\<exists>j s. p1 = p\<lparr>tail_spans := (tail_spans p)[j := s]\<rparr>"
      using free_tail_Some [OF assms(1,2)] ft ok(3) by simp_all
    then have p1: "pages_in p1 High = high_pages p" "base_of p1 High = high_base p" "is_used p1 High = is_used p High"
      by (auto simp: pages_in_def base_of_def is_used_def used_words_def fun_eq_iff)
    have "nb \<noteq> 0" using unb i(1) by (auto simp: word_unat_eq_iff [of nb])
    then have t2: "freed p1 a nb q"
      using unmark_freed [of p1 i nb High a] t1 ok(2,4) i p1
      by (simp add: unb list_ex_iff freed_def pages_in_def)
    have sum: "unat nb + unat nt = unat n" using unb unt ok(1) by simp
    have "unat (tail_base p) = unat a + 4096 * unat nb"
      using i by (simp add: unat_tail_base [OF g] unb diff_mult_distrib2)
    then have "freed p a (nb + nt) q" using sum unat_u64_bound [of n] by (intro freed_join [OF t1 t2]) simp_all
    moreover have "nb + nt = n" using sum unat_u64_bound [of n] by (intro word_eq_unatI) (subst unat_add_small, simp_all)
    ultimately show ?thesis using True by simp
  qed
qed

lemma free_pages_result:
  assumes "pool_inv p" "unat (tail_pages p) < 2 ^ 32" "count_ok n" "free_pages_at a n p = (status, q)"
  shows "if status = EFI_SUCCESS then freed p a n q else q = p"
proof (cases "page_of p a")
  case None
  then have "free_tail_at a n p = (status, q)" using assms(4) by (simp add: free_pages_at_def)
  then show ?thesis using free_tail_Some(1) [OF assms(1,2)] free_tail_refused by auto
next
  case (Some ri)
  obtain r i where ri: "ri = (r, i)" by (cases ri)
  have g: "geometry_ok p" using assms(1) by (simp add: pool_inv_def)
  have i: "i < pages_in p r" "unat a = unat (base_of p r) + 4096 * i"
    using Some ri by (simp_all add: page_of_iff [OF g])
  have ua: "usize_add i (unat n) = i + unat n" by (rule free_index_small [OF g i(1) assms(3)])
  note res = assms(4) [unfolded free_pages_at_def Some ri option.case prod.case Let_def ua]
  show ?thesis
  proof (cases "r = High \<and> 0 < unat n \<and> high_pages p < i + unat n")
    case True
    then show ?thesis using res free_across_result [OF assms(1,2)] Some ri by simp
  next
    case False
    show ?thesis
    proof (cases "unat n = 0 \<or> pages_in p r < i + unat n \<or> list_ex (\<lambda>i. \<not> is_used p r i) [i..<i + unat n]")
      case True
      then show ?thesis using res False status_distinct by auto
    next
      case ok: False
      then have "freed p a n (unmark r i (i + unat n) p)"
        using i(2) by (intro unmark_freed [OF assms(1)]) (auto simp: list_ex_iff)
      then show ?thesis using res False ok by auto
    qed
  qed
qed

section \<open>A release undoes an allocation\<close>

lemma region_in_use:
  assumes "pool_inv p" "unat a = unat (base_of p r) + 4096 * f" "f + unat n \<le> pages_in p r"
    and "\<forall>x. in_range a n x \<longrightarrow> page_type p x \<noteq> Some EFI_CONVENTIONAL_MEMORY"
  shows "\<not> list_ex (\<lambda>i. \<not> is_used p r i) [f..<f + unat n]"
proof -
  have g: "geometry_ok p" using assms(1) by (simp add: pool_inv_def)
  have "is_used p r j" if j: "f \<le> j" "j < f + unat n" for j
    using region_page [OF g assms(2-4) j] by (auto simp: shown_type_def split: if_splits)
  then show ?thesis by (auto simp: list_ex_iff)
qed

lemma free_across_recorded:
  assumes "pool_inv p" "page_of p a = Some (High, i)" "high_pages p < i + unat n"
    and "span_recorded p 0 (i + unat n - high_pages p)"
    and "\<forall>x. in_range a n x \<longrightarrow> page_type p x \<noteq> Some EFI_CONVENTIONAL_MEMORY"
  shows "fst (free_across_tail i (unat n) p) = EFI_SUCCESS"
proof -
  have g: "geometry_ok p" "spans_ok p" using assms(1) by (simp_all add: pool_inv_def)
  have i: "i < high_pages p" "unat a = unat (high_base p) + 4096 * i"
    using assms(2) by (simp_all add: page_of_iff [OF g(1)] pages_in_def base_of_def)
  define nb :: u64 where "nb = of_nat (high_pages p - i)"
  define nt :: u64 where "nt = of_nat (unat n - (high_pages p - i))"
  have unt: "unat nt = i + unat n - high_pages p"
    unfolding nt_def using unat_u64_bound [of n] i(1) by (subst unat_of_nat_small) simp_all
  have unb: "unat nb = high_pages p - i"
    unfolding nb_def using pages_in_small [OF g(1), of High] by (intro unat_of_nat_small) (simp add: pages_in_def)
  have "in_range a nb x \<Longrightarrow> in_range a n x" for x
    using i assms(3) by (auto simp: in_range_def unb)
  then have used: "\<not> list_ex (\<lambda>i. \<not> is_used p High i) [i..<high_pages p]"
    using region_in_use [OF assms(1), of a High i nb] i assms(5) by (simp add: unb base_of_def pages_in_def)
  have "unat nt \<le> unat (tail_pages p)" "nt \<noteq> 0"
    using assms(3,4) g(2) unt by (auto simp: span_recorded_def spans_ok_def span_ok_def word_unat_eq_iff [of nt])
  then have "tail_index p (tail_base p) nt = Some 0" by (simp add: tail_index_iff [OF g(1)])
  then have "fst (free_tail_at (tail_base p) nt p) = EFI_SUCCESS"
    using assms(4) unt free_tail_recorded [OF assms(1), of "tail_base p" nt 0] by simp
  moreover have "\<not> (high_pages p \<le> i \<or> unat n \<le> high_pages p - i)" using i(1) assms(3) by simp
  ultimately show ?thesis
    using used by (simp only: free_across_tail_def Let_def nt_def [symmetric]) (auto split: prod.split)
qed

lemma free_recorded:
  assumes "pool_inv p" "n \<noteq> 0" "count_ok n" "recorded p a n"
    and "\<forall>x. in_range a n x \<longrightarrow> page_type p x \<noteq> Some EFI_CONVENTIONAL_MEMORY"
  shows "fst (free_pages_at a n p) = EFI_SUCCESS"
proof (cases "page_of p a")
  case None
  then show ?thesis
    using assms(4) free_tail_recorded [OF assms(1)] by (auto simp: recorded_def free_pages_at_def)
next
  case (Some ri)
  obtain r i where ri: "ri = (r, i)" by (cases ri)
  have g: "geometry_ok p" using assms(1) by (simp add: pool_inv_def)
  have i: "i < pages_in p r" "unat a = unat (base_of p r) + 4096 * i"
    using Some ri by (simp_all add: page_of_iff [OF g])
  have n: "0 < unat n" using assms(2) by (simp add: word_unat_eq_iff)
  have ua: "usize_add i (unat n) = i + unat n" by (rule free_index_small [OF g i(1) assms(3)])
  note step = free_pages_at_def Some ri option.case prod.case Let_def ua
  show ?thesis
  proof (cases "i + unat n \<le> pages_in p r")
    case True
    have "\<not> list_ex (\<lambda>i. \<not> is_used p r i) [i..<i + unat n]" by (rule region_in_use [OF assms(1) i(2) True assms(5)])
    moreover have "\<not> (r = High \<and> 0 < unat n \<and> high_pages p < i + unat n)" "\<not> (unat n = 0 \<or> pages_in p r < i + unat n)"
      using True n by (auto simp: pages_in_def)
    ultimately show ?thesis by (simp only: step) simp
  next
    case False
    then have "r = High" "span_recorded p 0 (i + unat n - high_pages p)" "high_pages p < i + unat n"
      using assms(4) Some ri by (auto simp: recorded_def pages_in_def)
    then show ?thesis
      using free_across_recorded [OF assms(1) _ _ _ assms(5)] Some ri n by (simp only: step) simp
  qed
qed

text \<open>
  \<open>FreePages\<close> is sound on every branch.  A successful call gives back pages that were all
  allocated, makes exactly those conventional again and keeps the invariant; a refused call
  changes nothing.  The page count is below \<open>2^63\<close> and the tail is shorter than \<open>2^32\<close> pages.
\<close>

theorem free_pages_correct:
  assumes "pool_inv p" and "unat (tail_pages p) < 2 ^ 32" and "unat n < 2 ^ 63"
    and "free_pages_at a n p = (status, q)"
  shows "if status = EFI_SUCCESS
    then n \<noteq> 0 \<and> pool_inv q \<and>
      (\<forall>x. in_range a n x \<longrightarrow> page_type p x \<noteq> None \<and> page_type p x \<noteq> Some EFI_CONVENTIONAL_MEMORY) \<and>
      (\<forall>x. page_type q x = (if in_range a n x then Some EFI_CONVENTIONAL_MEMORY else page_type p x))
    else q = p"
  using free_pages_result [OF assms(1,2) _ assms(4)] assms(3) unfolding count_ok_def freed_def by blast

lemma tail_pages_insert: "tail_insert k n t p = (ok, q) \<Longrightarrow> tail_pages q = tail_pages p"
  by (auto simp: tail_insert_def split: option.splits if_splits)

lemma tail_pages_try_gap: "try_gap n m t c p = (x, q) \<Longrightarrow> tail_pages q = tail_pages p"
  by (auto simp: try_gap_def Let_def dest: tail_pages_insert split: prod.splits bool.splits if_splits)

lemma tail_pages_scan: "tail_scan n m t ks c p = (x, q) \<Longrightarrow> tail_pages q = tail_pages p"
proof (induction ks arbitrary: c p)
  case (Cons k ks)
  then show ?case
    by (auto simp: Let_def dest!: tail_pages_try_gap split: prod.splits option.splits if_splits)
qed (auto dest: tail_pages_try_gap split: if_splits)

lemma tail_pages_fit: "tail_fit_below n m t p = (x, q) \<Longrightarrow> tail_pages q = tail_pages p"
  by (auto simp: tail_fit_below_def dest: tail_pages_scan split: if_splits)

lemma tail_pages_mark: "tail_pages (mark r f n t p) = tail_pages p"
  by (simp add: mark_retype)

lemma tail_pages_finish: "tail_pages (snd (finish_alloc at t n mem found p)) = tail_pages p"
  by (auto simp: finish_alloc_def tail_first_fit_def Let_def tail_pages_mark dest: tail_pages_fit
      split: prod.split option.split)

lemma tail_pages_allocate: "tail_pages (snd (allocate_pages at t n mem p)) = tail_pages p"
proof -
  have "tail_pages (snd (allocate_tail_at mem n t p)) = tail_pages p"
    by (auto simp: allocate_tail_at_def dest: tail_pages_insert split: prod.split option.split bool.split)
  moreover have "tail_pages (snd (allocate_across_tail i k t mem p)) = tail_pages p" for i k
    by (auto simp: allocate_across_tail_def Let_def tail_pages_mark dest: tail_pages_insert
        split: prod.split bool.split)
  ultimately show ?thesis
    by (simp add: allocate_pages_def Let_def tail_pages_finish split: prod.split option.split)
qed

lemma alloc_free:
  assumes "pool_inv p" "unat (tail_pages p) < 2 ^ 32" "allocate_pages at t n mem p = ((EFI_SUCCESS, a), q)"
  obtains q' where "free_pages_at a n q = (EFI_SUCCESS, q')" "pool_inv q'" "page_type q' = page_type p"
proof -
  have al: "allocated p a n t q" using allocate_outcome [OF assms(1), of at t n mem] assms(3) by (simp add: alloc_outcome_def)
  note gd = allocate_guards [OF assms(3)]
  have cnt: "count_ok n" using gd(2) max_run_small [of p] assms(1) by (simp add: count_ok_def pool_inv_def)
  have q: "pool_inv q" "recorded q a n" "\<forall>x. page_type q x = (if in_range a n x then Some t else page_type p x)"
      "\<forall>x. in_range a n x \<longrightarrow> page_type p x = Some EFI_CONVENTIONAL_MEMORY"
    using al by (simp_all add: allocated_def)
  have "fst (free_pages_at a n q) = EFI_SUCCESS"
    using q gd(1,3) by (intro free_recorded cnt) (auto simp: alloc_type_ok_def)
  then obtain q' where f: "free_pages_at a n q = (EFI_SUCCESS, q')" by (cases "free_pages_at a n q") auto
  have "tail_pages q = tail_pages p" using tail_pages_allocate [of at t n mem p] assms(3) by simp
  then have "freed q a n q'" using free_pages_result [OF q(1) _ cnt f] assms(2) by simp
  then have "pool_inv q'" "page_type q' = page_type p" using q(3,4) by (auto simp: freed_def)
  then show thesis using that f by blast
qed

text \<open>
  C10: \<open>FreePages\<close> undoes \<open>AllocatePages\<close>.  Releasing what a successful call handed out always
  succeeds, and every page then has the type it had before the allocation.
\<close>

theorem allocate_free_roundtrip:
  assumes "pool_inv p" and "unat (tail_pages p) < 2 ^ 32"
    and "allocate_pages at t n mem p = ((EFI_SUCCESS, a), q)"
  shows "\<exists>q'. free_pages_at a n q = (EFI_SUCCESS, q') \<and> pool_inv q' \<and> page_type q' = page_type p"
  using alloc_free [OF assms] by metis

lemma pool_new_tail: "unat (tail_pages pool_new) < 2 ^ 32"
  by (simp add: pool_new_def)

theorem free_pages_correct_witness:
  "\<exists>p q. pool_inv p \<and> free_pages_at 0xB00000 1 p = (EFI_SUCCESS, q) \<and>
    page_type p 0xB00000 \<noteq> Some EFI_CONVENTIONAL_MEMORY \<and> page_type q 0xB00000 = Some EFI_CONVENTIONAL_MEMORY"
proof -
  obtain p where p: "allocate_pages ALLOCATE_ADDRESS EFI_LOADER_DATA 1 0xB00000 pool_new = ((EFI_SUCCESS, 0xB00000), p)"
    by (rule pool_new_allocate)
  obtain q where q: "free_pages_at 0xB00000 1 p = (EFI_SUCCESS, q)" by (rule alloc_free [OF pool_new_inv pool_new_tail p])
  have inv: "pool_inv p" using allocate_outcome [OF pool_new_inv, of ALLOCATE_ADDRESS EFI_LOADER_DATA 1 "0xB00000"] p
    by (simp add: alloc_outcome_def allocated_def)
  have tl: "unat (tail_pages p) < 2 ^ 32"
    using tail_pages_allocate [of ALLOCATE_ADDRESS EFI_LOADER_DATA 1 "0xB00000" pool_new] pool_new_tail p by simp
  have "in_range 0xB00000 1 0xB00000" by (simp add: in_range_def page_aligned_def)
  then show ?thesis using free_pages_correct [OF inv tl _ q] q inv by auto
qed

theorem allocate_free_roundtrip_witness:
  "\<exists>q q'. allocate_pages ALLOCATE_ADDRESS EFI_LOADER_DATA 1 0xB00000 pool_new = ((EFI_SUCCESS, 0xB00000), q) \<and>
    free_pages_at 0xB00000 1 q = (EFI_SUCCESS, q') \<and> page_type q' = page_type pool_new"
proof -
  obtain q where q: "allocate_pages ALLOCATE_ADDRESS EFI_LOADER_DATA 1 0xB00000 pool_new = ((EFI_SUCCESS, 0xB00000), q)"
    by (rule pool_new_allocate)
  then show ?thesis using allocate_free_roundtrip [OF pool_new_inv pool_new_tail q] by blast
qed

section \<open>Counts that make the page index wrap\<close>

text \<open>
  The sum of the page index and the count is computed in \<open>usize\<close>.  For the second page of a
  region and the largest count it wraps to zero: nothing is checked, nothing is freed, and the
  call reports success.
\<close>

lemma free_pages_wraps:
  assumes "geometry_ok p" and "page_of p a = Some (r, i)" "0 < i" "unat n = 2 ^ 64 - i"
  shows "free_pages_at a n p = (EFI_SUCCESS, p)"
proof -
  have i: "i < 2 ^ 17" using assms(2) pages_in_small [OF assms(1), of r] by (auto simp: page_of_iff [OF assms(1)])
  then have "usize_add i (unat n) = 0" unfolding assms(4) usize_add_def by simp
  moreover have "0 < unat n" using assms(4) i by simp
  ultimately show ?thesis using assms(2) by (simp add: free_pages_at_def Let_def unmark_def)
qed

end
