(* ===== verification/Handle_Tag.thy ===== *)
theory Handle_Tag
  imports RayNu_Prelude
begin

text \<open>
  Opaque handles.  The firmware services hand out handles that carry a tag in the upper bits and
  the index of a table slot in the lower twelve, and check the tag before they use the index.
\<close>

locale handle_tag =
  fixes tag :: u64 and slot_count :: nat
  assumes tag_low: "tag AND 0xFFF = 0" and slot_count_small: "slot_count \<le> 0x1000"
begin

lemma tag_mask: "tag AND mask 12 = 0" "tag AND NOT (mask 12) = tag"
proof -
  show low: "tag AND mask 12 = 0" using tag_low by (simp add: mask_eq_exp_minus_1)
  then show "tag AND NOT (mask 12) = tag" using split_low [of tag 12] by simp
qed

lemma handle_parts:
  assumes "i < slot_count"
  shows "(tag OR of_nat i) AND NOT 0xFFF = tag" "unat ((tag OR of_nat i) AND 0xFFF) = i"
proof -
  have i: "unat (of_nat i :: u64) = i" using assms slot_count_small by (intro unat_of_nat_small) simp
  have m: "(0xFFF :: u64) = mask 12" by (simp add: mask_eq_exp_minus_1)
  have low: "(of_nat i :: u64) AND mask 12 = of_nat i"
    using assms slot_count_small by (intro word_eq_unatI) (simp add: unat_and_mask_low i)
  have hi: "(of_nat i :: u64) AND NOT (mask 12) = 0"
    using assms slot_count_small by (intro word_eq_unatI) (simp add: unat_and_not_mask i)
  have "(tag OR of_nat i) AND NOT (mask 12) = tag"
    by (simp only: bit.conj_disj_distrib2 tag_mask hi) simp
  then show "(tag OR of_nat i) AND NOT 0xFFF = tag" by (simp only: m)
  have "(tag OR of_nat i) AND mask 12 = of_nat i"
    by (simp only: bit.conj_disj_distrib2 tag_mask low) simp
  then show "unat ((tag OR of_nat i) AND 0xFFF) = i" by (simp only: m i)
qed

lemma handle_of_index:
  assumes "h AND NOT 0xFFF = tag"
  shows "tag OR of_nat (unat (h AND 0xFFF)) = h"
proof -
  have "h = (h AND NOT (mask 12)) OR (h AND mask 12)" by (rule split_low [symmetric])
  moreover have "(0xFFF :: u64) = mask 12" by (simp add: mask_eq_exp_minus_1)
  ultimately show ?thesis using assms by simp
qed

text \<open>The decoding that every table uses, with the test of the slot as \<open>P\<close>.\<close>

lemma decode_iff:
  "(if h AND NOT 0xFFF \<noteq> tag then None
    else let s = unat (h AND 0xFFF) in if s < slot_count \<and> P s then Some s else None) = Some i \<longleftrightarrow>
   i < slot_count \<and> P i \<and> h = tag OR of_nat i"
proof -
  have "h AND NOT 0xFFF = tag \<and> unat (h AND 0xFFF) = i \<longleftrightarrow> h = tag OR of_nat i" if "i < slot_count"
    using handle_parts [OF that] handle_of_index [of h] by metis
  then show ?thesis unfolding Let_def by (auto split: if_splits simp del: word_bw_comms)
qed

lemma handle_inj: "i < slot_count \<Longrightarrow> j < slot_count \<Longrightarrow> tag OR of_nat i = tag OR of_nat j \<longleftrightarrow> i = j"
  using handle_parts(2) by metis

end

end
