(* ===== verification/Efi_Events.thy ===== *)
theory Efi_Events
  imports Efi_Status Handle_Tag
begin

text \<open>
  Event, timer and task-priority services of the firmware, \<open>raynu_f/events.rs\<close>.  The host
  clock and the console are outside: a run sees the sequence of readings \<open>clock 0\<close>,
  \<open>clock 1\<close>, \dots and of answers \<open>input 0\<close>, \<open>input 1\<close>, \dots  The two waiting loops may
  run for ever if the clock stands still, so they are partial functions; the last section shows
  when they return.
\<close>

section \<open>Constants and state\<close>

definition EVENT_SLOTS :: nat where "EVENT_SLOTS = 64"
definition EVENT_HANDLE_TAG :: u64 where "EVENT_HANDLE_TAG = 0x5246000000001000"
definition EVT_TIMER :: u32 where "EVT_TIMER = 0x80000000"
definition EVT_NOTIFY_WAIT :: u32 where "EVT_NOTIFY_WAIT = 0x100"
definition EVT_NOTIFY_SIGNAL :: u32 where "EVT_NOTIFY_SIGNAL = 0x200"
definition TIMER_CANCEL :: u32 where "TIMER_CANCEL = 0"
definition TIMER_PERIODIC :: u32 where "TIMER_PERIODIC = 1"
definition TIMER_RELATIVE :: u32 where "TIMER_RELATIVE = 2"
definition TPL_APPLICATION :: u64 where "TPL_APPLICATION = 4"
definition TPL_CALLBACK :: u64 where "TPL_CALLBACK = 8"
definition TPL_HIGH_LEVEL :: u64 where "TPL_HIGH_LEVEL = 31"
definition WAIT_CAP_100NS :: u64 where "WAIT_CAP_100NS = 10 * 10000000"
definition WAIT_KEY_SLOT :: nat where "WAIT_KEY_SLOT = 0"

record Slot =
  ev_used :: bool
  event_type :: u32
  notify_tpl :: u64
  notify_fn :: u64
  notify_ctx :: u64
  signaled :: bool
  timer_kind :: u32
  deadline :: u64
  period :: u64

definition EMPTY_SLOT :: Slot where
  "EMPTY_SLOT =
    \<lparr>ev_used = False, event_type = 0, notify_tpl = 0, notify_fn = 0, notify_ctx = 0, signaled = False,
     timer_kind = TIMER_CANCEL, deadline = 0, period = 0\<rparr>"

datatype WaitOutcome = Immediate nat | TimerFired nat | Stuck | WaitError u64

record Events =
  slots :: "Slot list"
  ev_tpl :: u64
  monotonic :: u64
  timers_fired :: u32

definition events_new :: Events where
  "events_new =
    \<lparr>slots = (replicate EVENT_SLOTS EMPTY_SLOT)
       [WAIT_KEY_SLOT := EMPTY_SLOT\<lparr>ev_used := True, event_type := EVT_NOTIFY_WAIT, notify_tpl := TPL_CALLBACK\<rparr>],
     ev_tpl = TPL_APPLICATION, monotonic = 0, timers_fired = 0\<rparr>"

definition update_slot :: "nat \<Rightarrow> (Slot \<Rightarrow> Slot) \<Rightarrow> Events \<Rightarrow> Events" where
  "update_slot i f e = e\<lparr>slots := (slots e)[i := f (slots e ! i)]\<rparr>"

section \<open>Operations\<close>

definition signal_wait_key :: "Events \<Rightarrow> Events" where
  "signal_wait_key e = update_slot WAIT_KEY_SLOT (signaled_update (\<lambda>_. True)) e"

definition handle_for :: "nat \<Rightarrow> u64" where
  "handle_for slot = EVENT_HANDLE_TAG OR of_nat slot"

definition slot_of :: "Events \<Rightarrow> u64 \<Rightarrow> nat option" where
  "slot_of e h =
    (if h AND NOT 0xFFF \<noteq> EVENT_HANDLE_TAG then None
     else let s = unat (h AND 0xFFF) in
     if s < EVENT_SLOTS \<and> ev_used (slots e ! s) then Some s else None)"

definition raise_tpl :: "u64 \<Rightarrow> Events \<Rightarrow> u64 \<times> Events" where
  "raise_tpl new e =
    (ev_tpl e, if ev_tpl e < new \<and> new \<le> TPL_HIGH_LEVEL then e\<lparr>ev_tpl := new\<rparr> else e)"

definition restore_tpl :: "u64 \<Rightarrow> Events \<Rightarrow> Events" where
  "restore_tpl old e = (if old \<le> TPL_HIGH_LEVEL then e\<lparr>ev_tpl := old\<rparr> else e)"

definition next_monotonic :: "Events \<Rightarrow> u64 \<times> Events" where
  "next_monotonic e = (let m = monotonic e + 1 in (m, e\<lparr>monotonic := m\<rparr>))"

definition create_event :: "u32 \<Rightarrow> u64 \<Rightarrow> u64 \<Rightarrow> u64 \<Rightarrow> Events \<Rightarrow> (u64 \<times> u64) \<times> Events" where
  "create_event etype tpl fn ctx e =
    (let needs_notify = etype AND (EVT_NOTIFY_WAIT OR EVT_NOTIFY_SIGNAL) \<noteq> 0 in
     if needs_notify \<and> (fn = 0 \<or> tpl = 0 \<or> TPL_HIGH_LEVEL < tpl) then ((EFI_INVALID_PARAMETER, 0), e)
     else if etype AND (EVT_NOTIFY_WAIT OR EVT_NOTIFY_SIGNAL) = EVT_NOTIFY_WAIT OR EVT_NOTIFY_SIGNAL
     then ((EFI_INVALID_PARAMETER, 0), e)
     else case find_index (\<lambda>s. \<not> ev_used s) (slots e) of
       Some i \<Rightarrow>
         ((EFI_SUCCESS, handle_for i),
          update_slot i (\<lambda>_. EMPTY_SLOT\<lparr>ev_used := True, event_type := etype, notify_tpl := tpl,
            notify_fn := fn, notify_ctx := ctx\<rparr>) e)
     | None \<Rightarrow> ((EFI_OUT_OF_RESOURCES, 0), e))"

definition close_event :: "u64 \<Rightarrow> Events \<Rightarrow> u64 \<times> Events" where
  "close_event h e =
    (case slot_of e h of
       Some s \<Rightarrow> (EFI_SUCCESS, update_slot s (\<lambda>_. EMPTY_SLOT) e)
     | None \<Rightarrow> (EFI_INVALID_PARAMETER, e))"

definition signal_event :: "u64 \<Rightarrow> Events \<Rightarrow> u64 \<times> Events" where
  "signal_event h e =
    (case slot_of e h of
       Some s \<Rightarrow> (EFI_SUCCESS, update_slot s (signaled_update (\<lambda>_. True)) e)
     | None \<Rightarrow> (EFI_INVALID_PARAMETER, e))"

definition set_timer :: "u64 \<Rightarrow> u32 \<Rightarrow> u64 \<Rightarrow> u64 \<Rightarrow> Events \<Rightarrow> u64 \<times> Events" where
  "set_timer h kind trigger now e =
    (case slot_of e h of
       None \<Rightarrow> (EFI_INVALID_PARAMETER, e)
     | Some s \<Rightarrow>
         if event_type (slots e ! s) AND EVT_TIMER = 0 then (EFI_INVALID_PARAMETER, e)
         else if kind = TIMER_CANCEL then
           (EFI_SUCCESS, update_slot s (\<lambda>x. x\<lparr>timer_kind := TIMER_CANCEL, period := 0\<rparr>) e)
         else if kind = TIMER_RELATIVE then
           (EFI_SUCCESS, update_slot s
             (\<lambda>x. x\<lparr>timer_kind := TIMER_RELATIVE, deadline := saturating_add now trigger, period := 0\<rparr>) e)
         else if kind = TIMER_PERIODIC then
           (if trigger = 0 then (EFI_INVALID_PARAMETER, e)
            else (EFI_SUCCESS, update_slot s
              (\<lambda>x. x\<lparr>timer_kind := TIMER_PERIODIC, deadline := saturating_add now trigger, period := trigger\<rparr>) e))
         else (EFI_INVALID_PARAMETER, e))"

text \<open>The body of the loop of \<open>poll_timers\<close>: the slot afterwards, and whether its timer fired.\<close>

definition poll_slot :: "u64 \<Rightarrow> Slot \<Rightarrow> Slot \<times> bool" where
  "poll_slot now s =
    (if \<not> ev_used s \<or> timer_kind s = TIMER_CANCEL then (s, False)
     else if deadline s \<le> now then
       (let s1 = s\<lparr>signaled := True\<rparr> in
        if timer_kind s = TIMER_PERIODIC then
          (let missed = (now - deadline s) div period s + 1 in
           (s1\<lparr>deadline := saturating_add (deadline s) (missed * period s)\<rparr>, True))
        else (s1\<lparr>timer_kind := TIMER_CANCEL\<rparr>, True))
     else (s, False))"

definition poll_timers :: "u64 \<Rightarrow> Events \<Rightarrow> u32 \<times> Events" where
  "poll_timers now e =
    (let rs = map (poll_slot now) (slots e); fired = of_nat (length (filter snd rs)) in
     (fired, e\<lparr>slots := map fst rs, timers_fired := saturating_add (timers_fired e) fired\<rparr>))"

definition check_event :: "u64 \<Rightarrow> u64 \<Rightarrow> bool \<Rightarrow> Events \<Rightarrow> u64 \<times> Events" where
  "check_event h now input e =
    (case slot_of e h of
       None \<Rightarrow> (EFI_INVALID_PARAMETER, e)
     | Some s \<Rightarrow>
         if event_type (slots e ! s) AND EVT_NOTIFY_SIGNAL \<noteq> 0 then (EFI_INVALID_PARAMETER, e)
         else let e1 = (if input then signal_wait_key e else e); e2 = snd (poll_timers now e1) in
         if signaled (slots e2 ! s) then (EFI_SUCCESS, update_slot s (signaled_update (\<lambda>_. False)) e2)
         else (EFI_NOT_READY, e2))"

definition earliest_deadline :: "Events \<Rightarrow> u64 list \<Rightarrow> u64 option" where
  "earliest_deadline e handles =
    fold (\<lambda>h best.
      case slot_of e h of
        None \<Rightarrow> best
      | Some s \<Rightarrow>
          if timer_kind (slots e ! s) \<noteq> TIMER_CANCEL
          then Some (case best of None \<Rightarrow> deadline (slots e ! s) | Some b \<Rightarrow> min b (deadline (slots e ! s)))
          else best) handles None"

definition slot_or_first :: "Events \<Rightarrow> u64 \<Rightarrow> nat" where
  "slot_or_first e h = (case slot_of e h of Some s \<Rightarrow> s | None \<Rightarrow> 0)"

text \<open>One pass of the loop of \<open>wait\<close>, up to the search for a signalled event.\<close>

definition wait_pass :: "bool \<Rightarrow> bool \<Rightarrow> u64 \<Rightarrow> Events \<Rightarrow> u32 \<times> Events" where
  "wait_pass waits_for_key input now e =
    poll_timers now (if waits_for_key \<and> input then signal_wait_key e else e)"

definition first_signaled :: "Events \<Rightarrow> u64 list \<Rightarrow> nat option" where
  "first_signaled e handles = find_index (\<lambda>h. signaled (slots e ! slot_or_first e h)) handles"

partial_function (option) wait_loop ::
    "u64 list \<Rightarrow> (nat \<Rightarrow> u64) \<Rightarrow> (nat \<Rightarrow> bool) \<Rightarrow> bool \<Rightarrow> nat \<Rightarrow> Events \<Rightarrow> ((u64 \<times> u64 \<times> WaitOutcome) \<times> Events) option"
where
  "wait_loop handles clock input waits_for_key k e =
    (let now = clock (Suc k); (fired, e1) = wait_pass waits_for_key (input k) now e in
     case first_signaled e1 handles of
       Some i \<Rightarrow>
         Some ((EFI_SUCCESS, of_nat i, if k = 0 \<and> fired = 0 then Immediate i else TimerFired i),
           update_slot (slot_or_first e1 (handles ! i)) (signaled_update (\<lambda>_. False)) e1)
     | None \<Rightarrow>
         if earliest_deadline e1 handles = None \<and> \<not> waits_for_key then Some ((EFI_TIMEOUT, 0, Stuck), e1)
         else if WAIT_CAP_100NS < saturating_sub now (clock 0) then Some ((EFI_TIMEOUT, 0, Stuck), e1)
         else wait_loop handles clock input waits_for_key (Suc k) e1)"

definition bad_wait_handle :: "Events \<Rightarrow> u64 \<Rightarrow> bool" where
  "bad_wait_handle e h =
    (case slot_of e h of None \<Rightarrow> True | Some s \<Rightarrow> event_type (slots e ! s) AND EVT_NOTIFY_SIGNAL \<noteq> 0)"

definition wait_for_event ::
    "u64 list \<Rightarrow> (nat \<Rightarrow> u64) \<Rightarrow> (nat \<Rightarrow> bool) \<Rightarrow> Events \<Rightarrow> ((u64 \<times> u64 \<times> WaitOutcome) \<times> Events) option"
where
  "wait_for_event handles clock input e =
    (if ev_tpl e \<noteq> TPL_APPLICATION then Some ((EFI_UNSUPPORTED, 0, WaitError EFI_UNSUPPORTED), e)
     else if handles = [] then Some ((EFI_INVALID_PARAMETER, 0, WaitError EFI_INVALID_PARAMETER), e)
     else if list_ex (bad_wait_handle e) handles
     then Some ((EFI_INVALID_PARAMETER, 0, WaitError EFI_INVALID_PARAMETER), e)
     else wait_loop handles clock input (handle_for WAIT_KEY_SLOT \<in> set handles) 0 e)"

partial_function (option) stall_loop :: "(nat \<Rightarrow> u64) \<Rightarrow> u64 \<Rightarrow> nat \<Rightarrow> u64 option" where
  "stall_loop clock want k =
    (if saturating_sub (clock (Suc k)) (clock 0) < want then stall_loop clock want (Suc k) else Some EFI_SUCCESS)"

definition stall :: "(nat \<Rightarrow> u64) \<Rightarrow> u64 \<Rightarrow> u64 option" where
  "stall clock microseconds =
    (let want = min (saturating_mul microseconds 10) WAIT_CAP_100NS in stall_loop clock want 0)"

section \<open>Invariant\<close>

text \<open>A periodic deadline is never before one period: this keeps the catch-up of
  \<open>poll_timers\<close> from overflowing.\<close>

definition slot_ok :: "Slot \<Rightarrow> bool" where
  "slot_ok s \<longleftrightarrow> (timer_kind s = TIMER_PERIODIC \<longrightarrow> period s \<noteq> 0 \<and> period s \<le> deadline s)"

definition events_inv :: "Events \<Rightarrow> bool" where
  "events_inv e \<longleftrightarrow> length (slots e) = EVENT_SLOTS \<and> (\<forall>s \<in> set (slots e). slot_ok s)"

lemma timer_kinds [simp]:
  "TIMER_RELATIVE \<noteq> TIMER_PERIODIC" "TIMER_CANCEL \<noteq> TIMER_PERIODIC" "TIMER_CANCEL \<noteq> TIMER_RELATIVE"
  "TIMER_PERIODIC \<noteq> TIMER_RELATIVE" "TIMER_PERIODIC \<noteq> TIMER_CANCEL" "TIMER_RELATIVE \<noteq> TIMER_CANCEL"
  by (simp_all add: TIMER_RELATIVE_def TIMER_PERIODIC_def TIMER_CANCEL_def)

lemma slots_update_slot [simp]:
  "slots (update_slot i f e) = (slots e)[i := f (slots e ! i)]" "ev_tpl (update_slot i f e) = ev_tpl e"
  by (simp_all add: update_slot_def)

lemma events_inv_slot: "events_inv e \<Longrightarrow> i < EVENT_SLOTS \<Longrightarrow> slot_ok (slots e ! i)"
  by (simp add: events_inv_def)

lemma events_inv_update:
  assumes "events_inv e" "i < EVENT_SLOTS \<Longrightarrow> slot_ok (slots e ! i) \<Longrightarrow> slot_ok (f (slots e ! i))"
  shows "events_inv (update_slot i f e)"
proof (cases "i < EVENT_SLOTS")
  case True
  then have "slot_ok (f (slots e ! i))" using assms events_inv_slot by blast
  then show ?thesis using assms(1) set_update_subset_insert [of "slots e" i] by (auto simp: events_inv_def)
next
  case False
  then show ?thesis using assms(1) by (simp add: events_inv_def list_update_beyond)
qed

lemma slot_ok_empty [simp]: "slot_ok EMPTY_SLOT"
  by (simp add: slot_ok_def EMPTY_SLOT_def)

lemma slot_ok_signal [simp]: "slot_ok (s\<lparr>signaled := b\<rparr>) \<longleftrightarrow> slot_ok s"
  by (simp add: slot_ok_def)

lemma slot_of_bound: "slot_of e h = Some s \<Longrightarrow> s < EVENT_SLOTS \<and> ev_used (slots e ! s)"
  by (auto simp: slot_of_def Let_def split: if_splits)

lemma saturating_add_ge: "y \<le> saturating_add x (y :: 'a::len word)"
  by (simp add: saturating_add_def word_le_nat_alt unat_add_small unat_minus_one_eq)
    (use unat_less_size [of y] in linarith)

lemma saturating_add_ge': "x \<le> saturating_add x (y :: 'a::len word)"
  by (simp add: saturating_add_def word_le_nat_alt unat_add_small unat_minus_one_eq)
    (use unat_less_size [of x] in linarith)

lemma slot_ok_poll: "slot_ok s \<Longrightarrow> slot_ok (fst (poll_slot now s))"
  using saturating_add_ge' [of "deadline s" "((now - deadline s) div period s + 1) * period s"]
  by (auto simp: poll_slot_def slot_ok_def Let_def intro: order.trans)

lemma events_inv_poll: "events_inv e \<Longrightarrow> events_inv (snd (poll_timers now e))"
  by (auto simp: events_inv_def poll_timers_def Let_def slot_ok_poll)

lemma events_new_inv: "events_inv events_new"
proof -
  have "slot_ok (EMPTY_SLOT\<lparr>ev_used := True, event_type := EVT_NOTIFY_WAIT, notify_tpl := TPL_CALLBACK\<rparr>)"
    by (simp add: slot_ok_def EMPTY_SLOT_def)
  then show ?thesis
    by (auto simp: events_inv_def events_new_def dest!: set_update_subset_insert [THEN subsetD])
qed

lemma events_inv_signal_key: "events_inv e \<Longrightarrow> events_inv (signal_wait_key e)"
  unfolding signal_wait_key_def by (intro events_inv_update) simp_all

lemma events_inv_ops:
  assumes "events_inv e"
  shows "events_inv (snd (create_event t l f c e))" "events_inv (snd (close_event h e))"
    "events_inv (snd (signal_event h e))" "events_inv (snd (set_timer h k trigger now e))"
    "events_inv (snd (check_event h now inp e))"
proof -
  have "slot_ok (EMPTY_SLOT\<lparr>ev_used := True, event_type := t, notify_tpl := l, notify_fn := f, notify_ctx := c\<rparr>)"
    by (simp add: slot_ok_def EMPTY_SLOT_def)
  then show "events_inv (snd (create_event t l f c e))"
    using assms by (auto simp: create_event_def Let_def intro!: events_inv_update split: option.split)
  show "events_inv (snd (close_event h e))" "events_inv (snd (signal_event h e))"
    using assms by (auto simp: close_event_def signal_event_def intro!: events_inv_update split: option.split)
  show "events_inv (snd (set_timer h k trigger now e))"
    using assms saturating_add_ge [of trigger now]
    by (auto simp: set_timer_def slot_ok_def intro!: events_inv_update split: option.split)
  show "events_inv (snd (check_event h now inp e))"
    using assms events_inv_poll events_inv_signal_key
    by (auto simp: check_event_def Let_def intro!: events_inv_update split: option.split)
qed

section \<open>Handles\<close>

interpretation ev_tag: handle_tag EVENT_HANDLE_TAG EVENT_SLOTS
  by unfold_locales (simp_all add: EVENT_HANDLE_TAG_def EVENT_SLOTS_def)

lemma slot_of_iff:
  "slot_of e h = Some s \<longleftrightarrow> s < EVENT_SLOTS \<and> ev_used (slots e ! s) \<and> h = handle_for s"
  unfolding slot_of_def handle_for_def by (rule ev_tag.decode_iff)

lemma handle_for_inj: "i < EVENT_SLOTS \<Longrightarrow> j < EVENT_SLOTS \<Longrightarrow> handle_for i = handle_for j \<longleftrightarrow> i = j"
  unfolding handle_for_def by (rule ev_tag.handle_inj)

text \<open>
  \<open>CreateEvent\<close> hands out a handle that named no event before, and the event has the
  caller's type and notification and is neither signalled nor armed; no other handle is
  affected.  Closing the handle succeeds and gives back the table as it was, up to the fresh slot.  The call
  fails for lack of resources exactly when all slots are in use.
\<close>

theorem create_event_correct:
  assumes "events_inv e" and "create_event etype tpl fn ctx e = ((status, h), e')"
  shows "if status = EFI_SUCCESS
    then slot_of e h = None \<and>
      (\<exists>s. slot_of e' h = Some s \<and>
        slots e' ! s = EMPTY_SLOT\<lparr>ev_used := True, event_type := etype, notify_tpl := tpl,
          notify_fn := fn, notify_ctx := ctx\<rparr> \<and>
        (\<forall>j. j \<noteq> s \<longrightarrow> slots e' ! j = slots e ! j) \<and>
        fst (close_event h e') = EFI_SUCCESS \<and> slots (snd (close_event h e')) = (slots e)[s := EMPTY_SLOT]) \<and>
      (\<forall>h'. h' \<noteq> h \<longrightarrow> slot_of e' h' = slot_of e h')
    else e' = e \<and> h = 0 \<and> (status = EFI_OUT_OF_RESOURCES \<longrightarrow> list_all ev_used (slots e))"
proof (cases "status = EFI_SUCCESS")
  case False
  then show ?thesis
    using assms(2) by (auto simp: create_event_def Let_def find_index_None_iff list_all_iff efi_status
        split: if_splits option.splits)
next
  case True
  define x where "x = EMPTY_SLOT\<lparr>ev_used := True, event_type := etype, notify_tpl := tpl, notify_fn := fn, notify_ctx := ctx\<rparr>"
  obtain i where i: "find_index (\<lambda>s. \<not> ev_used s) (slots e) = Some i" "h = handle_for i"
      "e' = update_slot i (\<lambda>_. x) e"
    using assms(2) True status_distinct unfolding x_def
    by (auto simp: create_event_def Let_def split: if_splits option.splits)
  have il: "i < EVENT_SLOTS" "\<not> ev_used (slots e ! i)" "i < length (slots e)"
    using find_index_SomeD [OF i(1)] assms(1) by (auto simp: events_inv_def)
  have x: "ev_used x" by (simp add: x_def)
  have old: "slot_of e h = None" using il handle_for_inj by (cases "slot_of e h") (auto simp: slot_of_iff i(2))
  have new: "slot_of e' h = Some i" using il x by (simp add: slot_of_iff i)
  have rest: "slot_of e' h' = slot_of e h'" if h': "h' \<noteq> h" for h'
  proof -
    have "slot_of e' h' = Some s \<longleftrightarrow> slot_of e h' = Some s" for s
      using h' i by (cases "s = i") (auto simp: slot_of_iff)
    then show ?thesis by (metis option.exhaust)
  qed
  have "slots e' ! i = x" "\<forall>j. j \<noteq> i \<longrightarrow> slots e' ! j = slots e ! j" using il i(3) by simp_all
  moreover have close: "close_event h e' = (EFI_SUCCESS, update_slot i (\<lambda>_. EMPTY_SLOT) e')"
    by (simp add: close_event_def new)
  then have "fst (close_event h e') = EFI_SUCCESS" "slots (snd (close_event h e')) = (slots e)[i := EMPTY_SLOT]"
    unfolding close using i(3) by simp_all
  ultimately show ?thesis using True old new rest unfolding x_def by auto
qed

theorem create_event_correct_witness:
  "\<exists>e'. create_event EVT_TIMER 0 0 0 events_new = ((EFI_SUCCESS, handle_for 1), e') \<and>
    slot_of events_new (handle_for 1) = None \<and> slot_of e' (handle_for 1) = Some 1"
proof -
  have "find_index (\<lambda>s. \<not> ev_used s) (slots events_new) = Some 1"
    by (simp add: events_new_def EVENT_SLOTS_def WAIT_KEY_SLOT_def EMPTY_SLOT_def numeral_eq_Suc)
  then obtain e' where e': "create_event EVT_TIMER 0 0 0 events_new = ((EFI_SUCCESS, handle_for 1), e')"
    by (auto simp: create_event_def Let_def EVT_TIMER_def EVT_NOTIFY_WAIT_def EVT_NOTIFY_SIGNAL_def)
  moreover have "s = 1" if "slot_of e' (handle_for 1) = Some s" for s
    using that handle_for_inj [of 1 s] by (simp add: slot_of_iff EVENT_SLOTS_def)
  ultimately show ?thesis using create_event_correct [OF events_new_inv e'] by auto
qed

section \<open>Timers\<close>

lemma poll_exact:
  assumes "slot_ok s" "timer_kind s = TIMER_PERIODIC" "deadline s \<le> now"
  defines "q \<equiv> (unat now - unat (deadline s)) div unat (period s) + 1"
  shows "unat (((now - deadline s) div period s + 1) * period s) = q * unat (period s)"
    and "unat now < unat (deadline s) + q * unat (period s)"
    and "unat (deadline s) + q * unat (period s) \<le> unat now + unat (period s)"
proof -
  define P D N where "P = unat (period s)" and "D = unat (deadline s)" and "N = unat now"
  have p: "0 < P" "P \<le> D" "D \<le> N"
    using assms(1-3) by (auto simp: slot_ok_def P_def D_def N_def word_le_nat_alt word_unat_eq_iff)
  have q: "q = (N - D) div P + 1" by (simp add: q_def P_def D_def N_def)
  have lo: "N - D < q * P" using dividend_less_div_times [OF p(1), of "N - D"] by (simp add: q)
  have hi: "q * P \<le> N - D + P" by (simp add: q)
  have fit: "q * P \<le> N" using hi p by linarith
  have N: "N < 2 ^ 64" using unat_u64_bound [of now] by (simp add: N_def)
  have "unat ((now - deadline s) div period s) = (N - D) div P"
    using assms(3) by (simp add: unat_div unat_sub_le P_def D_def N_def)
  moreover have "q \<le> q * P" using p(1) by simp
  ultimately have "unat ((now - deadline s) div period s + 1) = q"
    using fit N by (subst unat_add_small) (simp_all add: q)
  then show "unat (((now - deadline s) div period s + 1) * period s) = q * unat (period s)"
    using fit N by (subst unat_mult_small) (simp_all add: P_def)
  show "unat now < unat (deadline s) + q * unat (period s)"
    "unat (deadline s) + q * unat (period s) \<le> unat now + unat (period s)"
    using lo hi p by (simp_all add: P_def D_def N_def)
qed

lemma slots_poll: "i < length (slots e) \<Longrightarrow> slots (snd (poll_timers now e)) ! i = fst (poll_slot now (slots e ! i))"
  by (simp add: poll_timers_def Let_def)

lemma poll_slot_cases:
  assumes "slot_ok s"
  shows "if ev_used s \<and> timer_kind s \<noteq> TIMER_CANCEL \<and> deadline s \<le> now
    then signaled (fst (poll_slot now s)) \<and>
      (if timer_kind s = TIMER_PERIODIC
       then timer_kind (fst (poll_slot now s)) = TIMER_PERIODIC \<and> period (fst (poll_slot now s)) = period s \<and>
         (\<exists>m. unat now < unat (deadline s) + m * unat (period s) \<and>
            unat (deadline s) + m * unat (period s) \<le> unat now + unat (period s) \<and>
            unat (deadline (fst (poll_slot now s))) = min (unat (deadline s) + m * unat (period s)) (2 ^ 64 - 1))
       else timer_kind (fst (poll_slot now s)) = TIMER_CANCEL)
    else fst (poll_slot now s) = s"
proof (cases "ev_used s \<and> timer_kind s = TIMER_PERIODIC \<and> deadline s \<le> now")
  case True
  define x where "x = ((now - deadline s) div period s + 1) * period s"
  have st: "fst (poll_slot now s) = s\<lparr>signaled := True, deadline := saturating_add (deadline s) x\<rparr>"
    using True by (simp add: poll_slot_def Let_def x_def)
  have k: "timer_kind s = TIMER_PERIODIC" "deadline s \<le> now" using True by simp_all
  obtain q where ex: "unat x = q * unat (period s)" "unat now < unat (deadline s) + q * unat (period s)"
      "unat (deadline s) + q * unat (period s) \<le> unat now + unat (period s)"
    by (rule that [OF poll_exact [OF assms k, folded x_def]])
  have "unat (saturating_add (deadline s) x) = min (unat (deadline s) + q * unat (period s)) (2 ^ 64 - 1)"
    using ex(1) by (simp add: unat_saturating_add)
  then show ?thesis unfolding st using True ex by auto
next
  case False
  then show ?thesis by (auto simp: poll_slot_def Let_def)
qed

text \<open>
  C30: Polling the timers is exact.  A due periodic timer is signalled once and its deadline
  moves by a whole number of periods to the first point after the current time, so it neither
  drifts nor queues a burst, and the arithmetic does not wrap (the deadline is the largest
  clock value exactly if the next point is not below it).  A due one-shot timer is signalled and
  disarmed.  Slots without a due timer are left alone.
\<close>

theorem poll_timers_correct:
  assumes "events_inv e" and "i < EVENT_SLOTS"
  shows "let s = slots e ! i; s' = slots (snd (poll_timers now e)) ! i in
    if ev_used s \<and> timer_kind s \<noteq> TIMER_CANCEL \<and> deadline s \<le> now
    then signaled s' \<and>
      (if timer_kind s = TIMER_PERIODIC
       then timer_kind s' = TIMER_PERIODIC \<and> period s' = period s \<and>
         (\<exists>m. unat now < unat (deadline s) + m * unat (period s) \<and>
            unat (deadline s) + m * unat (period s) \<le> unat now + unat (period s) \<and>
            unat (deadline s') = min (unat (deadline s) + m * unat (period s)) (2 ^ 64 - 1))
       else timer_kind s' = TIMER_CANCEL)
    else s' = s"
proof -
  have "slots (snd (poll_timers now e)) ! i = fst (poll_slot now (slots e ! i))"
    using assms by (intro slots_poll) (simp add: events_inv_def)
  then show ?thesis using poll_slot_cases [OF events_inv_slot [OF assms], of now] by (simp only: Let_def)
qed

theorem poll_timers_correct_witness:
  "\<exists>e. events_inv e \<and> deadline (slots e ! 1) = 100 \<and> period (slots e ! 1) = 100 \<and>
    signaled (slots (snd (poll_timers 250 e)) ! 1) \<and> deadline (slots (snd (poll_timers 250 e)) ! 1) = 300"
proof -
  let ?s = "EMPTY_SLOT\<lparr>ev_used := True, timer_kind := TIMER_PERIODIC, deadline := 100, period := 100\<rparr>"
  let ?e = "update_slot 1 (\<lambda>_. ?s) events_new"
  have ok: "slot_ok ?s" by (simp add: slot_ok_def EMPTY_SLOT_def)
  have inv: "events_inv ?e" using events_new_inv by (rule events_inv_update) (simp add: ok)
  have s: "slots ?e ! 1 = ?s" by (simp add: events_new_def EVENT_SLOTS_def)
  have bound: "1 < EVENT_SLOTS" by (simp add: EVENT_SLOTS_def)
  let ?d = "deadline (slots (snd (poll_timers 250 ?e)) ! 1)"
  have "slots (snd (poll_timers 250 ?e)) ! 1 = fst (poll_slot 250 ?s)"
    using inv bound s by (simp only: slots_poll events_inv_def)
  then have d: "?d = 300" by (simp add: poll_slot_def EMPTY_SLOT_def Let_def saturating_add_def)
  have "signaled (slots (snd (poll_timers 250 ?e)) ! 1)"
    using poll_timers_correct [OF inv bound, of 250] unfolding s Let_def by (simp split: if_splits)
  then show ?thesis using inv s d by (intro exI [of _ ?e]) simp
qed

section \<open>The waiting loops return\<close>

definition past_cap :: "(nat \<Rightarrow> u64) \<Rightarrow> nat \<Rightarrow> bool" where
  "past_cap clock k \<longleftrightarrow> WAIT_CAP_100NS < saturating_sub (clock (Suc k)) (clock 0)"

lemma wait_loop_step:
  assumes "wait_pass w (input k) (clock (Suc k)) e = (fired, e1)"
  shows "wait_loop handles clock input w k e =
    (case first_signaled e1 handles of
       Some i \<Rightarrow>
         Some ((EFI_SUCCESS, of_nat i, if k = 0 \<and> fired = 0 then Immediate i else TimerFired i),
           update_slot (slot_or_first e1 (handles ! i)) (signaled_update (\<lambda>_. False)) e1)
     | None \<Rightarrow>
         if earliest_deadline e1 handles = None \<and> \<not> w then Some ((EFI_TIMEOUT, 0, Stuck), e1)
         else if past_cap clock k then Some ((EFI_TIMEOUT, 0, Stuck), e1)
         else wait_loop handles clock input w (Suc k) e1)"
  by (subst wait_loop.simps) (simp only: Let_def assms prod.case past_cap_def)

lemma wait_loop_returns:
  assumes "past_cap clock K" "k \<le> K"
  shows "\<exists>st i oc e'. wait_loop handles clock input w k e = Some ((st, i, oc), e') \<and>
    (st = EFI_SUCCESS \<and> (\<exists>j < length handles. i = of_nat j \<and> oc \<in> {Immediate j, TimerFired j}) \<or>
     st = EFI_TIMEOUT \<and> i = 0 \<and> oc = Stuck)"
  using assms(2)
proof (induction "K - k" arbitrary: k e)
  case 0
  then have k: "past_cap clock k" using assms(1) by simp
  obtain fired e1 where p: "wait_pass w (input k) (clock (Suc k)) e = (fired, e1)" by fastforce
  show ?case
    using k find_index_SomeD [of _ handles]
    by (auto simp: wait_loop_step [where input = input and clock = clock, OF p] first_signaled_def split: option.split)
next
  case (Suc n)
  obtain fired e1 where p: "wait_pass w (input k) (clock (Suc k)) e = (fired, e1)" by fastforce
  have "\<exists>st i oc e'. wait_loop handles clock input w (Suc k) e1 = Some ((st, i, oc), e') \<and>
    (st = EFI_SUCCESS \<and> (\<exists>j < length handles. i = of_nat j \<and> oc \<in> {Immediate j, TimerFired j}) \<or>
     st = EFI_TIMEOUT \<and> i = 0 \<and> oc = Stuck)"
    using Suc.hyps(2) by (intro Suc.hyps(1)) simp_all
  then show ?case
    using find_index_SomeD [of _ handles]
    by (auto simp: wait_loop_step [where input = input and clock = clock, OF p] first_signaled_def split: option.split)
qed


text \<open>An armed timer among the handles survives a pass that finds nothing signalled.\<close>

definition armed :: "Events \<Rightarrow> u64 \<Rightarrow> nat \<Rightarrow> bool" where
  "armed e h s \<longleftrightarrow> slot_of e h = Some s \<and> s < length (slots e) \<and> timer_kind (slots e ! s) \<noteq> TIMER_CANCEL"

lemma poll_slot_used [simp]: "ev_used (fst (poll_slot now s)) = ev_used s"
  by (simp add: poll_slot_def Let_def)

lemma poll_slot_quiet:
  assumes "\<not> signaled (fst (poll_slot now s))"
  shows "fst (poll_slot now s) = s" and "ev_used s \<Longrightarrow> timer_kind s \<noteq> TIMER_CANCEL \<Longrightarrow> now < deadline s"
  using assms by (auto simp: poll_slot_def Let_def not_le split: if_splits)

lemma wait_pass_quiet:
  assumes "armed e h s" "wait_pass w inp now e = (fired, e1)" "\<not> signaled (slots e1 ! slot_or_first e1 h)"
  shows "armed e1 h s" "slots e1 ! s = slots e ! s" "now < deadline (slots e ! s)"
proof -
  define e0 where "e0 = (if w \<and> inp then signal_wait_key e else e)"
  have e1: "slots e1 = map (fst \<circ> poll_slot now) (slots e0)"
    using assms(2) by (auto simp: wait_pass_def poll_timers_def Let_def e0_def)
  have s: "s < EVENT_SLOTS" "ev_used (slots e ! s)" "h = handle_for s" "s < length (slots e)"
      "timer_kind (slots e ! s) \<noteq> TIMER_CANCEL"
    using assms(1) by (auto simp: armed_def slot_of_iff)
  have e0: "length (slots e0) = length (slots e)" "slots e0 ! s = slots e ! s \<or> slots e0 ! s = (slots e ! s)\<lparr>signaled := True\<rparr>"
    using s(4) by (auto simp: e0_def signal_wait_key_def) (cases "s = WAIT_KEY_SLOT", simp_all)
  have at: "slots e1 ! s = fst (poll_slot now (slots e0 ! s))" using s(4) e0(1) by (simp add: e1)
  have u0: "ev_used (slots e0 ! s)" "timer_kind (slots e0 ! s) \<noteq> TIMER_CANCEL" using e0(2) s(2,5) by auto
  have "ev_used (slots e1 ! s)" using u0(1) by (simp add: at)
  then have sl: "slot_of e1 h = Some s" using s(1,3) by (simp add: slot_of_iff)
  then have q: "\<not> signaled (fst (poll_slot now (slots e0 ! s)))" using assms(3) by (simp add: slot_or_first_def at)
  have "slots e0 ! s = slots e ! s" using e0(2) poll_slot_quiet(1) [OF q] q by auto
  then show "slots e1 ! s = slots e ! s" "now < deadline (slots e ! s)"
    using poll_slot_quiet [OF q] u0 by (simp_all add: at)
  then show "armed e1 h s" using sl s(4,5) e0(1) by (simp add: armed_def e1)
qed

lemma earliest_armed:
  assumes "armed e h s" "h \<in> set handles"
  shows "earliest_deadline e handles \<noteq> None"
proof -
  define f where "f = (\<lambda>h best. case slot_of e h of None \<Rightarrow> best
      | Some s \<Rightarrow> if timer_kind (slots e ! s) \<noteq> TIMER_CANCEL
          then Some (case best of None \<Rightarrow> deadline (slots e ! s) | Some b \<Rightarrow> min b (deadline (slots e ! s)))
          else best)"
  have keep: "fold f hs (Some b) \<noteq> None" for hs b
    by (induction hs arbitrary: b) (auto simp: f_def split: option.split)
  have "fold f handles b \<noteq> None" for b
    using assms(2)
  proof (induction handles arbitrary: b)
    case (Cons g gs)
    show ?case
    proof (cases "g = h")
      case True
      have "f h b \<noteq> None" using assms(1) by (simp add: f_def armed_def)
      then show ?thesis using True keep by auto
    qed (use Cons in auto)
  qed simp
  then show ?thesis by (simp add: earliest_deadline_def f_def)
qed

lemma wait_loop_timer:
  assumes "armed e h s" "h \<in> set handles" "k \<le> K" "deadline (slots e ! s) \<le> clock (Suc K)"
    and "\<forall>j < K. \<not> past_cap clock j"
  shows "\<exists>i oc e'. wait_loop handles clock input w k e = Some ((EFI_SUCCESS, i, oc), e')"
  using assms(1,3,4)
proof (induction "K - k" arbitrary: k e)
  case 0
  obtain fired e1 where p: "wait_pass w (input k) (clock (Suc k)) e = (fired, e1)" by fastforce
  have "signaled (slots e1 ! slot_or_first e1 h)"
    using wait_pass_quiet(3) [OF 0(2) p] 0 by (metis diff_is_0_eq leD le_antisym)
  then have "first_signaled e1 handles \<noteq> None" using assms(2) by (auto simp: first_signaled_def find_index_None_iff)
  then show ?case by (auto simp: wait_loop_step [where input = input and clock = clock, OF p])
next
  case (Suc n)
  obtain fired e1 where p: "wait_pass w (input k) (clock (Suc k)) e = (fired, e1)" by fastforce
  show ?case
  proof (cases "first_signaled e1 handles")
    case (Some i)
    then show ?thesis by (simp add: wait_loop_step [where input = input and clock = clock, OF p])
  next
    case None
    then have "\<not> signaled (slots e1 ! slot_or_first e1 h)"
      using assms(2) by (auto simp: first_signaled_def find_index_None_iff)
    note q = wait_pass_quiet [OF Suc.prems(1) p this]
    have "\<not> past_cap clock k" using assms(5) Suc.hyps(2) by simp
    moreover have "\<exists>i oc e'. wait_loop handles clock input w (Suc k) e1 = Some ((EFI_SUCCESS, i, oc), e')"
      using Suc.hyps(2) Suc.prems(3) q by (intro Suc.hyps(1)) simp_all
    ultimately show ?thesis
      using None earliest_armed [OF q(1) assms(2)] by (auto simp: wait_loop_step [where input = input and clock = clock, OF p])
  qed
qed

text \<open>
  C15: \<open>WaitForEvent\<close> returns as soon as the host clock has passed the ten-second cap, whatever
  the console and the handles do, with the index of a listed event on success.  If the list
  holds an armed timer whose deadline is reached by a reading before the cap, the call succeeds.
\<close>

theorem wait_for_event_returns:
  assumes "events_inv e" and "WAIT_CAP_100NS < saturating_sub (clock (Suc K)) (clock 0)"
  shows "\<exists>st i oc e'. wait_for_event handles clock input e = Some ((st, i, oc), e') \<and>
    (st = EFI_SUCCESS \<longrightarrow> (\<exists>j < length handles. i = of_nat j \<and> oc \<in> {Immediate j, TimerFired j})) \<and>
    (ev_tpl e = TPL_APPLICATION \<and> list_all (\<lambda>h. \<not> bad_wait_handle e h) handles \<and>
      (\<exists>h \<in> set handles. \<exists>s m. slot_of e h = Some s \<and> timer_kind (slots e ! s) \<noteq> TIMER_CANCEL \<and>
        deadline (slots e ! s) \<le> clock (Suc m) \<and>
        (\<forall>j < m. saturating_sub (clock (Suc j)) (clock 0) \<le> WAIT_CAP_100NS)) \<longrightarrow> st = EFI_SUCCESS)"
proof (cases "ev_tpl e \<noteq> TPL_APPLICATION \<or> handles = [] \<or> list_ex (bad_wait_handle e) handles")
  case True
  then show ?thesis by (auto simp: wait_for_event_def status_distinct list_ex_iff list_all_iff)
next
  case False
  let ?w = "handle_for WAIT_KEY_SLOT \<in> set handles"
  have loop: "wait_for_event handles clock input e = wait_loop handles clock input ?w 0 e"
    using False by (simp add: wait_for_event_def)
  have cap: "past_cap clock K" using assms(2) by (simp add: past_cap_def)
  obtain st i oc e' where r: "wait_loop handles clock input ?w 0 e = Some ((st, i, oc), e')"
      "st = EFI_SUCCESS \<and> (\<exists>j < length handles. i = of_nat j \<and> oc \<in> {Immediate j, TimerFired j}) \<or> st = EFI_TIMEOUT"
    using wait_loop_returns [OF cap, of 0 handles input ?w e] by auto
  have "st = EFI_SUCCESS" if h: "h \<in> set handles" "slot_of e h = Some s" "timer_kind (slots e ! s) \<noteq> TIMER_CANCEL"
      "deadline (slots e ! s) \<le> clock (Suc m)" "\<forall>j < m. saturating_sub (clock (Suc j)) (clock 0) \<le> WAIT_CAP_100NS" for h s m
  proof -
    have "armed e h s" using h(2,3) slot_of_bound [OF h(2)] assms(1) by (simp add: armed_def events_inv_def)
    then show ?thesis
      using wait_loop_timer [of e h s handles 0 m clock input ?w] h r(1) by (auto simp: past_cap_def not_less)
  qed
  then show ?thesis using r status_distinct by (intro exI [of _ st] exI [of _ i] exI [of _ oc] exI [of _ e']) (auto simp: loop)
qed

theorem wait_for_event_returns_witness:
  "\<exists>st i oc e'. wait_for_event [handle_for 0] (\<lambda>k. of_nat k * 200000000) (\<lambda>_. False) events_new = Some ((st, i, oc), e')"
proof -
  have "WAIT_CAP_100NS < saturating_sub ((\<lambda>k. of_nat k * 200000000) (Suc 0)) ((\<lambda>k. of_nat k * 200000000) 0 :: u64)"
    by (simp add: WAIT_CAP_100NS_def saturating_sub_def)
  from wait_for_event_returns [OF events_new_inv this, of "[handle_for 0]" "\<lambda>_. False"]
  show ?thesis by blast
qed

text \<open>\<open>Stall\<close> returns once the clock has advanced far enough, and not before.\<close>

lemma stall_loop_returns:
  assumes "want \<le> saturating_sub (clock (Suc K)) (clock 0)" "k \<le> K"
  shows "stall_loop clock want k = Some EFI_SUCCESS"
  using assms(2)
proof (induction "K - k" arbitrary: k)
  case 0
  then show ?case using leD [OF assms(1)] by (subst stall_loop.simps) simp
next
  case (Suc n)
  then have "stall_loop clock want (Suc k) = Some EFI_SUCCESS" by simp
  then show ?case by (subst stall_loop.simps) simp
qed

lemma stall_returns:
  assumes "min (saturating_mul us 10) WAIT_CAP_100NS \<le> saturating_sub (clock (Suc K)) (clock 0)"
  shows "stall clock us = Some EFI_SUCCESS"
  unfolding stall_def Let_def by (rule stall_loop_returns [OF assms]) simp

lemma stall_loop_waits:
  assumes "stall_loop clock want k = Some st"
  shows "\<exists>j \<ge> k. want \<le> saturating_sub (clock (Suc j)) (clock 0)"
proof (rule stall_loop.raw_induct [OF _ assms, where P = "\<lambda>clock want k st. \<exists>j \<ge> k. want \<le> saturating_sub (clock (Suc j)) (clock 0)"])
  fix loop :: "(nat \<Rightarrow> u64) \<Rightarrow> u64 \<Rightarrow> nat \<Rightarrow> u64 option" and clock want k st
  assume IH: "\<And>clock want k st. loop clock want k = Some st \<Longrightarrow> \<exists>j \<ge> k. want \<le> saturating_sub (clock (Suc j)) (clock 0)"
    and r: "(if saturating_sub (clock (Suc k)) (clock 0) < want then loop clock want (Suc k) else Some EFI_SUCCESS) = Some st"
  show "\<exists>j \<ge> k. want \<le> saturating_sub (clock (Suc j)) (clock 0)"
  proof (cases "saturating_sub (clock (Suc k)) (clock 0) < want")
    case True
    then obtain j where "Suc k \<le> j" "want \<le> saturating_sub (clock (Suc j)) (clock 0)"
      using r IH [of clock want "Suc k" st] by auto
    then show ?thesis by (intro exI [of _ j]) simp
  next
    case False
    then show ?thesis by (auto simp: not_less)
  qed
qed

lemma stall_waits:
  "stall clock us = Some st \<Longrightarrow> \<exists>j. min (saturating_mul us 10) WAIT_CAP_100NS \<le> saturating_sub (clock (Suc j)) (clock 0)"
  unfolding stall_def Let_def by (drule stall_loop_waits) blast

end
