(* ===== verification/Volume.thy ===== *)
theory Volume
  imports RayNu_Prelude
begin

text \<open>
  Byte volumes.  The parsers of \<open>raynu_f\<close> read through the trait \<open>VolumeRead\<close>: a reader takes
  a byte offset and a buffer and reports whether the buffer was filled.  A reader is modelled as
  a function from the offset and the length of the buffer to the bytes, \<open>None\<close> when it refuses.
  The locale states what the parsers rely on; it is interpreted on the readers of the source
  that are backed by memory.  The block devices behind the other readers are arguments.
\<close>

type_synonym volume_read = "u64 \<Rightarrow> nat \<Rightarrow> u8 list option"

section \<open>Little-endian fields of a buffer\<close>

definition u16_at :: "u8 list \<Rightarrow> nat \<Rightarrow> u16" where
  "u16_at b off = from_le_bytes [b ! off, b ! (off + 1)]"

definition u32_at :: "u8 list \<Rightarrow> nat \<Rightarrow> u32" where
  "u32_at b off = from_le_bytes [b ! off, b ! (off + 1), b ! (off + 2), b ! (off + 3)]"

definition u64_at :: "u8 list \<Rightarrow> nat \<Rightarrow> u64" where
  "u64_at b off =
    from_le_bytes [b ! off, b ! (off + 1), b ! (off + 2), b ! (off + 3),
      b ! (off + 4), b ! (off + 5), b ! (off + 6), b ! (off + 7)]"

section \<open>Readers\<close>

text \<open>\<open>SliceDisk\<close>: a slice of host memory.  The checked additions of the source are exact on the
  natural numbers; a sum that does not fit in \<open>usize\<close> is refused.\<close>

definition slice_read :: "u8 list \<Rightarrow> volume_read" where
  "slice_read img off n =
    (let start = unat off in
     if 2 ^ 64 \<le> start + n then None
     else if length img < start + n then None
     else Some (get_slice start n img))"

text \<open>\<open>IsoFatVol\<close>: the El Torito boot image inside the retained ISO.\<close>

definition iso_fat_read :: "u8 list \<Rightarrow> u64 \<Rightarrow> volume_read" where
  "iso_fat_read img base off n =
    (let start = unat (saturating_add base off) in
     if 2 ^ 64 \<le> start + n then None
     else if length img < start + n then None
     else Some (get_slice start n img))"

text \<open>\<open>OffsetVol\<close>: another reader, shifted.\<close>

definition offset_read :: "volume_read \<Rightarrow> u64 \<Rightarrow> volume_read" where
  "offset_read inner base off n = inner (saturating_add base off) n"

section \<open>The contract\<close>

definition bytes_from :: "(nat \<Rightarrow> u8) \<Rightarrow> nat \<Rightarrow> nat \<Rightarrow> u8 list" where
  "bytes_from content a n = map (\<lambda>i. content (a + i)) [0..<n]"

lemma length_bytes_from [simp]: "length (bytes_from content a n) = n"
  by (simp add: bytes_from_def)

lemma nth_bytes_from [simp]: "i < n \<Longrightarrow> bytes_from content a n ! i = content (a + i)"
  by (simp add: bytes_from_def)

lemma take_bytes_from: "take k (bytes_from content a n) = bytes_from content a (min k n)"
  by (rule nth_equalityI) simp_all

lemma drop_bytes_from: "drop k (bytes_from content a n) = bytes_from content (a + k) (n - k)"
  by (rule nth_equalityI) (simp_all add: add.assoc)

locale byte_volume =
  fixes rd :: volume_read and content :: "nat \<Rightarrow> u8" and bytes :: nat
  assumes read_content: "rd off n = Some bs \<Longrightarrow> bs = map (\<lambda>i. content (unat off + i)) [0..<n]"
    and read_fits: "rd off n = Some bs \<Longrightarrow> unat off + n < 2 ^ 64"
    and read_succeeds: "0 < n \<Longrightarrow> unat off + n \<le> bytes \<Longrightarrow> rd off n \<noteq> None"
begin

lemma read_range: "0 < n \<Longrightarrow> unat off + n \<le> bytes \<Longrightarrow> rd off n = Some (bytes_from content (unat off) n)"
  using read_succeeds [of n off] read_content [of off n] by (auto simp: bytes_from_def)

lemma read_length: "rd off n = Some bs \<Longrightarrow> length bs = n"
  by (auto dest: read_content)

lemma read_nth: "rd off n = Some bs \<Longrightarrow> i < n \<Longrightarrow> bs ! i = content (unat off + i)"
  by (auto dest: read_content)

end

lemma get_slice_map: "a + n \<le> length img \<Longrightarrow> get_slice a n img = map (\<lambda>i. img ! (a + i)) [0..<n]"
  by (rule nth_equalityI) (simp_all add: nth_get_slice)

interpretation slice: byte_volume "slice_read img" "\<lambda>i. img ! i" "min (length img) (2 ^ 64 - 1)" for img
  by unfold_locales (auto simp: slice_read_def Let_def get_slice_map split: if_splits)

interpretation iso_fat: byte_volume "iso_fat_read img base" "\<lambda>i. img ! (unat base + i)" "min (length img) (2 ^ 64 - 1) - unat base"
  for img base
proof unfold_locales
  fix off n bs
  assume r: "iso_fat_read img base off n = Some bs"
  let ?start = "unat (saturating_add base off)"
  have le: "?start + n < 2 ^ 64" "?start + n \<le> length img" and bs: "bs = get_slice ?start n img"
    using r by (auto simp: iso_fat_read_def Let_def split: if_splits)
  show "bs = map (\<lambda>i. img ! (unat base + (unat off + i))) [0..<n]"
  proof (cases "n = 0")
    case True
    then show ?thesis using bs by (simp add: get_slice_def)
  next
    case False
    then have "?start = unat base + unat off"
      using le(1) by (auto simp: unat_saturating_add min_def split: if_splits)
    then show ?thesis using bs le(2) by (simp add: get_slice_map add.assoc)
  qed
next
  fix off n bs
  assume "iso_fat_read img base off n = Some bs"
  then show "unat off + n < 2 ^ 64"
    using unat_u64_bound [of off] by (cases "n = 0") (auto simp: iso_fat_read_def Let_def unat_saturating_add min_def split: if_splits)
next
  fix off :: u64 and n :: nat
  assume "0 < n" "unat off + n \<le> min (length img) (2 ^ 64 - 1) - unat base"
  then have "unat base + unat off + n \<le> length img" "unat base + unat off + n < 2 ^ 64" by auto
  then show "iso_fat_read img base off n \<noteq> None"
    by (simp add: iso_fat_read_def Let_def unat_saturating_add)
qed

text \<open>A shifted volume is a volume.\<close>

lemma offset_volume:
  assumes "byte_volume rd content bytes" "bytes < 2 ^ 64"
  shows "byte_volume (offset_read rd base) (\<lambda>i. content (unat base + i)) (bytes - unat base)"
proof unfold_locales
  fix off n bs
  assume r: "offset_read rd base off n = Some bs"
  note v = byte_volume.read_content [OF assms(1)] byte_volume.read_fits [OF assms(1)]
  have fit: "unat (saturating_add base off) + n < 2 ^ 64" using v(2) r by (simp add: offset_read_def)
  show "bs = map (\<lambda>i. content (unat base + (unat off + i))) [0..<n]"
  proof (cases "n = 0")
    case False
    then have "unat (saturating_add base off) = unat base + unat off"
      using fit by (auto simp: unat_saturating_add min_def split: if_splits)
    then show ?thesis using v(1) [of "saturating_add base off" n bs] r by (simp add: offset_read_def add.assoc)
  qed (use v(1) [of "saturating_add base off" n bs] r in \<open>simp add: offset_read_def\<close>)
  show "unat off + n < 2 ^ 64"
    using fit unat_u64_bound [of off] by (cases "n = 0") (auto simp: unat_saturating_add min_def split: if_splits)
next
  fix off :: u64 and n :: nat
  assume n: "0 < n" "unat off + n \<le> bytes - unat base"
  then have "unat base + unat off + n \<le> bytes" by simp
  then have "unat (saturating_add base off) = unat base + unat off" using assms(2) by (simp add: unat_saturating_add)
  then show "offset_read rd base off n \<noteq> None"
    using byte_volume.read_succeeds [OF assms(1) n(1), of "saturating_add base off"] n by (simp add: offset_read_def)
qed

end
