(* ===== verification/Fat.thy ===== *)
theory Fat
  imports Volume
begin

text \<open>
  The FAT12/16/32 reader of the firmware, \<open>raynu_f/fat.rs\<close>: the parameter block, the cluster
  geometry, the allocation table, reading along a cluster chain, directory lookup and path
  resolution.  A read that fails part-way leaves its buffer unspecified; the model returns the
  bytes only on success.
\<close>

section \<open>Constants and data\<close>

definition DIR_ENTRY_SIZE :: nat where "DIR_ENTRY_SIZE = 32"
definition ATTR_VOLUME_ID :: u8 where "ATTR_VOLUME_ID = 0x08"
definition ATTR_DIRECTORY :: u8 where "ATTR_DIRECTORY = 0x10"
definition ATTR_LONG_NAME :: u8 where "ATTR_LONG_NAME = 0x0F"
definition DIR_ENTRY_FREE :: u8 where "DIR_ENTRY_FREE = 0xE5"
definition DIR_ENTRY_END :: u8 where "DIR_ENTRY_END = 0"
definition MAX_CHAIN_HOPS :: nat where "MAX_CHAIN_HOPS = 2 ^ 20"
definition MAX_PATH_COMPONENTS :: nat where "MAX_PATH_COMPONENTS = 8"

datatype FatKind = Fat12 | Fat16 | Fat32

datatype FatError = ShortRead | BadBpb | NotFound | NotADirectory | IsADirectory | BadChain | PathTooLong

record FatVolume =
  fat_kind :: FatKind
  bytes_per_sector :: u32
  sectors_per_cluster :: u32
  reserved_sectors :: u32
  num_fats :: u32
  root_entries :: u32
  total_sectors :: u32
  fat_sectors :: u32
  fat_start :: u32
  root_start :: u32
  root_sectors :: u32
  data_start :: u32
  cluster_count :: u32
  root_cluster :: u32

record FatEntry =
  ent_name :: "u8 list"
  ent_name_len :: nat
  ent_attr :: u8
  first_cluster :: u32
  ent_size :: u32

section \<open>The parameter block\<close>

definition kind_for :: "u32 \<Rightarrow> FatKind" where
  "kind_for clusters = (if clusters < 4085 then Fat12 else if clusters < 65525 then Fat16 else Fat32)"

text \<open>The checks and the derived geometry, once the fields are read.\<close>

definition bpb_volume :: "u32 \<Rightarrow> u32 \<Rightarrow> u32 \<Rightarrow> u32 \<Rightarrow> u32 \<Rightarrow> u32 \<Rightarrow> u32 \<Rightarrow> u32 \<Rightarrow> FatError + FatVolume" where
  "bpb_volume bps spc reserved fats root_ents sectors fat_secs root_clus =
    (if bps \<notin> {512, 1024, 2048, 4096} \<or> \<not> is_power_of_two spc \<or> spc = 0 \<or> 128 < spc \<or>
       reserved = 0 \<or> \<not> (1 \<le> fats \<and> fats \<le> 2)
     then Inl BadBpb
     else if sectors = 0 \<or> fat_secs = 0 then Inl BadBpb
     else let
       root_secs = (root_ents * of_nat DIR_ENTRY_SIZE + bps - 1) div bps;
       fstart = reserved;
       rstart = fstart + fats * fat_secs;
       dstart = rstart + root_secs
     in
     if sectors \<le> dstart then Inl BadBpb
     else let
       clusters = (sectors - dstart) div spc;
       kind = kind_for clusters
     in
     if kind = Fat32 \<and> (root_ents \<noteq> 0 \<or> root_clus < 2) then Inl BadBpb
     else if kind \<noteq> Fat32 \<and> root_ents = 0 then Inl BadBpb
     else Inr \<lparr>fat_kind = kind, bytes_per_sector = bps, sectors_per_cluster = spc, reserved_sectors = reserved,
       num_fats = fats, root_entries = root_ents, total_sectors = sectors, fat_sectors = fat_secs,
       fat_start = fstart, root_start = rstart, root_sectors = root_secs, data_start = dstart,
       cluster_count = clusters, root_cluster = root_clus\<rparr>)"

definition parse_bpb :: "u8 list \<Rightarrow> FatError + FatVolume" where
  "parse_bpb boot =
    (if length boot < 512 then Inl ShortRead
     else let
       bps = ucast (u16_at boot 11);
       spc = ucast (boot ! 13);
       reserved = ucast (u16_at boot 14);
       fats = ucast (boot ! 16);
       root_ents = ucast (u16_at boot 17);
       total16 = ucast (u16_at boot 19);
       fat16_sectors = ucast (u16_at boot 22);
       total32 = u32_at boot 32;
       fat32_sectors = u32_at boot 36;
       root_clus = u32_at boot 44
     in bpb_volume bps spc reserved fats root_ents (if total16 \<noteq> 0 then total16 else total32)
       (if fat16_sectors \<noteq> 0 then fat16_sectors else fat32_sectors) root_clus)"

definition cluster_bytes :: "FatVolume \<Rightarrow> u32" where
  "cluster_bytes v = bytes_per_sector v * sectors_per_cluster v"

definition cluster_offset :: "FatVolume \<Rightarrow> u32 \<Rightarrow> u64" where
  "cluster_offset v c =
    (let sector = data_start v + (c - 2) * sectors_per_cluster v in ucast sector * ucast (bytes_per_sector v))"

definition is_end_of_chain :: "FatVolume \<Rightarrow> u32 \<Rightarrow> bool" where
  "is_end_of_chain v e =
    (case fat_kind v of
       Fat12 \<Rightarrow> 0xFF8 \<le> e
     | Fat16 \<Rightarrow> 0xFFF8 \<le> e
     | Fat32 \<Rightarrow> 0x0FFFFFF8 \<le> e AND 0x0FFFFFFF)"

definition cluster_is_valid :: "FatVolume \<Rightarrow> u32 \<Rightarrow> bool" where
  "cluster_is_valid v c \<longleftrightarrow> 2 \<le> c \<and> c < cluster_count v + 2"

section \<open>Directory entries\<close>

definition to_ascii_uppercase :: "u8 \<Rightarrow> u8" where
  "to_ascii_uppercase c = (if 0x61 \<le> c \<and> c \<le> 0x7A then c - 0x20 else c)"

definition to_ascii_lowercase :: "u8 \<Rightarrow> u8" where
  "to_ascii_lowercase c = (if 0x41 \<le> c \<and> c \<le> 0x5A then c + 0x20 else c)"

definition eq_ignore_ascii_case :: "u8 list \<Rightarrow> u8 list \<Rightarrow> bool" where
  "eq_ignore_ascii_case a b \<longleftrightarrow> map to_ascii_lowercase a = map to_ascii_lowercase b"

definition is_dir :: "FatEntry \<Rightarrow> bool" where
  "is_dir e \<longleftrightarrow> ent_attr e AND ATTR_DIRECTORY \<noteq> 0"

definition name_bytes :: "FatEntry \<Rightarrow> u8 list" where
  "name_bytes e = take (ent_name_len e) (ent_name e)"

text \<open>The name is collected in a list and padded to the twelve bytes of the array.\<close>

definition short_name :: "u8 list \<Rightarrow> u8 list \<times> nat" where
  "short_name raw =
    (let base = map to_ascii_uppercase (takeWhile (\<lambda>c. c \<noteq> 0x20) (take 8 raw));
         ext = get_slice 8 3 raw;
         name = (if list_ex (\<lambda>c. c \<noteq> 0x20) ext
           then base @ [0x2E] @ map to_ascii_uppercase (takeWhile (\<lambda>c. c \<noteq> 0x20) ext) else base)
     in (name @ replicate (12 - length name) 0, length name))"

definition parse_dir_entry :: "u8 list \<Rightarrow> FatEntry option" where
  "parse_dir_entry e =
    (if length e < DIR_ENTRY_SIZE \<or> e ! 0 = DIR_ENTRY_END \<or> e ! 0 = DIR_ENTRY_FREE then None
     else let attr = e ! 11 in
     if attr AND ATTR_LONG_NAME = ATTR_LONG_NAME then None
     else if attr AND ATTR_VOLUME_ID \<noteq> 0 then None
     else let
       (name, name_len) = short_name (take 11 e);
       hi = ucast (u16_at e 20) :: u32;
       lo = ucast (u16_at e 26) :: u32
     in Some \<lparr>ent_name = name, ent_name_len = name_len, ent_attr = attr,
         first_cluster = push_bit 16 hi OR lo, ent_size = u32_at e 28\<rparr>)"

section \<open>Cluster chains\<close>

definition next_cluster :: "FatVolume \<Rightarrow> volume_read \<Rightarrow> u32 \<Rightarrow> FatError + u32" where
  "next_cluster v rd c =
    (let fat_base = ucast (fat_start v) * ucast (bytes_per_sector v) :: u64 in
     case fat_kind v of
       Fat32 \<Rightarrow>
         (case rd (fat_base + ucast c * 4) 4 of
            None \<Rightarrow> Inl ShortRead
          | Some b \<Rightarrow> Inr (from_le_bytes b AND 0x0FFFFFFF))
     | Fat16 \<Rightarrow>
         (case rd (fat_base + ucast c * 2) 2 of
            None \<Rightarrow> Inl ShortRead
          | Some b \<Rightarrow> Inr (ucast (from_le_bytes b :: u16)))
     | Fat12 \<Rightarrow>
         (case rd (fat_base + (ucast c * 3) div 2) 2 of
            None \<Rightarrow> Inl ShortRead
          | Some b \<Rightarrow>
              let raw = from_le_bytes b :: u16 in
              Inr (ucast (if c AND 1 = 0 then raw AND 0x0FFF else drop_bit 4 raw))))"

text \<open>The walk of \<open>read_chain\<close> to the cluster that holds the offset; \<open>None\<close> past the end.\<close>

fun skip_clusters :: "FatVolume \<Rightarrow> volume_read \<Rightarrow> nat \<Rightarrow> u32 \<Rightarrow> nat \<Rightarrow> FatError + (u32 \<times> nat) option" where
  "skip_clusters v rd 0 c hops = Inr (Some (c, hops))"
| "skip_clusters v rd (Suc n) c hops =
    (if \<not> cluster_is_valid v c then Inl BadChain
     else case next_cluster v rd c of
       Inl e \<Rightarrow> Inl e
     | Inr c' \<Rightarrow>
         if is_end_of_chain v c' then Inr None
         else if MAX_CHAIN_HOPS < hops + 1 then Inl BadChain
         else skip_clusters v rd n c' (hops + 1))"

text \<open>The copying loop, with \<open>left\<close> bytes of the buffer still to fill.  Every pass but the last
  counts a hop, which bounds it.\<close>

function read_clusters ::
    "FatVolume \<Rightarrow> volume_read \<Rightarrow> u32 \<Rightarrow> nat \<Rightarrow> nat \<Rightarrow> nat \<Rightarrow> u8 list \<Rightarrow> FatError + u8 list"
where
  "read_clusters v rd c within left hops acc =
    (if left = 0 then Inr acc
     else if \<not> cluster_is_valid v c then Inl BadChain
     else let n = min (unat (cluster_bytes v) - within) left in
     case rd (cluster_offset v c + of_nat within) n of
       None \<Rightarrow> Inl ShortRead
     | Some bs \<Rightarrow>
         if left - n = 0 then Inr (acc @ bs)
         else case next_cluster v rd c of
           Inl e \<Rightarrow> Inl e
         | Inr c' \<Rightarrow>
             if is_end_of_chain v c' then Inr (acc @ bs)
             else if MAX_CHAIN_HOPS < hops + 1 then Inl BadChain
             else read_clusters v rd c' 0 (left - n) (hops + 1) (acc @ bs))"
  by pat_completeness auto
termination
  by (relation "measure (\<lambda>(v, rd, c, within, left, hops, acc). MAX_CHAIN_HOPS - hops)") auto

declare read_clusters.simps [simp del]

definition read_chain :: "FatVolume \<Rightarrow> volume_read \<Rightarrow> u32 \<Rightarrow> u64 \<Rightarrow> nat \<Rightarrow> FatError + u8 list" where
  "read_chain v rd first offset n =
    (if n = 0 then Inr []
     else let cbytes = ucast (cluster_bytes v) :: u64 in
     if cbytes = 0 then Inl BadBpb
     else case skip_clusters v rd (unat (offset div cbytes)) first 0 of
       Inl e \<Rightarrow> Inl e
     | Inr None \<Rightarrow> Inr []
     | Inr (Some (c, hops)) \<Rightarrow> read_clusters v rd c (unat (offset mod cbytes)) n hops [])"

section \<open>Directories and paths\<close>

text \<open>The entries at \<open>base\<close>: a match, an end marker (reported as \<open>NotFound\<close>), or neither.\<close>

fun scan_dir :: "volume_read \<Rightarrow> u64 \<Rightarrow> u8 list \<Rightarrow> nat list \<Rightarrow> FatError + FatEntry option" where
  "scan_dir rd base name [] = Inr None"
| "scan_dir rd base name (i # is) =
    (case rd (base + of_nat i * of_nat DIR_ENTRY_SIZE) DIR_ENTRY_SIZE of
       None \<Rightarrow> Inl ShortRead
     | Some e \<Rightarrow>
         if e ! 0 = DIR_ENTRY_END then Inl NotFound
         else case parse_dir_entry e of
           Some ent \<Rightarrow>
             if eq_ignore_ascii_case (name_bytes ent) name then Inr (Some ent) else scan_dir rd base name is
         | None \<Rightarrow> scan_dir rd base name is)"

function find_in_clusters :: "FatVolume \<Rightarrow> volume_read \<Rightarrow> u8 list \<Rightarrow> u32 \<Rightarrow> nat \<Rightarrow> FatError + FatEntry" where
  "find_in_clusters v rd name c hops =
    (if \<not> cluster_is_valid v c then Inl BadChain
     else case scan_dir rd (cluster_offset v c) name [0..<unat (cluster_bytes v div of_nat DIR_ENTRY_SIZE)] of
       Inl e \<Rightarrow> Inl e
     | Inr (Some ent) \<Rightarrow> Inr ent
     | Inr None \<Rightarrow>
         case next_cluster v rd c of
           Inl e \<Rightarrow> Inl e
         | Inr c' \<Rightarrow>
             if is_end_of_chain v c' then Inl NotFound
             else if MAX_CHAIN_HOPS < hops + 1 then Inl BadChain
             else find_in_clusters v rd name c' (hops + 1))"
  by pat_completeness auto
termination by (relation "measure (\<lambda>(v, rd, name, c, hops). MAX_CHAIN_HOPS - hops)") auto

declare find_in_clusters.simps [simp del]

definition find_in_dir :: "FatVolume \<Rightarrow> volume_read \<Rightarrow> u32 \<Rightarrow> u8 list \<Rightarrow> FatError + FatEntry" where
  "find_in_dir v rd dir_cluster name =
    (if dir_cluster = 0 \<and> fat_kind v \<noteq> Fat32 then
       (let base = ucast (root_start v) * ucast (bytes_per_sector v) in
        case scan_dir rd base name [0..<unat (root_entries v)] of
          Inl e \<Rightarrow> Inl e
        | Inr (Some ent) \<Rightarrow> Inr ent
        | Inr None \<Rightarrow> Inl NotFound)
     else find_in_clusters v rd name (if dir_cluster = 0 then root_cluster v else dir_cluster) 0)"

definition is_separator :: "u8 \<Rightarrow> bool" where
  "is_separator c \<longleftrightarrow> c = 0x5C \<or> c = 0x2F"

lemma path_rest_shorter:
  assumes "takeWhile (\<lambda>c. \<not> is_separator c) (dropWhile is_separator path) \<noteq> []"
  shows "length (dropWhile (\<lambda>c. \<not> is_separator c) (dropWhile is_separator path)) < length path"
proof -
  let ?rest = "dropWhile is_separator path"
  have "length (takeWhile (\<lambda>c. \<not> is_separator c) ?rest) + length (dropWhile (\<lambda>c. \<not> is_separator c) ?rest) = length ?rest"
    by (simp flip: length_append)
  moreover have "length ?rest \<le> length path" by (rule length_dropWhile_le)
  ultimately show ?thesis using assms by (cases "takeWhile (\<lambda>c. \<not> is_separator c) ?rest") auto
qed

text \<open>The loop of \<open>resolve_in\<close> over the part of the path that is left.\<close>

function resolve_loop ::
    "FatVolume \<Rightarrow> volume_read \<Rightarrow> u32 \<Rightarrow> FatEntry option \<Rightarrow> nat \<Rightarrow> u8 list \<Rightarrow> FatError + FatEntry"
where
  "resolve_loop v rd dir last_ent comps path =
    (if path = [] then (case last_ent of Some ent \<Rightarrow> Inr ent | None \<Rightarrow> Inl NotFound)
     else let
       rest = dropWhile is_separator path;
       name = takeWhile (\<lambda>c. \<not> is_separator c) rest;
       after = dropWhile (\<lambda>c. \<not> is_separator c) rest
     in
     if name = [] then resolve_loop v rd dir last_ent comps []
     else if MAX_PATH_COMPONENTS < comps + 1 then Inl PathTooLong
     else case last_ent of
       Some prev \<Rightarrow>
         if \<not> is_dir prev then Inl NotADirectory
         else (case find_in_dir v rd (first_cluster prev) name of
           Inl e \<Rightarrow> Inl e
         | Inr ent \<Rightarrow> resolve_loop v rd (first_cluster prev) (Some ent) (comps + 1) after)
     | None \<Rightarrow>
         (case find_in_dir v rd dir name of
           Inl e \<Rightarrow> Inl e
         | Inr ent \<Rightarrow> resolve_loop v rd dir (Some ent) (comps + 1) after))"
  by pat_completeness auto
termination
  by (relation "measure (\<lambda>(v, rd, dir, last_ent, comps, path). length path)")
    (auto intro: path_rest_shorter simp del: takeWhile_eq_Nil_iff)

declare resolve_loop.simps [simp del]

definition resolve_in :: "FatVolume \<Rightarrow> volume_read \<Rightarrow> u32 \<Rightarrow> u8 list \<Rightarrow> FatError + FatEntry" where
  "resolve_in v rd start_dir path = resolve_loop v rd start_dir None 0 path"

definition resolve_path :: "FatVolume \<Rightarrow> volume_read \<Rightarrow> u8 list \<Rightarrow> FatError + FatEntry" where
  "resolve_path v rd path = resolve_in v rd 0 path"

end
