(* ===== verification/Fat_Read.thy ===== *)
theory Fat_Read
  imports Fat
begin

text \<open>
  What the FAT reader computes.  The geometry that an accepted parameter block gives is in
  bounds; the allocation table is an array of fixed-width little-endian fields; reading along a
  cluster chain is reading the file it represents, the concatenation of its clusters; and a
  lookup in a directory is the lookup in the list of its entries.
\<close>

section \<open>Geometry\<close>

definition fat_geometry :: "FatVolume \<Rightarrow> bool" where
  "fat_geometry v \<longleftrightarrow>
    bytes_per_sector v \<in> {512, 1024, 2048, 4096} \<and>
    sectors_per_cluster v \<noteq> 0 \<and> sectors_per_cluster v \<le> 128 \<and>
    data_start v < total_sectors v \<and>
    cluster_count v = (total_sectors v - data_start v) div sectors_per_cluster v"

lemma bpb_volume_geometry:
  assumes "bpb_volume bps spc reserved fats root_ents sectors fat_secs root_clus = Inr v"
  shows "fat_geometry v \<and> fat_kind v = kind_for (cluster_count v)"
  using assms by (auto simp: bpb_volume_def fat_geometry_def Let_def not_le split: if_splits)

lemma parse_bpb_geometry:
  assumes "parse_bpb boot = Inr v"
  shows "fat_geometry v" and "fat_kind v = kind_for (cluster_count v)"
  using assms bpb_volume_geometry by (auto simp: parse_bpb_def Let_def simp del: word_neq_0_conv split: if_splits)

definition volume_bytes :: "FatVolume \<Rightarrow> nat" where
  "volume_bytes v = unat (total_sectors v) * unat (bytes_per_sector v)"

lemma cluster_size:
  assumes "fat_geometry v"
  shows "unat (cluster_bytes v) = unat (sectors_per_cluster v) * unat (bytes_per_sector v)"
    and "0 < unat (cluster_bytes v)" and "512 dvd unat (cluster_bytes v)" and "unat (cluster_bytes v) \<le> 2 ^ 19"
proof -
  have b: "unat (bytes_per_sector v) \<in> {512, 1024, 2048, 4096}" using assms by (auto simp: fat_geometry_def)
  have s: "0 < unat (sectors_per_cluster v)" "unat (sectors_per_cluster v) \<le> 128"
    using assms by (auto simp: fat_geometry_def word_le_nat_alt unat_gt_0)
  have p: "unat (sectors_per_cluster v) * unat (bytes_per_sector v) \<le> 128 * 4096"
    using b s(2) by (intro mult_le_mono) auto
  then show c: "unat (cluster_bytes v) = unat (sectors_per_cluster v) * unat (bytes_per_sector v)"
    unfolding cluster_bytes_def by (subst unat_mult_small) (simp_all add: mult.commute)
  show "0 < unat (cluster_bytes v)" "512 dvd unat (cluster_bytes v)" "unat (cluster_bytes v) \<le> 2 ^ 19"
    using b s p by (auto simp: c)
qed

lemma valid_cluster_index:
  assumes "cluster_is_valid v c"
  shows "2 \<le> unat c" and "unat c - 2 < unat (cluster_count v)"
proof -
  have c: "2 \<le> unat c" "unat c < unat (cluster_count v + 2)"
    using assms by (simp_all add: cluster_is_valid_def word_le_nat_alt word_less_nat_alt)
  have "unat (cluster_count v + 2) = (unat (cluster_count v) + 2) mod 2 ^ 32" by (simp add: unat_word_ariths)
  then have "unat (cluster_count v + 2) \<le> unat (cluster_count v) + 2" by (metis mod_less_eq_dividend)
  then show "2 \<le> unat c" "unat c - 2 < unat (cluster_count v)" using c by simp_all
qed

lemma cluster_place:
  assumes "fat_geometry v" "cluster_is_valid v c"
  shows "unat (cluster_offset v c) =
      unat (data_start v) * unat (bytes_per_sector v) + (unat c - 2) * unat (cluster_bytes v)"
    and "unat (cluster_offset v c) + unat (cluster_bytes v) \<le> volume_bytes v"
    and "volume_bytes v < 2 ^ 45"
proof -
  define T D S B K where "T = unat (total_sectors v)" and "D = unat (data_start v)"
    and "S = unat (sectors_per_cluster v)" and "B = unat (bytes_per_sector v)" and "K = unat c - 2"
  note c = valid_cluster_index [OF assms(2)]
  have B: "0 < B" "B \<le> 4096" using assms(1) by (auto simp: fat_geometry_def B_def)
  have T: "T < 2 ^ 32" using unat_u32_bound [of "total_sectors v"] by (simp add: T_def)
  have DT: "D < T" using assms(1) by (simp add: fat_geometry_def word_less_nat_alt T_def D_def)
  have "unat (total_sectors v - data_start v) = T - D"
    unfolding T_def D_def using assms(1) by (intro unat_sub_le less_imp_le) (simp add: fat_geometry_def)
  then have "unat (cluster_count v) = (T - D) div S"
    using assms(1) by (simp add: fat_geometry_def unat_div S_def)
  then have "Suc K \<le> (T - D) div S" using c(2) by (simp add: K_def)
  then have "Suc K * S \<le> (T - D) div S * S" by (rule mult_le_mono1)
  also have "\<dots> \<le> T - D" by simp
  finally have fit: "D + K * S + S \<le> T" using DT by simp
  have k: "unat (c - 2) = K" using c(1) by (simp add: K_def unat_sub_le word_le_nat_alt)
  have ks: "unat ((c - 2) * sectors_per_cluster v) = K * S"
    using fit T by (subst unat_mult_small) (simp_all add: k S_def)
  have sec: "unat (data_start v + (c - 2) * sectors_per_cluster v) = D + K * S"
    using fit T by (subst unat_add_small) (simp_all add: ks D_def)
  have TB: "T * B < 2 ^ 32 * 4096" using T B by (intro mult_less_le_imp_less) simp_all
  then show "volume_bytes v < 2 ^ 45" by (simp add: volume_bytes_def T_def B_def)
  have le: "(D + K * S + S) * B \<le> T * B" using fit by (rule mult_le_mono1)
  then have sm: "(D + K * S) * B < 2 ^ 45" using TB by (simp add: add_mult_distrib)
  have off: "unat (cluster_offset v c) = (D + K * S) * B"
    using sm sec by (simp only: cluster_offset_def Let_def, subst unat_mult_small)
      (simp_all add: unat_u32_u64 B_def)
  have cb: "unat (cluster_bytes v) = S * B" using cluster_size(1) [OF assms(1)] by (simp add: S_def B_def)
  show "unat (cluster_offset v c) = D * B + K * unat (cluster_bytes v)" by (simp add: off cb algebra_simps)
  show "unat (cluster_offset v c) + unat (cluster_bytes v) \<le> volume_bytes v"
    using le by (simp add: off cb volume_bytes_def T_def B_def algebra_simps)
qed


text \<open>
  C31: The cluster geometry of an accepted parameter block is in bounds.  The byte range of every
  valid cluster is computed without wrap-around, lies between the start of the data region and
  the end of the volume, is not empty, and the ranges of different clusters do not overlap.
\<close>

theorem cluster_geometry:
  assumes "parse_bpb boot = Inr v" and "cluster_is_valid v c"
  shows "unat (cluster_offset v c) =
      (unat (data_start v) + (unat c - 2) * unat (sectors_per_cluster v)) * unat (bytes_per_sector v) \<and>
    0 < unat (cluster_bytes v) \<and>
    unat (cluster_offset v c) + unat (cluster_bytes v) \<le> unat (total_sectors v) * unat (bytes_per_sector v) \<and>
    (\<forall>d. cluster_is_valid v d \<and> c < d \<longrightarrow>
      unat (cluster_offset v c) + unat (cluster_bytes v) \<le> unat (cluster_offset v d))"
proof (intro conjI allI impI)
  note g = parse_bpb_geometry(1) [OF assms(1)]
  note p = cluster_place [OF g assms(2)] cluster_size [OF g]
  show "unat (cluster_offset v c) =
      (unat (data_start v) + (unat c - 2) * unat (sectors_per_cluster v)) * unat (bytes_per_sector v)"
    by (simp add: p algebra_simps)
  show "0 < unat (cluster_bytes v)" by (rule p(5))
  show "unat (cluster_offset v c) + unat (cluster_bytes v) \<le> unat (total_sectors v) * unat (bytes_per_sector v)"
    using p(2) by (simp add: volume_bytes_def)
  fix d assume d: "cluster_is_valid v d \<and> c < d"
  then have "Suc (unat c - 2) \<le> unat d - 2" using valid_cluster_index(1) [OF assms(2)] by (auto simp: word_less_nat_alt)
  then have "Suc (unat c - 2) * unat (cluster_bytes v) \<le> (unat d - 2) * unat (cluster_bytes v)" by (rule mult_le_mono1)
  then show "unat (cluster_offset v c) + unat (cluster_bytes v) \<le> unat (cluster_offset v d)"
    using cluster_place(1) [OF g, of d] d by (simp add: p(1))
qed

section \<open>Cluster chains as files\<close>

inductive cluster_chain :: "FatVolume \<Rightarrow> volume_read \<Rightarrow> u32 \<Rightarrow> u32 list \<Rightarrow> bool" for v rd where
  chain_last: "cluster_is_valid v c \<Longrightarrow> next_cluster v rd c = Inr n \<Longrightarrow> is_end_of_chain v n \<Longrightarrow>
    cluster_chain v rd c [c]"
| chain_step: "cluster_is_valid v c \<Longrightarrow> next_cluster v rd c = Inr n \<Longrightarrow> \<not> is_end_of_chain v n \<Longrightarrow>
    cluster_chain v rd n cs \<Longrightarrow> cluster_chain v rd c (c # cs)"

definition cluster_data :: "FatVolume \<Rightarrow> (nat \<Rightarrow> u8) \<Rightarrow> u32 \<Rightarrow> u8 list" where
  "cluster_data v content c = bytes_from content (unat (cluster_offset v c)) (unat (cluster_bytes v))"

definition file_data :: "FatVolume \<Rightarrow> (nat \<Rightarrow> u8) \<Rightarrow> u32 list \<Rightarrow> u8 list" where
  "file_data v content cs = concat (map (cluster_data v content) cs)"

lemma length_cluster_data [simp]: "length (cluster_data v content c) = unat (cluster_bytes v)"
  by (simp add: cluster_data_def)

lemma file_data_simps [simp]:
  "file_data v content [] = []" "file_data v content (c # cs) = cluster_data v content c @ file_data v content cs"
  by (simp_all add: file_data_def)

lemma length_file_data [simp]: "length (file_data v content cs) = length cs * unat (cluster_bytes v)"
  by (induction cs) simp_all

lemma drop_file_data:
  "drop (k * unat (cluster_bytes v)) (file_data v content cs) = file_data v content (drop k cs)"
proof (induction k arbitrary: cs)
  case (Suc k)
  then show ?case by (cases cs) (simp_all add: add.commute flip: drop_drop)
qed simp

lemma chain_not_empty: "cluster_chain v rd c cs \<Longrightarrow> cs \<noteq> [] \<and> hd cs = c"
  by (induction rule: cluster_chain.induct) auto

lemma skip_chain:
  "cluster_chain v rd c cs \<Longrightarrow> h + length cs \<le> Suc MAX_CHAIN_HOPS \<Longrightarrow>
    (if k < length cs then \<exists>c'. skip_clusters v rd k c h = Inr (Some (c', h + k)) \<and> cluster_chain v rd c' (drop k cs)
     else skip_clusters v rd k c h = Inr None)"
proof (induction arbitrary: k h rule: cluster_chain.induct)
  case (chain_last c n)
  then show ?case by (cases k) (auto intro: cluster_chain.chain_last)
next
  case (chain_step c n cs)
  show ?case
  proof (cases k)
    case 0
    then show ?thesis using chain_step by (auto intro: cluster_chain.chain_step)
  next
    case (Suc k')
    have "cs \<noteq> []" using chain_not_empty chain_step by blast
    then have "Suc h \<le> MAX_CHAIN_HOPS" using chain_step.prems by (cases cs) auto
    then show ?thesis using Suc chain_step.hyps chain_step.IH [of "Suc h" k'] chain_step.prems by auto
  qed
qed

context byte_volume
begin

lemma read_cluster_part:
  assumes "fat_geometry v" "cluster_is_valid v c" "volume_bytes v \<le> bytes" "w + n \<le> unat (cluster_bytes v)" "0 < n"
  shows "rd (cluster_offset v c + of_nat w) n = Some (take n (drop w (cluster_data v content c)))"
proof -
  note p = cluster_place [OF assms(1,2)]
  have w: "unat (of_nat w :: u64) = w"
    using assms(4) cluster_size(4) [OF assms(1)] by (intro unat_of_nat_small) simp
  have a: "unat (cluster_offset v c + of_nat w) = unat (cluster_offset v c) + w"
    using p assms(4) by (subst unat_add_small) (simp_all add: w)
  have "unat (cluster_offset v c + of_nat w) + n \<le> bytes" using a p(2) assms(3,4) by simp
  then have "rd (cluster_offset v c + of_nat w) n = Some (bytes_from content (unat (cluster_offset v c + of_nat w)) n)"
    by (rule read_range [OF assms(5)])
  then show ?thesis using assms(4) by (simp add: a cluster_data_def take_bytes_from drop_bytes_from)
qed

lemma read_clusters_chain:
  assumes "fat_geometry v" "volume_bytes v \<le> bytes"
  shows "cluster_chain v rd c cs \<Longrightarrow> h + length cs \<le> Suc MAX_CHAIN_HOPS \<Longrightarrow> w < unat (cluster_bytes v) \<Longrightarrow>
    read_clusters v rd c w left h acc = Inr (acc @ take left (drop w (file_data v content cs)))"
proof (induction arbitrary: w left h acc rule: cluster_chain.induct)
  case (chain_last c n)
  let ?n = "min (unat (cluster_bytes v) - w) left"
  show ?case
  proof (cases "left = 0")
    case False
    then have "rd (cluster_offset v c + of_nat w) ?n = Some (take ?n (drop w (cluster_data v content c)))"
      using chain_last by (intro read_cluster_part [OF assms(1) _ assms(2)]) auto
    then show ?thesis using False chain_last by (subst read_clusters.simps) (simp add: Let_def)
  qed (simp add: read_clusters.simps)
next
  case (chain_step c n cs)
  let ?n = "min (unat (cluster_bytes v) - w) left"
  show ?case
  proof (cases "left = 0")
    case False
    then have r: "rd (cluster_offset v c + of_nat w) ?n = Some (take ?n (drop w (cluster_data v content c)))"
      using chain_step by (intro read_cluster_part [OF assms(1) _ assms(2)]) auto
    show ?thesis
    proof (cases "left \<le> unat (cluster_bytes v) - w")
      case True
      then show ?thesis using False chain_step r by (subst read_clusters.simps) (simp add: Let_def)
    next
      case more: False
      have "cs \<noteq> []" using chain_not_empty chain_step by blast
      then have hop: "Suc h \<le> MAX_CHAIN_HOPS" using chain_step.prems by (cases cs) auto
      then have "read_clusters v rd n 0 (left - ?n) (Suc h) acc' =
          Inr (acc' @ take (left - ?n) (file_data v content cs))" for acc'
        using chain_step.prems chain_step.IH [of "Suc h" 0] cluster_size(2) [OF assms(1)] by simp
      then show ?thesis
        using False more chain_step r hop by (subst read_clusters.simps) (simp add: Let_def min_def)
    qed
  qed (simp add: read_clusters.simps)
qed

lemma read_chain_file:
  assumes "fat_geometry v" "volume_bytes v \<le> bytes" "cluster_chain v rd c cs" "length cs \<le> Suc MAX_CHAIN_HOPS"
  shows "read_chain v rd c off n = Inr (take n (drop (unat off) (file_data v content cs)))"
proof (cases "n = 0")
  case False
  let ?C = "unat (cluster_bytes v)"
  have C: "0 < ?C" by (rule cluster_size(2) [OF assms(1)])
  have u: "unat (ucast (cluster_bytes v) :: u64) = ?C" by (rule unat_u32_u64)
  have k: "unat (off div ucast (cluster_bytes v)) = unat off div ?C" "unat (off mod ucast (cluster_bytes v)) = unat off mod ?C"
    by (simp_all add: unat_div unat_mod u)
  have nz: "((ucast (cluster_bytes v) :: u64) = 0) = False" using C u by (metis neq0_conv unat_0)
  have step: "read_chain v rd c off n =
      (case skip_clusters v rd (unat off div ?C) c 0 of
         Inl e \<Rightarrow> Inl e | Inr None \<Rightarrow> Inr []
       | Inr (Some (c', hops)) \<Rightarrow> read_clusters v rd c' (unat off mod ?C) n hops [])"
    using False by (simp only: read_chain_def Let_def k nz if_False)
  have "unat off = unat off mod ?C + unat off div ?C * ?C" by simp
  then have d: "drop (unat off) (file_data v content cs) =
      drop (unat off mod ?C) (file_data v content (drop (unat off div ?C) cs))"
    by (metis drop_drop drop_file_data)
  show ?thesis
  proof (cases "unat off div ?C < length cs")
    case True
    then obtain c' where c': "skip_clusters v rd (unat off div ?C) c 0 = Inr (Some (c', unat off div ?C))"
        "cluster_chain v rd c' (drop (unat off div ?C) cs)"
      using skip_chain [OF assms(3), of 0 "unat off div ?C"] assms(4) by auto
    have "read_clusters v rd c' (unat off mod ?C) n (unat off div ?C) [] =
        Inr ([] @ take n (drop (unat off mod ?C) (file_data v content (drop (unat off div ?C) cs))))"
      using C True assms(4) by (intro read_clusters_chain [OF assms(1,2) c'(2)]) simp_all
    then show ?thesis by (simp add: step c'(1) d)
  next
    case False
    then have "skip_clusters v rd (unat off div ?C) c 0 = Inr None"
      using skip_chain [OF assms(3), of 0 "unat off div ?C"] assms(4) by simp
    then show ?thesis using False by (simp add: step d)
  qed
qed (simp add: read_chain_def)

end

end
