(* ===== verification/Fat_Dir.thy ===== *)
theory Fat_Dir
  imports Fat_Read
begin

text \<open>
  The claims about the FAT reader: the fields of the allocation table, the contents of files,
  directory lookup and path resolution, for the boot image inside the ISO.
\<close>

section \<open>The allocation table\<close>

text \<open>Bit \<open>j\<close> of the little-endian field \<open>c\<close> of \<open>w\<close> bits in a byte sequence.\<close>

definition field_bit :: "(nat \<Rightarrow> u8) \<Rightarrow> nat \<Rightarrow> nat \<Rightarrow> nat \<Rightarrow> nat \<Rightarrow> bool" where
  "field_bit content base w c j \<longleftrightarrow> bit (content (base + (w * c + j) div 8)) ((w * c + j) mod 8)"

definition entry_stride :: "FatKind \<Rightarrow> nat" where
  "entry_stride k = (case k of Fat12 \<Rightarrow> 12 | Fat16 \<Rightarrow> 16 | Fat32 \<Rightarrow> 32)"

definition entry_width :: "FatKind \<Rightarrow> nat" where
  "entry_width k = (case k of Fat12 \<Rightarrow> 12 | Fat16 \<Rightarrow> 16 | Fat32 \<Rightarrow> 28)"

definition fat_base :: "FatVolume \<Rightarrow> nat" where
  "fat_base v = unat (fat_start v) * unat (bytes_per_sector v)"

lemma unat_fat_base:
  assumes "fat_geometry v"
  shows "unat (ucast (fat_start v) * ucast (bytes_per_sector v) :: u64) = fat_base v" and "fat_base v < 2 ^ 44"
proof -
  have "unat (bytes_per_sector v) \<le> 4096" "0 < unat (bytes_per_sector v)" using assms by (auto simp: fat_geometry_def)
  then have "fat_base v < 2 ^ 32 * 4096"
    unfolding fat_base_def using unat_u32_bound [of "fat_start v"] by (intro mult_less_le_imp_less) simp_all
  then show "fat_base v < 2 ^ 44" by simp
  then show "unat (ucast (fat_start v) * ucast (bytes_per_sector v) :: u64) = fat_base v"
    by (subst unat_mult_small) (simp_all add: unat_u32_u64 fat_base_def)
qed

lemma unat_entry_offset:
  assumes "b < 2 ^ 44" "unat (fb :: u64) = b"
  shows "unat (fb + ucast (c :: u32) * 4) = b + 4 * unat c" "unat (fb + ucast c * 2) = b + 2 * unat c"
    "unat (fb + ucast c * 3 div 2) = b + 3 * unat c div 2"
proof -
  have c: "unat (ucast c :: u64) = unat c" by (rule unat_u32_u64)
  have "unat (ucast c * 4 :: u64) = 4 * unat c" "unat (ucast c * 2 :: u64) = 2 * unat c" "unat (ucast c * 3 :: u64) = 3 * unat c"
    using unat_u32_bound [of c] by (subst unat_mult_small; simp add: c)+
  then show "unat (fb + ucast c * 4) = b + 4 * unat c" "unat (fb + ucast c * 2) = b + 2 * unat c"
    "unat (fb + ucast c * 3 div 2) = b + 3 * unat c div 2"
    using unat_u32_bound [of c] assms by (subst unat_add_small; simp add: unat_div)+
qed

lemma field_bit_12:
  assumes "j < 12"
  shows "field_bit content b 12 c j \<longleftrightarrow>
    (let k = (if even c then j else j + 4) in bit (content (b + 3 * c div 2 + k div 8)) (k mod 8))"
proof (cases "even c")
  case True
  then obtain k where "c = 2 * k" by (auto elim: evenE)
  moreover have "(24 * k + j) div 8 = 3 * k + j div 8" "(24 * k + j) mod 8 = j mod 8" by presburger+
  ultimately show ?thesis by (simp add: field_bit_def Let_def add.assoc)
next
  case False
  then obtain k where "c = 2 * k + 1" by (auto elim: oddE)
  moreover have "(24 * k + 12 + j) div 8 = 3 * k + 1 + (j + 4) div 8" "(24 * k + 12 + j) mod 8 = (j + 4) mod 8"
    "(6 * k + 3) div 2 = 3 * k + 1" by presburger+
  ultimately show ?thesis by (simp add: field_bit_def Let_def algebra_simps)
qed

lemma field_bit_bytes:
  "field_bit content b (8 * m) c j \<longleftrightarrow> bit (content (b + m * c + j div 8)) (j mod 8)"
proof -
  have "(8 * (m * c) + j) div 8 = m * c + j div 8" "(8 * (m * c) + j) mod 8 = j mod 8" by simp_all
  then show ?thesis by (simp add: field_bit_def add.assoc mult.assoc)
qed

context byte_volume
begin

lemma read_pair_bit:
  assumes "rd off m = Some bs" "8 * m \<le> LENGTH('a::len)"
  shows "bit (from_le_bytes bs :: 'a word) j \<longleftrightarrow> j < 8 * m \<and> bit (content (unat off + j div 8)) (j mod 8)"
proof -
  have "j div 8 < m \<longleftrightarrow> j < 8 * m" by (simp add: div_less_iff_less_mult mult.commute)
  then show ?thesis
    using assms read_length [OF assms(1)] read_nth [OF assms(1), of "j div 8"] by (auto simp: bit_from_le_bytes)
qed

lemma next_cluster_field:
  assumes "fat_geometry v" "next_cluster v rd c = Inr x"
  shows "bit x j \<longleftrightarrow> j < entry_width (fat_kind v) \<and>
    field_bit content (fat_base v) (entry_stride (fat_kind v)) (unat c) j"
proof -
  note off = unat_entry_offset [OF unat_fat_base(2,1) [OF assms(1)], of c]
  have m: "(0x0FFFFFFF :: u32) = mask 28" "(0x0FFF :: u16) = mask 12" by (simp_all add: mask_eq_exp_minus_1)
  have odd: "c AND 1 = 0 \<longleftrightarrow> even (unat c)" 
    using unat_and_mask_low [of c 1] by (simp add: mask_eq_exp_minus_1 word_unat_eq_iff even_iff_mod_2_eq_zero)
  show ?thesis
  proof (cases "fat_kind v")
    case Fat32
    then obtain bs where bs: "rd (ucast (fat_start v) * ucast (bytes_per_sector v) + ucast c * 4) 4 = Some bs"
        "x = from_le_bytes bs AND mask 28"
      using assms(2) by (auto simp: next_cluster_def Let_def m split: option.splits)
    have "bit (from_le_bytes bs :: u32) j \<longleftrightarrow> j < 32 \<and> field_bit content (fat_base v) 32 (unat c) j"
      using read_pair_bit [OF bs(1), where 'a = 32, of j] field_bit_bytes [of content "fat_base v" 4 "unat c" j]
      by (simp add: off)
    then show ?thesis by (simp add: bs(2) Fat32 entry_width_def entry_stride_def bit_and_iff bit_mask_iff) linarith
  next
    case Fat16
    then obtain bs where bs: "rd (ucast (fat_start v) * ucast (bytes_per_sector v) + ucast c * 2) 2 = Some bs"
        "x = ucast (from_le_bytes bs :: u16)"
      using assms(2) by (auto simp: next_cluster_def Let_def split: option.splits)
    have "bit (from_le_bytes bs :: u16) j \<longleftrightarrow> j < 16 \<and> field_bit content (fat_base v) 16 (unat c) j"
      using read_pair_bit [OF bs(1), where 'a = 16, of j] field_bit_bytes [of content "fat_base v" 2 "unat c" j]
      by (simp add: off)
    then show ?thesis by (auto simp: bs(2) Fat16 entry_width_def entry_stride_def bit_ucast_iff)
  next
    case Fat12
    then obtain bs where bs: "rd (ucast (fat_start v) * ucast (bytes_per_sector v) + (ucast c * 3) div 2) 2 = Some bs"
        "x = ucast (if c AND 1 = 0 then from_le_bytes bs AND mask 12 else drop_bit 4 (from_le_bytes bs) :: u16)"
      using assms(2) by (auto simp: next_cluster_def Let_def m split: option.splits)
    have b: "bit (from_le_bytes bs :: u16) k \<longleftrightarrow> k < 16 \<and> bit (content (fat_base v + 3 * unat c div 2 + k div 8)) (k mod 8)" for k
      using read_pair_bit [OF bs(1), where 'a = 16, of k] by (simp add: off)
    have "bit x j \<longleftrightarrow> j < 12 \<and> bit (from_le_bytes bs :: u16) (if even (unat c) then j else j + 4)"
      using b [of "j + 4"] by (auto simp: bs(2) odd bit_ucast_iff bit_and_iff bit_mask_iff bit_drop_bit_eq add.commute [of 4 j])
    also have "\<dots> \<longleftrightarrow> j < 12 \<and> field_bit content (fat_base v) 12 (unat c) j"
      using field_bit_12 [of j content "fat_base v" "unat c"] by (auto simp: b Let_def)
    finally show ?thesis by (simp add: Fat12 entry_width_def entry_stride_def)
  qed
qed

end


section \<open>Directories\<close>

definition dir_entries :: "u8 list \<Rightarrow> u8 list list" where
  "dir_entries data = map (\<lambda>i. get_slice (32 * i) 32 data) [0..<length data div 32]"

text \<open>The entry a name denotes in a directory: the first live short-name entry before the end
  marker whose name is equal up to case.\<close>

definition dir_find :: "u8 list \<Rightarrow> u8 list \<Rightarrow> FatEntry option" where
  "dir_find name data =
    find (\<lambda>ent. eq_ignore_ascii_case (name_bytes ent) name)
      (List.map_filter parse_dir_entry (takeWhile (\<lambda>e. e ! 0 \<noteq> DIR_ENTRY_END) (dir_entries data)))"

fun scan_entries :: "u8 list \<Rightarrow> u8 list list \<Rightarrow> FatError + FatEntry option" where
  "scan_entries name [] = Inr None"
| "scan_entries name (e # es) =
    (if e ! 0 = DIR_ENTRY_END then Inl NotFound
     else case parse_dir_entry e of
       Some ent \<Rightarrow> if eq_ignore_ascii_case (name_bytes ent) name then Inr (Some ent) else scan_entries name es
     | None \<Rightarrow> scan_entries name es)"

definition scan_result :: "FatError + FatEntry option \<Rightarrow> FatError + FatEntry" where
  "scan_result r = (case r of Inl e \<Rightarrow> Inl e | Inr None \<Rightarrow> Inl NotFound | Inr (Some ent) \<Rightarrow> Inr ent)"

definition found :: "FatEntry option \<Rightarrow> FatError + FatEntry" where
  "found x = (case x of None \<Rightarrow> Inl NotFound | Some ent \<Rightarrow> Inr ent)"

lemma scan_entries_find:
  "scan_result (scan_entries name es) =
    found (find (\<lambda>ent. eq_ignore_ascii_case (name_bytes ent) name)
      (List.map_filter parse_dir_entry (takeWhile (\<lambda>e. e ! 0 \<noteq> DIR_ENTRY_END) es)))"
  by (induction es) (auto simp: scan_result_def found_def List.map_filter_simps split: option.split)

lemma scan_entries_append:
  "scan_entries name (xs @ ys) = (case scan_entries name xs of Inr None \<Rightarrow> scan_entries name ys | r \<Rightarrow> r)"
  by (induction xs) (auto split: option.split)

lemma length_dir_entries [simp]: "length (dir_entries data) = length data div 32"
  by (simp add: dir_entries_def)

lemma nth_dir_entries [simp]: "i < length data div 32 \<Longrightarrow> dir_entries data ! i = get_slice (32 * i) 32 data"
  by (simp add: dir_entries_def)

lemma dir_entries_append:
  assumes "32 dvd length a"
  shows "dir_entries (a @ b) = dir_entries a @ dir_entries b"
proof -
  obtain k where k: "length a = 32 * k" using assms by (elim dvdE)
  have len: "length (a @ b) div 32 = k + length b div 32" by (simp add: k)
  show ?thesis
  proof (rule nth_equalityI)
    fix i assume i: "i < length (dir_entries (a @ b))"
    show "dir_entries (a @ b) ! i = (dir_entries a @ dir_entries b) ! i"
    proof (cases "i < k")
      case True
      then have "32 * i + 32 \<le> length a" by (simp add: k)
      then show ?thesis using True i by (simp add: nth_append k get_slice_def)
    next
      case False
      then have "32 * i = length a + 32 * (i - k)" by (simp add: k diff_mult_distrib2)
      then show ?thesis using False i by (simp add: nth_append k get_slice_def)
    qed
  qed (simp add: len k)
qed

lemma cluster_size_entries: "fat_geometry v \<Longrightarrow> 32 dvd unat (cluster_bytes v)"
  by (rule dvd_trans [OF _ cluster_size(3)]) simp_all

lemma dir_entries_bytes_from:
  "dir_entries (bytes_from content a (32 * m)) = map (\<lambda>i. bytes_from content (a + 32 * i) 32) [0..<m]"
  by (rule nth_equalityI) (simp_all add: get_slice_def drop_bytes_from take_bytes_from)

context byte_volume
begin

lemma scan_dir_entries:
  assumes "unat base + 32 * m \<le> bytes" "unat base + 32 * m < 2 ^ 64" "\<forall>i \<in> set is. i < m"
  shows "scan_dir rd base name is = scan_entries name (map (\<lambda>i. bytes_from content (unat base + 32 * i) 32) is)"
  using assms(3)
proof (induction "is")
  case (Cons i "is")
  have i: "unat base + 32 * i + 32 \<le> unat base + 32 * m" using Cons.prems by simp
  have ui: "unat (of_nat i :: u64) = i" using i assms(2) by (intro unat_of_nat_small) simp
  have im: "unat (of_nat i * 32 :: u64) = 32 * i" using i assms(2) by (subst unat_mult_small) (simp_all add: ui)
  have a: "unat (base + of_nat i * 32) = unat base + 32 * i" using i assms(2) by (subst unat_add_small) (simp_all add: im)
  have "rd (base + of_nat i * 32) 32 = Some (bytes_from content (unat base + 32 * i) 32)"
    using read_range [of 32 "base + of_nat i * 32"] i assms(1) by (simp add: a)
  then show ?case using Cons by (simp add: DIR_ENTRY_SIZE_def split: option.split)
qed simp

lemma scan_cluster:
  assumes "fat_geometry v" "volume_bytes v \<le> bytes" "cluster_is_valid v c"
  shows "scan_dir rd (cluster_offset v c) name [0..<unat (cluster_bytes v div of_nat DIR_ENTRY_SIZE)] =
    scan_entries name (dir_entries (cluster_data v content c))"
proof -
  note p = cluster_place [OF assms(1,3)]
  have "32 dvd unat (cluster_bytes v)" by (rule cluster_size_entries [OF assms(1)])
  then obtain m where m: "unat (cluster_bytes v) = 32 * m" by (elim dvdE)
  then have "unat (cluster_bytes v div of_nat DIR_ENTRY_SIZE) = m" by (simp add: unat_div DIR_ENTRY_SIZE_def)
  then show ?thesis
    using scan_dir_entries [of "cluster_offset v c" m "[0..<m]"] p assms(2)
    by (simp add: cluster_data_def m dir_entries_bytes_from)
qed

lemma find_in_clusters_chain:
  assumes "fat_geometry v" "volume_bytes v \<le> bytes"
  shows "cluster_chain v rd c cs \<Longrightarrow> h + length cs \<le> Suc MAX_CHAIN_HOPS \<Longrightarrow>
    find_in_clusters v rd name c h = scan_result (scan_entries name (dir_entries (file_data v content cs)))"
proof (induction arbitrary: h rule: cluster_chain.induct)
  case (chain_last c n)
  then show ?case
    by (subst find_in_clusters.simps) (auto simp: scan_cluster [OF assms] scan_result_def split: sum.split option.split)
next
  case (chain_step c n cs)
  have "cs \<noteq> []" using chain_not_empty chain_step by blast
  then have hop: "Suc h \<le> MAX_CHAIN_HOPS" using chain_step.prems by (cases cs) auto
  have "32 dvd unat (cluster_bytes v)" by (rule cluster_size_entries [OF assms(1)])
  then have "dir_entries (file_data v content (c # cs)) = dir_entries (cluster_data v content c) @ dir_entries (file_data v content cs)"
    by (simp add: dir_entries_append)
  then show ?case
    using chain_step hop
    by (subst find_in_clusters.simps)
      (auto simp: scan_cluster [OF assms] scan_entries_append scan_result_def split: sum.split option.split)
qed

end

text \<open>The bytes of the directory at a cluster number; 0 is the root.\<close>

definition dir_data :: "FatVolume \<Rightarrow> volume_read \<Rightarrow> (nat \<Rightarrow> u8) \<Rightarrow> nat \<Rightarrow> u32 \<Rightarrow> u8 list \<Rightarrow> bool" where
  "dir_data v rd content bytes d data \<longleftrightarrow>
    (if d = 0 \<and> fat_kind v \<noteq> Fat32
     then unat (root_start v) * unat (bytes_per_sector v) + 32 * unat (root_entries v) \<le> bytes \<and>
       data = bytes_from content (unat (root_start v) * unat (bytes_per_sector v)) (32 * unat (root_entries v))
     else \<exists>cs. cluster_chain v rd (if d = 0 then root_cluster v else d) cs \<and> length cs \<le> Suc MAX_CHAIN_HOPS \<and>
       data = file_data v content cs)"

context byte_volume
begin

lemma find_in_dir_data:
  assumes "fat_geometry v" "volume_bytes v \<le> bytes" "dir_data v rd content bytes d data"
  shows "find_in_dir v rd d name = found (dir_find name data)"
proof (cases "d = 0 \<and> fat_kind v \<noteq> Fat32")
  case True
  let ?B = "unat (root_start v) * unat (bytes_per_sector v)"
  have d: "?B + 32 * unat (root_entries v) \<le> bytes" "data = bytes_from content ?B (32 * unat (root_entries v))"
    using assms(3) True by (auto simp: dir_data_def)
  have "unat (bytes_per_sector v) \<le> 4096" "0 < unat (bytes_per_sector v)" using assms(1) by (auto simp: fat_geometry_def)
  then have B: "?B < 2 ^ 32 * 4096"
    using unat_u32_bound [of "root_start v"] by (intro mult_less_le_imp_less) simp_all
  then have u: "unat (ucast (root_start v) * ucast (bytes_per_sector v) :: u64) = ?B"
    by (subst unat_mult_small) (simp_all add: unat_u32_u64)
  have "scan_dir rd (ucast (root_start v) * ucast (bytes_per_sector v)) name [0..<unat (root_entries v)] =
      scan_entries name (dir_entries data)"
    using scan_dir_entries [of "ucast (root_start v) * ucast (bytes_per_sector v)" "unat (root_entries v)" "[0..<unat (root_entries v)]"]
      d B unat_u32_bound [of "root_entries v"] by (simp add: u dir_entries_bytes_from)
  then have "find_in_dir v rd d name = scan_result (scan_entries name (dir_entries data))"
    using True by (auto simp: find_in_dir_def Let_def scan_result_def split: sum.split option.split)
  then show ?thesis by (simp add: scan_entries_find dir_find_def)
next
  case False
  then obtain cs where cs: "cluster_chain v rd (if d = 0 then root_cluster v else d) cs" "length cs \<le> Suc MAX_CHAIN_HOPS"
      "data = file_data v content cs"
    using assms(3) by (auto simp: dir_data_def)
  have "find_in_dir v rd d name = scan_result (scan_entries name (dir_entries data))"
    using False find_in_clusters_chain [OF assms(1,2) cs(1), of 0] cs(2,3) by (auto simp: find_in_dir_def)
  then show ?thesis by (simp add: scan_entries_find dir_find_def)
qed

end

end
