(* ===== verification/Fat_Path.thy ===== *)
theory Fat_Path
  imports Fat_Dir
begin

text \<open>
  Path resolution, and the claims about the FAT reader for the boot image inside the ISO.
\<close>

section \<open>Paths\<close>

fun path_split :: "u8 list \<Rightarrow> u8 list list" where
  "path_split [] = [[]]"
| "path_split (c # cs) =
    (if is_separator c then [] # path_split cs
     else case path_split cs of [] \<Rightarrow> [[c]] | w # ws \<Rightarrow> (c # w) # ws)"

text \<open>The components of a path: the non-empty words between separators.\<close>

definition path_components :: "u8 list \<Rightarrow> u8 list list" where
  "path_components path = filter (\<lambda>w. w \<noteq> []) (path_split path)"

lemma path_split_not_empty [simp]: "path_split path \<noteq> []"
  by (cases path) (auto split: list.split)

lemma path_split_word:
  "\<forall>c \<in> set w. \<not> is_separator c \<Longrightarrow> path_split (w @ rest) = (w @ hd (path_split rest)) # tl (path_split rest)"
  by (induction w) (auto simp: hd_Cons_tl)

lemma components_dropWhile: "path_components (dropWhile is_separator path) = path_components path"
  by (induction path) (auto simp: path_components_def)

lemma components_word:
  assumes "w \<noteq> []" "\<forall>c \<in> set w. \<not> is_separator c" "rest = [] \<or> is_separator (hd rest)"
  shows "path_components (w @ rest) = w # path_components rest"
  using assms path_split_word [OF assms(2), of rest] by (cases rest) (auto simp: path_components_def)

lemma components_step:
  fixes path :: "u8 list"
  defines "rest \<equiv> dropWhile is_separator path"
  shows "path_components path =
    (let name = takeWhile (\<lambda>c. \<not> is_separator c) rest in
     if name = [] then [] else name # path_components (dropWhile (\<lambda>c. \<not> is_separator c) rest))"
proof -
  let ?name = "takeWhile (\<lambda>c. \<not> is_separator c) rest" and ?after = "dropWhile (\<lambda>c. \<not> is_separator c) rest"
  have c: "path_components path = path_components rest" by (simp add: rest_def components_dropWhile)
  show ?thesis
  proof (cases "?name = []")
    case True
    have "rest = []"
    proof (rule ccontr)
      assume r: "rest \<noteq> []"
      then have "\<not> is_separator (hd rest)" unfolding rest_def by (rule hd_dropWhile)
      then show False using True r by (cases rest) auto
    qed
    then show ?thesis using True c by (simp add: path_components_def)
  next
    case False
    have "path_components (?name @ ?after) = ?name # path_components ?after"
      using False hd_dropWhile [of "\<lambda>c. \<not> is_separator c" rest]
      by (intro components_word) (auto dest: set_takeWhileD)
    then show ?thesis using c False by (simp add: Let_def)
  qed
qed

fun resolve_comps ::
    "FatVolume \<Rightarrow> volume_read \<Rightarrow> u32 \<Rightarrow> FatEntry option \<Rightarrow> nat \<Rightarrow> u8 list list \<Rightarrow> FatError + FatEntry"
where
  "resolve_comps v rd dir last_ent comps [] = (case last_ent of Some ent \<Rightarrow> Inr ent | None \<Rightarrow> Inl NotFound)"
| "resolve_comps v rd dir last_ent comps (name # names) =
    (if MAX_PATH_COMPONENTS < comps + 1 then Inl PathTooLong
     else let d = (case last_ent of Some prev \<Rightarrow> first_cluster prev | None \<Rightarrow> dir) in
     if (case last_ent of Some prev \<Rightarrow> \<not> is_dir prev | None \<Rightarrow> False) then Inl NotADirectory
     else case find_in_dir v rd d name of
       Inl e \<Rightarrow> Inl e
     | Inr ent \<Rightarrow> resolve_comps v rd d (Some ent) (comps + 1) names)"

lemma resolve_loop_comps:
  "resolve_loop v rd dir last_ent comps path = resolve_comps v rd dir last_ent comps (path_components path)"
proof (induction "length path" arbitrary: dir last_ent comps path rule: less_induct)
  case less
  let ?rest = "dropWhile is_separator path"
  let ?name = "takeWhile (\<lambda>c. \<not> is_separator c) ?rest" and ?after = "dropWhile (\<lambda>c. \<not> is_separator c) ?rest"
  show ?case
  proof (cases "?name = []")
    case True
    then have p: "path_components path = []" by (simp add: components_step [of path])
    have nil: "resolve_loop v rd dir last_ent comps [] = resolve_comps v rd dir last_ent comps []"
      by (simp add: resolve_loop.simps)
    show ?thesis
    proof (cases "path = []")
      case False
      then have "resolve_loop v rd dir last_ent comps path = resolve_loop v rd dir last_ent comps []"
        using True by (subst resolve_loop.simps) (simp only: Let_def if_False if_True simp_thms)
      then show ?thesis by (simp add: nil p)
    qed (simp add: nil path_components_def)
  next
    case False
    then have p: "path_components path = ?name # path_components ?after" by (simp add: components_step [of path])
    have "path \<noteq> []" using False by auto
    note IH = less [OF path_rest_shorter [OF False]]
    show ?thesis
      unfolding p using \<open>path \<noteq> []\<close> False
      by (subst resolve_loop.simps) (simp only: Let_def IH resolve_comps.simps if_False, auto split: option.split sum.split)
  qed
qed

text \<open>Walking down from a directory, given what a name denotes in each directory.\<close>

fun walk :: "(u32 \<Rightarrow> u8 list \<Rightarrow> FatEntry option) \<Rightarrow> u32 \<Rightarrow> u8 list list \<Rightarrow> FatEntry option" where
  "walk look dir [] = None"
| "walk look dir [name] = look dir name"
| "walk look dir (name # names) =
    (case look dir name of
       Some ent \<Rightarrow> if is_dir ent then walk look (first_cluster ent) names else None
     | None \<Rightarrow> None)"

definition entry_in :: "FatVolume \<Rightarrow> volume_read \<Rightarrow> u32 \<Rightarrow> u8 list \<Rightarrow> FatEntry option" where
  "entry_in v rd dir name = (case find_in_dir v rd dir name of Inl e \<Rightarrow> None | Inr ent \<Rightarrow> Some ent)"

lemma resolve_comps_walk:
  "resolve_comps v rd dir last_ent k names = Inr ent \<longleftrightarrow>
    (case last_ent of
       None \<Rightarrow> k + length names \<le> MAX_PATH_COMPONENTS \<and> walk (entry_in v rd) dir names = Some ent
     | Some prev \<Rightarrow>
         if names = [] then ent = prev
         else is_dir prev \<and> k + length names \<le> MAX_PATH_COMPONENTS \<and>
           walk (entry_in v rd) (first_cluster prev) names = Some ent)"
proof (induction names arbitrary: dir last_ent k)
  case Nil
  then show ?case by (auto split: option.split)
next
  case (Cons name names)
  define d where "d = (case last_ent of Some prev \<Rightarrow> first_cluster prev | None \<Rightarrow> dir)"
  show ?case
  proof (cases "find_in_dir v rd d name")
    case (Inl e)
    then have "entry_in v rd d name = None" by (simp add: entry_in_def)
    then have "walk (entry_in v rd) d (name # names) = None" by (cases names) simp_all
    then show ?thesis using Inl by (auto simp: d_def Let_def split: option.splits)
  next
    case (Inr x)
    then have e: "entry_in v rd d name = Some x" by (simp add: entry_in_def)
    have "walk (entry_in v rd) d (name # names) =
        (if names = [] then Some x else if is_dir x then walk (entry_in v rd) (first_cluster x) names else None)"
      using e by (cases names) simp_all
    then show ?thesis using Inr Cons.IH [of d "Some x" "k + 1"] by (auto simp: d_def Let_def split: option.splits)
  qed
qed

text \<open>
  C18: Path resolution, for any reader.  A path resolves to an entry exactly if it has at most
  eight components, separated by any number of slashes and backslashes, and walking down from
  the start directory, through directories only, reaches that entry.
\<close>

theorem resolve_in_walk:
  "resolve_in v rd dir path = Inr ent \<longleftrightarrow>
    length (path_components path) \<le> MAX_PATH_COMPONENTS \<and>
    walk (entry_in v rd) dir (path_components path) = Some ent"
  by (simp add: resolve_in_def resolve_loop_comps resolve_comps_walk)


section \<open>The boot image inside the ISO\<close>

abbreviation image_content :: "u8 list \<Rightarrow> u64 \<Rightarrow> nat \<Rightarrow> u8" where
  "image_content img base \<equiv> \<lambda>i. img ! (unat base + i)"

abbreviation image_bytes :: "u8 list \<Rightarrow> u64 \<Rightarrow> nat" where
  "image_bytes img base \<equiv> min (length img) (2 ^ 64 - 1) - unat base"

text \<open>
  C12: Reading along a cluster chain is reading the file the chain represents.  Whatever the
  offset and the length, the bytes returned are exactly that part of the concatenation of the
  clusters, shorter only where the file ends.
\<close>

theorem read_chain_correct:
  assumes "parse_bpb boot = Inr v" and "cluster_chain v (iso_fat_read img base) c cs"
    and "length cs \<le> Suc MAX_CHAIN_HOPS" and "volume_bytes v \<le> image_bytes img base"
  shows "read_chain v (iso_fat_read img base) c off n =
    Inr (take n (drop (unat off) (file_data v (image_content img base) cs)))"
  by (rule iso_fat.read_chain_file [OF parse_bpb_geometry(1) [OF assms(1)] assms(4,2,3)])

text \<open>
  C19: The allocation table of all three widths is decoded as an array of packed little-endian
  fields: bit \<open>j\<close> of the successor of a cluster is bit \<open>j\<close> of its field, 12, 16 or 32 bits
  wide, with the upper four bits of a 32-bit field ignored.
\<close>

theorem next_cluster_correct:
  assumes "parse_bpb boot = Inr v" and "next_cluster v (iso_fat_read img base) c = Inr x"
  shows "bit x j \<longleftrightarrow> j < entry_width (fat_kind v) \<and>
    field_bit (image_content img base) (fat_base v) (entry_stride (fat_kind v)) (unat c) j"
  by (rule iso_fat.next_cluster_field [OF parse_bpb_geometry(1) [OF assms(1)] assms(2)])

text \<open>
  C17: Looking up a name in a directory, the fixed root of FAT12 and FAT16 or a cluster chain,
  finds the first live short-name entry before the end marker whose name is equal up to case,
  and reports that nothing was found when there is none.
\<close>

theorem find_in_dir_correct:
  assumes "parse_bpb boot = Inr v" and "volume_bytes v \<le> image_bytes img base"
    and "dir_data v (iso_fat_read img base) (image_content img base) (image_bytes img base) d data"
  shows "find_in_dir v (iso_fat_read img base) d name =
    (case dir_find name data of None \<Rightarrow> Inl NotFound | Some ent \<Rightarrow> Inr ent)"
  using iso_fat.find_in_dir_data [OF parse_bpb_geometry(1) [OF assms(1)] assms(2,3)] by (simp add: found_def)

text \<open>A small FAT12 volume: one file of two clusters.\<close>

definition demo_boot :: "u8 list" where
  "demo_boot =
    [0, 0, 0, 0, 0, 0, 0, 0, 0, 0, 0, 0, 2, 1, 1, 0, 1, 16, 0, 6, 0, 0, 1, 0] @ replicate 488 0"

definition demo_entry :: "u8 list" where
  "demo_entry = [0x41, 0x20, 0x20, 0x20, 0x20, 0x20, 0x20, 0x20, 0x54, 0x58, 0x54, 0x20,
    0, 0, 0, 0, 0, 0, 0, 0, 0, 0, 0, 0, 0, 0, 2, 0, 0x58, 2, 0, 0]"

definition demo_disk :: "u8 list \<Rightarrow> u8 list" where
  "demo_disk data =
    demo_boot @ ([0xF8, 0xFF, 0xFF, 0x03, 0xF0, 0xFF] @ replicate 506 0) @ (demo_entry @ replicate 480 0) @ data"

definition demo_image :: "u8 list" where
  "demo_image = demo_disk (replicate 512 0x41 @ replicate 512 0x42 @ replicate 512 0)"

definition demo_ent :: FatEntry where
  "demo_ent = \<lparr>ent_name = [0x41, 0x2E, 0x54, 0x58, 0x54, 0, 0, 0, 0, 0, 0, 0], ent_name_len = 5,
    ent_attr = 0x20, first_cluster = 2, ent_size = 600\<rparr>"

definition demo_volume :: FatVolume where
  "demo_volume =
    \<lparr>fat_kind = Fat12, bytes_per_sector = 512, sectors_per_cluster = 1, reserved_sectors = 1, num_fats = 1,
     root_entries = 16, total_sectors = 6, fat_sectors = 1, fat_start = 1, root_start = 2, root_sectors = 1,
     data_start = 3, cluster_count = 3, root_cluster = 0\<rparr>"

lemma demo_parse: "parse_bpb demo_boot = Inr demo_volume"
  by (simp add: parse_bpb_def demo_boot_def u16_at_def u32_at_def nth_append bpb_volume_def Let_def
      is_power_of_two_def DIR_ENTRY_SIZE_def kind_for_def demo_volume_def)

lemma length_demo [simp]: "length demo_boot = 512" "length demo_entry = 32" "length (demo_disk data) = 1536 + length data"
  "length demo_image = 3072"
  by (simp_all add: demo_image_def demo_disk_def demo_boot_def demo_entry_def)

lemma demo_read:
  "iso_fat_read (demo_disk data) 0 (of_nat a) n =
    (if 1536 + length data < a + n then None else Some (map (\<lambda>i. demo_disk data ! (a + i)) [0..<n]))" if "a < 4096" "n < 4096"
proof -
  have "unat (of_nat a :: u64) = a" using that by (intro unat_of_nat_small) simp
  then show ?thesis using that by (simp add: iso_fat_read_def Let_def unat_saturating_add get_slice_map)
qed

lemma demo_chain: "cluster_chain demo_volume (iso_fat_read (demo_disk data) 0) 2 [2, 3]"
proof -
  have r: "iso_fat_read (demo_disk data) 0 515 2 = Some [0x03, 0xF0]" "iso_fat_read (demo_disk data) 0 516 2 = Some [0xF0, 0xFF]"
    using demo_read [of 515 2 data] demo_read [of 516 2 data]
    by (simp_all add: demo_disk_def demo_boot_def nth_append upt_rec)
  have n: "next_cluster demo_volume (iso_fat_read (demo_disk data) 0) 3 = Inr 0xFFF"
    "next_cluster demo_volume (iso_fat_read (demo_disk data) 0) 2 = Inr 3"
    using r by (simp_all add: next_cluster_def demo_volume_def)
  have v: "cluster_is_valid demo_volume 2" "cluster_is_valid demo_volume 3"
    "is_end_of_chain demo_volume 0xFFF" "\<not> is_end_of_chain demo_volume 3"
    by (simp_all add: cluster_is_valid_def is_end_of_chain_def demo_volume_def)
  show ?thesis by (rule chain_step [OF v(1) n(2) v(4) chain_last [OF v(2) n(1) v(3)]])
qed

lemmas demo_image_chain = demo_chain [of "replicate 512 0x41 @ replicate 512 0x42 @ replicate 512 0", folded demo_image_def]

lemma demo_fits: "1536 \<le> length data \<Longrightarrow> volume_bytes demo_volume \<le> image_bytes (demo_disk data) 0"
  "volume_bytes demo_volume \<le> image_bytes demo_image 0"
  by (simp_all add: volume_bytes_def demo_volume_def)

lemma demo_hops: "length [2, 3 :: u32] \<le> Suc MAX_CHAIN_HOPS"
  by (simp add: MAX_CHAIN_HOPS_def)

lemma demo_file:
  assumes "1024 \<le> length data"
  shows "file_data demo_volume (image_content (demo_disk data) 0) [2, 3] = take 1024 data"
proof -
  have d: "demo_disk data ! (1536 + i) = data ! i" if "i < length data" for i
    using that by (simp add: demo_disk_def nth_append)
  have "bytes_from (image_content (demo_disk data) 0) 1536 512 = take 512 data"
    using assms by (intro nth_equalityI) (simp_all add: d)
  moreover have "bytes_from (image_content (demo_disk data) 0) 2048 512 = take 512 (drop 512 data)"
  proof (rule nth_equalityI)
    fix i assume "i < length (bytes_from (image_content (demo_disk data) 0) 2048 512)"
    then show "bytes_from (image_content (demo_disk data) 0) 2048 512 ! i = take 512 (drop 512 data) ! i"
      using d [of "512 + i"] assms by simp
  qed (use assms in simp)
  ultimately have "bytes_from (image_content (demo_disk data) 0) 1536 512 @ bytes_from (image_content (demo_disk data) 0) 2048 512 =
      take 1024 data"
    using take_add [of 512 512 data] by simp
  then show ?thesis
    by (simp add: cluster_data_def cluster_offset_def cluster_bytes_def demo_volume_def)
qed

lemma demo_root:
  "dir_data demo_volume (iso_fat_read (demo_disk data) 0) (image_content (demo_disk data) 0) (image_bytes (demo_disk data) 0) 0
    (demo_entry @ replicate 480 0)"
proof -
  have "bytes_from (image_content (demo_disk data) 0) 1024 512 = demo_entry @ replicate 480 0"
    by (rule nth_equalityI) (auto simp: demo_disk_def nth_append)
  moreover have "dir_data demo_volume (iso_fat_read (demo_disk data) 0) (image_content (demo_disk data) 0)
      (image_bytes (demo_disk data) 0) 0 (bytes_from (image_content (demo_disk data) 0) 1024 512)"
    by (simp add: dir_data_def demo_volume_def)
  ultimately show ?thesis by simp
qed

lemmas demo_image_root = demo_root [of "replicate 512 0x41 @ replicate 512 0x42 @ replicate 512 0", folded demo_image_def]

lemma demo_find: "dir_find [0x61, 0x2E, 0x74, 0x78, 0x74] (demo_entry @ replicate 480 0) = Some demo_ent"
proof -
  have one: "dir_entries demo_entry = [demo_entry]" by (simp add: dir_entries_def get_slice_def demo_entry_def)
  have rest: "dir_entries (replicate 480 0) = replicate 15 (replicate 32 0)"
  proof (rule nth_equalityI)
    fix i assume "i < length (dir_entries (replicate 480 (0 :: u8)))"
    then have "i < 15" "min (480 - 32 * i) 32 = 32" by simp_all
    then show "dir_entries (replicate 480 0) ! i = replicate 15 (replicate 32 0) ! i"
      by (simp only: nth_dir_entries length_replicate get_slice_def drop_replicate take_replicate nth_replicate
          min.commute [of 32])
  qed simp
  have "32 dvd length demo_entry" by simp
  note ents = dir_entries_append [OF this, of "replicate 480 0", unfolded one rest]
  have p: "parse_dir_entry demo_entry = Some demo_ent" unfolding demo_ent_def by code_simp
  have n: "name_bytes demo_ent = [0x41, 0x2E, 0x54, 0x58, 0x54]"
    by (simp add: demo_ent_def name_bytes_def)
  have "demo_entry ! 0 \<noteq> DIR_ENTRY_END" by (simp add: demo_entry_def DIR_ENTRY_END_def)
  then show ?thesis
    by (simp add: dir_find_def ents p n takeWhile_replicate DIR_ENTRY_END_def List.map_filter_simps
        eq_ignore_ascii_case_def to_ascii_lowercase_def)
qed

theorem read_chain_correct_witness:
  "read_chain demo_volume (iso_fat_read demo_image 0) 2 510 4 = Inr [0x41, 0x41, 0x42, 0x42]"
proof -
  have "take 4 (drop 510 (replicate 512 0x41 @ replicate 512 0x42)) = replicate 2 (0x41 :: u8) @ replicate 2 0x42"
    by simp
  moreover have "replicate 2 x = [x, x]" for x :: u8 by (simp add: numeral_2_eq_2)
  moreover have "file_data demo_volume (image_content demo_image 0) [2, 3] = replicate 512 0x41 @ replicate 512 0x42"
    unfolding demo_image_def by (subst demo_file) simp_all
  ultimately show ?thesis
    using read_chain_correct [OF demo_parse demo_image_chain demo_hops demo_fits(2), of 510 4] by simp
qed

theorem next_cluster_correct_witness:
  "next_cluster demo_volume (iso_fat_read demo_image 0) 2 = Inr 3 \<and>
    field_bit (image_content demo_image 0) (fat_base demo_volume) 12 2 1"
proof -
  have n: "next_cluster demo_volume (iso_fat_read demo_image 0) 2 = Inr 3"
    using demo_image_chain by (cases rule: cluster_chain.cases) (auto dest: chain_not_empty)
  then show ?thesis
    using next_cluster_correct [OF demo_parse n, of 1] by (simp add: demo_volume_def entry_width_def entry_stride_def bit_numeral_rec)
qed

theorem find_in_dir_correct_witness:
  "find_in_dir demo_volume (iso_fat_read demo_image 0) 0 [0x61, 0x2E, 0x74, 0x78, 0x74] = Inr demo_ent"
  using find_in_dir_correct [OF demo_parse demo_fits(2) demo_image_root, of "[0x61, 0x2E, 0x74, 0x78, 0x74]"]
  by (simp add: demo_find)

theorem cluster_geometry_witness:
  "unat (cluster_offset demo_volume 4) = 2560 \<and>
    unat (cluster_offset demo_volume 4) + unat (cluster_bytes demo_volume) \<le> 3072"
proof -
  have "cluster_is_valid demo_volume 4" by (simp add: cluster_is_valid_def demo_volume_def)
  from cluster_geometry [OF demo_parse this] show ?thesis by (simp add: demo_volume_def)
qed

text \<open>
  The size of the tables, \<open>num_fats * fat_sectors\<close>, is computed in 32 bits without a check.  A
  block whose product wraps is accepted with a data region that begins inside the tables.
\<close>

lemma bpb_tables_wrap:
  "\<exists>v. bpb_volume 512 1 1 2 0 100000 0x80000000 2 = Inr v \<and> data_start v = fat_start v"
  by (simp add: bpb_volume_def Let_def is_power_of_two_def kind_for_def DIR_ENTRY_SIZE_def)

end
