(* ===== verification/Grub_Cfg.thy ===== *)
theory Grub_Cfg
  imports Fat
begin

text \<open>
  The amended boot menu of \<open>raynu_f/filesystem.rs\<close>: every kernel line of a \<open>grub.cfg\<close> that does
  not name the serial console gets it appended, with the arguments that skip the first-boot
  services.  A pass measures the result, a second one writes it.  The model is followed by a
  reference definition on the lines of the file and the lemmas that relate the two.
\<close>

section \<open>Model\<close>

definition GRUB_CFG_SERIAL_SLACK :: nat where "GRUB_CFG_SERIAL_SLACK = 512"
definition GRUB_CFG_VIEW_CAP :: nat where "GRUB_CFG_VIEW_CAP = 16 * 1024"

definition ascii :: "string \<Rightarrow> u8 list" where
  "ascii s = map of_char s"

definition LIBRARY_SERIAL_ARG :: "u8 list" where
  "LIBRARY_SERIAL_ARG = ascii ''console=ttyS0''"

definition LIBRARY_CLOUD_INIT_ARG :: "u8 list" where
  "LIBRARY_CLOUD_INIT_ARG = ascii ''fsck.mode=skip systemd.mask=casper-md5check.service systemd.mask=snapd.seeded.service cloud-init=disabled''"

definition path_tail :: "u8 list \<Rightarrow> u8 list" where
  "path_tail path = rev (takeWhile (\<lambda>c. \<not> is_separator c) (rev path))"

definition path_is_grub_cfg :: "u8 list \<Rightarrow> bool" where
  "path_is_grub_cfg path = eq_ignore_ascii_case (path_tail path) (ascii ''grub.cfg'')"

definition path_is_grubx64 :: "u8 list \<Rightarrow> bool" where
  "path_is_grubx64 path = eq_ignore_ascii_case (path_tail path) (ascii ''grubx64.efi'')"

definition trim_ascii_start :: "u8 list \<Rightarrow> u8 list" where
  "trim_ascii_start s = dropWhile (\<lambda>c. c = 0x20 \<or> c = 0x09) s"

definition bytes_contains :: "u8 list \<Rightarrow> u8 list \<Rightarrow> bool" where
  "bytes_contains hay needle \<longleftrightarrow>
    needle \<noteq> [] \<and> list_ex (\<lambda>i. get_slice i (length needle) hay = needle) [0..<length hay + 1 - length needle]"

definition has_token :: "u8 list \<Rightarrow> u8 list \<Rightarrow> bool" where
  "has_token s token \<longleftrightarrow>
    length token \<le> length s \<and> take (length token) s = token \<and>
    (length s = length token \<or> s ! length token = 0x20 \<or> s ! length token = 0x09)"

definition line_needs_serial :: "u8 list \<Rightarrow> bool" where
  "line_needs_serial line =
    (let s = trim_ascii_start line in
     if \<not> has_token s (ascii ''linuxefi'') \<and> \<not> has_token s (ascii ''linux'') then False
     else \<not> bytes_contains s LIBRARY_SERIAL_ARG)"

text \<open>The head of the line loops: the line without its end, whether it ended in a carriage
  return and in a newline, and what follows.\<close>

definition cfg_line :: "u8 list \<Rightarrow> u8 list \<times> bool \<times> bool \<times> u8 list" where
  "cfg_line src =
    (let body = takeWhile (\<lambda>c. c \<noteq> 0x0A) src; rest = dropWhile (\<lambda>c. c \<noteq> 0x0A) src;
         cr = (body \<noteq> [] \<and> last body = 0x0D)
     in (if cr then butlast body else body, cr, rest \<noteq> [], tl rest))"

lemma cfg_line_shorter:
  "src \<noteq> [] \<Longrightarrow> cfg_line src = (line, cr, nl, rest) \<Longrightarrow> length rest < length src"
  using length_dropWhile_le [of "\<lambda>c. c \<noteq> 0x0A" src]
  by (cases "dropWhile (\<lambda>c. c \<noteq> 0x0A) src") (auto simp: cfg_line_def Let_def)

function cfg_line_needs_serial :: "u8 list \<Rightarrow> bool" where
  "cfg_line_needs_serial src =
    (if src = [] then False
     else case cfg_line src of (line, cr, nl, rest) \<Rightarrow>
       if line_needs_serial line then True else cfg_line_needs_serial rest)"
  by pat_completeness auto
termination by (relation "measure length") (auto dest: cfg_line_shorter [OF _ sym])

definition usize_saturating_add :: "nat \<Rightarrow> nat \<Rightarrow> nat" where
  "usize_saturating_add a b = min (a + b) (2 ^ 64 - 1)"

definition amend_extra :: "u8 list" where
  "amend_extra = [0x20] @ LIBRARY_SERIAL_ARG @ [0x20] @ LIBRARY_CLOUD_INIT_ARG"

text \<open>The first pass measures the result and notes whether a line changes.\<close>

function amended_length :: "nat \<Rightarrow> bool \<Rightarrow> u8 list \<Rightarrow> nat \<times> bool" where
  "amended_length n changed src =
    (if src = [] then (n, changed)
     else case cfg_line src of (line, cr, nl, rest) \<Rightarrow>
       let needs = line_needs_serial line;
           extra = (if needs then 1 + length LIBRARY_SERIAL_ARG + 1 + length LIBRARY_CLOUD_INIT_ARG else 0);
           n1 = usize_saturating_add (usize_saturating_add n (length line)) extra;
           n2 = (if cr then usize_saturating_add n1 1 else n1);
           n3 = (if nl then usize_saturating_add n2 1 else n2)
       in amended_length n3 (changed \<or> needs) rest)"
  by pat_completeness auto
termination by (relation "measure (\<lambda>(n, changed, src). length src)") (auto dest: cfg_line_shorter [OF _ sym])

text \<open>The second pass writes it.\<close>

function amended_bytes :: "u8 list \<Rightarrow> u8 list" where
  "amended_bytes src =
    (if src = [] then []
     else case cfg_line src of (line, cr, nl, rest) \<Rightarrow>
       line @ (if line_needs_serial line then amend_extra else []) @
       (if cr then [0x0D] else []) @ (if nl then [0x0A] else []) @ amended_bytes rest)"
  by pat_completeness auto
termination by (relation "measure length") (auto dest: cfg_line_shorter [OF _ sym])

declare cfg_line_needs_serial.simps [simp del] amended_length.simps [simp del] amended_bytes.simps [simp del]

definition amend_grub_cfg_serial :: "u8 list \<Rightarrow> nat \<Rightarrow> u8 list option" where
  "amend_grub_cfg_serial src out_len =
    (case amended_length 0 False src of (n, changed) \<Rightarrow>
       if \<not> changed \<or> out_len < n then None else Some (amended_bytes src))"

section \<open>Reference definition\<close>

text \<open>The lines of a file, the text of a line without a carriage return at its end, and the line
  as the amended file has it.\<close>

fun menu_lines :: "u8 list \<Rightarrow> u8 list list" where
  "menu_lines [] = [[]]"
| "menu_lines (c # cs) =
    (if c = 0x0A then [] # menu_lines cs else (c # hd (menu_lines cs)) # tl (menu_lines cs))"

fun join_lines :: "u8 list list \<Rightarrow> u8 list" where
  "join_lines [] = []"
| "join_lines [l] = l"
| "join_lines (l # ls) = l @ [0x0A] @ join_lines ls"

definition ends_cr :: "u8 list \<Rightarrow> bool" where
  "ends_cr l \<longleftrightarrow> l \<noteq> [] \<and> last l = 0x0D"

definition line_text :: "u8 list \<Rightarrow> u8 list" where
  "line_text l = (if ends_cr l then butlast l else l)"

definition amend_line :: "u8 list \<Rightarrow> u8 list" where
  "amend_line l =
    line_text l @ (if line_needs_serial (line_text l) then amend_extra else []) @ (if ends_cr l then [0x0D] else [])"

definition amended_file :: "u8 list \<Rightarrow> u8 list" where
  "amended_file src = join_lines (map amend_line (menu_lines src))"

definition lacks_serial :: "u8 list \<Rightarrow> bool" where
  "lacks_serial src = list_ex (\<lambda>l. line_needs_serial (line_text l)) (menu_lines src)"

section \<open>The passes compute the reference\<close>

lemma menu_lines_not_empty [simp]: "menu_lines src \<noteq> []"
  by (cases src) auto

lemma join_lines_Cons: "ls \<noteq> [] \<Longrightarrow> join_lines (l # ls) = l @ [0x0A] @ join_lines ls"
  by (cases ls) auto

lemma menu_lines_split:
  "menu_lines src = takeWhile (\<lambda>c. c \<noteq> 0x0A) src #
    (if dropWhile (\<lambda>c. c \<noteq> 0x0A) src = [] then [] else menu_lines (tl (dropWhile (\<lambda>c. c \<noteq> 0x0A) src)))"
  by (induction src) auto

lemma cfg_line_eq:
  "cfg_line src =
    (line_text (hd (menu_lines src)), ends_cr (hd (menu_lines src)), dropWhile (\<lambda>c. c \<noteq> 0x0A) src \<noteq> [],
     tl (dropWhile (\<lambda>c. c \<noteq> 0x0A) src))"
  by (subst (1 2) menu_lines_split) (simp add: cfg_line_def Let_def line_text_def ends_cr_def)

lemma cfg_line_cases:
  assumes "src \<noteq> []"
  obtains (more) l rest where "cfg_line src = (line_text l, ends_cr l, True, rest)" "menu_lines src = l # menu_lines rest"
    "length rest < length src"
  | (one) l where "cfg_line src = (line_text l, ends_cr l, False, [])" "menu_lines src = [l]"
proof (cases "dropWhile (\<lambda>c. c \<noteq> 0x0A) src = []")
  case True
  then have m: "menu_lines src = [hd (menu_lines src)]" using menu_lines_split [of src] by simp
  have c: "cfg_line src = (line_text (hd (menu_lines src)), ends_cr (hd (menu_lines src)), False, [])"
    using cfg_line_eq [of src] True by simp
  show thesis by (rule one [OF c m])
next
  case False
  let ?rest = "tl (dropWhile (\<lambda>c. c \<noteq> 0x0A) src)"
  have m: "menu_lines src = hd (menu_lines src) # menu_lines ?rest"
    using menu_lines_split [of src] False by (simp only: if_False list.sel)
  have c: "cfg_line src = (line_text (hd (menu_lines src)), ends_cr (hd (menu_lines src)), True, ?rest)"
    using cfg_line_eq [of src] False by simp
  show thesis by (rule more [OF c m cfg_line_shorter [OF assms c]])
qed

lemma line_text_Nil [simp]: "line_text [] = []" "\<not> ends_cr []"
  by (simp_all add: line_text_def ends_cr_def)

lemma line_needs_Nil [simp]: "\<not> line_needs_serial []"
  by (simp add: line_needs_serial_def trim_ascii_start_def has_token_def ascii_def)

lemma amend_line_Nil [simp]: "amend_line [] = []"
  by (simp add: amend_line_def)

lemma amended_bytes_file: "amended_bytes src = amended_file src"
proof (induction "length src" arbitrary: src rule: less_induct)
  case less
  show ?case
  proof (cases "src = []")
    case False
    then show ?thesis
    proof (cases rule: cfg_line_cases)
      case (more l rest)
      then show ?thesis using False less [OF more(3)]
        by (subst amended_bytes.simps) (simp add: amended_file_def join_lines_Cons amend_line_def)
    next
      case (one l)
      then show ?thesis using False
        by (subst amended_bytes.simps) (simp add: amended_file_def amend_line_def amended_bytes.simps [of "[]"])
    qed
  qed (simp add: amended_bytes.simps amended_file_def)
qed

lemma cfg_line_needs_serial_eq: "cfg_line_needs_serial src = lacks_serial src"
proof (induction "length src" arbitrary: src rule: less_induct)
  case less
  show ?case
  proof (cases "src = []")
    case False
    then show ?thesis
    proof (cases rule: cfg_line_cases)
      case (more l rest)
      then show ?thesis using False less [OF more(3)]
        by (subst cfg_line_needs_serial.simps) (simp add: lacks_serial_def)
    next
      case (one l)
      then show ?thesis using False
        by (subst cfg_line_needs_serial.simps) (simp add: lacks_serial_def cfg_line_needs_serial.simps [of "[]"])
    qed
  qed (simp add: cfg_line_needs_serial.simps lacks_serial_def)
qed

lemma length_amend_line:
  "length (amend_line l) = length (line_text l) +
    (if line_needs_serial (line_text l) then 1 + length LIBRARY_SERIAL_ARG + 1 + length LIBRARY_CLOUD_INIT_ARG else 0) +
    (if ends_cr l then 1 else 0)"
  by (simp add: amend_line_def amend_extra_def)

lemma saturating_sum:
  "usize_saturating_add (usize_saturating_add a b) c = usize_saturating_add a (b + c)"
  "usize_saturating_add a b < 2 ^ 64"
  "a < 2 ^ 64 \<Longrightarrow> usize_saturating_add a 0 = a"
  by (simp_all add: usize_saturating_add_def min_def)

lemma amended_length_step:
  assumes "src \<noteq> []" "cfg_line src = (line_text l, ends_cr l, nl, rest)"
  shows "amended_length n changed src =
    amended_length (usize_saturating_add n (length (amend_line l) + (if nl then 1 else 0)))
      (changed \<or> line_needs_serial (line_text l)) rest"
  using assms(1)
  by (subst amended_length.simps) (simp add: assms(2) Let_def saturating_sum(1) length_amend_line add_ac)

lemma amended_length_eq:
  "n < 2 ^ 64 \<Longrightarrow>
    amended_length n changed src = (usize_saturating_add n (length (amended_file src)), changed \<or> lacks_serial src)"
proof (induction "length src" arbitrary: src n changed rule: less_induct)
  case less
  show ?case
  proof (cases "src = []")
    case True
    then show ?thesis using less(2)
      by (simp add: amended_length.simps saturating_sum(3) amended_file_def lacks_serial_def)
  next
    case False
    then show ?thesis
    proof (cases rule: cfg_line_cases)
      case (more l rest)
      show ?thesis
        by (simp add: amended_length_step [OF False more(1)] less(1) [OF more(3) saturating_sum(2)] saturating_sum(1)
            amended_file_def lacks_serial_def more(2) join_lines_Cons)
    next
      case (one l)
      show ?thesis
        by (simp add: amended_length_step [OF False one(1)] amended_length.simps [of _ _ "[]"]
            amended_file_def lacks_serial_def one(2))
    qed
  qed
qed

section \<open>An amended line names the console\<close>

lemma bytes_contains_append:
  assumes "b \<noteq> []"
  shows "bytes_contains (a @ b @ c) b"
  using assms by (auto simp: bytes_contains_def list_ex_iff get_slice_def intro!: bexI [of _ "length a"])

lemma has_token_not_blank: "has_token s t \<Longrightarrow> t \<noteq> [] \<Longrightarrow> s \<noteq> []"
  by (auto simp: has_token_def)

lemma trim_append: "trim_ascii_start l \<noteq> [] \<Longrightarrow> trim_ascii_start (l @ x) = trim_ascii_start l @ x"
  by (auto simp: trim_ascii_start_def dropWhile_append dropWhile_eq_Nil_conv)

lemma amended_text_done:
  assumes "line_needs_serial t"
  shows "\<not> line_needs_serial (t @ amend_extra)"
proof -
  have "trim_ascii_start t \<noteq> []"
    using assms by (auto simp: line_needs_serial_def Let_def ascii_def split: if_splits dest: has_token_not_blank)
  from trim_append [OF this] have "trim_ascii_start (t @ amend_extra) =
      (trim_ascii_start t @ [0x20]) @ LIBRARY_SERIAL_ARG @ ([0x20] @ LIBRARY_CLOUD_INIT_ARG)"
    by (simp add: amend_extra_def)
  moreover have "LIBRARY_SERIAL_ARG \<noteq> []" by (simp add: LIBRARY_SERIAL_ARG_def ascii_def)
  ultimately have "bytes_contains (trim_ascii_start (t @ amend_extra)) LIBRARY_SERIAL_ARG"
    by (metis bytes_contains_append)
  then show ?thesis by (simp add: line_needs_serial_def Let_def)
qed

lemma amend_extra_plain: "amend_extra \<noteq> []" "last amend_extra \<noteq> 0x0D" "0x0A \<notin> set amend_extra"
  by (simp_all add: amend_extra_def LIBRARY_SERIAL_ARG_def LIBRARY_CLOUD_INIT_ARG_def ascii_def)

lemma amend_line_text:
  "line_text (amend_line l) = line_text l @ (if line_needs_serial (line_text l) then amend_extra else [])"
  using amend_extra_plain by (auto simp: amend_line_def line_text_def ends_cr_def butlast_append)

lemma amend_line_done: "\<not> line_needs_serial (line_text (amend_line l))"
  by (simp add: amend_line_text amended_text_done)

lemma amend_line_no_newline: "0x0A \<notin> set l \<Longrightarrow> 0x0A \<notin> set (amend_line l)"
  using amend_extra_plain by (auto simp: amend_line_def line_text_def dest: in_set_butlastD)

lemma menu_lines_no_newline: "l \<in> set (menu_lines src) \<Longrightarrow> 0x0A \<notin> set l"
  by (induction src arbitrary: l) (auto split: if_splits dest: list.set_sel(2) [OF menu_lines_not_empty] intro: list.set_sel(1))

lemma menu_lines_word: "0x0A \<notin> set l \<Longrightarrow> menu_lines l = [l]"
  by (induction l) auto

lemma menu_lines_newline: "0x0A \<notin> set l \<Longrightarrow> menu_lines (l @ 0x0A # rest) = l # menu_lines rest"
  by (induction l) auto

lemma menu_lines_join:
  "ls \<noteq> [] \<Longrightarrow> (\<And>l. l \<in> set ls \<Longrightarrow> 0x0A \<notin> set l) \<Longrightarrow> menu_lines (join_lines ls) = ls"
  by (induction ls rule: join_lines.induct) (auto simp: menu_lines_word menu_lines_newline)

lemma menu_lines_amended: "menu_lines (amended_file src) = map amend_line (menu_lines src)"
  unfolding amended_file_def
  by (rule menu_lines_join) (auto dest: menu_lines_no_newline amend_line_no_newline)

lemma amended_file_done: "\<not> lacks_serial (amended_file src)"
  by (simp add: lacks_serial_def menu_lines_amended list_ex_iff amend_line_done)

lemma amend_eq:
  assumes "cap < 2 ^ 64 - 1"
  shows "amend_grub_cfg_serial src cap =
    (if lacks_serial src \<and> length (amended_file src) \<le> cap then Some (amended_file src) else None)"
  using assms by (auto simp: amend_grub_cfg_serial_def amended_length_eq amended_bytes_file usize_saturating_add_def)

text \<open>
  C29: Amending a boot menu is exact.  It yields the file in which each kernel line without the
  serial console, and no other, has the arguments appended before its line end, and nothing when
  no line lacks it or the result exceeds the buffer; the two passes agree on the length.  The
  result needs no further change: amending it again yields nothing.
\<close>

theorem amend_grub_cfg_serial_correct:
  assumes "cap < 2 ^ 64 - 1"
  shows "amend_grub_cfg_serial src cap =
      (if lacks_serial src \<and> length (amended_file src) \<le> cap then Some (amended_file src) else None) \<and>
    amend_grub_cfg_serial (amended_file src) cap = None \<and>
    menu_lines (amended_file src) = map amend_line (menu_lines src)"
  by (simp_all add: amend_eq [OF assms] amended_file_done menu_lines_amended)

lemma demo_menu:
  "menu_lines (ascii ''linux /v'' @ [0x0D, 0x0A] @ ascii ''linux16 /m'') = [ascii ''linux /v'' @ [0x0D], ascii ''linux16 /m'']"
  "line_needs_serial (ascii ''linux /v'')" "\<not> line_needs_serial (ascii ''linux16 /m'')"
proof -
  have "0x0A \<notin> set (ascii ''linux /v'' @ [0x0D])" "0x0A \<notin> set (ascii ''linux16 /m'')" by (simp_all add: ascii_def)
  then show "menu_lines (ascii ''linux /v'' @ [0x0D, 0x0A] @ ascii ''linux16 /m'') =
      [ascii ''linux /v'' @ [0x0D], ascii ''linux16 /m'']"
    using menu_lines_newline [of "ascii ''linux /v'' @ [0x0D]"] by (simp add: menu_lines_word)
qed (simp_all add: ascii_def line_needs_serial_def trim_ascii_start_def has_token_def bytes_contains_def
    LIBRARY_SERIAL_ARG_def)

lemma demo_amended:
  "map amend_line [ascii ''linux /v'' @ [0x0D], ascii ''linux16 /m''] =
    [ascii ''linux /v'' @ amend_extra @ [0x0D], ascii ''linux16 /m'']"
proof -
  have "ends_cr (ascii ''linux /v'' @ [0x0D])" "\<not> ends_cr (ascii ''linux16 /m'')"
    by (simp_all add: ends_cr_def ascii_def)
  then show ?thesis by (simp add: amend_line_def line_text_def butlast_append demo_menu)
qed

theorem amend_grub_cfg_serial_correct_witness:
  "\<exists>out. amend_grub_cfg_serial (ascii ''linux /v'' @ [0x0D, 0x0A] @ ascii ''linux16 /m'') GRUB_CFG_VIEW_CAP = Some out \<and>
    menu_lines out = [ascii ''linux /v'' @ amend_extra @ [0x0D], ascii ''linux16 /m''] \<and>
    amend_grub_cfg_serial out GRUB_CFG_VIEW_CAP = None"
proof -
  let ?src = "ascii ''linux /v'' @ [0x0D, 0x0A] @ ascii ''linux16 /m''"
  have cap: "GRUB_CFG_VIEW_CAP < 2 ^ 64 - 1" by (simp add: GRUB_CFG_VIEW_CAP_def)
  have "line_text (ascii ''linux /v'' @ [0x0D]) = ascii ''linux /v''"
    by (simp add: line_text_def ends_cr_def butlast_append)
  then have l: "lacks_serial ?src" unfolding lacks_serial_def demo_menu(1) by (simp add: demo_menu(2))
  have n: "length (amended_file ?src) \<le> GRUB_CFG_VIEW_CAP"
    unfolding amended_file_def demo_menu(1) demo_amended
    by (simp add: amend_extra_def LIBRARY_SERIAL_ARG_def LIBRARY_CLOUD_INIT_ARG_def ascii_def GRUB_CFG_VIEW_CAP_def)
  note r = amend_grub_cfg_serial_correct [OF cap, of ?src, unfolded demo_menu(1) demo_amended]
  show ?thesis by (rule exI [of _ "amended_file ?src"]) (simp only: r l n if_True simp_thms)
qed

end
