(* ===== verification/Filesystem.thy ===== *)
theory Filesystem
  imports Fat_Path Grub_Cfg Efi_Status Handle_Tag
begin

text \<open>
  The file protocol of the firmware, \<open>raynu_f/filesystem.rs\<close>: a table of open files over a
  mounted FAT volume, and the amended view of a boot menu that adds the serial console to the
  kernel lines.  The buffer that the menu is read into is private to the call that fills it and
  is not part of the state.
\<close>

section \<open>Constants and state\<close>

definition EFI_DEVICE_ERROR :: u64 where "EFI_DEVICE_ERROR = 0x8000000000000007"
definition EFI_WRITE_PROTECTED :: u64 where "EFI_WRITE_PROTECTED = 0x8000000000000008"
definition EFI_FILE_MODE_READ :: u64 where "EFI_FILE_MODE_READ = 1"
definition EFI_FILE_MODE_WRITE :: u64 where "EFI_FILE_MODE_WRITE = 2"
definition EFI_FILE_MODE_CREATE :: u64 where "EFI_FILE_MODE_CREATE = 0x8000000000000000"
definition FILE_SLOTS :: nat where "FILE_SLOTS = 16"
definition FILE_HANDLE_TAG :: u64 where "FILE_HANDLE_TAG = 0x5246000000002000"

record OpenFile =
  file_used :: bool
  is_root :: bool
  file_entry :: FatEntry
  file_position :: u64
  view_len :: u32

definition NO_ENTRY :: FatEntry where
  "NO_ENTRY = \<lparr>ent_name = replicate 12 0, ent_name_len = 0, ent_attr = 0, first_cluster = 0, ent_size = 0\<rparr>"

definition EMPTY_FILE :: OpenFile where
  "EMPTY_FILE = \<lparr>file_used = False, is_root = False, file_entry = NO_ENTRY, file_position = 0, view_len = 0\<rparr>"

record FileSystem =
  mounted_volume :: "FatVolume option"
  file_slots :: "OpenFile list"
  file_reads :: u32

record LibraryGrubCfg =
  cfg_cluster :: u32
  cfg_len :: u32
  cfg_bytes :: "u8 list"

definition library_grub_cfg :: LibraryGrubCfg where
  "library_grub_cfg = \<lparr>cfg_cluster = 0, cfg_len = 0, cfg_bytes = replicate GRUB_CFG_VIEW_CAP 0\<rparr>"

definition fs_new :: FileSystem where
  "fs_new = \<lparr>mounted_volume = None, file_slots = replicate FILE_SLOTS EMPTY_FILE, file_reads = 0\<rparr>"

definition update_file :: "nat \<Rightarrow> (OpenFile \<Rightarrow> OpenFile) \<Rightarrow> FileSystem \<Rightarrow> FileSystem" where
  "update_file s f fs = fs\<lparr>file_slots := (file_slots fs)[s := f (file_slots fs ! s)]\<rparr>"

section \<open>Handles\<close>

definition file_handle :: "nat \<Rightarrow> u64" where
  "file_handle slot = FILE_HANDLE_TAG OR of_nat slot"

definition file_slot :: "FileSystem \<Rightarrow> u64 \<Rightarrow> nat option" where
  "file_slot fs h =
    (if h AND NOT 0xFFF \<noteq> FILE_HANDLE_TAG then None
     else let s = unat (h AND 0xFFF) in
     if s < FILE_SLOTS \<and> file_used (file_slots fs ! s) then Some s else None)"

definition alloc_slot :: "FileSystem \<Rightarrow> nat option" where
  "alloc_slot fs = find_index (\<lambda>f. \<not> file_used f) (file_slots fs)"

definition open_volume :: "FileSystem \<Rightarrow> (u64 \<times> u64) \<times> FileSystem" where
  "open_volume fs =
    (if mounted_volume fs = None then ((EFI_NOT_FOUND, 0), fs)
     else case alloc_slot fs of
       None \<Rightarrow> ((EFI_OUT_OF_RESOURCES, 0), fs)
     | Some s \<Rightarrow>
         ((EFI_SUCCESS, file_handle s), update_file s (\<lambda>_. EMPTY_FILE\<lparr>file_used := True, is_root := True\<rparr>) fs))"

definition duplicate :: "nat \<Rightarrow> FileSystem \<Rightarrow> (u64 \<times> u64) \<times> FileSystem" where
  "duplicate slot fs =
    (case alloc_slot fs of
       None \<Rightarrow> ((EFI_OUT_OF_RESOURCES, 0), fs)
     | Some s \<Rightarrow>
         ((EFI_SUCCESS, file_handle s), update_file s (\<lambda>_. (file_slots fs ! slot)\<lparr>file_position := 0\<rparr>) fs))"

text \<open>The directory a path starts from; \<open>None\<close> for a relative path below a file.\<close>

definition start_dir :: "OpenFile \<Rightarrow> u8 list \<Rightarrow> u32 option" where
  "start_dir f path =
    (if is_separator (hd path) then Some 0
     else if is_root f then Some 0
     else if is_dir (file_entry f) then Some (first_cluster (file_entry f))
     else None)"

definition fs_open :: "u64 \<Rightarrow> u8 list \<Rightarrow> u64 \<Rightarrow> volume_read \<Rightarrow> FileSystem \<Rightarrow> (u64 \<times> u64) \<times> FileSystem" where
  "fs_open this path mode rd fs =
    (case mounted_volume fs of
       None \<Rightarrow> ((EFI_NOT_FOUND, 0), fs)
     | Some vol \<Rightarrow>
         (case file_slot fs this of
            None \<Rightarrow> ((EFI_INVALID_PARAMETER, 0), fs)
          | Some this_slot \<Rightarrow>
              if mode AND (EFI_FILE_MODE_WRITE OR EFI_FILE_MODE_CREATE) \<noteq> 0 then ((EFI_WRITE_PROTECTED, 0), fs)
              else if mode AND EFI_FILE_MODE_READ = 0 then ((EFI_INVALID_PARAMETER, 0), fs)
              else if path = [] then duplicate this_slot fs
              else case start_dir (file_slots fs ! this_slot) path of
                None \<Rightarrow> ((EFI_INVALID_PARAMETER, 0), fs)
              | Some start \<Rightarrow>
                  (case resolve_in vol rd start path of
                     Inr entry \<Rightarrow>
                       (case alloc_slot fs of
                          None \<Rightarrow> ((EFI_OUT_OF_RESOURCES, 0), fs)
                        | Some s \<Rightarrow>
                            ((EFI_SUCCESS, file_handle s),
                             update_file s (\<lambda>_. EMPTY_FILE\<lparr>file_used := True, file_entry := entry\<rparr>) fs))
                   | Inl e \<Rightarrow>
                       ((if e = NotFound \<or> e = NotADirectory then EFI_NOT_FOUND else EFI_DEVICE_ERROR, 0), fs))))"

definition fs_close :: "u64 \<Rightarrow> FileSystem \<Rightarrow> u64 \<times> FileSystem" where
  "fs_close h fs =
    (case file_slot fs h of
       Some s \<Rightarrow> (EFI_SUCCESS, update_file s (\<lambda>_. EMPTY_FILE) fs)
     | None \<Rightarrow> (EFI_INVALID_PARAMETER, fs))"

definition logical_size :: "OpenFile \<Rightarrow> u64" where
  "logical_size f =
    (if is_root f then 0 else if view_len f \<noteq> 0 then ucast (view_len f) else ucast (ent_size (file_entry f)))"

definition size_of :: "FileSystem \<Rightarrow> u64 \<Rightarrow> u64 option" where
  "size_of fs h = map_option (\<lambda>s. logical_size (file_slots fs ! s)) (file_slot fs h)"

definition is_directory_file :: "OpenFile \<Rightarrow> bool" where
  "is_directory_file f \<longleftrightarrow> is_root f \<or> is_dir (file_entry f)"

definition is_directory :: "FileSystem \<Rightarrow> u64 \<Rightarrow> bool option" where
  "is_directory fs h = map_option (\<lambda>s. is_directory_file (file_slots fs ! s)) (file_slot fs h)"

definition position :: "FileSystem \<Rightarrow> u64 \<Rightarrow> u64 option" where
  "position fs h = map_option (\<lambda>s. file_position (file_slots fs ! s)) (file_slot fs h)"

definition set_position :: "u64 \<Rightarrow> u64 \<Rightarrow> FileSystem \<Rightarrow> u64 \<times> FileSystem" where
  "set_position h pos fs =
    (case file_slot fs h of
       None \<Rightarrow> (EFI_INVALID_PARAMETER, fs)
     | Some s \<Rightarrow>
         if is_directory_file (file_slots fs ! s) then
           (if pos = 0 then (EFI_SUCCESS, update_file s (file_position_update (\<lambda>_. 0)) fs)
            else (EFI_UNSUPPORTED, fs))
         else
           (EFI_SUCCESS, update_file s
             (\<lambda>f. f\<lparr>file_position := if pos = - 1 then logical_size f else pos\<rparr>) fs))"

section \<open>Reading\<close>

definition count_read :: "FileSystem \<Rightarrow> FileSystem" where
  "count_read fs = fs\<lparr>file_reads := saturating_add (file_reads fs) 1\<rparr>"

definition read_serial_view :: "nat \<Rightarrow> nat \<Rightarrow> LibraryGrubCfg \<Rightarrow> FileSystem \<Rightarrow> (u64 \<times> u8 list) \<times> FileSystem" where
  "read_serial_view slot n lib fs =
    (let f = file_slots fs ! slot; pos = file_position f; size = ucast (view_len f) :: u64 in
     if size \<le> pos then ((EFI_SUCCESS, []), fs)
     else if cfg_cluster lib \<noteq> first_cluster (file_entry f) \<or> cfg_len lib \<noteq> view_len f
     then ((EFI_DEVICE_ERROR, []), fs)
     else let want = min n (unat (size - pos)) in
     if want = 0 then ((EFI_SUCCESS, []), fs)
     else ((EFI_SUCCESS, get_slice (unat pos) want (cfg_bytes lib)),
       count_read (update_file slot (\<lambda>f. f\<lparr>file_position := pos + of_nat want\<rparr>) fs)))"

definition fs_read ::
    "u64 \<Rightarrow> nat \<Rightarrow> volume_read \<Rightarrow> LibraryGrubCfg \<Rightarrow> FileSystem \<Rightarrow> (u64 \<times> u8 list) \<times> FileSystem"
where
  "fs_read h n rd lib fs =
    (case mounted_volume fs of
       None \<Rightarrow> ((EFI_NOT_FOUND, []), fs)
     | Some vol \<Rightarrow>
         (case file_slot fs h of
            None \<Rightarrow> ((EFI_INVALID_PARAMETER, []), fs)
          | Some s \<Rightarrow>
              let f = file_slots fs ! s in
              if is_directory_file f then ((EFI_UNSUPPORTED, []), fs)
              else if view_len f \<noteq> 0 then read_serial_view s n lib fs
              else let size = ucast (ent_size (file_entry f)) :: u64; pos = file_position f in
              if size \<le> pos then ((EFI_SUCCESS, []), fs)
              else let want = min n (unat (size - pos)) in
              if want = 0 then ((EFI_SUCCESS, []), fs)
              else case read_chain vol rd (first_cluster (file_entry f)) pos want of
                Inr bs \<Rightarrow>
                  ((EFI_SUCCESS, bs),
                   count_read (update_file s (\<lambda>f. f\<lparr>file_position := pos + of_nat (length bs)\<rparr>) fs))
              | Inl e \<Rightarrow> ((EFI_DEVICE_ERROR, []), fs)))"

text \<open>The \<open>EFI_FILE_INFO\<close> record of an open file, written to the front of the caller's buffer.\<close>

definition FILE_INFO_NAME_OFF :: nat where "FILE_INFO_NAME_OFF = 0x50"
definition FILE_INFO_ATTRIBUTE_OFF :: nat where "FILE_INFO_ATTRIBUTE_OFF = 0x48"
definition FILE_INFO_PHYSICAL_SIZE_OFF :: nat where "FILE_INFO_PHYSICAL_SIZE_OFF = 0x10"
definition FILE_INFO_FILE_SIZE_OFF :: nat where "FILE_INFO_FILE_SIZE_OFF = 0x08"
definition FILE_INFO_SIZE_OFF :: nat where "FILE_INFO_SIZE_OFF = 0x00"
definition EFI_FILE_READ_ONLY :: u64 where "EFI_FILE_READ_ONLY = 0x01"
definition EFI_FILE_HIDDEN :: u64 where "EFI_FILE_HIDDEN = 0x02"
definition EFI_FILE_SYSTEM :: u64 where "EFI_FILE_SYSTEM = 0x04"
definition EFI_FILE_DIRECTORY :: u64 where "EFI_FILE_DIRECTORY = 0x10"
definition EFI_FILE_ARCHIVE :: u64 where "EFI_FILE_ARCHIVE = 0x20"
definition ATTR_READ_ONLY :: u8 where "ATTR_READ_ONLY = 0x01"
definition ATTR_HIDDEN :: u8 where "ATTR_HIDDEN = 0x02"
definition ATTR_SYSTEM :: u8 where "ATTR_SYSTEM = 0x04"
definition ATTR_ARCHIVE :: u8 where "ATTR_ARCHIVE = 0x20"

definition info_name :: "OpenFile \<Rightarrow> u8 list" where
  "info_name f = (if is_root f then [0x5C] else take 12 (name_bytes (file_entry f)))"

definition info_attr :: "OpenFile \<Rightarrow> u64" where
  "info_attr f =
    (let bits = ent_attr (file_entry f);
         a0 = (if is_directory_file f then EFI_FILE_DIRECTORY else 0);
         a1 = (if bits AND ATTR_READ_ONLY \<noteq> 0 then a0 OR EFI_FILE_READ_ONLY else a0);
         a2 = (if bits AND ATTR_HIDDEN \<noteq> 0 then a1 OR EFI_FILE_HIDDEN else a1);
         a3 = (if bits AND ATTR_SYSTEM \<noteq> 0 then a2 OR EFI_FILE_SYSTEM else a2)
     in if bits AND ATTR_ARCHIVE \<noteq> 0 then a3 OR EFI_FILE_ARCHIVE else a3)"

definition file_info :: "u64 \<Rightarrow> u8 list \<Rightarrow> FileSystem \<Rightarrow> (u64 \<times> u64) \<times> u8 list" where
  "file_info h out fs =
    (case file_slot fs h of
       None \<Rightarrow> ((EFI_INVALID_PARAMETER, 0), out)
     | Some s \<Rightarrow>
         let f = file_slots fs ! s; fname = info_name f; need = FILE_INFO_NAME_OFF + (length fname + 1) * 2 in
         if length out < need then ((EFI_BUFFER_TOO_SMALL, of_nat need), out)
         else let b0 = put_slice 0 (replicate need 0) out;
                  b1 = put_slice FILE_INFO_SIZE_OFF (le_bytes 8 (of_nat need :: u64)) b0;
                  b2 = put_slice FILE_INFO_FILE_SIZE_OFF (le_bytes 8 (logical_size f)) b1;
                  b3 = put_slice FILE_INFO_PHYSICAL_SIZE_OFF (le_bytes 8 (logical_size f)) b2;
                  b4 = put_slice FILE_INFO_ATTRIBUTE_OFF (le_bytes 8 (info_attr f)) b3
              in ((EFI_SUCCESS, of_nat need),
                  fold (\<lambda>i. put_slice (FILE_INFO_NAME_OFF + i * 2) (le_bytes 2 (ucast (fname ! i) :: u16)))
                    [0..<length fname] b4))"

definition MAX_PATH_BYTES :: nat where "MAX_PATH_BYTES = 256"

fun utf16_path_to_ascii :: "u16 list \<Rightarrow> u8 list \<Rightarrow> u8 list option" where
  "utf16_path_to_ascii [] out = Some out"
| "utf16_path_to_ascii (u # us) out =
    (if u = 0 then Some out
     else if length out = MAX_PATH_BYTES \<or> 0x7F < u then None
     else utf16_path_to_ascii us (out @ [ucast u]))"

definition open_count :: "FileSystem \<Rightarrow> nat" where
  "open_count fs = length (filter file_used (file_slots fs))"

section \<open>The armed view\<close>

datatype SerialView = Unchanged | Amended | TooBig

text \<open>The loop that reads the whole file in chunks of 4096 bytes.\<close>

function read_whole :: "FatVolume \<Rightarrow> volume_read \<Rightarrow> u32 \<Rightarrow> nat \<Rightarrow> u8 list \<Rightarrow> u8 list option" where
  "read_whole vol rd cluster orig raw =
    (if length raw < orig then
       (case read_chain vol rd cluster (of_nat (length raw)) (min (orig - length raw) 4096) of
          Inr bs \<Rightarrow>
            if length bs = min (orig - length raw) 4096 then read_whole vol rd cluster orig (raw @ bs) else None
        | Inl e \<Rightarrow> None)
     else Some raw)"
  by pat_completeness auto
termination by (relation "measure (\<lambda>(vol, rd, cluster, orig, raw). orig - length raw)") auto

declare read_whole.simps [simp del]

definition arm_library_serial_view ::
    "u64 \<Rightarrow> volume_read \<Rightarrow> LibraryGrubCfg \<Rightarrow> FileSystem \<Rightarrow> SerialView \<times> LibraryGrubCfg \<times> FileSystem"
where
  "arm_library_serial_view h rd lib fs =
    (case file_slot fs h of
       None \<Rightarrow> (Unchanged, lib, fs)
     | Some s \<Rightarrow>
         let f = file_slots fs ! s; orig = unat (ent_size (file_entry f)) in
         if is_directory_file f \<or> orig = 0 then (Unchanged, lib, fs)
         else if GRUB_CFG_VIEW_CAP - GRUB_CFG_SERIAL_SLACK < orig then (TooBig, lib, fs)
         else case mounted_volume fs of
           None \<Rightarrow> (Unchanged, lib, fs)
         | Some vol \<Rightarrow>
             (case read_whole vol rd (first_cluster (file_entry f)) orig [] of
                None \<Rightarrow> (Unchanged, lib, fs)
              | Some raw \<Rightarrow>
                  (case amend_grub_cfg_serial raw GRUB_CFG_VIEW_CAP of
                     None \<Rightarrow> (if cfg_line_needs_serial raw then TooBig else Unchanged, lib, fs)
                   | Some view \<Rightarrow>
                       (Amended,
                        \<lparr>cfg_cluster = first_cluster (file_entry f), cfg_len = of_nat (length view),
                         cfg_bytes = put_slice 0 view (cfg_bytes lib)\<rparr>,
                        update_file s (\<lambda>f. f\<lparr>view_len := of_nat (length view), file_position := 0\<rparr>) fs))))"

definition reset_library_grub_cfg_view :: "LibraryGrubCfg \<Rightarrow> LibraryGrubCfg" where
  "reset_library_grub_cfg_view lib = lib\<lparr>cfg_cluster := 0, cfg_len := 0\<rparr>"

end
