(* ===== verification/Filesystem_Read.thy ===== *)
theory Filesystem_Read
  imports Filesystem
begin

text \<open>
  Correctness of the file protocol: the handle table, sequences of reads against the contents of
  the file on the volume, and the armed view of the boot menu.  The lemmas on reading are proved
  for any reader that meets the contract of a byte volume; the properties are about the reader of
  the boot image inside the ISO.
\<close>

section \<open>The table\<close>

interpretation file_tag: handle_tag FILE_HANDLE_TAG FILE_SLOTS
  by unfold_locales (simp_all add: FILE_HANDLE_TAG_def FILE_SLOTS_def)

definition fs_inv :: "FileSystem \<Rightarrow> bool" where
  "fs_inv fs \<longleftrightarrow> length (file_slots fs) = FILE_SLOTS"

lemma fs_inv_ops [simp]:
  "fs_inv fs_new" "fs_inv (update_file s f fs) = fs_inv fs" "fs_inv (count_read fs) = fs_inv fs"
  by (simp_all add: fs_inv_def fs_new_def update_file_def count_read_def)

lemma table_simps [simp]:
  "mounted_volume (update_file s f fs) = mounted_volume fs" "mounted_volume (count_read fs) = mounted_volume fs"
  "file_slots (update_file s f fs) = (file_slots fs)[s := f (file_slots fs ! s)]"
  "file_slots (count_read fs) = file_slots fs"
  by (simp_all add: update_file_def count_read_def)

lemma file_slot_iff:
  "file_slot fs h = Some s \<longleftrightarrow> s < FILE_SLOTS \<and> file_used (file_slots fs ! s) \<and> h = file_handle s"
  unfolding file_slot_def file_handle_def by (rule file_tag.decode_iff)

lemma file_handle_inj: "i < FILE_SLOTS \<Longrightarrow> j < FILE_SLOTS \<Longrightarrow> file_handle i = file_handle j \<longleftrightarrow> i = j"
  unfolding file_handle_def by (rule file_tag.handle_inj)

lemma alloc_slotD: "fs_inv fs \<Longrightarrow> alloc_slot fs = Some s \<Longrightarrow> s < FILE_SLOTS \<and> \<not> file_used (file_slots fs ! s)"
  using find_index_SomeD [of "\<lambda>f. \<not> file_used f" "file_slots fs" s] by (simp add: alloc_slot_def fs_inv_def)

text \<open>Every other handle that was open still names the same file.\<close>

definition keeps_files :: "FileSystem \<Rightarrow> FileSystem \<Rightarrow> u64 \<Rightarrow> bool" where
  "keeps_files fs fs' h \<longleftrightarrow>
    (\<forall>h' s. h' \<noteq> h \<longrightarrow> file_slot fs h' = Some s \<longrightarrow>
      file_slot fs' h' = Some s \<and> file_slots fs' ! s = file_slots fs ! s)"

lemma keeps_files_trans: "keeps_files fs fs1 h \<Longrightarrow> keeps_files fs1 fs2 h \<Longrightarrow> keeps_files fs fs2 h"
  by (simp add: keeps_files_def)

lemma keeps_files_refl [simp]: "keeps_files fs fs h"
  by (simp add: keeps_files_def)

lemma keeps_files_update: "s < FILE_SLOTS \<Longrightarrow> keeps_files fs (update_file s f fs) (file_handle s)"
  by (auto simp: keeps_files_def file_slot_iff) (metis nth_list_update_neq)+

lemma keeps_files_count [simp]: "keeps_files fs (count_read fs') h = keeps_files fs fs' h"
  by (simp add: keeps_files_def file_slot_iff)

lemma utf16_path_exact:
  assumes "length out \<le> MAX_PATH_BYTES" "w = takeWhile (\<lambda>u. u \<noteq> 0) us"
  shows "utf16_path_to_ascii us out =
    (if (\<forall>u \<in> set w. u \<le> 0x7F) \<and> length out + length w \<le> MAX_PATH_BYTES then Some (out @ map ucast w) else None)"
  using assms by (induction us out arbitrary: w rule: utf16_path_to_ascii.induct) (auto simp: not_less)

section \<open>A sequence of reads\<close>

fun fs_reads ::
    "u64 \<Rightarrow> nat list \<Rightarrow> volume_read \<Rightarrow> LibraryGrubCfg \<Rightarrow> FileSystem \<Rightarrow> (u64 \<times> u8 list) list \<times> FileSystem"
where
  "fs_reads h [] rd lib fs = ([], fs)"
| "fs_reads h (n # ns) rd lib fs =
    (case fs_read h n rd lib fs of (r, fs1) \<Rightarrow> case fs_reads h ns rd lib fs1 of (rs, fs2) \<Rightarrow> (r # rs, fs2))"

text \<open>The bytes behind an open file: the contents that its directory entry delimits, or the
  published view.\<close>

definition file_bytes :: "FatVolume \<Rightarrow> (nat \<Rightarrow> u8) \<Rightarrow> u32 list \<Rightarrow> LibraryGrubCfg \<Rightarrow> OpenFile \<Rightarrow> u8 list" where
  "file_bytes v content cs lib f =
    (if view_len f \<noteq> 0 then take (unat (view_len f)) (cfg_bytes lib)
     else take (unat (ent_size (file_entry f))) (file_data v content cs))"

definition readable :: "FatVolume \<Rightarrow> volume_read \<Rightarrow> u32 list \<Rightarrow> LibraryGrubCfg \<Rightarrow> OpenFile \<Rightarrow> bool" where
  "readable v rd cs lib f \<longleftrightarrow> \<not> is_directory_file f \<and>
    (if view_len f \<noteq> 0
     then cfg_cluster lib = first_cluster (file_entry f) \<and> cfg_len lib = view_len f \<and>
       unat (view_len f) \<le> length (cfg_bytes lib)
     else cluster_chain v rd (first_cluster (file_entry f)) cs)"

lemma readable_position [simp]:
  "readable v rd cs lib (f\<lparr>file_position := p\<rparr>) = readable v rd cs lib f"
  "file_bytes v content cs lib (f\<lparr>file_position := p\<rparr>) = file_bytes v content cs lib f"
  by (simp_all add: readable_def is_directory_file_def file_bytes_def)

lemma take_split_at: "take n xs @ take m (drop (length (take n xs)) xs) = take (n + m) xs"
  by (cases "n \<le> length xs") (simp_all add: take_add)

lemma position_advance:
  assumes "length bs \<le> 2 ^ 32 - unat p" "bs \<noteq> []"
  shows "unat (p + of_nat (length bs) :: u64) = unat p + length bs"
proof -
  have l: "unat p + length bs \<le> 2 ^ 32" using assms by (cases bs) auto
  then have "unat (of_nat (length bs) :: u64) = length bs" by (intro unat_of_nat_small) simp
  then show ?thesis using l by (subst unat_add_small) simp_all
qed

context byte_volume
begin

lemma read_view:
  assumes "fs_inv fs" "s < FILE_SLOTS" "f = file_slots fs ! s" "readable v rd cs lib f" "view_len f \<noteq> 0"
    and "bs = take n (drop (unat (file_position f)) (file_bytes v content cs lib f))"
  shows "read_serial_view s n lib fs =
    ((EFI_SUCCESS, bs),
     if bs = [] then fs else count_read (update_file s (\<lambda>f. f\<lparr>file_position := file_position f + of_nat (length bs)\<rparr>) fs))"
proof -
  let ?p = "file_position f" and ?z = "ucast (view_len f) :: u64"
  have z: "unat ?z = unat (view_len f)" by (rule unat_u32_u64)
  have len: "unat (view_len f) \<le> length (cfg_bytes lib)" and same: "cfg_cluster lib = first_cluster (file_entry f)" "cfg_len lib = view_len f"
    using assms(4,5) by (auto simp: readable_def)
  have bs: "bs = take n (drop (unat ?p) (take (unat (view_len f)) (cfg_bytes lib)))"
    using assms(5,6) by (simp add: file_bytes_def)
  show ?thesis
  proof (cases "?z \<le> ?p")
    case True
    then have "bs = []" using bs z by (simp add: word_le_nat_alt)
    with True show ?thesis by (simp add: read_serial_view_def Let_def assms(3) [symmetric])
  next
    case False
    then have lt: "unat ?p < unat (view_len f)" using z by (simp add: word_le_nat_alt not_le)
    have d: "unat (?z - ?p) = unat (view_len f) - unat ?p"
      using False z by (simp add: unat_sub not_le less_imp_le)
    have l: "length bs = min n (unat (view_len f) - unat ?p)" using len by (simp add: bs min.commute)
    then have sl: "get_slice (unat ?p) (length bs) (cfg_bytes lib) = bs"
      by (simp add: get_slice_def bs drop_take)
    show ?thesis
      using False sl same
      by (simp add: read_serial_view_def Let_def assms(3) [symmetric] d l [symmetric])
        (simp add: update_file_def assms(3))
  qed
qed

lemma read_file:
  assumes "fs_inv fs" "s < FILE_SLOTS" "file_used (file_slots fs ! s)" "f = file_slots fs ! s"
    and "mounted_volume fs = Some v" "fat_geometry v" "volume_bytes v \<le> bytes" "length cs \<le> Suc MAX_CHAIN_HOPS"
    and "readable v rd cs lib f" "bs = take n (drop (unat (file_position f)) (file_bytes v content cs lib f))"
  shows "fs_read (file_handle s) n rd lib fs =
    ((EFI_SUCCESS, bs),
     if bs = [] \<and> (view_len f \<noteq> 0 \<or> n = 0 \<or> unat (ent_size (file_entry f)) \<le> unat (file_position f)) then fs
     else count_read (update_file s (\<lambda>f. f\<lparr>file_position := file_position f + of_nat (length bs)\<rparr>) fs))"
proof -
  let ?p = "file_position f" and ?z = "ucast (ent_size (file_entry f)) :: u64"
  have slot: "file_slot fs (file_handle s) = Some s" using assms(2,3) by (simp add: file_slot_iff)
  have dir: "\<not> is_directory_file f" using assms(9) by (simp add: readable_def)
  have z: "unat ?z = unat (ent_size (file_entry f))" by (rule unat_u32_u64)
  show ?thesis
  proof (cases "view_len f = 0")
    case False
    have "fs_read (file_handle s) n rd lib fs = read_serial_view s n lib fs"
      using False dir by (simp add: fs_read_def assms(5) slot assms(4) [symmetric])
    then show ?thesis using read_view [OF assms(1,2,4,9) False assms(10)] False by simp
  next
    case True
    have bs: "bs = take n (drop (unat ?p) (take (unat (ent_size (file_entry f))) (file_data v content cs)))"
      using True assms(10) by (simp add: file_bytes_def)
    have chain: "cluster_chain v rd (first_cluster (file_entry f)) cs" using assms(9) True by (simp add: readable_def)
    note rc = read_chain_file [OF assms(6,7) chain assms(8)]
    show ?thesis
    proof (cases "?z \<le> ?p \<or> n = 0")
      case triv: True
      then have "bs = []" using bs z by (auto simp: word_le_nat_alt)
      with triv show ?thesis using dir True z
        by (auto simp: fs_read_def assms(5) slot assms(4) [symmetric] Let_def word_le_nat_alt)
    next
      case more: False
      then have lt: "unat ?p < unat (ent_size (file_entry f))" "n \<noteq> 0" using z by (auto simp: word_le_nat_alt not_le)
      have d: "unat (?z - ?p) = unat (ent_size (file_entry f)) - unat ?p"
        using more z by (simp add: unat_sub not_le less_imp_le)
      have b: "take (min n (unat (ent_size (file_entry f)) - unat ?p)) (drop (unat ?p) (file_data v content cs)) = bs"
        by (simp add: bs drop_take)
      have nz: "(min n (unat (ent_size (file_entry f)) - unat ?p) = 0) = False" using lt by (simp add: min_def)
      show ?thesis using more lt dir True
        by (simp add: fs_read_def assms(5) slot assms(4) [symmetric] Let_def d rc b nz) (simp add: update_file_def assms(4))
    qed
  qed
qed

lemma reads_file:
  assumes "mounted_volume fs = Some v" "fat_geometry v" "volume_bytes v \<le> bytes" "length cs \<le> Suc MAX_CHAIN_HOPS"
    and "fs_inv fs" "s < FILE_SLOTS" "file_used (file_slots fs ! s)" "readable v rd cs lib (file_slots fs ! s)"
    and "fs_reads (file_handle s) ns rd lib fs = (rs, fs')"
  shows "(\<forall>r \<in> set rs. fst r = EFI_SUCCESS) \<and>
    concat (map snd rs) =
      take (sum_list ns) (drop (unat (file_position (file_slots fs ! s))) (file_bytes v content cs lib (file_slots fs ! s))) \<and>
    keeps_files fs fs' (file_handle s)"
  using assms(1,5-9)
proof (induction ns arbitrary: fs rs)
  case (Cons n ns)
  let ?f = "file_slots fs ! s" and ?B = "file_bytes v content cs lib (file_slots fs ! s)"
  let ?p = "file_position (file_slots fs ! s)"
  define bs where "bs = take n (drop (unat ?p) ?B)"
  obtain fs1 where r: "fs_read (file_handle s) n rd lib fs = ((EFI_SUCCESS, bs), fs1)"
    and fs1: "fs1 = fs \<and> bs = [] \<or>
      fs1 = count_read (update_file s (\<lambda>f. f\<lparr>file_position := file_position f + of_nat (length bs)\<rparr>) fs)"
    using read_file [OF Cons.prems(2,3,4) refl Cons.prems(1) assms(2,3,4) Cons.prems(5) bs_def] by (auto split: if_splits)
  obtain rs1 where rs: "fs_reads (file_handle s) ns rd lib fs1 = (rs1, fs')" "rs = (EFI_SUCCESS, bs) # rs1"
    using Cons.prems(6) r by (auto split: prod.splits)
  have s: "s < length (file_slots fs)" using Cons.prems(2,3) by (simp add: fs_inv_def)
  have "length ?B \<le> 2 ^ 32"
    using unat_u32_bound [of "view_len ?f"] unat_u32_bound [of "ent_size (file_entry ?f)"] by (auto simp: file_bytes_def)
  then have adv: "unat (?p + of_nat (length bs)) = unat ?p + length bs"
    by (cases "bs = []") (simp, rule position_advance, auto simp: bs_def)
  have f1: "file_slots fs1 ! s = ?f\<lparr>file_position := ?p + of_nat (length bs)\<rparr>" "fs_inv fs1" "mounted_volume fs1 = Some v"
    "keeps_files fs fs1 (file_handle s)"
    using fs1 Cons.prems(1,2,3) s by (auto simp: keeps_files_update)
  have ih: "(\<forall>r \<in> set rs1. fst r = EFI_SUCCESS) \<and>
      concat (map snd rs1) = take (sum_list ns) (drop (unat ?p + length bs) ?B) \<and> keeps_files fs1 fs' (file_handle s)"
    using Cons.IH [OF f1(3,2) Cons.prems(3) _ _ rs(1)] Cons.prems(4,5) by (simp add: f1(1) adv)
  have "bs @ take (sum_list ns) (drop (unat ?p + length bs) ?B) = take (n + sum_list ns) (drop (unat ?p) ?B)"
    using take_split_at [of n "drop (unat ?p) ?B" "sum_list ns"] unfolding bs_def [symmetric] by (simp add: add.commute)
  then show ?case using ih rs(2) keeps_files_trans [OF f1(4)] by simp
qed simp

lemma read_whole_file:
  assumes "fat_geometry v" "volume_bytes v \<le> bytes" "cluster_chain v rd c cs" "length cs \<le> Suc MAX_CHAIN_HOPS"
    and "orig \<le> length (file_data v content cs)" "orig < 2 ^ 64"
  shows "k \<le> orig \<Longrightarrow>
    read_whole v rd c orig (take k (file_data v content cs)) = Some (take orig (file_data v content cs))"
proof (induction "orig - k" arbitrary: k rule: less_induct)
  case less
  let ?D = "file_data v content cs"
  have l: "length (take k ?D) = k" using less(2) assms(5) by simp
  show ?case
  proof (cases "k < orig")
    case True
    define n where "n = min (orig - k) 4096"
    have n: "0 < n" "k + n \<le> orig" using True by (auto simp: n_def)
    have "unat (of_nat k :: u64) = k" using True assms(6) by (intro unat_of_nat_small) simp
    then have "read_chain v rd c (of_nat k) n = Inr (take n (drop k ?D))"
      using read_chain_file [OF assms(1-4)] by simp
    moreover have "length (take n (drop k ?D)) = n" using n assms(5) by simp
    ultimately have "read_whole v rd c orig (take k ?D) = read_whole v rd c orig (take k ?D @ take n (drop k ?D))"
      using True unfolding n_def by (subst read_whole.simps) (simp only: l if_True sum.case simp_thms)
    also have "\<dots> = read_whole v rd c orig (take (k + n) ?D)" by (simp add: take_add)
    also have "\<dots> = Some (take orig ?D)" using n True by (intro less(1)) auto
    finally show ?thesis .
  next
    case False
    then show ?thesis using less(2) by (subst read_whole.simps) (simp only: l if_False, simp)
  qed
qed

end

section \<open>Opening and arming\<close>

lemma alloc_slot_free: "fs_inv fs \<Longrightarrow> open_count fs < FILE_SLOTS \<Longrightarrow> alloc_slot fs \<noteq> None"
  unfolding alloc_slot_def find_index_None_iff open_count_def fs_inv_def by (metis filter_True less_irrefl)

lemma open_file:
  assumes "fs_inv fs" "mounted_volume fs = Some v" "file_slot fs this = Some t" "path \<noteq> []"
    and "start_dir (file_slots fs ! t) path = Some d" "resolve_in v rd d path = Inr ent" "open_count fs < FILE_SLOTS"
  obtains s where "s < FILE_SLOTS" "file_slot fs (file_handle s) = None"
    "fs_open this path EFI_FILE_MODE_READ rd fs =
      ((EFI_SUCCESS, file_handle s), update_file s (\<lambda>_. EMPTY_FILE\<lparr>file_used := True, file_entry := ent\<rparr>) fs)"
proof -
  obtain s where a: "alloc_slot fs = Some s" using alloc_slot_free [OF assms(1,7)] by auto
  note s = alloc_slotD [OF assms(1) a]
  have "file_slot fs (file_handle s) = None"
    using s file_handle_inj by (cases "file_slot fs (file_handle s)") (auto simp: file_slot_iff)
  moreover have "EFI_FILE_MODE_READ AND (EFI_FILE_MODE_WRITE OR EFI_FILE_MODE_CREATE) = 0" "EFI_FILE_MODE_READ AND EFI_FILE_MODE_READ \<noteq> 0"
    by (simp_all add: EFI_FILE_MODE_READ_def EFI_FILE_MODE_WRITE_def EFI_FILE_MODE_CREATE_def)
  ultimately show thesis using that [of s] s a assms(2-6) by (simp add: fs_open_def)
qed

lemma amended_not_empty: "lacks_serial src \<Longrightarrow> amended_file src \<noteq> []"
  using menu_lines_amended [of src]
  by (auto simp: lacks_serial_def amend_line_def amend_extra_def list_ex_iff map_eq_Cons_conv Cons_eq_map_conv split: if_splits)

text \<open>
  C11: The file protocol delivers files.  On a mounted volume with a free slot, opening for
  reading a path that the directories resolve to a file succeeds with a fresh handle, and any
  sequence of reads through that handle, whatever the buffer sizes, succeeds and returns, put
  together, the front of the file: the clusters of its chain cut at the size of its directory
  entry.  No other open handle is touched.
\<close>

theorem open_read_correct:
  assumes "parse_bpb boot = Inr v" and "volume_bytes v \<le> image_bytes img base"
    and "fs_inv fs" and "mounted_volume fs = Some v" and "open_count fs < FILE_SLOTS"
    and "file_slot fs this = Some t" and "path \<noteq> []" and "start_dir (file_slots fs ! t) path = Some d"
    and "resolve_in v (iso_fat_read img base) d path = Inr ent" and "\<not> is_dir ent"
    and "cluster_chain v (iso_fat_read img base) (first_cluster ent) cs" and "length cs \<le> Suc MAX_CHAIN_HOPS"
  shows "\<exists>h fs1. fs_open this path EFI_FILE_MODE_READ (iso_fat_read img base) fs = ((EFI_SUCCESS, h), fs1) \<and>
    file_slot fs h = None \<and> keeps_files fs fs1 h \<and>
    (\<forall>ns rs fs2. fs_reads h ns (iso_fat_read img base) lib fs1 = (rs, fs2) \<longrightarrow>
      (\<forall>r \<in> set rs. fst r = EFI_SUCCESS) \<and>
      concat (map snd rs) = take (sum_list ns) (take (unat (ent_size ent)) (file_data v (image_content img base) cs)) \<and>
      keeps_files fs1 fs2 h)"
proof -
  from open_file [OF assms(3,4,6,7,8,9,5)] obtain s where s: "s < FILE_SLOTS" "file_slot fs (file_handle s) = None"
    "fs_open this path EFI_FILE_MODE_READ (iso_fat_read img base) fs =
      ((EFI_SUCCESS, file_handle s), update_file s (\<lambda>_. EMPTY_FILE\<lparr>file_used := True, file_entry := ent\<rparr>) fs)" .
  define fs1 where "fs1 = update_file s (\<lambda>_. EMPTY_FILE\<lparr>file_used := True, file_entry := ent\<rparr>) fs"
  have f: "file_slots fs1 ! s = EMPTY_FILE\<lparr>file_used := True, file_entry := ent\<rparr>" "fs_inv fs1" "mounted_volume fs1 = Some v"
    using s(1) assms(3,4) by (simp_all add: fs1_def fs_inv_def)
  have r: "file_used (file_slots fs1 ! s)" "readable v (iso_fat_read img base) cs lib (file_slots fs1 ! s)"
    "file_position (file_slots fs1 ! s) = 0"
    "file_bytes v (image_content img base) cs lib (file_slots fs1 ! s) =
      take (unat (ent_size ent)) (file_data v (image_content img base) cs)"
    using assms(10,11) by (simp_all add: f(1) EMPTY_FILE_def readable_def is_directory_file_def file_bytes_def)
  note reads = iso_fat.reads_file [OF f(3) parse_bpb_geometry(1) [OF assms(1)] assms(2,12) f(2) s(1) r(1,2)]
  have "keeps_files fs fs1 (file_handle s)" using s(1) by (simp add: fs1_def keeps_files_update)
  then show ?thesis using s(2,3) reads unfolding fs1_def [symmetric] r(3,4) by auto
qed

lemma arm_view:
  assumes "parse_bpb boot = Inr v" and "volume_bytes v \<le> image_bytes img base" and "mounted_volume fs = Some v"
    and "file_slot fs h = Some s" and "\<not> is_directory_file (file_slots fs ! s)"
    and "cluster_chain v (iso_fat_read img base) (first_cluster (file_entry (file_slots fs ! s))) cs"
    and "length cs \<le> Suc MAX_CHAIN_HOPS"
    and "orig = unat (ent_size (file_entry (file_slots fs ! s)))"
    and "orig \<le> length (file_data v (image_content img base) cs)"
    and "menu = take orig (file_data v (image_content img base) cs)"
  shows "arm_library_serial_view h (iso_fat_read img base) lib fs =
    (if GRUB_CFG_VIEW_CAP - GRUB_CFG_SERIAL_SLACK < orig then (TooBig, lib, fs)
     else if \<not> lacks_serial menu then (Unchanged, lib, fs)
     else if GRUB_CFG_VIEW_CAP < length (amended_file menu) then (TooBig, lib, fs)
     else (Amended,
       \<lparr>cfg_cluster = first_cluster (file_entry (file_slots fs ! s)), cfg_len = of_nat (length (amended_file menu)),
        cfg_bytes = put_slice 0 (amended_file menu) (cfg_bytes lib)\<rparr>,
       update_file s (\<lambda>f. f\<lparr>view_len := of_nat (length (amended_file menu)), file_position := 0\<rparr>) fs))"
proof -
  have "orig < 2 ^ 64" using assms(8) unat_u32_bound [of "ent_size (file_entry (file_slots fs ! s))"] by simp
  from iso_fat.read_whole_file [OF parse_bpb_geometry(1) [OF assms(1)] assms(2,6,7,9) this, of 0]
  have w: "read_whole v (iso_fat_read img base) (first_cluster (file_entry (file_slots fs ! s))) orig [] = Some menu"
    by (simp add: assms(10))
  have cap: "GRUB_CFG_VIEW_CAP < 2 ^ 64 - 1" by (simp add: GRUB_CFG_VIEW_CAP_def)
  have "\<not> lacks_serial menu" if "orig = 0" using that by (simp add: assms(10) lacks_serial_def)
  then show ?thesis
    by (simp add: arm_library_serial_view_def assms(3,4,5) Let_def assms(8) [symmetric] w amend_eq [OF cap] cfg_line_needs_serial_eq)
qed

text \<open>
  C16: Arming the boot menu.  For an open file whose clusters hold it, arming succeeds exactly if
  the file has at most 15872 bytes, a kernel line lacks the serial console, and the amended file
  fits in the view.  After that, from the start of the file, any sequence of reads through the
  handle returns the amended file when it was armed, and the file on the volume when it was not.
\<close>

theorem arm_library_serial_view_correct:
  assumes "parse_bpb boot = Inr v" and "volume_bytes v \<le> image_bytes img base" and "mounted_volume fs = Some v"
    and "file_slot fs h = Some s" and "\<not> is_directory_file (file_slots fs ! s)"
    and "cluster_chain v (iso_fat_read img base) (first_cluster (file_entry (file_slots fs ! s))) cs"
    and "length cs \<le> Suc MAX_CHAIN_HOPS"
    and "orig = unat (ent_size (file_entry (file_slots fs ! s)))"
    and "orig \<le> length (file_data v (image_content img base) cs)"
    and "menu = take orig (file_data v (image_content img base) cs)"
    and "fs_inv fs" and "file_position (file_slots fs ! s) = 0" and "view_len (file_slots fs ! s) = 0"
    and "length (cfg_bytes lib) = GRUB_CFG_VIEW_CAP"
    and "arm_library_serial_view h (iso_fat_read img base) lib fs = (outcome, lib', fs')"
    and "fs_reads h ns (iso_fat_read img base) lib' fs' = (rs, fs2)"
  shows "(outcome = Amended \<longleftrightarrow>
      orig \<le> GRUB_CFG_VIEW_CAP - GRUB_CFG_SERIAL_SLACK \<and> lacks_serial menu \<and> length (amended_file menu) \<le> GRUB_CFG_VIEW_CAP) \<and>
    (\<forall>r \<in> set rs. fst r = EFI_SUCCESS) \<and>
    concat (map snd rs) = take (sum_list ns) (if outcome = Amended then amended_file menu else menu)"
proof -
  let ?rd = "iso_fat_read img base" and ?content = "image_content img base"
  have s: "s < FILE_SLOTS" "file_used (file_slots fs ! s)" "h = file_handle s" "s < length (file_slots fs)"
    using assms(4,11) by (auto simp: file_slot_iff fs_inv_def)
  note arm = arm_view [OF assms(1-10), of lib, unfolded assms(15)]
  have out: "outcome = Amended \<longleftrightarrow>
      orig \<le> GRUB_CFG_VIEW_CAP - GRUB_CFG_SERIAL_SLACK \<and> lacks_serial menu \<and> length (amended_file menu) \<le> GRUB_CFG_VIEW_CAP"
    using arm by (auto split: if_splits)
  have st: "fs_inv fs'" "mounted_volume fs' = Some v" "file_used (file_slots fs' ! s)" "file_position (file_slots fs' ! s) = 0"
    using arm assms(3,11,12) s by (auto split: if_splits)
  have r: "readable v ?rd cs lib' (file_slots fs' ! s) \<and>
    file_bytes v ?content cs lib' (file_slots fs' ! s) = (if outcome = Amended then amended_file menu else menu)"
  proof (cases "outcome = Amended")
    case True
    define n where "n = length (amended_file menu)"
    have n: "0 < n" "n \<le> 2 ^ 14" using True out amended_not_empty [of menu] by (auto simp: n_def GRUB_CFG_VIEW_CAP_def)
    then have u: "unat (of_nat n :: u32) = n" by (intro unat_of_nat_small) simp
    then have "of_nat n \<noteq> (0 :: u32)" using n(1) by (metis less_irrefl unat_0)
    moreover have "take n (put_slice 0 (amended_file menu) (cfg_bytes lib)) = amended_file menu" "n \<le> length (put_slice 0 (amended_file menu) (cfg_bytes lib))"
      using True out assms(14) by (simp_all add: n_def put_slice_def)
    ultimately show ?thesis
      using True out arm s(4) assms(5) by (simp add: readable_def is_directory_file_def file_bytes_def n_def [symmetric] u)
  next
    case False
    then have "lib' = lib" "fs' = fs" using arm by (auto split: if_splits)
    then show ?thesis using False assms(5,6,8,10,13) by (simp add: readable_def file_bytes_def)
  qed
  from iso_fat.reads_file [OF st(2) parse_bpb_geometry(1) [OF assms(1)] assms(2,7) st(1) s(1) st(3) conjunct1 [OF r]
      assms(16) [unfolded s(3)]]
  show ?thesis using out r st(4) by simp
qed

lemma demo_resolve:
  "resolve_in demo_volume (iso_fat_read demo_image 0) 0 [0x5C, 0x61, 0x2E, 0x74, 0x78, 0x74] = Inr demo_ent"
proof -
  have "find_in_dir demo_volume (iso_fat_read demo_image 0) 0 [0x61, 0x2E, 0x74, 0x78, 0x74] = Inr demo_ent"
    using iso_fat.find_in_dir_data [OF parse_bpb_geometry(1) [OF demo_parse] demo_fits(2) demo_image_root,
        of "[0x61, 0x2E, 0x74, 0x78, 0x74]"]
    by (simp add: found_def demo_find)
  moreover have "path_components [0x5C, 0x61, 0x2E, 0x74, 0x78, 0x74] = [[0x61, 0x2E, 0x74, 0x78, 0x74]]"
    by (simp add: path_components_def is_separator_def)
  ultimately show ?thesis
    by (simp add: resolve_in_def resolve_loop_comps resolve_comps_walk entry_in_def MAX_PATH_COMPONENTS_def)
qed

definition demo_fs :: FileSystem where
  "demo_fs = snd (open_volume (fs_new\<lparr>mounted_volume := Some demo_volume\<rparr>))"

lemma demo_fs:
  "fs_inv demo_fs" "mounted_volume demo_fs = Some demo_volume" "open_count demo_fs < FILE_SLOTS"
  "file_slot demo_fs (file_handle 0) = Some 0" "is_root (file_slots demo_fs ! 0)"
proof -
  have e: "demo_fs = \<lparr>mounted_volume = Some demo_volume,
      file_slots = EMPTY_FILE\<lparr>file_used := True, is_root := True\<rparr> # replicate 15 EMPTY_FILE, file_reads = 0\<rparr>"
    by (simp add: demo_fs_def open_volume_def fs_new_def alloc_slot_def FILE_SLOTS_def EMPTY_FILE_def update_file_def
        numeral_eq_Suc)
  show "fs_inv demo_fs" "mounted_volume demo_fs = Some demo_volume" "open_count demo_fs < FILE_SLOTS"
    "file_slot demo_fs (file_handle 0) = Some 0" "is_root (file_slots demo_fs ! 0)"
    by (simp_all add: file_slot_iff) (simp_all add: e fs_inv_def FILE_SLOTS_def open_count_def EMPTY_FILE_def)
qed

theorem open_read_correct_witness:
  "\<exists>h fs1. fs_open (file_handle 0) [0x5C, 0x61, 0x2E, 0x74, 0x78, 0x74] EFI_FILE_MODE_READ (iso_fat_read demo_image 0) demo_fs =
      ((EFI_SUCCESS, h), fs1) \<and>
    concat (map snd (fst (fs_reads h [500, 500] (iso_fat_read demo_image 0) library_grub_cfg fs1))) =
      replicate 512 0x41 @ replicate 88 0x42"
proof -
  have d: "start_dir (file_slots demo_fs ! 0) [0x5C, 0x61, 0x2E, 0x74, 0x78, 0x74] = Some 0"
    by (simp add: start_dir_def is_separator_def)
  have e: "\<not> is_dir demo_ent" "first_cluster demo_ent = 2" "unat (ent_size demo_ent) = 600"
    by (simp_all add: demo_ent_def is_dir_def ATTR_DIRECTORY_def)
  have p: "[0x5C, 0x61, 0x2E, 0x74, 0x78, 0x74 :: u8] \<noteq> []" by simp
  have data: "file_data demo_volume (image_content demo_image 0) [2, 3] = replicate 512 0x41 @ replicate 512 0x42"
    unfolding demo_image_def by (subst demo_file) simp_all
  obtain h fs1 where o: "fs_open (file_handle 0) [0x5C, 0x61, 0x2E, 0x74, 0x78, 0x74] EFI_FILE_MODE_READ (iso_fat_read demo_image 0) demo_fs =
      ((EFI_SUCCESS, h), fs1)"
    and r: "\<And>ns rs fs2. fs_reads h ns (iso_fat_read demo_image 0) library_grub_cfg fs1 = (rs, fs2) \<Longrightarrow>
      concat (map snd rs) = take (sum_list ns) (take 600 (replicate 512 0x41 @ replicate 512 0x42))"
    using open_read_correct [OF demo_parse demo_fits(2) demo_fs(1-4) p d demo_resolve e(1) _ demo_hops, of library_grub_cfg]
      demo_image_chain unfolding e(2,3) data by blast
  obtain rs fs2 where "fs_reads h [500, 500] (iso_fat_read demo_image 0) library_grub_cfg fs1 = (rs, fs2)" by fastforce
  from r [OF this] this o show ?thesis by auto
qed

definition demo_cfg :: "u8 list" where
  "demo_cfg = ascii ''linux /v'' @ [0x0D, 0x0A] @ ascii ''linux16 /m''"

lemma demo_cfg:
  "length demo_cfg = 20" "lacks_serial demo_cfg" "length (amended_file demo_cfg) \<le> GRUB_CFG_VIEW_CAP"
proof -
  show "length demo_cfg = 20" by (simp add: demo_cfg_def ascii_def)
  have "line_text (ascii ''linux /v'' @ [0x0D]) = ascii ''linux /v''"
    by (simp add: line_text_def ends_cr_def butlast_append)
  then show "lacks_serial demo_cfg" unfolding lacks_serial_def demo_cfg_def demo_menu(1) by (simp add: demo_menu(2))
  show "length (amended_file demo_cfg) \<le> GRUB_CFG_VIEW_CAP"
    unfolding amended_file_def demo_cfg_def demo_menu(1) demo_amended
    by (simp add: amend_extra_def LIBRARY_SERIAL_ARG_def LIBRARY_CLOUD_INIT_ARG_def ascii_def GRUB_CFG_VIEW_CAP_def)
qed

definition demo_cfg_fs :: FileSystem where
  "demo_cfg_fs = update_file 0 (\<lambda>_. EMPTY_FILE\<lparr>file_used := True, file_entry := demo_ent\<lparr>ent_size := 20\<rparr>\<rparr>) demo_fs"

theorem arm_library_serial_view_correct_witness:
  "\<exists>lib' fs'. arm_library_serial_view (file_handle 0) (iso_fat_read (demo_disk (demo_cfg @ replicate 1516 0)) 0)
      library_grub_cfg demo_cfg_fs = (Amended, lib', fs') \<and>
    concat (map snd (fst (fs_reads (file_handle 0) [10, 200]
      (iso_fat_read (demo_disk (demo_cfg @ replicate 1516 0)) 0) lib' fs'))) = amended_file demo_cfg"
proof -
  let ?disk = "demo_disk (demo_cfg @ replicate 1516 0)"
  have len: "1536 \<le> length (demo_cfg @ replicate 1516 (0 :: u8))" by (simp add: demo_cfg(1))
  have f: "file_slots demo_cfg_fs ! 0 = EMPTY_FILE\<lparr>file_used := True, file_entry := demo_ent\<lparr>ent_size := 20\<rparr>\<rparr>"
    using demo_fs(1) by (simp add: demo_cfg_fs_def fs_inv_def FILE_SLOTS_def)
  have st: "mounted_volume demo_cfg_fs = Some demo_volume" "fs_inv demo_cfg_fs" "file_slot demo_cfg_fs (file_handle 0) = Some 0"
    "\<not> is_directory_file (file_slots demo_cfg_fs ! 0)" "file_position (file_slots demo_cfg_fs ! 0) = 0"
    "view_len (file_slots demo_cfg_fs ! 0) = 0" "20 = unat (ent_size (file_entry (file_slots demo_cfg_fs ! 0)))"
    "first_cluster (file_entry (file_slots demo_cfg_fs ! 0)) = 2"
    using demo_fs(1,2)
    by (simp_all add: f file_slot_iff FILE_SLOTS_def is_directory_file_def EMPTY_FILE_def is_dir_def demo_ent_def
        ATTR_DIRECTORY_def) (simp_all add: demo_cfg_fs_def)
  have data: "file_data demo_volume (image_content ?disk 0) [2, 3] = demo_cfg @ replicate 1004 0"
    by (subst demo_file) (simp_all add: demo_cfg(1))
  have chain: "cluster_chain demo_volume (iso_fat_read ?disk 0) (first_cluster (file_entry (file_slots demo_cfg_fs ! 0))) [2, 3]"
    unfolding st(8) by (rule demo_chain)
  have m: "demo_cfg = take 20 (file_data demo_volume (image_content ?disk 0) [2, 3])"
    "20 \<le> length (file_data demo_volume (image_content ?disk 0) [2, 3])"
    unfolding data by (simp_all add: demo_cfg(1))
  have cap: "20 \<le> GRUB_CFG_VIEW_CAP - GRUB_CFG_SERIAL_SLACK" "length (cfg_bytes library_grub_cfg) = GRUB_CFG_VIEW_CAP"
    by (simp_all add: GRUB_CFG_VIEW_CAP_def GRUB_CFG_SERIAL_SLACK_def library_grub_cfg_def)
  obtain outcome lib' fs' where a: "arm_library_serial_view (file_handle 0) (iso_fat_read ?disk 0) library_grub_cfg demo_cfg_fs = (outcome, lib', fs')"
    by (metis prod_cases3)
  obtain rs fs2 where r: "fs_reads (file_handle 0) [10, 200] (iso_fat_read ?disk 0) lib' fs' = (rs, fs2)" by fastforce
  have "length (amended_file demo_cfg) \<le> 210"
    unfolding amended_file_def demo_cfg_def demo_menu(1) demo_amended
    by (simp add: amend_extra_def LIBRARY_SERIAL_ARG_def LIBRARY_CLOUD_INIT_ARG_def ascii_def)
  then show ?thesis
    using arm_library_serial_view_correct [OF demo_parse demo_fits(1) [OF len] st(1,3,4) chain demo_hops st(7) m(2,1)
        st(2,5,6) cap(2) a r] cap(1) demo_cfg(2,3) a r by auto
qed

end
