(* ===== verification/Crc32.thy ===== *)
theory Crc32
  imports RayNu_Prelude
begin

text \<open>
  The CRC-32 of \<open>raynu_f/tables.rs\<close>, bit by bit as the source computes it.  Feeding is a fold
  over the bytes, so a checksum computed in pieces is the checksum of the whole, and each step is
  injective, so that changing one byte always changes the checksum.
\<close>

section \<open>Model\<close>

definition crc32_start :: u32 where
  "crc32_start = 0xFFFFFFFF"

definition crc32_bit :: "u32 \<Rightarrow> u32" where
  "crc32_bit crc = drop_bit 1 crc XOR (0xEDB88320 AND - (crc AND 1))"

definition crc32_byte :: "u32 \<Rightarrow> u8 \<Rightarrow> u32" where
  "crc32_byte crc b = (crc32_bit ^^ 8) (crc XOR ucast b)"

definition crc32_feed :: "u32 \<Rightarrow> u8 list \<Rightarrow> u32" where
  "crc32_feed crc data = foldl crc32_byte crc data"

definition crc32_finish :: "u32 \<Rightarrow> u32" where
  "crc32_finish crc = NOT crc"

definition crc32 :: "u8 list \<Rightarrow> u32" where
  "crc32 data = crc32_finish (crc32_feed crc32_start data)"

section \<open>Lemmas\<close>

lemma crc32_feed_append: "crc32_feed crc (a @ b) = crc32_feed (crc32_feed crc a) b"
  by (simp add: crc32_feed_def)

lemma crc32_feed_Nil [simp]: "crc32_feed crc [] = crc"
  by (simp add: crc32_feed_def)

lemma low_bit_mask: "- (crc AND 1 :: u32) = (if bit crc 0 then - 1 else 0)"
  by (simp add: and_one_eq mod2_eq_if bit_0)

text \<open>The feedback polynomial has its top bit set, so the bit shifted out can be read off.\<close>

lemma crc32_bit_top: "bit (crc32_bit crc) 31 \<longleftrightarrow> bit crc 0"
  using bit_imp_le_length [of crc 32] by (auto simp: crc32_bit_def low_bit_mask bit_simps)

lemma crc32_bit_inj: "crc32_bit a = crc32_bit b \<Longrightarrow> a = b"
proof -
  assume eq: "crc32_bit a = crc32_bit b"
  then have low: "bit a 0 \<longleftrightarrow> bit b 0" by (metis crc32_bit_top)
  have "drop_bit 1 a = crc32_bit a XOR (0xEDB88320 AND - (a AND 1))"
    by (simp add: crc32_bit_def xor.assoc)
  also have "\<dots> = drop_bit 1 b" using eq low by (simp add: crc32_bit_def low_bit_mask xor.assoc)
  finally have shift: "drop_bit 1 a = drop_bit 1 b" .
  show "a = b"
  proof (rule bit_word_eqI)
    fix n assume "n < LENGTH(32)"
    then show "bit a n \<longleftrightarrow> bit b n"
      using low arg_cong [OF shift, of "\<lambda>w. bit w (n - 1)"] by (cases n) (simp_all add: bit_simps)
  qed
qed

lemma crc32_bits_inj: "(crc32_bit ^^ n) a = (crc32_bit ^^ n) b \<Longrightarrow> a = b"
  by (induction n) (auto dest: crc32_bit_inj)

lemma crc32_byte_inj: "crc32_byte a x = crc32_byte b x \<Longrightarrow> a = b" "crc32_byte a x = crc32_byte a y \<Longrightarrow> x = y"
proof -
  show "a = b" if "crc32_byte a x = crc32_byte b x"
    using crc32_bits_inj [OF that [unfolded crc32_byte_def]] by (simp only: xor_cancel)
  assume "crc32_byte a x = crc32_byte a y"
  from crc32_bits_inj [OF this [unfolded crc32_byte_def]] have "(ucast x :: u32) = ucast y"
    by (simp only: xor_cancel)
  then have "unat (ucast x :: u32) = unat (ucast y :: u32)" by simp
  then show "x = y" by (intro word_eq_unatI) (simp only: unat_u8_u32)
qed

lemma crc32_feed_inj: "crc32_feed a data = crc32_feed b data \<Longrightarrow> a = b"
  unfolding crc32_feed_def by (induction data arbitrary: a b) (auto dest: crc32_byte_inj(1))

lemma crc32_finish_inj: "crc32_finish a = crc32_finish b \<longleftrightarrow> a = b"
  by (simp add: crc32_finish_def)

lemma crc32_changed_byte:
  assumes "crc32 (a @ x # b) = crc32 (a @ y # b)"
  shows "x = y"
proof -
  have "crc32_feed (crc32_byte (crc32_feed crc32_start a) x) b = crc32_feed (crc32_byte (crc32_feed crc32_start a) y) b"
    using assms by (simp add: crc32_def crc32_finish_inj crc32_feed_def)
  then show ?thesis using crc32_byte_inj(2) crc32_feed_inj by blast
qed

text \<open>The check value of the algorithm: the checksum of the text \<open>123456789\<close>.\<close>

lemma crc32_bit_parity: "crc32_bit crc = (if even crc then drop_bit 1 crc else drop_bit 1 crc XOR 0xEDB88320)"
  by (simp add: crc32_bit_def low_bit_mask bit_0)

lemma crc32_byte_steps:
  "crc32_byte crc b =
    crc32_bit (crc32_bit (crc32_bit (crc32_bit (crc32_bit (crc32_bit (crc32_bit (crc32_bit (crc XOR ucast b))))))))"
  by (simp add: crc32_byte_def numeral_eq_Suc)

lemma crc32_check_value: "crc32 [0x31, 0x32, 0x33, 0x34, 0x35, 0x36, 0x37, 0x38, 0x39] = 0xCBF43926"
  by (simp add: crc32_def crc32_feed_def crc32_start_def crc32_finish_def crc32_byte_steps crc32_bit_parity)

end
