(* ===== verification/Gpt.thy ===== *)
theory Gpt
  imports Volume Crc32
begin

text \<open>
  The partition table reader, \<open>raynu_f/gpt.rs\<close>: the protective master boot record, the header with
  its checksum, and the search for the first EFI system partition, with or without the checksum of
  the partition array.  A disk is any reader of bytes; the properties are about \<open>SliceDisk\<close>.
  \<open>parse_gpt_header\<close> copies the header to a buffer of one block; its callers pass one block.
\<close>

section \<open>Model\<close>

definition MBR_TYPE_GPT :: u8 where "MBR_TYPE_GPT = 0xEE"
definition GPT_SIGNATURE :: "u8 list" where "GPT_SIGNATURE = [0x45, 0x46, 0x49, 0x20, 0x50, 0x41, 0x52, 0x54]"
definition GPT_REVISION_1_0 :: u32 where "GPT_REVISION_1_0 = 0x00010000"
definition GPT_HEADER_SIZE_MIN :: u32 where "GPT_HEADER_SIZE_MIN = 92"
definition GPT_LBA_SIZE :: nat where "GPT_LBA_SIZE = 512"
definition GPT_ENTRY_SIZE_DEFAULT :: u32 where "GPT_ENTRY_SIZE_DEFAULT = 128"
definition GPT_MAX_ENTRIES :: u32 where "GPT_MAX_ENTRIES = 128"
definition ESP_TYPE_GUID :: "u8 list" where
  "ESP_TYPE_GUID = [0x28, 0x73, 0x2A, 0xC1, 0x1F, 0xF8, 0xD2, 0x11, 0xBA, 0x4B, 0x00, 0xA0, 0xC9, 0x3E, 0xC9, 0x3B]"

datatype GptError =
  GptShortRead | NoProtectiveMbr | BadSignature | BadRevision | BadHeaderSize | BadHeaderCrc
| BadEntryArrayCrc | BadEntrySize | NoEsp

record GptHeader =
  revision :: u32
  header_size :: u32
  my_lba :: u64
  partition_entry_lba :: u64
  number_of_entries :: u32
  size_of_entry :: u32

record EspPartition =
  partition_number :: u32
  start_lba :: u64
  end_lba :: u64
  unique_guid :: "u8 list"

definition size_lba :: "EspPartition \<Rightarrow> u64" where
  "size_lba p = saturating_add (saturating_sub (end_lba p) (start_lba p)) 1"

datatype BootSource = Disk | Iso

definition raynu_f_boot_source :: "bool \<Rightarrow> BootSource" where
  "raynu_f_boot_source disk_has_gpt_esp = (if disk_has_gpt_esp then Disk else Iso)"

definition parse_protective_mbr :: "u8 list \<Rightarrow> GptError + unit" where
  "parse_protective_mbr lba0 =
    (if length lba0 < GPT_LBA_SIZE then Inl GptShortRead
     else if lba0 ! 510 \<noteq> 0x55 \<or> lba0 ! 511 \<noteq> 0xAA then Inl NoProtectiveMbr
     else if list_ex (\<lambda>i. lba0 ! (0x1BE + i * 16 + 4) = MBR_TYPE_GPT) [0..<4] then Inr ()
     else Inl NoProtectiveMbr)"

definition parse_gpt_header :: "u8 list \<Rightarrow> GptError + GptHeader" where
  "parse_gpt_header lba1 =
    (if length lba1 < GPT_LBA_SIZE then Inl GptShortRead
     else if take 8 lba1 \<noteq> GPT_SIGNATURE then Inl BadSignature
     else if u32_at lba1 8 \<noteq> GPT_REVISION_1_0 then Inl BadRevision
     else if u32_at lba1 12 < GPT_HEADER_SIZE_MIN \<or> length lba1 < unat (u32_at lba1 12) then Inl BadHeaderSize
     else if crc32 (put_slice 16 [0, 0, 0, 0] (take (unat (u32_at lba1 12)) lba1)) \<noteq> u32_at lba1 16
     then Inl BadHeaderCrc
     else if u32_at lba1 84 < GPT_ENTRY_SIZE_DEFAULT \<or> 4096 < u32_at lba1 84 \<or> u32_at lba1 84 mod 8 \<noteq> 0
     then Inl BadEntrySize
     else Inr \<lparr>revision = u32_at lba1 8, header_size = u32_at lba1 12, my_lba = u64_at lba1 24,
       partition_entry_lba = u64_at lba1 72, number_of_entries = u32_at lba1 80, size_of_entry = u32_at lba1 84\<rparr>)"

definition gpt_entry_array_crc :: "u8 list \<Rightarrow> u32" where
  "gpt_entry_array_crc lba1 = u32_at lba1 88"

definition gpt_disk_bytes_from_header :: "u8 list \<Rightarrow> u64 option" where
  "gpt_disk_bytes_from_header lba1 =
    (if length lba1 < 40 \<or> take 8 lba1 \<noteq> GPT_SIGNATURE then None
     else case checked_add (u64_at lba1 32) 1 of
       None \<Rightarrow> None
     | Some n \<Rightarrow> checked_mul n (of_nat GPT_LBA_SIZE))"

definition gpt_fits_guest_bytes :: "u8 list \<Rightarrow> u64 \<Rightarrow> bool" where
  "gpt_fits_guest_bytes lba1 guest_bytes =
    (case gpt_disk_bytes_from_header lba1 of Some n \<Rightarrow> 0 < n \<and> n \<le> guest_bytes | None \<Rightarrow> False)"

definition read_lba :: "volume_read \<Rightarrow> u64 \<Rightarrow> u8 list option" where
  "read_lba rd lba = rd (saturating_mul lba (of_nat GPT_LBA_SIZE)) 512"

definition gpt_entries :: "GptHeader \<Rightarrow> u32" where
  "gpt_entries hdr = min (number_of_entries hdr) GPT_MAX_ENTRIES"

function array_crc_loop :: "volume_read \<Rightarrow> u64 \<Rightarrow> nat \<Rightarrow> u32 \<Rightarrow> GptError + u32" where
  "array_crc_loop rd off left crc =
    (if left = 0 then Inr crc
     else case rd off (min left 512) of
       None \<Rightarrow> Inl GptShortRead
     | Some bs \<Rightarrow>
         array_crc_loop rd (saturating_add off (of_nat (min left 512))) (left - min left 512) (crc32_feed crc bs))"
  by pat_completeness auto
termination by (relation "measure (\<lambda>(rd, off, left, crc). left)") auto

declare array_crc_loop.simps [simp del]

definition partition_array_crc :: "volume_read \<Rightarrow> GptHeader \<Rightarrow> GptError + u32" where
  "partition_array_crc rd hdr =
    (case array_crc_loop rd (saturating_mul (partition_entry_lba hdr) (of_nat GPT_LBA_SIZE))
        (unat (saturating_mul (gpt_entries hdr) (size_of_entry hdr))) crc32_start of
       Inl e \<Rightarrow> Inl e
     | Inr crc \<Rightarrow> Inr (crc32_finish crc))"

fun gpt_error_code :: "GptError \<Rightarrow> u8" where
  "gpt_error_code GptShortRead = 1"
| "gpt_error_code NoProtectiveMbr = 2"
| "gpt_error_code BadSignature = 3"
| "gpt_error_code BadRevision = 4"
| "gpt_error_code BadHeaderSize = 5"
| "gpt_error_code BadHeaderCrc = 6"
| "gpt_error_code BadEntryArrayCrc = 7"
| "gpt_error_code BadEntrySize = 8"
| "gpt_error_code NoEsp = 9"

text \<open>One entry of the array: \<open>None\<close> when the scan goes on.\<close>

definition esp_entry :: "nat \<Rightarrow> u8 list \<Rightarrow> EspPartition option" where
  "esp_entry i entry =
    (if take 16 entry \<noteq> ESP_TYPE_GUID then None
     else if u64_at entry 32 = 0 \<or> u64_at entry 40 < u64_at entry 32 then None
     else Some \<lparr>partition_number = of_nat i + 1, start_lba = u64_at entry 32, end_lba = u64_at entry 40,
       unique_guid = get_slice 16 16 entry\<rparr>)"

fun esp_scan :: "volume_read \<Rightarrow> GptHeader \<Rightarrow> nat list \<Rightarrow> GptError + EspPartition" where
  "esp_scan rd hdr [] = Inl NoEsp"
| "esp_scan rd hdr (i # is) =
    (case rd (saturating_add (saturating_mul (partition_entry_lba hdr) (of_nat GPT_LBA_SIZE))
          (of_nat i * ucast (size_of_entry hdr))) (unat (size_of_entry hdr)) of
       None \<Rightarrow> Inl GptShortRead
     | Some entry \<Rightarrow> (case esp_entry i entry of Some p \<Rightarrow> Inr p | None \<Rightarrow> esp_scan rd hdr is))"

definition array_check :: "volume_read \<Rightarrow> u8 list \<Rightarrow> GptHeader \<Rightarrow> bool \<Rightarrow> GptError option" where
  "array_check rd lba1 hdr verify_array_crc =
    (if verify_array_crc then
       (case partition_array_crc rd hdr of
          Inl e \<Rightarrow> Some e
        | Inr crc \<Rightarrow> if crc \<noteq> gpt_entry_array_crc lba1 then Some BadEntryArrayCrc else None)
     else None)"

definition find_esp_opts :: "volume_read \<Rightarrow> bool \<Rightarrow> GptError + EspPartition" where
  "find_esp_opts rd verify_array_crc =
    (case read_lba rd 0 of
       None \<Rightarrow> Inl GptShortRead
     | Some lba0 \<Rightarrow>
         (case parse_protective_mbr lba0 of
            Inl e \<Rightarrow> Inl e
          | Inr _ \<Rightarrow>
              (case read_lba rd 1 of
                 None \<Rightarrow> Inl GptShortRead
               | Some lba1 \<Rightarrow>
                   (case parse_gpt_header lba1 of
                      Inl e \<Rightarrow> Inl e
                    | Inr hdr \<Rightarrow>
                        (case array_check rd lba1 hdr verify_array_crc of
                           Some e \<Rightarrow> Inl e
                         | None \<Rightarrow>
                             if 256 < unat (size_of_entry hdr) then Inl BadEntrySize
                             else esp_scan rd hdr [0..<unat (gpt_entries hdr)])))))"

definition find_esp :: "volume_read \<Rightarrow> GptError + EspPartition" where
  "find_esp rd = find_esp_opts rd True"

definition find_esp_skip_array_crc :: "volume_read \<Rightarrow> GptError + EspPartition" where
  "find_esp_skip_array_crc rd = find_esp_opts rd False"

definition disk_has_gpt_esp :: "volume_read \<Rightarrow> bool" where
  "disk_has_gpt_esp rd = (case find_esp_skip_array_crc rd of Inr _ \<Rightarrow> True | Inl _ \<Rightarrow> False)"

section \<open>The scan against the contents of the disk\<close>

text \<open>The entry with a given index, and the first entry that names a usable system partition.\<close>

definition entry_at :: "(nat \<Rightarrow> u8) \<Rightarrow> nat \<Rightarrow> nat \<Rightarrow> nat \<Rightarrow> u8 list" where
  "entry_at content start es i = bytes_from content (start + i * es) es"

definition usable_esp :: "u8 list \<Rightarrow> bool" where
  "usable_esp entry \<longleftrightarrow>
    take 16 entry = ESP_TYPE_GUID \<and> 0 < unat (u64_at entry 32) \<and> unat (u64_at entry 32) \<le> unat (u64_at entry 40)"

definition first_esp :: "(nat \<Rightarrow> u8) \<Rightarrow> nat \<Rightarrow> nat \<Rightarrow> nat list \<Rightarrow> EspPartition option" where
  "first_esp content start es is =
    map_option (\<lambda>i. let entry = entry_at content start es i in
      \<lparr>partition_number = of_nat (Suc i), start_lba = u64_at entry 32, end_lba = u64_at entry 40,
       unique_guid = get_slice 16 16 entry\<rparr>)
     (find (\<lambda>i. usable_esp (entry_at content start es i)) is)"

lemma first_esp_simps [simp]:
  "first_esp content start es [] = None"
  "first_esp content start es (i # is) =
    (case esp_entry i (entry_at content start es i) of Some p \<Rightarrow> Some p | None \<Rightarrow> first_esp content start es is)"
  by (auto simp: first_esp_def esp_entry_def usable_esp_def Let_def add.commute word_less_nat_alt unat_eq_0 not_less)

lemma bytes_from_add: "bytes_from content a (m + n) = bytes_from content a m @ bytes_from content (a + m) n"
  by (rule nth_equalityI) (auto simp: nth_append)

lemma bytes_from_0 [simp]: "bytes_from content a 0 = []"
  by (simp add: bytes_from_def)

lemma saturating_mul_exact:
  fixes x y :: "'a::len word"
  shows "unat x * unat y < 2 ^ LENGTH('a) \<Longrightarrow> unat (saturating_mul x y) = unat x * unat y"
  by (simp add: saturating_mul_def unat_mult_small)

context byte_volume
begin

lemma array_crc_bytes:
  "unat off + left \<le> bytes \<Longrightarrow>
    array_crc_loop rd off left crc = Inr (crc32_feed crc (bytes_from content (unat off) left))"
proof (induction left arbitrary: off crc rule: less_induct)
  case (less left)
  show ?case
  proof (cases "left = 0")
    case True
    then show ?thesis by (simp add: array_crc_loop.simps)
  next
    case False
    define n where "n = min left 512"
    have n: "0 < n" "n \<le> left" "n \<le> 512" using False by (auto simp: n_def)
    have r: "rd off n = Some (bytes_from content (unat off) n)" using read_range [of n off] less(2) n by simp
    from read_fits [OF r] have "unat off + n < 2 ^ 64" .
    moreover have "unat (of_nat n :: u64) = n" using n(3) by (intro unat_of_nat_small) simp
    ultimately have off: "unat (saturating_add off (of_nat n)) = unat off + n" by (simp add: unat_saturating_add)
    have "array_crc_loop rd off left crc =
        array_crc_loop rd (saturating_add off (of_nat n)) (left - n) (crc32_feed crc (bytes_from content (unat off) n))"
      using False r unfolding n_def by (subst array_crc_loop.simps) simp
    also have "\<dots> = Inr (crc32_feed (crc32_feed crc (bytes_from content (unat off) n)) (bytes_from content (unat off + n) (left - n)))"
      using less(1) [of "left - n" "saturating_add off (of_nat n)"] less(2) n by (simp add: off)
    also have "\<dots> = Inr (crc32_feed crc (bytes_from content (unat off) left))"
      using n(2) bytes_from_add [of content "unat off" n "left - n"] by (simp add: crc32_feed_append)
    finally show ?thesis .
  qed
qed

lemma esp_scan_first:
  assumes "unat (partition_entry_lba hdr) * 512 = start" "unat (size_of_entry hdr) = es" "0 < es" "es \<le> 4096"
    and "start + n * es \<le> bytes" "start + n * es < 2 ^ 64" "n \<le> 128"
  shows "\<forall>i \<in> set is. i < n \<Longrightarrow>
    esp_scan rd hdr is = (case first_esp content start es is of None \<Rightarrow> Inl NoEsp | Some p \<Rightarrow> Inr p)"
proof (induction "is")
  case (Cons i "is")
  have i: "i < n" "i * es + es \<le> n * es" using Cons.prems mult_le_mono1 [of "Suc i" n es] by auto
  have u: "unat (of_nat i :: u64) = i" "unat (ucast (size_of_entry hdr) :: u64) = es"
    using i(1) assms(2,7) by (simp_all add: unat_u32_u64 unat_of_nat_small)
  have "unat (of_nat i * ucast (size_of_entry hdr) :: u64) = i * es"
    using i assms(5,6) by (subst unat_mult_small) (simp_all add: u)
  moreover have "unat (saturating_mul (partition_entry_lba hdr) (of_nat GPT_LBA_SIZE)) = start"
    using assms(1,6) by (simp add: saturating_mul_exact GPT_LBA_SIZE_def)
  ultimately have "unat (saturating_add (saturating_mul (partition_entry_lba hdr) (of_nat GPT_LBA_SIZE))
      (of_nat i * ucast (size_of_entry hdr))) = start + i * es"
    using i assms(6) by (simp add: unat_saturating_add)
  then have "rd (saturating_add (saturating_mul (partition_entry_lba hdr) (of_nat GPT_LBA_SIZE))
      (of_nat i * ucast (size_of_entry hdr))) (unat (size_of_entry hdr)) = Some (entry_at content start es i)"
    using read_range [of es] i(2) assms(2,3,5) by (simp add: entry_at_def)
  then show ?case using Cons by (simp split: option.split)
qed simp

lemma find_esp_disk:
  assumes "1024 \<le> bytes" "lba1 = bytes_from content 512 512"
    and "parse_protective_mbr (bytes_from content 0 512) = Inr ()" "parse_gpt_header lba1 = Inr hdr"
    and "unat (size_of_entry hdr) = es" "es \<le> 256" "unat (gpt_entries hdr) = n"
    and "unat (partition_entry_lba hdr) * 512 = start" "start + n * es \<le> bytes" "start + n * es < 2 ^ 64"
  shows "find_esp_opts rd verify =
    (if verify \<and> crc32 (bytes_from content start (n * es)) \<noteq> gpt_entry_array_crc lba1 then Inl BadEntryArrayCrc
     else case first_esp content start es [0..<n] of None \<Rightarrow> Inl NoEsp | Some p \<Rightarrow> Inr p)"
proof -
  have l0: "read_lba rd 0 = Some (bytes_from content 0 512)" and l1: "read_lba rd 1 = Some lba1"
    using read_range [of 512 0] read_range [of 512 512] assms(1,2)
    by (simp_all add: read_lba_def GPT_LBA_SIZE_def saturating_mul_def)
  have "128 \<le> size_of_entry hdr"
    using assms(4) by (auto simp: parse_gpt_header_def GPT_ENTRY_SIZE_DEFAULT_def not_less split: if_splits)
  then have es: "0 < es" using assms(5) by (auto simp: word_le_nat_alt)
  have n: "n \<le> 128" using assms(7) by (auto simp: gpt_entries_def GPT_MAX_ENTRIES_def min_def word_le_nat_alt split: if_splits)
  have "n * es \<le> 128 * 256" using mult_le_mono [OF n assms(6)] by simp
  then have t: "unat (saturating_mul (gpt_entries hdr) (size_of_entry hdr)) = n * es"
    using assms(5,7) by (simp add: saturating_mul_exact)
  have s: "unat (saturating_mul (partition_entry_lba hdr) (of_nat GPT_LBA_SIZE)) = start"
    using assms(8,10) by (simp add: saturating_mul_exact GPT_LBA_SIZE_def)
  have crc: "partition_array_crc rd hdr = Inr (crc32 (bytes_from content start (n * es)))"
    using array_crc_bytes [of "saturating_mul (partition_entry_lba hdr) (of_nat GPT_LBA_SIZE)" "n * es" crc32_start] assms(9)
    by (simp add: partition_array_crc_def t s crc32_def)
  have scan: "esp_scan rd hdr [0..<n] = (case first_esp content start es [0..<n] of None \<Rightarrow> Inl NoEsp | Some p \<Rightarrow> Inr p)"
    using assms(6) es n by (intro esp_scan_first [OF assms(8,5) _ _ assms(9,10)]) auto
  show ?thesis
    using assms(6) by (simp add: find_esp_opts_def l0 l1 assms(3,4,5,7) array_check_def crc scan)
qed

end

section \<open>Disks in memory\<close>

lemma slice_bytes: "a + n \<le> length img \<Longrightarrow> bytes_from (\<lambda>i. img ! i) a n = get_slice a n img"
  by (rule nth_equalityI) (simp_all add: nth_get_slice)

lemma find_esp_slice:
  assumes "1024 \<le> length img" and "length img < 2 ^ 64" and "lba1 = get_slice 512 512 img"
    and "parse_protective_mbr (get_slice 0 512 img) = Inr ()" and "parse_gpt_header lba1 = Inr hdr"
    and "es = unat (size_of_entry hdr)" and "es \<le> 256" and "n = unat (gpt_entries hdr)"
    and "start = unat (partition_entry_lba hdr) * 512" and "start + n * es \<le> length img"
  shows "find_esp_opts (slice_read img) verify =
    (if verify \<and> crc32 (get_slice start (n * es) img) \<noteq> gpt_entry_array_crc lba1 then Inl BadEntryArrayCrc
     else case first_esp (\<lambda>i. img ! i) start es [0..<n] of None \<Rightarrow> Inl NoEsp | Some p \<Rightarrow> Inr p)"
  using slice.find_esp_disk [of img lba1 hdr es n start verify] assms by (simp add: slice_bytes)

text \<open>
  C14: The search for the system partition, for headers of at most 128 entries.  On a disk image with a
  protective boot record, a valid header and its array inside the image, the result is the first
  entry of the array that has the type of a system partition and a nonempty range that does not
  start at block 0, or the report that there is none; with the checksum asked for, it is the
  checksum error exactly if the checksum of the whole array, read block by block, differs from the
  one in the header.  Entries of more than 256 bytes, which the search refuses, are left out.
\<close>

theorem find_esp_correct:
  assumes "1024 \<le> length img" and "length img < 2 ^ 64" and "lba1 = get_slice 512 512 img"
    and "parse_protective_mbr (get_slice 0 512 img) = Inr ()" and "parse_gpt_header lba1 = Inr hdr"
    and "es = unat (size_of_entry hdr)" and "es \<le> 256"
    and "n = unat (number_of_entries hdr)" and "n \<le> 128"
    and "start = unat (partition_entry_lba hdr) * 512" and "start + n * es \<le> length img"
  shows "find_esp_opts (slice_read img) verify =
    (if verify \<and> crc32 (get_slice start (n * es) img) \<noteq> gpt_entry_array_crc lba1 then Inl BadEntryArrayCrc
     else case first_esp (\<lambda>i. img ! i) start es [0..<n] of None \<Rightarrow> Inl NoEsp | Some p \<Rightarrow> Inr p)"
proof -
  have "n = unat (gpt_entries hdr)"
    using assms(8,9) by (auto simp: gpt_entries_def GPT_MAX_ENTRIES_def min_def word_le_nat_alt)
  then show ?thesis by (rule find_esp_slice [OF assms(1-7) _ assms(10,11)])
qed

text \<open>
  Above 128 entries only the first 128 are summed, while the header holds the checksum of all of
  them: a disk whose whole array matches its header is refused when the two checksums differ.
\<close>

lemma find_esp_many_entries:
  assumes "1024 \<le> length img" and "length img < 2 ^ 64" and "lba1 = get_slice 512 512 img"
    and "parse_protective_mbr (get_slice 0 512 img) = Inr ()" and "parse_gpt_header lba1 = Inr hdr"
    and "es = unat (size_of_entry hdr)" and "es \<le> 256"
    and "n = unat (number_of_entries hdr)" and "128 < n"
    and "start = unat (partition_entry_lba hdr) * 512" and "start + n * es \<le> length img"
    and "crc32 (get_slice start (n * es) img) = gpt_entry_array_crc lba1"
    and "crc32 (get_slice start (128 * es) img) \<noteq> crc32 (get_slice start (n * es) img)"
  shows "find_esp (slice_read img) = Inl BadEntryArrayCrc"
proof -
  have e: "128 = unat (gpt_entries hdr)"
    using assms(8,9) by (auto simp: gpt_entries_def GPT_MAX_ENTRIES_def min_def word_le_nat_alt)
  have "128 * es \<le> n * es" using assms(9) by simp
  then have "start + 128 * es \<le> length img" using assms(11) by linarith
  from find_esp_slice [OF assms(1-7) e assms(10) this, of True] show ?thesis using assms(12,13) by (simp add: find_esp_def)
qed

text \<open>
  C13: The checksum of the array protects it.  If an image passes the check of the array, then
  changing any one byte of the summed array, which is its first 128 entries at most, makes the
  checked search fail with the checksum error, whatever the byte is changed to.
\<close>

theorem find_esp_detects_change:
  assumes "1024 \<le> length img" and "length img < 2 ^ 64" and "lba1 = get_slice 512 512 img"
    and "parse_protective_mbr (get_slice 0 512 img) = Inr ()" and "parse_gpt_header lba1 = Inr hdr"
    and "es = unat (size_of_entry hdr)" and "es \<le> 256" and "n = unat (gpt_entries hdr)"
    and "start = unat (partition_entry_lba hdr) * 512" and "1024 \<le> start" and "start + n * es \<le> length img"
    and "crc32 (get_slice start (n * es) img) = gpt_entry_array_crc lba1"
    and "k < n * es" and "x \<noteq> img ! (start + k)"
  shows "find_esp (slice_read (img[start + k := x])) = Inl BadEntryArrayCrc"
proof -
  let ?img = "img[start + k := x]"
  have low: "get_slice a 512 ?img = get_slice a 512 img" if "a \<le> 512" for a
    using that assms(10) by (simp add: get_slice_def drop_update_swap take_update_cancel)
  define L where "L = get_slice start (n * es) img"
  have L: "k < length L" "L ! k = img ! (start + k)" using assms(11,13) by (simp_all add: L_def nth_get_slice)
  have "get_slice start (n * es) ?img = L[k := x]"
    by (simp add: L_def get_slice_def drop_update_swap take_update_swap)
  then have L': "get_slice start (n * es) ?img = take k L @ x # drop (Suc k) L"
    using L(1) by (simp add: upd_conv_take_nth_drop)
  have id: "L = take k L @ img ! (start + k) # drop (Suc k) L"
    using id_take_nth_drop [OF L(1)] unfolding L(2) .
  have "crc32 (get_slice start (n * es) ?img) \<noteq> gpt_entry_array_crc lba1"
  proof
    assume "crc32 (get_slice start (n * es) ?img) = gpt_entry_array_crc lba1"
    then have "crc32 (take k L @ x # drop (Suc k) L) = crc32 (take k L @ img ! (start + k) # drop (Suc k) L)"
      using assms(12) id unfolding L' L_def [symmetric] by (simp only:)
    with assms(14) show False by (auto dest: crc32_changed_byte)
  qed
  moreover have "find_esp_opts (slice_read ?img) True =
    (if True \<and> crc32 (get_slice start (n * es) ?img) \<noteq> gpt_entry_array_crc lba1 then Inl BadEntryArrayCrc
     else case first_esp (\<lambda>i. ?img ! i) start es [0..<n] of None \<Rightarrow> Inl NoEsp | Some p \<Rightarrow> Inr p)"
    using assms(1,2,4,11) low [of 0] low [of 512] by (intro find_esp_slice [OF _ _ _ _ assms(5-9)]) (simp_all add: assms(3))
  ultimately show ?thesis by (simp add: find_esp_def)
qed

text \<open>A disk image with one entry, a system partition.\<close>

definition demo_gpt_header :: "u8 list" where
  "demo_gpt_header =
    [0x45, 0x46, 0x49, 0x20, 0x50, 0x41, 0x52, 0x54, 0, 0, 1, 0, 0x5c, 0, 0, 0, 0x93, 0x82, 0x20, 0x81,
     0, 0, 0, 0, 1, 0, 0, 0, 0, 0, 0, 0, 0x3f, 0, 0, 0, 0, 0, 0, 0,
     0x22, 0, 0, 0, 0, 0, 0, 0, 0x3e, 0, 0, 0, 0, 0, 0, 0, 0, 0, 0, 0,
     0, 0, 0, 0, 0, 0, 0, 0, 0, 0, 0, 0, 2, 0, 0, 0, 0, 0, 0, 0,
     1, 0, 0, 0, 0x80, 0, 0, 0, 0x9c, 0x3a, 0xb1, 0xbb]"

definition demo_gpt_entry :: "u8 list" where
  "demo_gpt_entry =
    [0x28, 0x73, 0x2a, 0xc1, 0x1f, 0xf8, 0xd2, 0x11, 0xba, 0x4b, 0, 0xa0, 0xc9, 0x3e, 0xc9, 0x3b, 7, 7, 7, 7,
     7, 7, 7, 7, 7, 7, 7, 7, 7, 7, 7, 7, 0x22, 0, 0, 0, 0, 0, 0, 0,
     0x3f, 0, 0, 0, 0, 0, 0, 0, 0, 0, 0, 0, 0, 0, 0, 0, 0, 0, 0, 0,
     0, 0, 0, 0, 0, 0, 0, 0, 0, 0, 0, 0, 0, 0, 0, 0, 0, 0, 0, 0,
     0, 0, 0, 0, 0, 0, 0, 0, 0, 0, 0, 0, 0, 0, 0, 0, 0, 0, 0, 0,
     0, 0, 0, 0, 0, 0, 0, 0, 0, 0, 0, 0, 0, 0, 0, 0, 0, 0, 0, 0,
     0, 0, 0, 0, 0, 0, 0, 0]"

definition demo_gpt :: "u8 list" where
  "demo_gpt =
    (replicate 450 0 @ [0xEE] @ replicate 59 0 @ [0x55, 0xAA]) @ (demo_gpt_header @ replicate 420 0) @ demo_gpt_entry"

definition demo_gpt_hdr :: GptHeader where
  "demo_gpt_hdr = \<lparr>revision = 0x00010000, header_size = 92, my_lba = 1, partition_entry_lba = 2,
    number_of_entries = 1, size_of_entry = 128\<rparr>"

definition demo_esp :: EspPartition where
  "demo_esp = \<lparr>partition_number = 1, start_lba = 34, end_lba = 63, unique_guid = replicate 16 7\<rparr>"

lemma demo_gpt_lengths [simp]:
  "length demo_gpt_header = 92" "length demo_gpt_entry = 128" "length demo_gpt = 1152"
  by (simp_all add: demo_gpt_header_def demo_gpt_entry_def demo_gpt_def)

lemma demo_gpt_blocks:
  "get_slice 0 512 demo_gpt = replicate 450 0 @ [0xEE] @ replicate 59 0 @ [0x55, 0xAA]"
  "get_slice 512 512 demo_gpt = demo_gpt_header @ replicate 420 0"
  "get_slice 1024 128 demo_gpt = demo_gpt_entry"
  by (simp_all add: demo_gpt_def get_slice_def)

lemma demo_gpt_mbr: "parse_protective_mbr (get_slice 0 512 demo_gpt) = Inr ()"
  unfolding demo_gpt_blocks by (simp add: parse_protective_mbr_def GPT_LBA_SIZE_def nth_append MBR_TYPE_GPT_def upt_rec)

lemmas crc32_eval = crc32_def crc32_feed_def crc32_start_def crc32_finish_def crc32_byte_steps crc32_bit_parity

lemma demo_gpt_crcs:
  "crc32 (put_slice 16 [0, 0, 0, 0] demo_gpt_header) = 0x81208293" "crc32 demo_gpt_entry = 0xbbb13a9c"
  by (simp_all add: demo_gpt_header_def demo_gpt_entry_def put_slice_def crc32_eval)

lemma demo_gpt_header_ok: "parse_gpt_header (get_slice 512 512 demo_gpt) = Inr demo_gpt_hdr"
proof -
  have s: "u32_at (demo_gpt_header @ replicate 420 0) 12 = 92" by (simp add: u32_at_def demo_gpt_header_def)
  show ?thesis
    unfolding demo_gpt_blocks
    by (simp add: parse_gpt_header_def s demo_gpt_crcs)
      (simp add: demo_gpt_header_def GPT_LBA_SIZE_def GPT_SIGNATURE_def GPT_REVISION_1_0_def GPT_HEADER_SIZE_MIN_def
        GPT_ENTRY_SIZE_DEFAULT_def u32_at_def u64_at_def demo_gpt_hdr_def)
qed

lemma demo_gpt_array_crc: "crc32 (get_slice 1024 (1 * 128) demo_gpt) = gpt_entry_array_crc (get_slice 512 512 demo_gpt)"
  by (simp add: demo_gpt_blocks demo_gpt_crcs gpt_entry_array_crc_def u32_at_def) (simp add: demo_gpt_header_def)

lemma demo_gpt_sizes:
  "128 = unat (size_of_entry demo_gpt_hdr)" "1 = unat (gpt_entries demo_gpt_hdr)"
  "1 = unat (number_of_entries demo_gpt_hdr)" "1024 = unat (partition_entry_lba demo_gpt_hdr) * 512"
  by (simp_all add: demo_gpt_hdr_def gpt_entries_def GPT_MAX_ENTRIES_def min_def)

lemma demo_gpt_first: "first_esp (\<lambda>i. demo_gpt ! i) 1024 128 [0..<1] = Some demo_esp"
proof -
  have "entry_at (\<lambda>i. demo_gpt ! i) 1024 128 0 = demo_gpt_entry"
    using slice_bytes [of 1024 128 demo_gpt] by (simp add: entry_at_def demo_gpt_blocks)
  moreover have "esp_entry 0 demo_gpt_entry = Some demo_esp"
    by (simp add: esp_entry_def demo_gpt_entry_def ESP_TYPE_GUID_def u64_at_def demo_esp_def get_slice_def)
      (simp add: numeral_eq_Suc)
  ultimately show ?thesis by simp
qed

theorem find_esp_correct_witness:
  "find_esp (slice_read demo_gpt) = Inr demo_esp \<and> find_esp_skip_array_crc (slice_read demo_gpt) = Inr demo_esp"
proof -
  have l: "1024 \<le> length demo_gpt" "length demo_gpt < 2 ^ 64" "(128 :: nat) \<le> 256" "1024 + 1 * 128 \<le> length demo_gpt" "(1 :: nat) \<le> 128"
    by simp_all
  note r = find_esp_correct [OF l(1,2) refl demo_gpt_mbr demo_gpt_header_ok demo_gpt_sizes(1) l(3) demo_gpt_sizes(3) l(5) demo_gpt_sizes(4) l(4)]
  show ?thesis
    unfolding find_esp_def find_esp_skip_array_crc_def r demo_gpt_array_crc demo_gpt_first by simp
qed

theorem find_esp_detects_change_witness:
  "find_esp (slice_read (demo_gpt[1024 + 40 := 64])) = Inl BadEntryArrayCrc"
proof -
  have l: "1024 \<le> length demo_gpt" "length demo_gpt < 2 ^ 64" "(128 :: nat) \<le> 256" "(1024 :: nat) \<le> 1024"
    "1024 + 1 * 128 \<le> length demo_gpt" "(40 :: nat) < 1 * 128"
    by simp_all
  have "demo_gpt ! (1024 + 40) = 63" by (simp add: demo_gpt_def nth_append demo_gpt_entry_def)
  then have "64 \<noteq> demo_gpt ! (1024 + 40)" by simp
  from find_esp_detects_change [OF l(1,2) refl demo_gpt_mbr demo_gpt_header_ok demo_gpt_sizes(1) l(3) demo_gpt_sizes(2,4) l(4,5)
      demo_gpt_array_crc l(6) this]
  show ?thesis .
qed

end
