(* ===== verification/Spec2Isabelle.thy ===== *)
theory Spec2Isabelle
  imports Boot_Mem Audit_Persist Ept_Ranges Lapic Virtio Guest_Pt Page_Pool_Map Page_Pool_Free
    Efi_Events Filesystem_Read Gpt
begin

text \<open>
  RayNu-V is a type-1 hypervisor written in Rust.  This library models parts of it as executable
  definitions and proves what those parts promise.  The sources named below are relative to
  \<open>src/\<close>; a definition keeps the name of the function it translates, with a prefix or suffix where
  that name is taken.

  \<^bold>\<open>The parts and how they interact.\<close>  At boot a region of the firmware memory map becomes a bump
  pool, and the pool becomes the frame allocator.  Frames are given to guests through the EPT
  ownership registry, which keeps one owner per frame; the EPT builder writes the tables the
  processor walks.  A running guest sees a virtual local APIC, an 8259 pair, an IOAPIC, a timer and
  virtio devices, and its network frames cross a virtual switch.  Security events go to a hash
  chain that is written to a disk image.  A guest that boots through the built-in UEFI firmware
  calls its memory, event and file services; the file service reads a FAT volume in the boot image,
  and the boot source is chosen by looking for a system partition on the disk.

  \<^bold>\<open>Conventions.\<close>  Structs and statics are records, enums are datatypes, machine integers are words
  of their width, and errors are the left values of a sum or \<open>None\<close>.  Operations take and return the
  state.  Wrapping, checked and saturating arithmetic is written as the source writes it.

  \<^bold>\<open>The theories.\<close>

  \<^item> \<open>RayNu_Prelude\<close>, \<open>Bit_Scan\<close>, \<open>Insertion_Sort\<close>, \<open>Handle_Tag\<close>, \<open>Efi_Status\<close>: words, byte
    lists, tables of slots, bit scans, the insertion sort several modules write out, tagged handles
    and status codes.

  \<^item> \<open>Phys_Mem\<close>, \<open>Page_Table\<close>: memory as cells, and four-level tables with the walk over them.

  \<^item> \<open>Frame_Alloc\<close> (\<open>memory/frame_allocator.rs\<close>): the bitmap allocator refines a pool of frames.
    \<open>Boot_Mem\<close> (\<open>boot/mem.rs\<close>, \<open>memory/boot_alloc.rs\<close>): the bump pool, the choice of the boot
    region, and that bootstrapping gives a well-formed allocator.

  \<^item> \<open>Ept_Ghost\<close> (\<open>ept_model/src/lib.rs\<close>), \<open>Ept_Registry\<close>, \<open>Ept_Ranges\<close> (\<open>memory/ept.rs\<close>): the
    ghost model, the registry that refines it over any history of calls, and the partition of the
    identity window by claimed ranges.  \<open>Ept_Hw\<close> (\<open>memory/ept_hw.rs\<close>): the tables the builders
    write translate exactly the window they are asked for.

  \<^item> \<open>Guest_Pt\<close> (\<open>vmx/guest_pt.rs\<close>): the copy through the guest's tables and the repair of a missing
    identity leaf.

  \<^item> \<open>Audit_Event\<close>, \<open>Audit_Ring\<close>, \<open>Audit_Persist\<close> (\<open>audit/integrity.rs\<close>, \<open>audit/persist.rs\<close>): the
    hash chain, what it detects and what it does not, and the round trip of its image.

  \<^item> \<open>VSwitch\<close> (\<open>net/mod.rs\<close>), \<open>Virtio\<close> (\<open>devices/virtio_blk.rs\<close>, \<open>devices/virtio_net.rs\<close>): forwarding
    by last sighting among the first sixteen stations, the install disk across a reboot, and the link probe.

  \<^item> \<open>Guest_Irq\<close> (\<open>devices/guest_irq.rs\<close>, \<open>devices/guest_platform.rs\<close>), \<open>Lapic\<close>
    (\<open>devices/lapic_virt.rs\<close>): priorities, acknowledgement and end of interrupt, the countdown timer,
    and what the MSR bitmap intercepts, which is not what its comment says.

  \<^item> \<open>Page_Pool\<close>, \<open>Page_Pool_Alloc\<close>, \<open>Page_Pool_Free\<close>, \<open>Page_Pool_Map\<close> (\<open>raynu_f/memory.rs\<close>): page
    allocation, release, the memory map, and when the memory it lists as conventional can be
    allocated at its address.

  \<^item> \<open>Efi_Events\<close> (\<open>raynu_f/events.rs\<close>): the event table and its timers.  Waiting and stalling are
    loops over a clock that is an argument; that they return is proved from the clock passing the
    cap.

  \<^item> \<open>Volume\<close>: readers of bytes and their contract.  \<open>Fat\<close>, \<open>Fat_Read\<close>, \<open>Fat_Dir\<close>, \<open>Fat_Path\<close>
    (\<open>raynu_f/fat.rs\<close>): cluster geometry without wrap-around, the allocation tables of three widths,
    reading along a chain, directory lookup and path resolution.

  \<^item> \<open>Grub_Cfg\<close>, \<open>Filesystem\<close>, \<open>Filesystem_Read\<close> (\<open>raynu_f/filesystem.rs\<close>): the open-file table, that
    reads through a handle return the file on the volume, and the amended view of the boot menu.

  \<^item> \<open>Crc32\<close> (\<open>raynu_f/tables.rs\<close>), \<open>Gpt\<close> (\<open>raynu_f/gpt.rs\<close>): the checksum, that it changes with any
    one byte, and the search for the system partition, of which at most 128 entries count.

  \<^bold>\<open>Interfaces.\<close>  A client relies on its provider through a locale that is interpreted on the model:
  \<open>cell_memory\<close> (host and device memory), \<open>frame_pool\<close> (the allocator), \<open>radix_encoding\<close> (EPT and
  guest entries), \<open>ownership_registry\<close>, \<open>chain_hash\<close>, \<open>learning_table\<close>, \<open>vector_register\<close>,
  \<open>handle_tag\<close> (events and files) and \<open>byte_volume\<close> (\<open>SliceDisk\<close> and \<open>IsoFatVol\<close>).

  \<^bold>\<open>Bounds and termination.\<close>  No fuel is used.  The chain loops of the FAT reader end because they
  count hops up to \<open>MAX_CHAIN_HOPS\<close>, as the source does; a chain of the theorems has at most one
  cluster more than that.  The other loops recurse on a list or have a measure, except the two that
  wait on the clock, which are partial functions with a theorem that they return.

  \<^bold>\<open>Simplifications.\<close>  Atomic variables are plain fields: the modelled code runs on one processor at
  a time.  The bytes a failed read may leave in the caller's buffer are not part of a result.  The
  parser of the partition header is modelled for callers that pass one block.

  \<^bold>\<open>Hardware.\<close>  Some definitions describe the processor and translate no code, among them the walk
  over page tables in \<open>Page_Table\<close> and the layout of the MSR bitmap in \<open>Lapic\<close> (\<open>msr_intercepted\<close>).

  \<^bold>\<open>Not modelled.\<close>  VMX launch and exit handling, privileged instructions and port access, because
  their effect is the state of the processor.  The drivers of host controllers, because they are an
  exchange of register accesses with hardware.  TLS, which rests on external cryptography, and the
  rest of the management plane.  The firmware dispatcher, table builders, variables, image loader
  and ext4 reader; the PCI virtio, UART and ATAPI devices; scheduling, hypercalls, migration, the VM
  lifecycle and the MMIO decoder: these could be translated in the same way and have not been.  The
  release gates search the sources for text and are not part of the running program.  Of the
  modelled files, the choice of a boot loader in \<open>raynu_f/fat.rs\<close>, the rebuild of the 4 GiB identity
  tables in \<open>vmx/guest_pt.rs\<close> and read-only snapshots of device state are left out.
\<close>

end
